(* ===== verification/Prelude.thy ===== *)
theory Prelude
  imports Main "HOL-Library.Word"
begin

text \<open>
  Shared vocabulary of the development: the machine integer types of
  \<^verbatim>\<open>kernel/types.h\<close>, the result type of kernel code (a value, a panic, or a call to
  \<^verbatim>\<open>sleep\<close> that gives the CPU away), table scans, little-endian byte strings, and the
  rewrite collections that the component theories extend.
\<close>

unbundle bit_operations_syntax

named_theorems res_simps \<open>unfolding of result-returning kernel code\<close>
named_theorems mem_simps \<open>reads after writes in byte-addressed memory\<close>
named_theorems wf_intros \<open>well-formedness is kept\<close>

section \<open>Machine integers\<close>

type_synonym u8 = "8 word"
type_synonym u16 = "16 word"
type_synonym u32 = "32 word"
type_synonym u64 = "64 word"

lemma unat_of_nat_less: "n < 2 ^ LENGTH('a) \<Longrightarrow> unat (of_nat n :: 'a::len word) = n"
  by (simp add: unat_of_nat take_bit_nat_eq_self)

lemma sint_small: "unat (w :: u32) < 2 ^ 31 \<Longrightarrow> sint w = int (unat w)"
proof -
  assume "unat w < 2 ^ 31"
  then have "int (unat w) < int (2 ^ 31)" by (simp only: of_nat_less_iff)
  then have "uint w < 2 ^ 31" by simp
  moreover have "- (2 ^ 31) \<le> uint w" by (rule order_trans [of _ 0]) simp_all
  ultimately show ?thesis by (simp add: sint_uint signed_take_bit_int_eq_self)
qed

section \<open>Results of kernel code\<close>

text \<open>
  Wait channels are addresses of kernel objects; the model names the object. Distinct
  constructors are distinct addresses.
\<close>

datatype chan =
    ChProc nat        \<comment> \<open>a \<^verbatim>\<open>struct proc\<close>, in \<^verbatim>\<open>wait()\<close>\<close>
  | ChTicks           \<comment> \<open>\<^verbatim>\<open>&ticks\<close>\<close>
  | ChLog             \<comment> \<open>\<^verbatim>\<open>&log\<close>\<close>
  | ChPipeR u64       \<comment> \<open>\<^verbatim>\<open>&pi->nread\<close>\<close>
  | ChPipeW u64       \<comment> \<open>\<^verbatim>\<open>&pi->nwrite\<close>\<close>
  | ChCons            \<comment> \<open>\<^verbatim>\<open>&cons.r\<close>\<close>
  | ChUart            \<comment> \<open>\<^verbatim>\<open>&uart_tx_r\<close>\<close>
  | ChBufLock nat     \<comment> \<open>the sleep-lock of a buffer\<close>
  | ChInodeLock nat   \<comment> \<open>the sleep-lock of an inode\<close>
  | ChDiskFree        \<comment> \<open>\<^verbatim>\<open>&disk.free[0]\<close>\<close>
  | ChDiskBuf nat     \<comment> \<open>a buffer owned by the disk\<close>

text \<open>
  \<open>Ok\<close> is a normal return, \<open>Panic\<close> a call to \<^verbatim>\<open>panic\<close> (the machine stops), and
  \<open>Sleep\<close> a call to \<^verbatim>\<open>sleep\<close> on a channel: the caller does not return in this
  sequential run.
\<close>

datatype 'a res = Ok 'a | Panic string | Sleep chan

definition rbind :: "'a res \<Rightarrow> ('a \<Rightarrow> 'b res) \<Rightarrow> 'b res" where
  "rbind m f = (case m of Ok x \<Rightarrow> f x | Panic e \<Rightarrow> Panic e | Sleep c \<Rightarrow> Sleep c)"

lemma rbind_simps [simp, code, res_simps]:
  "rbind (Ok x) f = f x"
  "rbind (Panic e) f = Panic e"
  "rbind (Sleep c) f = Sleep c"
  by (simp_all add: rbind_def)

lemma rbind_eq_Ok:
  "rbind m f = Ok y \<longleftrightarrow> (\<exists>x. m = Ok x \<and> f x = Ok y)"
  by (cases m) auto

lemma rbind_OkE [elim!]:
  assumes "rbind m f = Ok y"
  obtains x where "m = Ok x" and "f x = Ok y"
  using assms by (cases m) auto

lemma rbind_cong [fundef_cong]:
  "m = m' \<Longrightarrow> (\<And>x. m' = Ok x \<Longrightarrow> f x = g x) \<Longrightarrow> rbind m f = rbind m' g"
  by (cases m') auto

lemma rbind_assoc: "rbind (rbind m f) g = rbind m (\<lambda>x. rbind (f x) g)"
  by (cases m) simp_all

section \<open>Table scans\<close>

text \<open>
  The kernel's tables are arrays searched from index 0; \<open>first_idx P xs\<close> is the index at
  which such a loop stops.
\<close>

fun first_idx :: "('a \<Rightarrow> bool) \<Rightarrow> 'a list \<Rightarrow> nat option" where
  "first_idx P [] = None"
| "first_idx P (x # xs) = (if P x then Some 0 else map_option Suc (first_idx P xs))"

lemma first_idx_Some:
  "first_idx P xs = Some i \<longleftrightarrow> i < length xs \<and> P (xs ! i) \<and> (\<forall>j<i. \<not> P (xs ! j))"
proof (induction xs arbitrary: i)
  case Nil
  then show ?case by simp
next
  case (Cons x xs)
  show ?case
  proof (cases i)
    case 0
    then show ?thesis by auto
  next
    case (Suc k)
    then show ?thesis
      using Cons.IH [of k] by (auto simp: less_Suc_eq_0_disj)
  qed
qed

lemma first_idx_None: "first_idx P xs = None \<longleftrightarrow> (\<forall>x\<in>set xs. \<not> P x)"
  by (induction xs) auto

lemma first_idx_less: "first_idx P xs = Some i \<Longrightarrow> i < length xs"
  by (simp add: first_idx_Some)

lemma first_idx_holds: "first_idx P xs = Some i \<Longrightarrow> P (xs ! i)"
  by (simp add: first_idx_Some)

section \<open>Byte strings\<close>

text \<open>
  A C string is a byte list without its terminator; \<open>chr0\<close> reads \<^verbatim>\<open>*s\<close>, which is NUL at
  the end of the list, and \<^verbatim>\<open>s + 1\<close> is the tail. \<open>bytes_of\<close> embeds literals.
\<close>

fun chr0 :: "u8 list \<Rightarrow> u8" where
  "chr0 [] = 0"
| "chr0 (c # cs) = c"

definition byte_of :: "char \<Rightarrow> u8" where
  "byte_of c = of_nat (of_char c)"

definition bytes_of :: "string \<Rightarrow> u8 list" where
  "bytes_of s = map byte_of s"

lemma bytes_of_simps [simp]:
  "bytes_of [] = []"
  "bytes_of (c # cs) = byte_of c # bytes_of cs"
  by (simp_all add: bytes_of_def)

definition overlay :: "'a list \<Rightarrow> nat \<Rightarrow> 'a list \<Rightarrow> 'a list" where
  "overlay xs off ys = take off xs @ ys @ drop (off + length ys) xs"

lemma length_overlay [simp]:
  "off + length ys \<le> length xs \<Longrightarrow> length (overlay xs off ys) = length xs"
  by (simp add: overlay_def)

lemma nth_overlay:
  assumes "off + length ys \<le> length xs" and "i < length xs"
  shows "overlay xs off ys ! i = (if off \<le> i \<and> i < off + length ys then ys ! (i - off) else xs ! i)"
  using assms by (auto simp: overlay_def nth_append min_def)

lemma overlay_all [simp]: "length ys = length xs \<Longrightarrow> overlay xs 0 ys = ys"
  by (simp add: overlay_def)

lemma take_drop_overlay:
  assumes "off + length ys \<le> length xs"
  shows "take (length ys) (drop off (overlay xs off ys)) = ys"
  using assms by (simp add: overlay_def)

lemma take_drop_overlay_other:
  assumes "off + length ys \<le> length xs" and "o2 + n \<le> off \<or> off + length ys \<le> o2"
  shows "take n (drop o2 (overlay xs off ys)) = take n (drop o2 xs)"
  using assms by (intro nth_equalityI) (auto simp: overlay_def nth_append)

end
