(* ===== verification/Machine.thy ===== *)
theory Machine
  imports Prelude
begin

text \<open>
  Constants and macros of \<^verbatim>\<open>kernel/param.h\<close>, \<^verbatim>\<open>kernel/memlayout.h\<close> and
  \<^verbatim>\<open>kernel/riscv.h\<close>, and physical memory: bytes at 64-bit addresses with the
  little-endian 64-bit loads and stores the kernel makes on page-table entries and free-list
  links. The lemmas read PTE fields back and separate accesses by page and offset.
\<close>

section \<open>Constants\<close>

abbreviation (input) NPROC :: nat where "NPROC \<equiv> 64"
abbreviation (input) NCPU :: nat where "NCPU \<equiv> 8"
abbreviation (input) NOFILE :: nat where "NOFILE \<equiv> 16"
abbreviation (input) NFILE :: nat where "NFILE \<equiv> 100"
abbreviation (input) NINODE :: nat where "NINODE \<equiv> 50"
abbreviation (input) NDEV :: nat where "NDEV \<equiv> 10"
abbreviation (input) ROOTDEV :: u32 where "ROOTDEV \<equiv> 1"
abbreviation (input) MAXARG :: nat where "MAXARG \<equiv> 32"
abbreviation (input) MAXOPBLOCKS :: nat where "MAXOPBLOCKS \<equiv> 10"
abbreviation (input) LOGSIZE :: nat where "LOGSIZE \<equiv> 30"
abbreviation (input) NBUF :: nat where "NBUF \<equiv> 30"
abbreviation (input) FSSIZE :: nat where "FSSIZE \<equiv> 2000"
abbreviation (input) MAXPATH :: nat where "MAXPATH \<equiv> 128"

abbreviation (input) PGSIZE :: u64 where "PGSIZE \<equiv> 4096"
abbreviation (input) KERNBASE :: u64 where "KERNBASE \<equiv> 0x80000000"
abbreviation (input) PHYSTOP :: u64 where "PHYSTOP \<equiv> 0x88000000"
abbreviation (input) MAXVA :: u64 where "MAXVA \<equiv> 0x4000000000"
abbreviation (input) TRAMPOLINE :: u64 where "TRAMPOLINE \<equiv> 0x3FFFFFF000"
abbreviation (input) TRAPFRAME :: u64 where "TRAPFRAME \<equiv> 0x3FFFFFE000"

definition KSTACK :: "nat \<Rightarrow> u64" where
  "KSTACK p = TRAMPOLINE - (of_nat p + 1) * 2 * PGSIZE"

definition PGROUNDUP :: "u64 \<Rightarrow> u64" where
  "PGROUNDUP sz = (sz + PGSIZE - 1) AND NOT (PGSIZE - 1)"

definition PGROUNDDOWN :: "u64 \<Rightarrow> u64" where
  "PGROUNDDOWN a = a AND NOT (PGSIZE - 1)"

section \<open>Page-table entries\<close>

abbreviation (input) PTE_V :: u64 where "PTE_V \<equiv> 1"
abbreviation (input) PTE_R :: u64 where "PTE_R \<equiv> 2"
abbreviation (input) PTE_W :: u64 where "PTE_W \<equiv> 4"
abbreviation (input) PTE_X :: u64 where "PTE_X \<equiv> 8"
abbreviation (input) PTE_U :: u64 where "PTE_U \<equiv> 16"
abbreviation (input) PTE_COW :: u64 where "PTE_COW \<equiv> 32"

definition PA2PTE :: "u64 \<Rightarrow> u64" where
  "PA2PTE pa = push_bit 10 (drop_bit 12 pa)"

definition PTE2PA :: "u64 \<Rightarrow> u64" where
  "PTE2PA pte = push_bit 12 (drop_bit 10 pte)"

definition PTE_FLAGS :: "u64 \<Rightarrow> u64" where
  "PTE_FLAGS pte = pte AND 0x3FF"

definition PX :: "nat \<Rightarrow> u64 \<Rightarrow> u64" where
  "PX level va = drop_bit (12 + 9 * level) va AND 0x1FF"

section \<open>Physical memory\<close>

type_synonym mem = "u64 \<Rightarrow> u8"

definition ld64 :: "mem \<Rightarrow> u64 \<Rightarrow> u64" where
  "ld64 m a = ucast (m a) OR push_bit 8 (ucast (m (a + 1))) OR
     push_bit 16 (ucast (m (a + 2))) OR push_bit 24 (ucast (m (a + 3))) OR
     push_bit 32 (ucast (m (a + 4))) OR push_bit 40 (ucast (m (a + 5))) OR
     push_bit 48 (ucast (m (a + 6))) OR push_bit 56 (ucast (m (a + 7)))"

definition st64 :: "mem \<Rightarrow> u64 \<Rightarrow> u64 \<Rightarrow> mem" where
  "st64 m a v = (\<lambda>x. if x - a < 8 then ucast (drop_bit (8 * unat (x - a)) v) else m x)"

definition page_aligned :: "u64 \<Rightarrow> bool" where
  "page_aligned a \<longleftrightarrow> a AND (PGSIZE - 1) = 0"

definition in_page :: "u64 \<Rightarrow> u64 \<Rightarrow> bool" where
  "in_page p a \<longleftrightarrow> a - p < PGSIZE"

section \<open>Lemmas on addresses and pages\<close>

lemma bit_masks_int:
  "bit (4095::int) n \<longleftrightarrow> n < 12"
  "bit (1023::int) n \<longleftrightarrow> n < 10"
  "bit (511::int) n \<longleftrightarrow> n < 9"
  using bit_mask_iff [of 12 n, where ?'a = int] bit_mask_iff [of 10 n, where ?'a = int]
    bit_mask_iff [of 9 n, where ?'a = int]
  by (auto simp: mask_eq_exp_minus_1)

lemma and_4095: "(a::u64) AND 4095 = a mod 4096"
  using take_bit_eq_mask [of 12 a] take_bit_eq_mod [of 12 a]
  by (simp add: mask_eq_exp_minus_1)

lemma page_aligned_mod: "page_aligned a \<longleftrightarrow> a mod 4096 = 0"
  by (simp add: page_aligned_def and_4095)

lemma page_aligned_bit: "page_aligned a \<longleftrightarrow> (\<forall>n<12. \<not> bit a n)"
proof -
  have "n < 64" if "bit a n" for n using bit_imp_le_length [OF that] by simp
  then have "page_aligned a \<longleftrightarrow> (\<forall>n. \<not> (bit a n \<and> n < 12))"
    unfolding page_aligned_def bit_eq_iff by (simp add: bit_simps bit_masks_int) blast
  then show ?thesis by auto
qed

lemma page_aligned_dvd: "page_aligned a \<longleftrightarrow> 4096 dvd unat a"
  by (simp add: page_aligned_mod dvd_eq_mod_eq_0 word_unat_eq_iff unat_mod_distrib)

lemma PGROUNDDOWN_mod: "PGROUNDDOWN a = a - a mod 4096"
proof -
  have "(a AND NOT 4095) AND (a AND 4095) = 0"
    by (rule bit_eqI) (auto simp: bit_simps)
  then have "(a AND NOT 4095) + (a AND 4095) = (a AND NOT 4095) OR (a AND 4095)"
    by (rule disjunctive_add_eq_or)
  also have "\<dots> = a" by (rule bit_eqI) (auto simp: bit_simps)
  finally show ?thesis by (simp add: PGROUNDDOWN_def and_4095 eq_diff_eq)
qed

lemma unat_PGROUNDDOWN: "unat (PGROUNDDOWN a) = 4096 * (unat a div 4096)"
proof -
  have "a mod 4096 \<le> a" by (simp add: word_le_nat_alt unat_mod_distrib)
  then have "unat (PGROUNDDOWN a) = unat a - unat a mod 4096"
    by (simp add: PGROUNDDOWN_mod unat_sub unat_mod_distrib)
  then show ?thesis by (simp add: minus_mod_eq_mult_div)
qed

lemma unat_PGROUNDUP:
  assumes "unat a + 4095 < 2 ^ 64"
  shows "unat (PGROUNDUP a) = 4096 * ((unat a + 4095) div 4096)"
proof -
  have "PGROUNDUP a = PGROUNDDOWN (a + 4095)"
    by (simp add: PGROUNDUP_def PGROUNDDOWN_def add.commute)
  moreover have "unat (a + 4095) = unat a + 4095" using assms by (simp add: unat_word_ariths)
  ultimately show ?thesis by (simp add: unat_PGROUNDDOWN)
qed

lemma page_aligned_0 [simp]: "page_aligned 0"
  by (simp add: page_aligned_def)

lemma page_aligned_PGROUNDDOWN [simp]: "page_aligned (PGROUNDDOWN a)"
  by (simp add: page_aligned_bit PGROUNDDOWN_def bit_simps bit_masks_int)

lemma page_aligned_PGROUNDUP [simp]: "page_aligned (PGROUNDUP a)"
  by (simp add: page_aligned_bit PGROUNDUP_def bit_simps bit_masks_int)

lemma PGROUNDDOWN_aligned [simp]: "page_aligned a \<Longrightarrow> PGROUNDDOWN a = a"
  by (rule bit_eqI) (auto simp: page_aligned_bit PGROUNDDOWN_def bit_simps bit_masks_int not_less)

lemma dvd_unat_bound:
  assumes "2 ^ k dvd unat (a::u64)" and "k \<le> 64"
  shows "unat a + 2 ^ k \<le> 2 ^ 64"
proof -
  from assms(1) obtain c where c: "unat a = 2 ^ k * c" by (auto simp: dvd_def)
  have "unat a < 2 ^ 64" using unsigned_less [of a] by simp
  also have "(2::nat) ^ 64 = 2 ^ k * 2 ^ (64 - k)"
    using assms(2) by (simp flip: power_add)
  finally have "c < 2 ^ (64 - k)" using c by simp
  then have "2 ^ k * (c + 1) \<le> 2 ^ k * 2 ^ (64 - k)" by (intro mult_le_mono2) simp
  then show ?thesis using c assms(2) by (simp flip: power_add add: algebra_simps)
qed

lemma unat_add_aligned:
  assumes "2 ^ k dvd unat (a::u64)" and "k \<le> 64" and "unat o' < 2 ^ k"
  shows "unat (a + o') = unat a + unat o'"
proof -
  have "unat a + unat o' < 2 ^ 64"
    using dvd_unat_bound [OF assms(1,2)] assms(3) by linarith
  then show ?thesis by (simp add: unat_word_ariths)
qed

lemma page_unat_add:
  assumes "page_aligned p" and "unat o' < 4096"
  shows "unat (p + o') = unat p + unat o'"
  using unat_add_aligned [of 12 p o'] assms by (simp add: page_aligned_dvd)

lemma in_page_self [simp]: "in_page p p"
  by (simp add: in_page_def)

lemma in_page_add [simp]: "in_page p (p + o') \<longleftrightarrow> o' < PGSIZE"
  by (simp add: in_page_def)

lemma in_pageE:
  assumes "in_page p a"
  obtains o' where "a = p + o'" and "o' < PGSIZE"
proof -
  have "a = p + (a - p)" by simp
  with assms show thesis using that [of "a - p"] by (simp add: in_page_def)
qed

lemma in_page_div:
  assumes "page_aligned p" and "in_page p a"
  shows "unat a div 4096 = unat p div 4096"
proof -
  from assms(2) obtain o' where a: "a = p + o'" and o': "unat o' < 4096"
    by (auto elim!: in_pageE simp: word_less_nat_alt)
  have "unat a = unat p + unat o'" using page_unat_add [OF assms(1) o'] a by simp
  moreover have "4096 dvd unat p" using assms(1) by (simp add: page_aligned_dvd)
  ultimately show ?thesis using o' by (auto elim!: dvdE)
qed

lemma page_eqI:
  assumes "page_aligned p" and "page_aligned q" and "unat p div 4096 = unat q div 4096"
  shows "p = q"
  using assms by (metis dvd_div_mult_self page_aligned_dvd word_unat_eq_iff)

lemma in_page_unique:
  assumes "page_aligned p" and "page_aligned q" and "in_page p a" and "in_page q a"
  shows "p = q"
  using assms by (metis in_page_div page_eqI)

section \<open>Loads and stores\<close>

definition aligned8 :: "u64 \<Rightarrow> bool" where
  "aligned8 a \<longleftrightarrow> 8 dvd unat a"

lemma aligned8_add:
  assumes "aligned8 a" and "o' < 8"
  shows "unat (a + o') = unat a + unat o'"
  using unat_add_aligned [of 3 a o'] assms by (simp add: aligned8_def word_less_nat_alt)

lemma aligned8_separate:
  assumes "aligned8 a" and "aligned8 b" and "a \<noteq> b" and "k < 8"
  shows "\<not> (b + k) - a < 8"
proof
  assume j: "(b + k) - a < 8"
  have "unat (b + k) = unat b + unat k" using aligned8_add [OF assms(2,4)] .
  moreover have "unat (b + k) = unat a + unat ((b + k) - a)"
    using aligned8_add [OF assms(1) j] by simp
  moreover have "unat k < 8" "unat ((b + k) - a) < 8"
    using assms(4) j by (simp_all add: word_less_nat_alt)
  ultimately have "unat a div 8 = unat b div 8"
    using assms(1,2) unfolding aligned8_def by (auto elim!: dvdE)
  with assms(1,2) have "unat a = unat b"
    unfolding aligned8_def by (metis dvd_div_mult_self)
  with assms(3) show False by (simp add: word_unat_eq_iff)
qed

lemma ld64_st64_same [simp, mem_simps]: "ld64 (st64 m a v) a = v"
proof (rule bit_eqI)
  fix n assume n: "possible_bit TYPE(64 word) n"
  define r where "r = n mod 8"
  have r: "r < 8" by (simp add: r_def)
  have eq: "n = 8 * (n div 8) + r" by (simp add: r_def)
  have "n div 8 < 8" using n by simp
  then consider "n div 8 = 0" | "n div 8 = 1" | "n div 8 = 2" | "n div 8 = 3" | "n div 8 = 4" |
    "n div 8 = 5" | "n div 8 = 6" | "n div 8 = 7"
    by linarith
  then consider "n = r" | "n = 8 + r" | "n = 16 + r" | "n = 24 + r" | "n = 32 + r" |
    "n = 40 + r" | "n = 48 + r" | "n = 56 + r"
    using eq by cases simp_all
  then show "bit (ld64 (st64 m a v) a) n = bit v n"
    using r by cases (simp_all add: ld64_def st64_def bit_simps)
qed

lemma ld64_cong:
  assumes "\<And>k. k < 8 \<Longrightarrow> m (a + k) = m' (a + k)"
  shows "ld64 m a = ld64 m' a"
  unfolding ld64_def
  using assms [of 0] assms [of 1] assms [of 2] assms [of 3] assms [of 4] assms [of 5]
    assms [of 6] assms [of 7] by simp

lemma ld64_st64_other [mem_simps]:
  assumes "aligned8 a" and "aligned8 b" and "a \<noteq> b"
  shows "ld64 (st64 m a v) b = ld64 m b"
  using aligned8_separate [OF assms] by (intro ld64_cong) (simp add: st64_def)

text \<open>Slots of a page holding 512 eight-byte entries.\<close>

lemma unat_slot:
  assumes "page_aligned p" and "i < 512"
  shows "unat (p + 8 * i) = unat p + 8 * unat i"
proof -
  have i: "unat i < 512" using assms(2) by (simp add: word_less_nat_alt)
  have "unat (8 * i) = 8 * unat i" using i by (simp add: unat_word_ariths)
  with i show ?thesis using page_unat_add [OF assms(1), of "8 * i"] by simp
qed

lemma aligned8_slot [simp]: "page_aligned p \<Longrightarrow> i < 512 \<Longrightarrow> aligned8 (p + 8 * i)"
  unfolding aligned8_def by (auto simp: unat_slot page_aligned_dvd elim!: dvdE)

lemma aligned8_page [simp]: "page_aligned p \<Longrightarrow> aligned8 p"
  using aligned8_slot [of p 0] by simp

lemma in_page_slot:
  assumes "page_aligned p" and "i < 512" and "k < 8"
  shows "in_page p (p + 8 * i + k)"
proof -
  have "unat i < 512" "unat k < 8" using assms by (simp_all add: word_less_nat_alt)
  then have "8 * i + k < 4096" by (simp add: word_less_nat_alt unat_word_ariths)
  then show ?thesis by (simp add: in_page_def algebra_simps)
qed

lemma slot_eqD:
  assumes "page_aligned p" "page_aligned q" "i < 512" "j < 512" "p + 8 * i = q + 8 * j"
  shows "p = q \<and> i = j"
proof -
  have "in_page p (p + 8 * i)" "in_page q (q + 8 * j)"
    using in_page_slot [of p i 0] in_page_slot [of q j 0] assms by simp_all
  with assms have "p = q" by (metis in_page_unique)
  with assms have "8 * unat i = 8 * unat j" by (metis add_left_cancel unat_slot)
  with \<open>p = q\<close> show ?thesis by (simp add: word_unat_eq_iff)
qed

lemma ld64_st64_slot:
  assumes "page_aligned p" "page_aligned q" "i < 512" "j < 512"
  shows "ld64 (st64 m (p + 8 * i) v) (q + 8 * j)
           = (if p = q \<and> i = j then v else ld64 m (q + 8 * j))"
proof (cases "p = q \<and> i = j")
  case True
  then show ?thesis by simp
next
  case False
  then have "p + 8 * i \<noteq> q + 8 * j" using slot_eqD [OF assms(1-4)] by blast
  then show ?thesis using False assms by (auto simp: ld64_st64_other)
qed

lemma ld64_slot_frame:
  assumes "page_aligned p" and "i < 512" and "\<And>a. in_page p a \<Longrightarrow> m a = m' a"
  shows "ld64 m (p + 8 * i) = ld64 m' (p + 8 * i)"
  using assms by (intro ld64_cong) (simp add: in_page_slot)

lemma st64_frame:
  assumes "page_aligned p" and "i < 512" and "\<not> in_page p a"
  shows "st64 m (p + 8 * i) v a = m a"
proof -
  have "\<not> a - (p + 8 * i) < 8"
  proof
    assume "a - (p + 8 * i) < 8"
    then have "in_page p (p + 8 * i + (a - (p + 8 * i)))"
      using in_page_slot [OF assms(1,2)] by blast
    with assms(3) show False by simp
  qed
  then show ?thesis by (simp add: st64_def)
qed

section \<open>Fields of page-table entries\<close>

lemma PX_less [simp]: "PX level va < 512"
proof -
  have "PX level va \<le> 511" unfolding PX_def by (rule word_and_le1)
  then show ?thesis by (simp add: word_less_nat_alt word_le_nat_alt)
qed

definition pte_of :: "u64 \<Rightarrow> u64 \<Rightarrow> u64" where
  "pte_of pa perm = PA2PTE pa OR perm OR PTE_V"

lemma addr_high_bits:
  assumes "(a::u64) < 2 ^ k" and "k \<le> n"
  shows "\<not> bit a n"
proof
  assume "bit a n"
  then have "bit (a AND mask k) n" using less_mask_eq [OF assms(1)] by simp
  then show False using assms(2) by (simp add: bit_and_iff bit_mask_iff)
qed

lemma perm_high_bits:
  assumes "(perm::u64) < 1024" and "10 \<le> n"
  shows "\<not> bit perm n"
  using addr_high_bits [of perm 10 n] assms by simp

lemma PTE2PA_pte_of [simp]:
  assumes "page_aligned pa" and "pa < 2 ^ 56" and "perm < 1024"
  shows "PTE2PA (pte_of pa perm) = pa"
proof (rule bit_eqI)
  fix n assume "possible_bit TYPE(64 word) n"
  then have n: "n < 64" by simp
  show "bit (PTE2PA (pte_of pa perm)) n = bit pa n"
  proof (cases "n < 12")
    case True
    then show ?thesis using assms(1) by (simp add: PTE2PA_def page_aligned_bit bit_simps)
  next
    case False
    then have "12 + (n - 12) = n" "\<not> bit perm (10 + (n - 12))"
      using perm_high_bits [OF assms(3)] by simp_all
    then show ?thesis
      using False n addr_high_bits [OF assms(2), of n]
      by (auto simp: PTE2PA_def pte_of_def PA2PTE_def bit_simps)
  qed
qed

lemma PTE_FLAGS_pte_of [simp]:
  assumes "perm < 1024"
  shows "PTE_FLAGS (pte_of pa perm) = perm OR PTE_V"
  using perm_high_bits [OF assms]
  by (intro bit_eqI)
    (auto simp: PTE_FLAGS_def pte_of_def PA2PTE_def bit_simps bit_masks_int simp flip: not_less)

lemma pte_of_valid [simp]: "pte_of pa perm AND PTE_V \<noteq> 0"
proof -
  have "bit (pte_of pa perm AND PTE_V) 0" by (simp add: pte_of_def bit_simps)
  then show ?thesis by auto
qed

lemma page_aligned_PTE2PA [simp]: "page_aligned (PTE2PA pte)"
  by (simp add: page_aligned_bit PTE2PA_def bit_simps)

lemma PX_inject:
  assumes "page_aligned a" "page_aligned b" "a < MAXVA" "b < MAXVA"
    and "PX 2 a = PX 2 b" "PX 1 a = PX 1 b" "PX 0 a = PX 0 b"
  shows "a = b"
proof (rule bit_eqI)
  fix n assume "possible_bit TYPE(64 word) n"
  then have "n < 64" by simp
  have hi: "\<not> bit a n" "\<not> bit b n" if "38 \<le> n"
    using addr_high_bits [of a 38 n] addr_high_bits [of b 38 n] assms(3,4) that by simp_all
  have px: "bit (PX l a) k = bit (PX l b) k" if "l \<in> {0, 1, 2}" for l k
    using that assms(5-7) by auto
  consider "n < 12" | "12 \<le> n" "n < 21" | "21 \<le> n" "n < 30" | "30 \<le> n" "n < 39" | "39 \<le> n"
    by linarith
  then show "bit a n = bit b n"
  proof cases
    case 1
    then show ?thesis using assms(1,2) by (simp add: page_aligned_bit)
  next
    case 2
    then have "n - 12 < 9" "n - 12 < 64" by linarith+
    then show ?thesis
      using 2 px [of 0 "n - 12"] by (simp add: PX_def bit_simps bit_masks_int)
  next
    case 3
    then have "n - 21 < 9" "n - 21 < 64" by linarith+
    then show ?thesis
      using 3 px [of 1 "n - 21"] by (simp add: PX_def bit_simps bit_masks_int)
  next
    case 4
    then have "n - 30 < 9" "n - 30 < 64" by linarith+
    then show ?thesis
      using 4 px [of 2 "n - 30"] by (simp add: PX_def bit_simps bit_masks_int)
  next
    case 5
    then show ?thesis using hi by simp
  qed
qed

end
