(* ===== verification/CStr.thy ===== *)
theory CStr
  imports Machine
begin

text \<open>
  \<^verbatim>\<open>kernel/string.c\<close>. \<open>memset\<close>, \<open>memcmp\<close> and \<open>memmove\<close> run on byte-addressed memory and
  are the loops of the source, pointer by pointer; the string functions run on byte lists
  (a list ends where the NUL terminator is). The lemmas give each loop its closed form;
  \<open>memmove\<close> is correct on overlapping regions.
\<close>

section \<open>Memory loops\<close>

fun memset_loop :: "mem \<Rightarrow> u64 \<Rightarrow> u8 \<Rightarrow> nat \<Rightarrow> mem" where
  "memset_loop m d c 0 = m"
| "memset_loop m d c (Suc n) = memset_loop (m(d := c)) (d + 1) c n"

definition memset :: "mem \<Rightarrow> u64 \<Rightarrow> u32 \<Rightarrow> nat \<Rightarrow> mem" where
  "memset m dst c n = memset_loop m dst (ucast c) n"

fun memcmp :: "mem \<Rightarrow> u64 \<Rightarrow> u64 \<Rightarrow> nat \<Rightarrow> int" where
  "memcmp m s1 s2 0 = 0"
| "memcmp m s1 s2 (Suc n) =
     (if m s1 \<noteq> m s2 then uint (m s1) - uint (m s2) else memcmp m (s1 + 1) (s2 + 1) n)"

fun copy_up :: "mem \<Rightarrow> u64 \<Rightarrow> u64 \<Rightarrow> nat \<Rightarrow> mem" where
  "copy_up m d s 0 = m"
| "copy_up m d s (Suc n) = copy_up (m(d := m s)) (d + 1) (s + 1) n"

fun copy_down :: "mem \<Rightarrow> u64 \<Rightarrow> u64 \<Rightarrow> nat \<Rightarrow> mem" where
  "copy_down m d s 0 = m"
| "copy_down m d s (Suc n) = copy_down (m(d - 1 := m (s - 1))) (d - 1) (s - 1) n"

definition memmove :: "mem \<Rightarrow> u64 \<Rightarrow> u64 \<Rightarrow> nat \<Rightarrow> mem" where
  "memmove m dst src n =
     (if n = 0 then m
      else if src < dst \<and> src + of_nat n > dst
      then copy_down m (dst + of_nat n) (src + of_nat n) n
      else copy_up m dst src n)"

definition memcpy :: "mem \<Rightarrow> u64 \<Rightarrow> u64 \<Rightarrow> nat \<Rightarrow> mem" where
  "memcpy m dst src n = memmove m dst src n"

section \<open>String loops\<close>

fun strncmp :: "u8 list \<Rightarrow> u8 list \<Rightarrow> nat \<Rightarrow> int" where
  "strncmp p q 0 = 0"
| "strncmp p q (Suc n) =
     (if chr0 p \<noteq> 0 \<and> chr0 p = chr0 q then strncmp (tl p) (tl q) n
      else uint (chr0 p) - uint (chr0 q))"

text \<open>
  \<open>strncpy s t n\<close> overwrites the first \<open>n\<close> bytes of the array \<open>s\<close>; the second equation of
  the source's second loop is \<open>zero_fill\<close>.
\<close>

fun zero_fill :: "u8 list \<Rightarrow> nat \<Rightarrow> u8 list" where
  "zero_fill s 0 = s"
| "zero_fill s (Suc n) = 0 # zero_fill (tl s) n"

fun strncpy :: "u8 list \<Rightarrow> u8 list \<Rightarrow> nat \<Rightarrow> u8 list" where
  "strncpy s t 0 = s"
| "strncpy s t (Suc n) =
     (if chr0 t \<noteq> 0 then chr0 t # strncpy (tl s) (tl t) n else 0 # zero_fill (tl s) n)"

fun safestrcpy_loop :: "u8 list \<Rightarrow> u8 list \<Rightarrow> nat \<Rightarrow> u8 list" where
  "safestrcpy_loop s t n =
     (if n \<le> 1 then 0 # tl s
      else if chr0 t \<noteq> 0 then chr0 t # safestrcpy_loop (tl s) (tl t) (n - 1)
      else 0 # 0 # tl (tl s))"

definition safestrcpy :: "u8 list \<Rightarrow> u8 list \<Rightarrow> int \<Rightarrow> u8 list" where
  "safestrcpy s t n = (if n \<le> 0 then s else safestrcpy_loop s t (nat n))"

fun strlen :: "u8 list \<Rightarrow> nat" where
  "strlen [] = 0"
| "strlen (c # cs) = (if c = 0 then 0 else Suc (strlen cs))"

declare safestrcpy_loop.simps [simp del]

section \<open>Closed forms of the memory loops\<close>

lemma unat_step:
  assumes "(y::u64) \<noteq> 0"
  shows "unat (y - 1) = unat y - 1"
  using assms by (simp add: unat_sub word_le_nat_alt word_unat_eq_iff Suc_le_eq)

lemma memset_loop_apply:
  assumes "n \<le> 2 ^ 64"
  shows "memset_loop m d c n x = (if unat (x - d) < n then c else m x)"
  using assms
proof (induction n arbitrary: m d)
  case 0
  then show ?case by simp
next
  case (Suc n)
  have step: "x - (d + 1) = (x - d) - 1" by simp
  show ?case
  proof (cases "x = d")
    case True
    with Suc show ?thesis by simp
  next
    case False
    then have "unat (x - d) \<noteq> 0" "unat (x - (d + 1)) = unat (x - d) - 1"
      using unat_step [of "x - d"] by (simp_all add: step unat_eq_0)
    with False Suc show ?thesis by auto
  qed
qed

lemma memset_apply [mem_simps]:
  "n \<le> 2 ^ 64 \<Longrightarrow> memset m d c n x = (if unat (x - d) < n then ucast c else m x)"
  by (simp add: memset_def memset_loop_apply)

lemma memset_page [mem_simps]:
  "memset m p c 4096 x = (if in_page p x then ucast c else m x)"
  by (simp add: memset_apply in_page_def word_less_nat_alt)

lemma memcmp_eq_0: "memcmp m s1 s2 n = 0 \<longleftrightarrow> (\<forall>i<n. m (s1 + of_nat i) = m (s2 + of_nat i))"
proof (induction n arbitrary: s1 s2)
  case 0
  then show ?case by simp
next
  case (Suc n)
  have "(\<forall>i<Suc n. m (s1 + of_nat i) = m (s2 + of_nat i)) \<longleftrightarrow>
      m s1 = m s2 \<and> (\<forall>i<n. m (s1 + 1 + of_nat i) = m (s2 + 1 + of_nat i))"
    by (auto simp: less_Suc_eq_0_disj add.assoc)
  with Suc.IH [of "s1 + 1" "s2 + 1"] show ?case by (auto simp: word_uint_eq_iff)
qed

lemma copy_up_apply:
  assumes "n \<le> 2 ^ 64" and "d = s \<or> n \<le> unat (d - s)"
  shows "copy_up m d s n x = (if unat (x - d) < n then m (s + (x - d)) else m x)"
  using assms
proof (induction n arbitrary: m d s)
  case 0
  then show ?case by simp
next
  case (Suc n)
  have IH: "copy_up (m(d := m s)) (d + 1) (s + 1) n x =
      (if unat (x - (d + 1)) < n then (m(d := m s)) (s + 1 + (x - (d + 1)))
       else (m(d := m s)) x)"
    using Suc.prems by (intro Suc.IH) auto
  show ?case
  proof (cases "x = d")
    case True
    with Suc.prems IH show ?thesis by simp
  next
    case False
    then have y: "unat (x - d) \<noteq> 0" "unat (x - (d + 1)) = unat (x - d) - 1"
      using unat_step [of "x - d"] by (simp_all add: algebra_simps unat_eq_0)
    have "s + (x - d) \<noteq> d" if "unat (x - d) < Suc n"
    proof
      assume "s + (x - d) = d"
      then have "x - d = d - s" by (simp add: algebra_simps)
      with Suc.prems(2) y that show False by auto
    qed
    with False y IH show ?thesis by auto
  qed
qed

lemma copy_down_apply:
  assumes "n \<le> 2 ^ 64" and "d = s \<or> n \<le> unat (s - d)"
  shows "copy_down m d s n x =
           (if unat (d - 1 - x) < n then m (s - 1 - (d - 1 - x)) else m x)"
  using assms
proof (induction n arbitrary: m d s)
  case 0
  then show ?case by simp
next
  case (Suc n)
  let ?m = "m(d - 1 := m (s - 1))"
  have IH: "copy_down ?m (d - 1) (s - 1) n x =
      (if unat (d - 1 - 1 - x) < n then ?m (s - 1 - 1 - (d - 1 - 1 - x)) else ?m x)"
    using Suc.prems by (intro Suc.IH) auto
  show ?case
  proof (cases "x = d - 1")
    case True
    with Suc.prems IH show ?thesis by simp
  next
    case False
    then have y: "unat (d - 1 - x) \<noteq> 0" "unat (d - 1 - 1 - x) = unat (d - 1 - x) - 1"
      using unat_step [of "d - 1 - x"] by (simp_all add: algebra_simps unat_eq_0)
    have eq: "s - 1 - 1 - (d - 1 - 1 - x) = s - 1 - (d - 1 - x)" by simp
    have "s - 1 - (d - 1 - x) \<noteq> d - 1" if "unat (d - 1 - x) < Suc n"
    proof
      assume "s - 1 - (d - 1 - x) = d - 1"
      then have "d - 1 - x = s - d" by (simp add: algebra_simps)
      with Suc.prems(2) y that show False by auto
    qed
    with False y IH eq show ?thesis by auto
  qed
qed

lemma memmove_apply:
  assumes "unat src + n < 2 ^ 64" and "unat dst + n < 2 ^ 64"
  shows "memmove m dst src n x =
           (if unat (x - dst) < n then m (src + (x - dst)) else m x)"
proof -
  have n: "unat (of_nat n :: u64) = n" using assms(1) by (simp add: unat_of_nat)
  have sn: "unat (src + of_nat n) = unat src + n" using assms(1) n by (simp add: unat_word_ariths)
  consider "n = 0" | "n > 0" "src < dst \<and> src + of_nat n > dst"
    | "n > 0" "\<not> (src < dst \<and> src + of_nat n > dst)" by blast
  then show ?thesis
  proof cases
    case 1
    then show ?thesis by (simp add: memmove_def)
  next
    case 2
    then have lt: "unat src < unat dst" "unat dst < unat src + n"
      using sn by (simp_all add: word_less_nat_alt)
    have "unat (src - dst) = 2 ^ 64 + unat src - unat dst"
      using lt by (simp add: unat_sub_if_size word_size)
    then have far: "n \<le> unat (src + of_nat n - (dst + of_nat n))"
      using lt assms by simp
    have rev: "unat (dst + of_nat n - 1 - x) < n \<longleftrightarrow> unat (x - dst) < n"
      (is "unat ?z < n \<longleftrightarrow> unat ?y < n")
    proof -
      have z: "?z = of_nat n - 1 - ?y" and y: "?y = of_nat n - 1 - ?z" by simp_all
      have n1: "unat (of_nat n - 1 :: u64) = n - 1"
        using unat_step [of "of_nat n"] n 2(1) by (metis unat_0 less_numeral_extra(3))
      have "unat (of_nat n - 1 - w) < n" if "unat w < n" for w :: u64
        using that n1 by (simp add: unat_sub word_le_nat_alt)
      then show ?thesis using z y by metis
    qed
    have "memmove m dst src n x =
        (if unat ?z < n then m (src + of_nat n - 1 - ?z) else m x)"
      using 2 copy_down_apply [of n "dst + of_nat n" "src + of_nat n" m x] far assms
      by (simp add: memmove_def)
    moreover have "src + of_nat n - 1 - ?z = src + ?y" by simp
    ultimately show ?thesis using rev by simp
  next
    case 3
    have "dst = src \<or> n \<le> unat (dst - src)"
    proof (cases "src < dst")
      case True
      then have "unat src + n \<le> unat dst" using 3 sn by (simp add: word_less_nat_alt)
      with True have "n \<le> unat (dst - src)" by (simp add: unat_sub word_le_nat_alt)
      then show ?thesis ..
    next
      case False
      then show ?thesis
        using assms by (auto simp: unat_sub_if_size word_size word_less_nat_alt word_unat_eq_iff)
    qed
    then show ?thesis
      using 3 copy_up_apply [of n dst src m x] assms by (auto simp: memmove_def)
  qed
qed

section \<open>Closed forms of the string loops\<close>

text \<open>\<open>cstr s\<close> is the string that the buffer \<open>s\<close> holds.\<close>

definition cstr :: "u8 list \<Rightarrow> u8 list" where
  "cstr s = takeWhile (\<lambda>c. c \<noteq> 0) s"

lemma cstr_simps [simp]:
  "cstr [] = []"
  "cstr (c # cs) = (if c = 0 then [] else c # cstr cs)"
  by (simp_all add: cstr_def)

lemma cstr_chr0: "cstr s = (if chr0 s = 0 then [] else chr0 s # cstr (tl s))"
  by (cases s) auto

lemma strlen_cstr: "strlen s = length (cstr s)"
  by (induction s) auto

lemma strncmp_eq_0: "strncmp p q n = 0 \<longleftrightarrow> take n (cstr p) = take n (cstr q)"
proof (induction n arbitrary: p q)
  case 0
  then show ?case by simp
next
  case (Suc n)
  show ?case
    using Suc.IH [of "tl p" "tl q"]
    by (auto simp: cstr_chr0 [of p] cstr_chr0 [of q] word_uint_eq_iff)
qed

lemma length_zero_fill: "n \<le> length s \<Longrightarrow> length (zero_fill s n) = length s"
  by (induction s n rule: zero_fill.induct) auto

lemma take_zero_fill: "take n (zero_fill s n) = replicate n 0"
  by (induction s n rule: zero_fill.induct) auto

lemma length_strncpy: "n \<le> length s \<Longrightarrow> length (strncpy s t n) = length s"
  by (induction s t n rule: strncpy.induct) (auto simp: length_zero_fill)

lemma take_strncpy: "take n (strncpy s t n) = take n (cstr t @ replicate n 0)"
proof (induction s t n rule: strncpy.induct)
  case (1 s t)
  then show ?case by simp
next
  case (2 s t n)
  show ?case
  proof (cases "chr0 t = 0")
    case True
    then show ?thesis by (simp add: cstr_chr0 [of t] take_zero_fill)
  next
    case False
    have "take n (cstr (tl t) @ replicate (Suc n) 0) = take n (cstr (tl t) @ replicate n 0)"
      by (simp add: take_append min_def take_Cons' flip: replicate_Suc)
    with 2 False show ?thesis by (simp add: cstr_chr0 [of t] del: replicate_Suc)
  qed
qed

lemma safestrcpy_loop_cstr:
  "cstr (safestrcpy_loop s t n) = take (n - 1) (cstr t)"
proof (induction s t n rule: safestrcpy_loop.induct)
  case (1 s t n)
  show ?case
  proof (cases "n \<le> 1")
    case True
    then show ?thesis by (simp add: safestrcpy_loop.simps [of s t n])
  next
    case False
    then obtain k where k: "n = Suc (Suc k)" by (metis One_nat_def Suc_le_D not_less_eq_eq)
    show ?thesis
      using 1 False k
      by (cases "chr0 t = 0")
        (simp_all add: safestrcpy_loop.simps [of s t "Suc (Suc k)"] cstr_chr0 [of t])
  qed
qed

lemma safestrcpy_cstr:
  "0 < n \<Longrightarrow> cstr (safestrcpy s t n) = take (nat n - 1) (cstr t)"
  by (simp add: safestrcpy_def safestrcpy_loop_cstr)

section \<open>Properties\<close>

text \<open>
  \<^verbatim>\<open>memmove\<close> copies correctly whether or not the two regions overlap: afterwards byte
  \<open>i\<close> of the destination is what byte \<open>i\<close> of the source was before, and no byte outside the
  destination changes (for regions that do not run past the end of the address space).
\<close>

lemma memmove_correct:
  assumes "unat src + n < 2 ^ 64" and "unat dst + n < 2 ^ 64"
  shows "(\<forall>i<n. memmove m dst src n (dst + of_nat i) = m (src + of_nat i)) \<and>
         (\<forall>x. n \<le> unat (x - dst) \<longrightarrow> memmove m dst src n x = m x)"
proof -
  have "unat (of_nat i :: u64) = i" if "i < n" for i
    using assms(1) that by (simp add: unat_of_nat)
  then show ?thesis using memmove_apply [OF assms] by auto
qed

text \<open>
  With room for \<open>n\<close> bytes, \<^verbatim>\<open>safestrcpy\<close> leaves in the destination the first
  \<open>n - 1\<close> characters of the source string followed by a terminator, and with no room it leaves
  the destination alone.
\<close>

lemma safestrcpy_correct:
  "(n \<le> 0 \<longrightarrow> safestrcpy s t n = s) \<and>
   (0 < n \<longrightarrow> cstr (safestrcpy s t n) = take (nat n - 1) (cstr t))"
  using safestrcpy_cstr [of n s t] by (simp add: safestrcpy_def)

text \<open>
  \<^verbatim>\<open>strncmp\<close> returns 0 exactly when the two strings agree on their first \<open>n\<close> characters,
  and \<^verbatim>\<open>strncpy\<close> leaves the source padded with NULs to \<open>n\<close> bytes. Together: comparing a
  name stored by \<^verbatim>\<open>strncpy\<close> with a name gives 0 exactly for names with the same first \<open>n\<close>
  characters, which is how directory entries are matched.
\<close>

lemma strncpy_strncmp_match:
  "strncmp p (take n (strncpy s t n)) n = 0 \<longleftrightarrow> take n (cstr p) = take n (cstr t)"
proof -
  have rep: "cstr (replicate k 0) = []" for k by (cases k) simp_all
  have nz: "0 \<notin> set (cstr u)" for u by (induction u) auto
  have app: "cstr (u @ v) = u @ cstr v" if "0 \<notin> set u" for u v
    using that by (induction u) auto
  have "0 \<notin> set (take n (cstr t))" using nz [of t] by (auto dest: in_set_takeD)
  then have "cstr (take n (strncpy s t n)) = take n (cstr t)"
    by (simp add: take_strncpy take_append app rep)
  then show ?thesis by (simp add: strncmp_eq_0)
qed

end
