(* ===== verification/Kalloc.thy ===== *)
theory Kalloc
  imports CStr
begin

text \<open>
  \<^verbatim>\<open>kernel/kalloc.c\<close>: the physical page allocator with reference counts. Free pages are
  linked through their own first eight bytes, as in the source, and \<open>kref\<close> is the array of
  counts that copy-on-write adds. The spin-locks \<^verbatim>\<open>kmem.lock\<close> and \<^verbatim>\<open>kref.lock\<close> delimit
  the atomic steps modelled here (theory \<open>Spinlock\<close> treats the locks). The invariant ties the chain, the
  counts and the set of managed pages together; the locale states what clients may rely on.
\<close>

section \<open>State and operations\<close>

record kmem_st =
  pmem :: mem                \<comment> \<open>physical memory\<close>
  kend :: u64                \<comment> \<open>\<^verbatim>\<open>end\<close>: first address after the kernel, from the linker\<close>
  freelist :: u64            \<comment> \<open>\<^verbatim>\<open>kmem.freelist\<close>\<close>
  kref :: "u64 \<Rightarrow> u64"       \<comment> \<open>\<^verbatim>\<open>kref.ref\<close>\<close>

definition refindex :: "'a kmem_st_scheme \<Rightarrow> u64 \<Rightarrow> u64" where
  "refindex s pa = (PGROUNDDOWN pa - kend s) div PGSIZE"

definition kfree :: "u64 \<Rightarrow> 'a kmem_st_scheme \<Rightarrow> 'a kmem_st_scheme res" where
  "kfree pa s =
     (if pa mod PGSIZE \<noteq> 0 \<or> pa < kend s \<or> pa \<ge> PHYSTOP then Panic ''kfree''
      else
        let i = refindex s pa in
        if kref s i > 1 then Ok (s\<lparr>kref := (kref s)(i := kref s i - 1)\<rparr>)
        else
          let s1 = s\<lparr>kref := (kref s)(i := kref s i - 1)\<rparr>;
              s2 = s1\<lparr>pmem := memset (pmem s1) pa 1 4096\<rparr>;
              s3 = s2\<lparr>pmem := st64 (pmem s2) pa (freelist s2)\<rparr>
          in Ok (s3\<lparr>freelist := pa\<rparr>))"

definition inckref :: "u64 \<Rightarrow> 'a kmem_st_scheme \<Rightarrow> 'a kmem_st_scheme" where
  "inckref pa s = s\<lparr>kref := (kref s)(refindex s pa := kref s (refindex s pa) + 1)\<rparr>"

definition deckref :: "u64 \<Rightarrow> 'a kmem_st_scheme \<Rightarrow> 'a kmem_st_scheme" where
  "deckref pa s = s\<lparr>kref := (kref s)(refindex s pa := kref s (refindex s pa) - 1)\<rparr>"

definition kalloc :: "'a kmem_st_scheme \<Rightarrow> u64 \<times> 'a kmem_st_scheme" where
  "kalloc s =
     (let r = freelist s in
      if r \<noteq> 0 then
        let s1 = s\<lparr>freelist := ld64 (pmem s) r,
                   kref := (kref s)(refindex s r := kref s (refindex s r) + 1)\<rparr>
        in (r, s1\<lparr>pmem := memset (pmem s1) r 5 4096\<rparr>)
      else (0, s))"

text \<open>
  The boot loops. \<^verbatim>\<open>p + PGSIZE <= pa_end\<close> compares pointers, whose addition may not wrap
  in C, so the model compares the sums as numbers.
\<close>

function freerange_loop ::
  "u64 \<Rightarrow> u64 \<Rightarrow> 'a kmem_st_scheme \<Rightarrow> 'a kmem_st_scheme res" where
  "freerange_loop p pa_end s =
     (if unat p + 4096 \<le> unat pa_end
      then rbind (kfree p s) (\<lambda>s. freerange_loop (p + PGSIZE) pa_end s)
      else Ok s)"
  by pat_completeness auto
termination
proof (relation "measure (\<lambda>(p, e, s). unat e - unat p)", goal_cases)
  case 1
  show ?case by simp
next
  case (2 p e s s')
  have "unat e < 2 ^ 64" using unsigned_less [of e] by simp
  with 2 have "unat (p + 4096) = unat p + 4096" by (simp add: unat_word_ariths)
  with 2 show ?case by simp
qed

definition freerange :: "u64 \<Rightarrow> u64 \<Rightarrow> 'a kmem_st_scheme \<Rightarrow> 'a kmem_st_scheme res" where
  "freerange pa_start pa_end s = freerange_loop (PGROUNDUP pa_start) pa_end s"

function krefinit_loop :: "u64 \<Rightarrow> u64 \<Rightarrow> 'a kmem_st_scheme \<Rightarrow> 'a kmem_st_scheme" where
  "krefinit_loop p e s =
     (if unat p + 4096 \<le> unat e
      then krefinit_loop (p + PGSIZE) e (s\<lparr>kref := (kref s)(refindex s p := 0)\<rparr>)
      else s)"
  by pat_completeness auto
termination
proof (relation "measure (\<lambda>(p, e, s). unat e - unat p)", goal_cases)
  case 1
  show ?case by simp
next
  case (2 p e s)
  have "unat e < 2 ^ 64" using unsigned_less [of e] by simp
  with 2 have "unat (p + 4096) = unat p + 4096" by (simp add: unat_word_ariths)
  with 2 show ?case by simp
qed

definition krefinit :: "u64 \<Rightarrow> u64 \<Rightarrow> 'a kmem_st_scheme \<Rightarrow> 'a kmem_st_scheme" where
  "krefinit start e s = krefinit_loop (PGROUNDUP start) e s"

definition kinit :: "'a kmem_st_scheme \<Rightarrow> 'a kmem_st_scheme res" where
  "kinit s = rbind (freerange (kend s) PHYSTOP s) (\<lambda>s. Ok (krefinit (kend s) PHYSTOP s))"

text \<open>
  \<^verbatim>\<open>calculate_free_ram\<close> reads \<^verbatim>\<open>page->next\<close> before any test of \<^verbatim>\<open>page\<close>: with an empty
  list that is a load through the null pointer, which the kernel does not map and
  \<^verbatim>\<open>kerneltrap\<close> turns into a panic. \<open>None\<close> is a walk that never ends.
\<close>

partial_function (option) free_ram_loop :: "mem \<Rightarrow> u64 \<Rightarrow> u32 \<Rightarrow> u32 option" where
  "free_ram_loop m page free_bytes =
     (if ld64 m page \<noteq> 0 then free_ram_loop m (ld64 m page) (free_bytes + 4096)
      else Some free_bytes)"

definition calculate_free_ram :: "'a kmem_st_scheme \<Rightarrow> u32 res option" where
  "calculate_free_ram s =
     (if freelist s = 0 then Some (Panic ''kerneltrap'')
      else map_option Ok (free_ram_loop (pmem s) (freelist s) 0))"

declare freerange_loop.simps [simp del] krefinit_loop.simps [simp del]

section \<open>Invariant\<close>

primrec fl_chain :: "mem \<Rightarrow> u64 \<Rightarrow> u64 list \<Rightarrow> bool" where
  "fl_chain m p [] \<longleftrightarrow> p = 0"
| "fl_chain m p (x # xs) \<longleftrightarrow> p = x \<and> x \<noteq> 0 \<and> fl_chain m (ld64 m x) xs"

definition managed :: "'a kmem_st_scheme \<Rightarrow> u64 set" where
  "managed s = {pa. page_aligned pa \<and> kend s \<le> pa \<and> pa < PHYSTOP}"

definition refcnt :: "'a kmem_st_scheme \<Rightarrow> u64 \<Rightarrow> nat" where
  "refcnt s pa = (if pa \<in> managed s then unat (kref s (refindex s pa)) else 0)"

definition kmem_wf :: "'a kmem_st_scheme \<Rightarrow> u64 list \<Rightarrow> bool" where
  "kmem_wf s xs \<longleftrightarrow> KERNBASE \<le> kend s \<and> kend s \<le> PHYSTOP \<and>
     fl_chain (pmem s) (freelist s) xs \<and> distinct xs \<and>
     (\<forall>pa\<in>managed s. pa \<in> set xs \<longleftrightarrow> refcnt s pa = 0) \<and> set xs \<subseteq> managed s"

definition kmem_inv :: "'a kmem_st_scheme \<Rightarrow> bool" where
  "kmem_inv s \<longleftrightarrow> (\<exists>xs. kmem_wf s xs)"

section \<open>Pages and their counters\<close>

lemma managed_props:
  assumes "pa \<in> managed s"
  shows "page_aligned pa" "kend s \<le> pa" "pa < PHYSTOP"
  using assms by (simp_all add: managed_def)

lemma managed_nonzero:
  assumes "pa \<in> managed s" and "KERNBASE \<le> kend s"
  shows "pa \<noteq> 0"
  using assms by (auto simp: managed_def word_le_nat_alt)

lemma managed_upd [simp]:
  "managed (s\<lparr>kref := f\<rparr>) = managed s"
  "managed (s\<lparr>pmem := m\<rparr>) = managed s"
  "managed (s\<lparr>freelist := l\<rparr>) = managed s"
  by (simp_all add: managed_def)

lemma refindex_upd [simp]:
  "refindex (s\<lparr>kref := f\<rparr>) = refindex s"
  "refindex (s\<lparr>pmem := m\<rparr>) = refindex s"
  "refindex (s\<lparr>freelist := l\<rparr>) = refindex s"
  by (simp_all add: refindex_def fun_eq_iff)

lemma unat_refindex:
  assumes "pa \<in> managed s"
  shows "unat (refindex s pa) = (unat pa - unat (kend s)) div 4096"
  using managed_props [OF assms] by (simp add: refindex_def unat_div unat_sub)

lemma refindex_bound:
  assumes "pa \<in> managed s" and "KERNBASE \<le> kend s"
  shows "unat (refindex s pa) < 32768"
  using managed_props [OF assms(1)] assms(2)
  by (simp add: unat_refindex [OF assms(1)] word_le_nat_alt word_less_nat_alt)

lemma div_diff_strict:
  assumes "a < b" and "e \<le> 4096 * a"
  shows "(4096 * a - e) div 4096 < (4096 * b - e) div (4096::nat)"
proof -
  have "4096 * a - e + 4096 \<le> 4096 * b - e" using assms by linarith
  then have "(4096 * a - e + 4096) div 4096 \<le> (4096 * b - e) div 4096" by (rule div_le_mono)
  then show ?thesis by simp
qed

lemma refindex_inject:
  assumes "pa \<in> managed s" and "pb \<in> managed s" and "refindex s pa = refindex s pb"
  shows "pa = pb"
proof -
  obtain a b where a: "unat pa = 4096 * a" and b: "unat pb = 4096 * b"
    using managed_props(1) [OF assms(1)] managed_props(1) [OF assms(2)]
    by (auto simp: page_aligned_dvd elim!: dvdE)
  have le: "unat (kend s) \<le> 4096 * a" "unat (kend s) \<le> 4096 * b"
    using managed_props(2) [OF assms(1)] managed_props(2) [OF assms(2)] a b
    by (simp_all add: word_le_nat_alt)
  have "(4096 * a - unat (kend s)) div 4096 = (4096 * b - unat (kend s)) div 4096"
    using assms unat_refindex a b by metis
  with le have "a = b"
    using div_diff_strict [of a b "unat (kend s)"] div_diff_strict [of b a "unat (kend s)"]
    by (metis less_irrefl nat_neq_iff)
  with a b show ?thesis by (simp add: word_unat_eq_iff)
qed

lemma managed_cong: "kend s' = kend s \<Longrightarrow> managed s' = managed s"
  by (simp add: managed_def)

lemma refindex_cong: "kend s' = kend s \<Longrightarrow> refindex s' = refindex s"
  by (simp add: refindex_def fun_eq_iff)

lemma refcnt_upd:
  assumes "x \<in> managed s" and "kend s' = kend s" and "kref s' = (kref s)(refindex s x := v)"
  shows "refcnt s' = (refcnt s)(x := unat v)"
  using assms refindex_inject [of _ s x]
  by (auto simp: refcnt_def fun_eq_iff managed_cong [OF assms(2)] refindex_cong [OF assms(2)])

lemma refcnt_cong: "kend s' = kend s \<Longrightarrow> kref s' = kref s \<Longrightarrow> refcnt s' = refcnt s"
  using managed_cong [of s' s] refindex_cong [of s' s] by (simp add: refcnt_def fun_eq_iff)

lemma kfree_eq:
  "kfree pa s =
     (if pa \<notin> managed s then Panic ''kfree''
      else
        let s1 = s\<lparr>kref := (kref s)(refindex s pa := kref s (refindex s pa) - 1)\<rparr> in
        if kref s (refindex s pa) > 1 then Ok s1
        else Ok (s1\<lparr>pmem := st64 (memset (pmem s) pa 1 4096) pa (freelist s), freelist := pa\<rparr>))"
proof -
  have "(pa mod PGSIZE \<noteq> 0 \<or> pa < kend s \<or> pa \<ge> PHYSTOP) \<longleftrightarrow> pa \<notin> managed s"
    unfolding managed_def page_aligned_mod mem_Collect_eq by (meson linorder_not_le)
  then show ?thesis unfolding kfree_def Let_def by simp
qed

section \<open>The chain of free pages\<close>

lemma fl_chain_cong:
  "\<forall>x\<in>set xs. ld64 m x = ld64 m' x \<Longrightarrow> fl_chain m p xs = fl_chain m' p xs"
  by (induction xs arbitrary: p) auto

lemma fl_chain_frame:
  assumes "\<forall>x\<in>set xs. page_aligned x" and "\<And>x a. x \<in> set xs \<Longrightarrow> in_page x a \<Longrightarrow> m a = m' a"
  shows "fl_chain m p xs = fl_chain m' p xs"
proof (rule fl_chain_cong, rule ballI)
  fix x assume x: "x \<in> set xs"
  show "ld64 m x = ld64 m' x"
    using ld64_slot_frame [of x 0 m m'] assms x by simp
qed

lemma fl_chain_other_page:
  assumes "page_aligned q" and "q \<notin> set xs" and "\<forall>x\<in>set xs. page_aligned x"
    and "\<And>a. \<not> in_page q a \<Longrightarrow> m' a = m a"
  shows "fl_chain m' p xs = fl_chain m p xs"
  using assms by (intro fl_chain_frame) (metis in_page_unique)+

lemma fl_chain_unique: "fl_chain m p xs \<Longrightarrow> fl_chain m p ys \<Longrightarrow> xs = ys"
proof (induction xs arbitrary: p ys)
  case Nil
  then show ?case by (cases ys) auto
next
  case (Cons x xs)
  then show ?case by (cases ys) auto
qed

section \<open>Operations keep the invariant\<close>

lemma kmem_wf_aligned: "kmem_wf s xs \<Longrightarrow> x \<in> set xs \<Longrightarrow> page_aligned x"
  by (auto simp: kmem_wf_def managed_def)

lemma kalloc_frame:
  assumes "kalloc s = (r, s')"
  shows "kend s' = kend s" "kmem_st.more s' = kmem_st.more s"
    "\<not> in_page r a \<Longrightarrow> pmem s' a = pmem s a"
    "r \<noteq> 0 \<Longrightarrow> in_page r a \<Longrightarrow> pmem s' a = 5"
  using assms by (auto simp: kalloc_def Let_def mem_simps split: if_splits)

lemma kalloc_Cons:
  assumes "kmem_wf s (x # xs)"
  obtains s' where "kalloc s = (x, s')" and "kmem_wf s' xs" and "refcnt s' = (refcnt s)(x := 1)"
    and "x \<in> managed s" and "refcnt s x = 0"
proof -
  obtain s' where s': "kalloc s = (x, s')"
    using assms by (auto simp: kalloc_def Let_def kmem_wf_def)
  have x: "x \<in> managed s" "refcnt s x = 0" "x \<noteq> 0" "x \<notin> set xs" "freelist s = x"
    using assms by (auto simp: kmem_wf_def)
  have k0: "kref s (refindex s x) = 0" using x by (simp add: refcnt_def unat_eq_0)
  have cnt: "refcnt s' = (refcnt s)(x := 1)"
    using s' x k0 refcnt_upd [of x s s' 1] by (auto simp: kalloc_def Let_def)
  have fl: "freelist s' = ld64 (pmem s) x" using s' x by (auto simp: kalloc_def Let_def)
  have "fl_chain (pmem s') (freelist s') xs = fl_chain (pmem s) (freelist s') xs"
    using x kalloc_frame(3) [OF s'] kmem_wf_aligned [OF assms] managed_props(1) [OF x(1)]
    by (intro fl_chain_other_page [of x]) auto
  then have "kmem_wf s' xs"
    using assms cnt fl x kalloc_frame(1) [OF s'] managed_cong [OF kalloc_frame(1) [OF s']]
    by (auto simp: kmem_wf_def)
  with s' cnt x show thesis using that by blast
qed

lemma kalloc_Nil:
  assumes "kmem_wf s []"
  shows "kalloc s = (0, s)"
  using assms by (simp add: kalloc_def Let_def kmem_wf_def)

lemma kfree_frame:
  assumes "kfree pa s = Ok s'"
  shows "kend s' = kend s" "kmem_st.more s' = kmem_st.more s" "pa \<in> managed s"
    "kref s (refindex s pa) > 1 \<Longrightarrow> pmem s' = pmem s"
    "\<not> in_page pa a \<Longrightarrow> pmem s' a = pmem s a"
proof -
  have pa: "pa \<in> managed s" using assms by (auto simp: kfree_eq split: if_splits)
  have "\<not> in_page pa a \<Longrightarrow> st64 (memset (pmem s) pa 1 4096) pa (freelist s) a = pmem s a"
    using st64_frame [of pa 0 a] managed_props(1) [OF pa] by (simp add: mem_simps)
  then show "kend s' = kend s" "kmem_st.more s' = kmem_st.more s" "pa \<in> managed s"
    "kref s (refindex s pa) > 1 \<Longrightarrow> pmem s' = pmem s"
    "\<not> in_page pa a \<Longrightarrow> pmem s' a = pmem s a"
    using assms pa by (auto simp: kfree_eq Let_def split: if_splits)
qed

lemma kfree_panics: "kfree pa s = Panic ''kfree'' \<longleftrightarrow> pa \<notin> managed s"
  by (simp add: kfree_eq Let_def)

lemma kfree_shared:
  assumes "kmem_wf s xs" and "pa \<in> managed s" and "refcnt s pa > 1"
  obtains s' where "kfree pa s = Ok s'" and "kmem_wf s' xs"
    and "refcnt s' = (refcnt s)(pa := refcnt s pa - 1)"
proof -
  let ?k = "kref s (refindex s pa)"
  have k: "?k > 1" using assms(2,3) by (simp add: refcnt_def word_less_nat_alt)
  define s' where "s' = s\<lparr>kref := (kref s)(refindex s pa := ?k - 1)\<rparr>"
  have free: "kfree pa s = Ok s'"
    using k assms(2) by (simp add: kfree_eq Let_def s'_def)
  have "unat (?k - 1) = refcnt s pa - 1"
    using k assms(2) unat_step [of ?k] by (cases "?k = 0") (simp_all add: refcnt_def)
  then have cnt: "refcnt s' = (refcnt s)(pa := refcnt s pa - 1)"
    using refcnt_upd [OF assms(2), of s' "?k - 1"] by (simp add: s'_def)
  have "managed s' = managed s" by (simp add: s'_def)
  then have "kmem_wf s' xs"
    using assms cnt by (auto simp: kmem_wf_def s'_def)
  with free cnt show thesis using that by blast
qed

lemma kfree_push:
  assumes "pa \<in> managed s" and "kref s (refindex s pa) \<le> 1" and "pa \<noteq> 0"
    and "fl_chain (pmem s) (freelist s) xs" and "pa \<notin> set xs" and "\<forall>x\<in>set xs. page_aligned x"
  obtains s' where "kfree pa s = Ok s'" and "fl_chain (pmem s') (freelist s') (pa # xs)"
    and "kref s' = (kref s)(refindex s pa := kref s (refindex s pa) - 1)" and "kend s' = kend s"
proof -
  obtain s' where free: "kfree pa s = Ok s'" and fl: "freelist s' = pa"
    and mem: "pmem s' = st64 (memset (pmem s) pa 1 4096) pa (freelist s)"
    and kr: "kref s' = (kref s)(refindex s pa := kref s (refindex s pa) - 1)"
    and ke: "kend s' = kend s"
    using assms(1) leD [OF assms(2)] by (simp add: kfree_eq Let_def)
  have "fl_chain (pmem s') (freelist s) xs = fl_chain (pmem s) (freelist s) xs"
    using assms kfree_frame(5) [OF free] managed_props(1)
    by (intro fl_chain_other_page [of pa]) auto
  then have "fl_chain (pmem s') (freelist s') (pa # xs)"
    using assms fl mem by simp
  with free kr ke show thesis using that by blast
qed

lemma kfree_last:
  assumes "kmem_wf s xs" and "pa \<in> managed s" and "refcnt s pa = 1"
  obtains s' where "kfree pa s = Ok s'" and "kmem_wf s' (pa # xs)"
    and "refcnt s' = (refcnt s)(pa := 0)"
proof -
  have pa: "pa \<notin> set xs" "pa \<noteq> 0"
    using assms managed_nonzero [OF assms(2)] by (auto simp: kmem_wf_def)
  have k: "kref s (refindex s pa) = 1" using assms(2,3) by (simp add: refcnt_def word_unat_eq_iff)
  obtain s' where s': "kfree pa s = Ok s'" "fl_chain (pmem s') (freelist s') (pa # xs)"
    "kref s' = (kref s)(refindex s pa := 0)" "kend s' = kend s"
    using kfree_push [OF assms(2) _ pa(2) _ pa(1), of thesis] k assms(1) kmem_wf_aligned [OF assms(1)]
    by (auto simp: kmem_wf_def)
  have cnt: "refcnt s' = (refcnt s)(pa := 0)"
    using refcnt_upd [OF assms(2) s'(4,3)] by simp
  have "kmem_wf s' (pa # xs)"
    using assms pa cnt s' managed_cong [OF s'(4)] by (auto simp: kmem_wf_def)
  with s' cnt show thesis using that by blast
qed

lemma inckref_wf:
  assumes "kmem_wf s xs" and "pa \<in> managed s" and "0 < refcnt s pa" and "refcnt s pa < 2 ^ 64 - 1"
  shows "kmem_wf (inckref pa s) xs" and "refcnt (inckref pa s) = (refcnt s)(pa := refcnt s pa + 1)"
proof -
  let ?k = "kref s (refindex s pa)"
  have "unat (?k + 1) = refcnt s pa + 1"
    using assms(2,4) by (simp add: refcnt_def unat_word_ariths)
  then show cnt: "refcnt (inckref pa s) = (refcnt s)(pa := refcnt s pa + 1)"
    using refcnt_upd [OF assms(2), of "inckref pa s" "?k + 1"] by (simp add: inckref_def)
  have "managed (inckref pa s) = managed s" "pmem (inckref pa s) = pmem s"
    "freelist (inckref pa s) = freelist s" "kend (inckref pa s) = kend s"
    by (simp_all add: inckref_def)
  with assms cnt show "kmem_wf (inckref pa s) xs" by (auto simp: kmem_wf_def)
qed

section \<open>Booting the allocator\<close>

definition boot_inv :: "'a kmem_st_scheme \<Rightarrow> u64 list \<Rightarrow> u64 \<Rightarrow> bool" where
  "boot_inv s xs p \<longleftrightarrow> KERNBASE \<le> kend s \<and> page_aligned p \<and> kend s \<le> p \<and>
     fl_chain (pmem s) (freelist s) xs \<and> distinct xs \<and> set xs = {x \<in> managed s. x < p} \<and>
     (\<forall>x\<in>managed s. p \<le> x \<longrightarrow> kref s (refindex s x) = 0)"

lemma page_next:
  assumes "page_aligned p" and "unat p + 4096 < 2 ^ 64"
  shows "page_aligned (p + 4096)" and "unat (p + 4096) = unat p + 4096"
    and "page_aligned x \<Longrightarrow> x < p + 4096 \<longleftrightarrow> x < p \<or> x = p"
proof -
  show u: "unat (p + 4096) = unat p + 4096" using assms(2) by (simp add: unat_word_ariths)
  with assms(1) show "page_aligned (p + 4096)" by (simp add: page_aligned_dvd)
  show "x < p + 4096 \<longleftrightarrow> x < p \<or> x = p" if "page_aligned x"
    using assms(1) that
    by (auto simp: word_less_nat_alt u page_aligned_dvd word_unat_eq_iff elim!: dvdE)
qed

lemma freerange_step:
  assumes "boot_inv s xs p" and "unat p + 4096 \<le> unat PHYSTOP"
  obtains s' where "kfree p s = Ok s'" and "boot_inv s' (p # xs) (p + 4096)" and "kend s' = kend s"
proof -
  have p: "p \<in> managed s"
    using assms by (auto simp: boot_inv_def managed_def word_less_nat_alt)
  have p0: "p \<noteq> 0" using managed_nonzero [OF p] assms(1) by (simp add: boot_inv_def)
  have nxt: "page_aligned (p + 4096)" "kend s \<le> p + 4096"
    "\<And>x. x \<in> managed s \<Longrightarrow> x < p + 4096 \<longleftrightarrow> x < p \<or> x = p"
    using page_next [of p] assms
    by (auto simp: boot_inv_def managed_def word_le_nat_alt)
  obtain s' where s': "kfree p s = Ok s'" "fl_chain (pmem s') (freelist s') (p # xs)"
    "kref s' = (kref s)(refindex s p := kref s (refindex s p) - 1)" "kend s' = kend s"
    using kfree_push [OF p _ p0, of xs thesis] assms(1) p managed_props(1)
    by (force simp: boot_inv_def)
  have ri: "refindex s' = refindex s" using refindex_cong [OF s'(4)] .
  have "kref s' (refindex s x) = 0" if x: "x \<in> managed s" "p + 4096 \<le> x" for x
  proof -
    have "\<not> x < p" "x \<noteq> p" using nxt(3) [OF x(1)] x(2) by (auto simp: leD)
    moreover have "kref s (refindex s x) = 0" if "p \<le> x"
      using that assms(1) x(1) by (simp add: boot_inv_def)
    ultimately show ?thesis using s'(3) refindex_inject [OF x(1) p] by (auto simp: not_less)
  qed
  then have "boot_inv s' (p # xs) (p + 4096)"
    using assms(1) p nxt s'(2,4) managed_cong [OF s'(4)] by (auto simp: boot_inv_def ri)
  with s' show thesis using that by blast
qed

lemma freerange_loop_boot:
  assumes "boot_inv s xs p"
  shows "\<exists>s' ys. freerange_loop p PHYSTOP s = Ok s' \<and> kend s' = kend s \<and>
           fl_chain (pmem s') (freelist s') ys \<and> distinct ys \<and> set ys = managed s"
  using assms
proof (induction p "PHYSTOP :: u64" s arbitrary: xs rule: freerange_loop.induct)
  case (1 p s)
  show ?case
  proof (cases "unat p + 4096 \<le> unat PHYSTOP")
    case True
    then obtain s' where s': "kfree p s = Ok s'" "boot_inv s' (p # xs) (p + 4096)" "kend s' = kend s"
      using freerange_step [OF 1(2)] by blast
    then show ?thesis
      using 1(1) [OF True s'(1,2)] True managed_cong [OF s'(3)] by (subst freerange_loop.simps) auto
  next
    case False
    have "page_aligned p" using 1(2) by (simp add: boot_inv_def)
    with False have "unat PHYSTOP \<le> unat p"
      by (auto simp: page_aligned_dvd elim!: dvdE)
    then have "{x \<in> managed s. x < p} = managed s" by (auto simp: managed_def word_less_nat_alt)
    with False 1(2) show ?thesis
      by (subst freerange_loop.simps) (auto simp: boot_inv_def)
  qed
qed

lemma krefinit_loop_zeroes:
  assumes "page_aligned p" and "kend s \<le> p"
    and "\<forall>x\<in>managed s. x < p \<longrightarrow> kref s (refindex s x) = 0"
  shows "\<exists>k. krefinit_loop p PHYSTOP s = s\<lparr>kref := k\<rparr> \<and> (\<forall>x\<in>managed s. k (refindex s x) = 0)"
  using assms
proof (induction p "PHYSTOP :: u64" s rule: krefinit_loop.induct)
  case (1 p s)
  show ?case
  proof (cases "unat p + 4096 \<le> unat PHYSTOP")
    case True
    let ?s = "s\<lparr>kref := (kref s)(refindex s p := 0)\<rparr>"
    have nxt: "page_aligned (p + 4096)" "kend s \<le> p + 4096"
      "\<And>x. x \<in> managed s \<Longrightarrow> x < p + 4096 \<longleftrightarrow> x < p \<or> x = p"
      using page_next [of p] 1(2,3) True by (auto simp: managed_def word_le_nat_alt)
    then have "\<forall>x\<in>managed ?s. x < p + 4096 \<longrightarrow> kref ?s (refindex ?s x) = 0"
      using 1(4) by auto
    with nxt obtain k where "krefinit_loop (p + 4096) PHYSTOP ?s = ?s\<lparr>kref := k\<rparr>"
      "\<forall>x\<in>managed s. k (refindex s x) = 0"
      using 1(1) [OF True] by auto
    then show ?thesis using True by (subst krefinit_loop.simps) auto
  next
    case False
    with 1(2) have "unat PHYSTOP \<le> unat p" by (auto simp: page_aligned_dvd elim!: dvdE)
    then have "x < p" if "x \<in> managed s" for x
      using that by (auto simp: managed_def word_less_nat_alt)
    with 1(4) have "\<forall>x\<in>managed s. kref s (refindex s x) = 0" by blast
    with False show ?thesis by (subst krefinit_loop.simps) (auto intro!: exI [of _ "kref s"])
  qed
qed

lemma PGROUNDUP_least:
  assumes "a \<le> PHYSTOP"
  shows "a \<le> PGROUNDUP a" and "page_aligned x \<Longrightarrow> a \<le> x \<Longrightarrow> PGROUNDUP a \<le> x"
proof -
  have "unat a \<le> 2281701376" using assms by (simp add: word_le_nat_alt)
  then have u: "unat (PGROUNDUP a) = 4096 * ((unat a + 4095) div 4096)"
    by (intro unat_PGROUNDUP) simp
  then show "a \<le> PGROUNDUP a" unfolding word_le_nat_alt by linarith
  show "PGROUNDUP a \<le> x" if x: "page_aligned x" "a \<le> x"
  proof -
    obtain j where j: "unat x = 4096 * j" using x(1) by (auto simp: page_aligned_dvd elim!: dvdE)
    with x(2) have "(unat a + 4095) div 4096 \<le> j" by (simp add: word_le_nat_alt)
    with u j show ?thesis by (simp add: word_le_nat_alt)
  qed
qed

lemma kinit_boots:
  assumes "KERNBASE \<le> kend s" and "kend s \<le> PHYSTOP" and "freelist s = 0"
    and "\<forall>x\<in>managed s. kref s (refindex s x) = 0"
  obtains s' ys where "kinit s = Ok s'" and "kmem_wf s' ys" and "set ys = managed s"
    and "kend s' = kend s"
proof -
  let ?p = "PGROUNDUP (kend s)"
  have low: "x < ?p \<Longrightarrow> x \<notin> managed s" for x
    using PGROUNDUP_least(2) [OF assms(2), of x] by (auto simp: managed_def dest: leD)
  then have "boot_inv s [] ?p"
    using assms PGROUNDUP_least(1) [OF assms(2)] by (auto simp: boot_inv_def)
  then obtain s1 ys where s1: "freerange (kend s) PHYSTOP s = Ok s1" "kend s1 = kend s"
    "fl_chain (pmem s1) (freelist s1) ys" "distinct ys" "set ys = managed s"
    using freerange_loop_boot [of s "[]" ?p] by (auto simp: freerange_def)
  note ma = managed_cong [OF s1(2)]
  obtain k where k: "krefinit_loop ?p PHYSTOP s1 = s1\<lparr>kref := k\<rparr>"
    "\<forall>x\<in>managed s1. k (refindex s1 x) = 0"
    using krefinit_loop_zeroes [of ?p s1] low PGROUNDUP_least(1) [OF assms(2)] ma s1(2) by auto
  have "kinit s = Ok (s1\<lparr>kref := k\<rparr>)" using s1 k by (simp add: kinit_def krefinit_def)
  moreover have "kmem_wf (s1\<lparr>kref := k\<rparr>) ys"
    using s1 k assms ma by (auto simp: kmem_wf_def refcnt_def)
  ultimately show thesis using that s1 by simp
qed

section \<open>Counting free memory\<close>

lemma free_ram_loop_chain:
  "fl_chain m p (x # xs) \<Longrightarrow> free_ram_loop m p b = Some (b + 4096 * of_nat (length xs))"
proof (induction xs arbitrary: p x b)
  case Nil
  then show ?case by (subst free_ram_loop.simps) simp
next
  case (Cons y ys)
  from Cons.prems have "fl_chain m (ld64 m p) (y # ys)" "ld64 m p \<noteq> 0" by auto
  with Cons.IH [of "ld64 m p" y "b + 4096"] show ?case
    by (subst free_ram_loop.simps) (simp add: algebra_simps)
qed

section \<open>What clients rely on\<close>

text \<open>
  The contract of a reference-counting page allocator. \<open>cnt\<close> is its abstract state; a page
  is live while its count is positive, and the contents of live pages belong to the clients.
\<close>

locale page_alloc =
  fixes inv :: "'s \<Rightarrow> bool"
    and alloc :: "'s \<Rightarrow> u64 \<times> 's"
    and free :: "u64 \<Rightarrow> 's \<Rightarrow> 's res"
    and cnt :: "'s \<Rightarrow> u64 \<Rightarrow> nat"
    and contents :: "'s \<Rightarrow> mem"
  assumes alloc_inv: "inv s \<Longrightarrow> alloc s = (r, s') \<Longrightarrow> inv s'"
    and alloc_none: "alloc s = (0, s') \<Longrightarrow> s' = s"
    and alloc_some: "inv s \<Longrightarrow> alloc s = (r, s') \<Longrightarrow> r \<noteq> 0 \<Longrightarrow>
          cnt s r = 0 \<and> cnt s' = (cnt s)(r := 1) \<and> page_aligned r"
    and alloc_contents: "alloc s = (r, s') \<Longrightarrow> \<not> in_page r a \<Longrightarrow> contents s' a = contents s a"
    and free_live: "inv s \<Longrightarrow> 0 < cnt s p \<Longrightarrow>
          \<exists>s'. free p s = Ok s' \<and> inv s' \<and> cnt s' = (cnt s)(p := cnt s p - 1)"
    and free_contents: "inv s \<Longrightarrow> free p s = Ok s' \<Longrightarrow> \<not> in_page p a \<or> 1 < cnt s p \<Longrightarrow>
          contents s' a = contents s a"
    and live_aligned: "0 < cnt s p \<Longrightarrow> page_aligned p"
begin

lemma alloc_keeps_live:
  assumes "inv s" and "alloc s = (r, s')" and "0 < cnt s x" and "in_page x a"
  shows "contents s' a = contents s a" and "cnt s' x = cnt s x"
proof -
  have "x \<noteq> r \<and> page_aligned r" if "r \<noteq> 0"
    using alloc_some [OF assms(1,2) that] assms(3) by auto
  then show "contents s' a = contents s a" "cnt s' x = cnt s x"
    using assms alloc_none alloc_contents [OF assms(2)] alloc_some [OF assms(1,2)]
      live_aligned [OF assms(3)] in_page_unique
    by (cases "r = 0"; force)+
qed

lemma free_keeps_live:
  assumes "inv s" and "free p s = Ok s'" and "0 < cnt s p" and "0 < cnt s x"
    and "x \<noteq> p \<or> 1 < cnt s p" and "in_page x a"
  shows "contents s' a = contents s a"
  using assms free_contents live_aligned in_page_unique by metis

primrec free_all :: "u64 list \<Rightarrow> 's \<Rightarrow> 's res" where
  "free_all [] s = Ok s"
| "free_all (p # ps) s = rbind (free p s) (free_all ps)"

lemma free_all_live:
  assumes "inv s" and "\<forall>x. count_list ps x \<le> cnt s x"
  shows "\<exists>s'. free_all ps s = Ok s' \<and> inv s' \<and> (\<forall>x. cnt s' x = cnt s x - count_list ps x)"
  using assms
proof (induction ps arbitrary: s)
  case Nil
  then show ?case by simp
next
  case (Cons p ps)
  have "count_list (p # ps) p \<le> cnt s p" using Cons.prems by blast
  then have "0 < cnt s p" by simp
  then obtain s1 where s1: "free p s = Ok s1" "inv s1" "cnt s1 = (cnt s)(p := cnt s p - 1)"
    using free_live [OF Cons.prems(1)] by blast
  have "count_list ps x \<le> cnt s1 x" for x
  proof (cases "x = p")
    case True
    then show ?thesis using spec [OF Cons.prems(2), of p] s1 by simp
  next
    case False
    then show ?thesis using spec [OF Cons.prems(2), of x] s1 by simp
  qed
  then show ?case using Cons.IH [OF s1(2)] s1 by auto
qed

lemma alloc_free_cnt:
  assumes "inv s" and "alloc s = (r, s1)" and "r \<noteq> 0"
  shows "\<exists>s2. free r s1 = Ok s2 \<and> inv s2 \<and> cnt s2 = cnt s"
proof -
  note a = alloc_some [OF assms]
  then have "0 < cnt s1 r" by simp
  from free_live [OF alloc_inv [OF assms(1,2)] this] obtain s2
    where "free r s1 = Ok s2" "inv s2" "cnt s2 = (cnt s1)(r := cnt s1 r - 1)" by blast
  with a show ?thesis by (auto simp: fun_eq_iff)
qed

end

lemma kalloc_inv_cases:
  assumes "kmem_inv s" and "kalloc s = (r, s')"
  obtains (none) "r = 0" "s' = s" "\<forall>pa\<in>managed s. refcnt s pa \<noteq> 0"
  | (some) "r \<noteq> 0" "r \<in> managed s" "refcnt s r = 0" "refcnt s' = (refcnt s)(r := 1)" "kmem_inv s'"
proof -
  obtain xs where xs: "kmem_wf s xs" using assms(1) by (auto simp: kmem_inv_def)
  show thesis
  proof (cases xs)
    case Nil
    then have "r = 0" "s' = s" using kalloc_Nil [of s] xs assms(2) by auto
    moreover have "\<forall>pa\<in>managed s. refcnt s pa \<noteq> 0" using xs Nil by (auto simp: kmem_wf_def)
    ultimately show thesis by (rule none)
  next
    case (Cons x ys)
    with xs have xs: "kmem_wf s (x # ys)" by simp
    obtain t where "kalloc s = (x, t)" "kmem_wf t ys" "refcnt t = (refcnt s)(x := 1)"
      "x \<in> managed s" "refcnt s x = 0"
      by (rule kalloc_Cons [OF xs])
    moreover from xs have "x \<noteq> 0" by (simp add: kmem_wf_def)
    ultimately show thesis using some assms(2) by (auto simp: kmem_inv_def)
  qed
qed

lemma kfree_inv_live:
  assumes "kmem_inv s" and "0 < refcnt s pa"
  shows "\<exists>s'. kfree pa s = Ok s' \<and> kmem_inv s' \<and> refcnt s' = (refcnt s)(pa := refcnt s pa - 1)"
proof -
  obtain xs where xs: "kmem_wf s xs" using assms(1) by (auto simp: kmem_inv_def)
  have pa: "pa \<in> managed s" using assms(2) by (auto simp: refcnt_def split: if_splits)
  show ?thesis
  proof (cases "refcnt s pa = 1")
    case True
    obtain s' where "kfree pa s = Ok s'" "kmem_wf s' (pa # xs)" "refcnt s' = (refcnt s)(pa := 0)"
      by (rule kfree_last [OF xs pa True])
    then show ?thesis using True by (auto simp: kmem_inv_def)
  next
    case False
    then have "1 < refcnt s pa" using assms(2) by simp
    then obtain s' where "kfree pa s = Ok s'" "kmem_wf s' xs"
      "refcnt s' = (refcnt s)(pa := refcnt s pa - 1)"
      by (rule kfree_shared [OF xs pa])
    then show ?thesis by (auto simp: kmem_inv_def)
  qed
qed

interpretation kpages: page_alloc kmem_inv kalloc kfree refcnt pmem
proof unfold_locales
  fix s s' :: "'a kmem_st_scheme" and r p a :: u64
  show "kalloc s = (0, s') \<Longrightarrow> s' = s" by (auto simp: kalloc_def Let_def split: if_splits)
  show "kalloc s = (r, s') \<Longrightarrow> \<not> in_page r a \<Longrightarrow> pmem s' a = pmem s a" by (rule kalloc_frame(3))
  show "0 < refcnt s p \<Longrightarrow> page_aligned p" by (simp add: refcnt_def managed_def split: if_splits)
  show "kmem_inv s \<Longrightarrow> 0 < refcnt s p \<Longrightarrow>
      \<exists>s'. kfree p s = Ok s' \<and> kmem_inv s' \<and> refcnt s' = (refcnt s)(p := refcnt s p - 1)"
    by (rule kfree_inv_live)
  show "pmem s' a = pmem s a" if "kfree p s = Ok s'" "\<not> in_page p a \<or> 1 < refcnt s p"
    using kfree_frame [OF that(1)] that(2) by (auto simp: refcnt_def word_less_nat_alt)
  assume "kmem_inv s" and "kalloc s = (r, s')"
  then show "kmem_inv s'" "r \<noteq> 0 \<Longrightarrow>
      refcnt s r = 0 \<and> refcnt s' = (refcnt s)(r := 1) \<and> page_aligned r"
    by (cases rule: kalloc_inv_cases; auto simp: managed_def)+
qed

text \<open>Clients write only to live pages; such writes leave the allocator's data alone.\<close>

lemma refcnt_pmem [simp]: "refcnt (s\<lparr>pmem := m\<rparr>) = refcnt s"
  by (rule refcnt_cong) simp_all

lemma kmem_inv_write:
  assumes "kmem_inv s" and "\<And>x a. x \<in> managed s \<Longrightarrow> refcnt s x = 0 \<Longrightarrow> in_page x a \<Longrightarrow> m a = pmem s a"
  shows "kmem_inv (s\<lparr>pmem := m\<rparr>)"
proof -
  obtain xs where xs: "kmem_wf s xs" using assms(1) by (auto simp: kmem_inv_def)
  then have "fl_chain m (freelist s) xs = fl_chain (pmem s) (freelist s) xs"
    using assms(2) kmem_wf_aligned [OF xs] by (intro fl_chain_frame) (auto simp: kmem_wf_def)
  with xs have "kmem_wf (s\<lparr>pmem := m\<rparr>) xs" by (auto simp: kmem_wf_def)
  then show ?thesis by (auto simp: kmem_inv_def)
qed

lemma refcnt_managed: "0 < refcnt s q \<Longrightarrow> q \<in> managed s"
  by (simp add: refcnt_def split: if_splits)

lemma kmem_inv_kend: "kmem_inv s \<Longrightarrow> KERNBASE \<le> kend s \<and> kend s \<le> PHYSTOP"
  by (auto simp: kmem_inv_def kmem_wf_def)

lemma live_page_props:
  assumes "kmem_inv s" and "0 < refcnt s q"
  shows "page_aligned q" "q \<noteq> 0" "q < PHYSTOP" "KERNBASE \<le> q"
  using refcnt_managed [OF assms(2)] kmem_inv_kend [OF assms(1)] managed_nonzero [of q s]
  by (auto simp: managed_def)

lemma kmem_inv_write_page:
  assumes "kmem_inv s" and "0 < refcnt s q" and "\<And>a. \<not> in_page q a \<Longrightarrow> m a = pmem s a"
  shows "kmem_inv (s\<lparr>pmem := m\<rparr>)"
proof (rule kmem_inv_write [OF assms(1)])
  fix x a assume "x \<in> managed s" "refcnt s x = 0" "in_page x a"
  then have "\<not> in_page q a"
    using assms in_page_unique [of q x a] live_page_props(1) [OF assms(1,2)] by (auto simp: managed_def)
  then show "m a = pmem s a" by (rule assms(3))
qed

section \<open>Properties\<close>

text \<open>A machine with a single page above the kernel, for concrete runs.\<close>

definition one_page :: "u64 \<Rightarrow> u64 \<Rightarrow> kmem_st" where
  "one_page fl n = \<lparr>pmem = (\<lambda>_. 0), kend = 0x87FFF000, freelist = fl, kref = (\<lambda>_. n)\<rparr>"

lemma managed_one_page: "managed (one_page fl n) = {0x87FFF000}"
proof -
  have "pa = 0x87FFF000" if "page_aligned pa" "0x87FFF000 \<le> pa" "pa < PHYSTOP" for pa :: u64
    using that by (intro in_page_unique [of pa "0x87FFF000" pa])
      (auto simp: page_aligned_mod in_page_def word_less_nat_alt word_le_nat_alt unat_sub)
  moreover have "page_aligned 0x87FFF000" by (simp add: page_aligned_mod)
  ultimately show ?thesis by (auto simp: managed_def one_page_def)
qed

lemma refcnt_one_page: "refcnt (one_page fl n) 0x87FFF000 = unat n"
  by (simp add: refcnt_def managed_one_page) (simp add: one_page_def)

lemma kmem_inv_one_page:
  "kmem_inv (one_page 0x87FFF000 0)" "0 < n \<Longrightarrow> kmem_inv (one_page 0 n)"
proof -
  have ld: "ld64 (\<lambda>_. 0) a = 0" for a by (simp add: ld64_def)
  have "kmem_wf (one_page 0x87FFF000 0) [0x87FFF000]"
    unfolding kmem_wf_def managed_one_page by (simp add: refcnt_one_page) (simp add: one_page_def ld)
  then show "kmem_inv (one_page 0x87FFF000 0)" by (auto simp: kmem_inv_def)
  have "kmem_wf (one_page 0 n) []" if "0 < n"
    using that unfolding kmem_wf_def managed_one_page
    by (simp add: refcnt_one_page unat_eq_0) (simp add: one_page_def)
  then show "0 < n \<Longrightarrow> kmem_inv (one_page 0 n)" by (auto simp: kmem_inv_def)
qed

text \<open>
  C6: \<^verbatim>\<open>kalloc\<close> keeps the allocator's invariant. While some managed page has count 0 it
  returns such a page, sets exactly that count to 1, and writes no byte outside the page
  (which it fills with 5); otherwise it returns the null pointer and changes nothing.
\<close>

theorem kalloc_correct:
  assumes "kmem_inv s" and "kalloc s = (r, s')"
  shows "kmem_inv s' \<and>
         (if \<exists>pa\<in>managed s. refcnt s pa = 0
          then r \<in> managed s \<and> r \<noteq> 0 \<and> refcnt s r = 0 \<and> refcnt s' = (refcnt s)(r := 1) \<and>
            (\<forall>a. pmem s' a = (if in_page r a then 5 else pmem s a))
          else r = 0 \<and> s' = s)"
  using assms
proof (cases rule: kalloc_inv_cases)
  case none
  then show ?thesis using assms(1) by simp
next
  case some
  then show ?thesis using kalloc_frame(3,4) [OF assms(2)] by auto
qed

theorem kalloc_correct_witness:
  "fst (kalloc (one_page 0x87FFF000 0)) = 0x87FFF000 \<and>
   kmem_inv (snd (kalloc (one_page 0x87FFF000 0)))"
  using kalloc_correct [OF kmem_inv_one_page(1) prod.collapse [symmetric]]
  by (simp add: managed_one_page refcnt_one_page)

text \<open>
  C7: \<^verbatim>\<open>kfree\<close> panics exactly on an address that is not a managed page. On a live page it
  returns, keeps the invariant and lowers that page's count by one; while other references
  remain (count above 1) no byte of memory changes.
\<close>

theorem kfree_correct:
  assumes "kmem_inv s" and "pa \<in> managed s \<Longrightarrow> 0 < refcnt s pa"
  shows "if pa \<in> managed s
         then \<exists>s'. kfree pa s = Ok s' \<and> kmem_inv s' \<and> refcnt s' = (refcnt s)(pa := refcnt s pa - 1) \<and>
           (1 < refcnt s pa \<longrightarrow> pmem s' = pmem s)
         else kfree pa s = Panic ''kfree''"
proof (cases "pa \<in> managed s")
  case True
  then obtain s' where s': "kfree pa s = Ok s'" "kmem_inv s'"
    "refcnt s' = (refcnt s)(pa := refcnt s pa - 1)"
    using kpages.free_live assms by blast
  have "pmem s' = pmem s" if "1 < refcnt s pa"
    using kpages.free_contents [OF assms(1) s'(1)] that by blast
  with True s' show ?thesis by auto
next
  case False
  then show ?thesis by (simp add: kfree_panics)
qed

theorem kfree_correct_witness:
  "(\<exists>s'. kfree 0x87FFF000 (one_page 0 2) = Ok s' \<and> kmem_inv s' \<and> refcnt s' 0x87FFF000 = 1) \<and>
   kfree 0x87FFF001 (one_page 0 2) = Panic ''kfree''"
  using kfree_correct [OF kmem_inv_one_page(2), of 2 "0x87FFF000"]
    kfree_correct [OF kmem_inv_one_page(2), of 2 "0x87FFF001"]
  by (auto simp: managed_one_page refcnt_one_page)

text \<open>
  C12: \<^verbatim>\<open>kinit\<close> on the zeroed kernel data returns, makes every managed page free (so each can
  be allocated once before \<^verbatim>\<open>kalloc\<close> fails) and establishes the invariant.
\<close>

theorem kinit_correct:
  assumes "KERNBASE \<le> kend s" and "kend s \<le> PHYSTOP" and "freelist s = 0" and "kref s = (\<lambda>_. 0)"
  shows "\<exists>s'. kinit s = Ok s' \<and> kmem_inv s' \<and> kend s' = kend s \<and> (\<forall>pa. refcnt s' pa = 0)"
proof -
  obtain s' ys where s': "kinit s = Ok s'" "kmem_wf s' ys" "set ys = managed s" "kend s' = kend s"
    using kinit_boots [OF assms(1-3)] assms(4) by auto
  have "refcnt s' pa = 0" for pa
    using s' managed_cong [OF s'(4)] by (cases "pa \<in> managed s") (auto simp: kmem_wf_def refcnt_def)
  with s' show ?thesis by (auto simp: kmem_inv_def)
qed

theorem kinit_correct_witness: "\<exists>s'. kinit (one_page 0 0) = Ok s' \<and> kmem_inv s'"
  using kinit_correct [of "one_page 0 0"] by (auto simp: one_page_def)

text \<open>
  C17: \<^verbatim>\<open>calculate_free_ram\<close> always ends on a well-formed list, but it counts one page too few:
  with \<open>n + 1\<close> free pages it reports \<open>4096 * n\<close> bytes, and with no free page it dereferences
  the null pointer.
\<close>

theorem calculate_free_ram_off_by_one:
  assumes "kmem_wf s xs"
  shows "calculate_free_ram s =
           (if xs = [] then Some (Panic ''kerneltrap'')
            else Some (Ok (4096 * of_nat (length xs - 1))))"
  using assms free_ram_loop_chain [of "pmem s" "freelist s" _ _ 0]
  by (cases xs) (auto simp: calculate_free_ram_def kmem_wf_def)

theorem calculate_free_ram_off_by_one_witness:
  "calculate_free_ram (one_page 0x87FFF000 0) = Some (Ok 0)"
proof -
  have ld: "ld64 (\<lambda>_. 0) a = 0" for a by (simp add: ld64_def)
  have "kmem_wf (one_page 0x87FFF000 0) [0x87FFF000]"
    unfolding kmem_wf_def managed_one_page by (simp add: refcnt_one_page) (simp add: one_page_def ld)
  from calculate_free_ram_off_by_one [OF this] show ?thesis by simp
qed

end
