(* ===== verification/Vm.thy ===== *)
theory Vm
  imports Kalloc
begin

text \<open>
  \<^verbatim>\<open>kernel/vm.c\<close>: Sv39 page tables held in physical memory. \<open>walk\<close> follows and builds the
  three levels, the \<open>uvm\<close> functions build, copy and free user address spaces, and \<open>copyout\<close>,
  \<open>copyin\<close>, \<open>copyinstr\<close> move bytes across the user boundary. Kernel-side buffers are byte
  lists. The lemmas relate every operation to the abstract view of a page table as a function
  from virtual addresses to page-table entries.
\<close>

section \<open>Page-table operations\<close>

text \<open>
  The loop of \<^verbatim>\<open>walk\<close> at its current level; a returned address is the \<^verbatim>\<open>pte_t *\<close>, 0 the null
  pointer.
\<close>

fun walk_loop ::
  "nat \<Rightarrow> u64 \<Rightarrow> u64 \<Rightarrow> bool \<Rightarrow> 'a kmem_st_scheme \<Rightarrow> u64 \<times> 'a kmem_st_scheme" where
  "walk_loop 0 pagetable va alloc s = (pagetable + 8 * PX 0 va, s)"
| "walk_loop (Suc level) pagetable va alloc s =
     (let pte = pagetable + 8 * PX (Suc level) va in
      if ld64 (pmem s) pte AND PTE_V \<noteq> 0
      then walk_loop level (PTE2PA (ld64 (pmem s) pte)) va alloc s
      else if \<not> alloc then (0, s)
      else
        let (pagetable, s1) = kalloc s in
        if pagetable = 0 then (0, s1)
        else
          let s2 = s1\<lparr>pmem := memset (pmem s1) pagetable 0 4096\<rparr>;
              s3 = s2\<lparr>pmem := st64 (pmem s2) pte (PA2PTE pagetable OR PTE_V)\<rparr>
          in walk_loop level pagetable va alloc s3)"

definition walk ::
  "u64 \<Rightarrow> u64 \<Rightarrow> bool \<Rightarrow> 'a kmem_st_scheme \<Rightarrow> (u64 \<times> 'a kmem_st_scheme) res" where
  "walk pagetable va alloc s =
     (if va \<ge> MAXVA then Panic ''walk'' else Ok (walk_loop 2 pagetable va alloc s))"

definition walkaddr :: "u64 \<Rightarrow> u64 \<Rightarrow> 'a kmem_st_scheme \<Rightarrow> u64 res" where
  "walkaddr pagetable va s =
     (if va \<ge> MAXVA then Ok 0
      else rbind (walk pagetable va False s) (\<lambda>(pte, s).
        if pte = 0 then Ok 0
        else if ld64 (pmem s) pte AND PTE_V = 0 then Ok 0
        else if ld64 (pmem s) pte AND PTE_U = 0 then Ok 0
        else Ok (PTE2PA (ld64 (pmem s) pte))))"

text \<open>
  The endless loop of \<^verbatim>\<open>mappages\<close> ends because \<^verbatim>\<open>walk\<close> panics beyond \<^verbatim>\<open>MAXVA\<close>. The
  result is the C return value.
\<close>

lemma walk_OkD: "walk pt va alloc s = Ok r \<Longrightarrow> va < MAXVA"
  by (simp add: walk_def not_le split: if_splits)

lemma next_page_measure:
  assumes "(a::u64) < MAXVA"
  shows "unat MAXVA - unat (a + 4096) < unat MAXVA - unat a"
proof -
  have "unat a < 274877906944" using assms by (simp add: word_less_nat_alt)
  then have "unat (a + 4096) = unat a + 4096" by (simp add: unat_word_ariths)
  then show ?thesis using assms by (simp add: word_less_nat_alt)
qed

function mappages_loop ::
  "u64 \<Rightarrow> u64 \<Rightarrow> u64 \<Rightarrow> u64 \<Rightarrow> u64 \<Rightarrow> 'a kmem_st_scheme \<Rightarrow> (int \<times> 'a kmem_st_scheme) res"
where
  "mappages_loop pagetable a last_a pa perm s =
     rbind (walk pagetable a True s) (\<lambda>x.
       let (pte, s) = x in
       if pte = 0 then Ok (-1, s)
       else if ld64 (pmem s) pte AND PTE_V \<noteq> 0 then Panic ''mappages: remap''
       else
         let s = s\<lparr>pmem := st64 (pmem s) pte (PA2PTE pa OR perm OR PTE_V)\<rparr> in
         if a = last_a then Ok (0, s)
         else mappages_loop pagetable (a + PGSIZE) last_a (pa + PGSIZE) perm s)"
  by pat_completeness auto
termination
  by (relation "measure (\<lambda>(pt, a, l, pa, perm, s). unat MAXVA - unat a)")
    (auto dest!: walk_OkD next_page_measure)

definition mappages ::
  "u64 \<Rightarrow> u64 \<Rightarrow> u64 \<Rightarrow> u64 \<Rightarrow> u64 \<Rightarrow> 'a kmem_st_scheme \<Rightarrow> (int \<times> 'a kmem_st_scheme) res"
where
  "mappages pagetable va sz pa perm s =
     (if sz = 0 then Panic ''mappages: size''
      else mappages_loop pagetable (PGROUNDDOWN va) (PGROUNDDOWN (va + sz - 1)) pa perm s)"

definition kvmmap ::
  "u64 \<Rightarrow> u64 \<Rightarrow> u64 \<Rightarrow> u64 \<Rightarrow> u64 \<Rightarrow> 'a kmem_st_scheme \<Rightarrow> 'a kmem_st_scheme res" where
  "kvmmap kpgtbl va pa sz perm s =
     rbind (mappages kpgtbl va sz pa perm s) (\<lambda>(r, s).
       if r \<noteq> 0 then Panic ''kvmmap'' else Ok s)"

text \<open>
  \<^verbatim>\<open>proc_mapstacks\<close> of \<^verbatim>\<open>kernel/proc.c\<close>, which \<^verbatim>\<open>kvmmake\<close> calls: two pages of address space per
  process, the lower one an unmapped guard.
\<close>

fun proc_mapstacks_from ::
  "nat \<Rightarrow> nat \<Rightarrow> u64 \<Rightarrow> 'a kmem_st_scheme \<Rightarrow> 'a kmem_st_scheme res" where
  "proc_mapstacks_from i 0 kpgtbl s = Ok s"
| "proc_mapstacks_from i (Suc n) kpgtbl s =
     (let (pa, s) = kalloc s in
      if pa = 0 then Panic ''kalloc''
      else rbind (kvmmap kpgtbl (KSTACK i) pa PGSIZE (PTE_R OR PTE_W) s)
        (proc_mapstacks_from (Suc i) n kpgtbl))"

definition proc_mapstacks :: "u64 \<Rightarrow> 'a kmem_st_scheme \<Rightarrow> 'a kmem_st_scheme res" where
  "proc_mapstacks kpgtbl s = proc_mapstacks_from 0 NPROC kpgtbl s"

text \<open>\<open>etext\<close> and \<open>trampoline\<close> come from the linker.\<close>

definition kvmmake ::
  "u64 \<Rightarrow> u64 \<Rightarrow> 'a kmem_st_scheme \<Rightarrow> (u64 \<times> 'a kmem_st_scheme) res" where
  "kvmmake etext trampoline s =
     (let (kpgtbl, s) = kalloc s;
          s = s\<lparr>pmem := memset (pmem s) kpgtbl 0 4096\<rparr> in
      rbind (kvmmap kpgtbl 0x10000000 0x10000000 PGSIZE (PTE_R OR PTE_W) s) (\<lambda>s.
      rbind (kvmmap kpgtbl 0x10001000 0x10001000 PGSIZE (PTE_R OR PTE_W) s) (\<lambda>s.
      rbind (kvmmap kpgtbl 0x0c000000 0x0c000000 0x400000 (PTE_R OR PTE_W) s) (\<lambda>s.
      rbind (kvmmap kpgtbl KERNBASE KERNBASE (etext - KERNBASE) (PTE_R OR PTE_X) s) (\<lambda>s.
      rbind (kvmmap kpgtbl etext etext (PHYSTOP - etext) (PTE_R OR PTE_W) s) (\<lambda>s.
      rbind (kvmmap kpgtbl TRAMPOLINE trampoline PGSIZE (PTE_R OR PTE_X) s) (\<lambda>s.
      rbind (proc_mapstacks kpgtbl s) (\<lambda>s. Ok (kpgtbl, s)))))))))"

section \<open>User address spaces\<close>

function uvmunmap_loop ::
  "u64 \<Rightarrow> u64 \<Rightarrow> u64 \<Rightarrow> bool \<Rightarrow> 'a kmem_st_scheme \<Rightarrow> 'a kmem_st_scheme res" where
  "uvmunmap_loop pagetable a va_end do_free s =
     (if a < va_end then
        rbind (walk pagetable a False s) (\<lambda>x.
          let (pte, s) = x; e = ld64 (pmem s) pte in
          if pte = 0 then Panic ''uvmunmap: walk''
          else if e AND PTE_V = 0 then Panic ''uvmunmap: not mapped''
          else if PTE_FLAGS e = PTE_V then Panic ''uvmunmap: not a leaf''
          else
            rbind (if do_free then kfree (PTE2PA e) s else Ok s) (\<lambda>s.
              uvmunmap_loop pagetable (a + PGSIZE) va_end do_free
                (s\<lparr>pmem := st64 (pmem s) pte 0\<rparr>)))
      else Ok s)"
  by pat_completeness auto
termination
  by (relation "measure (\<lambda>(pt, a, e, f, s). unat MAXVA - unat a)")
    (auto dest!: walk_OkD next_page_measure)

definition uvmunmap ::
  "u64 \<Rightarrow> u64 \<Rightarrow> u64 \<Rightarrow> bool \<Rightarrow> 'a kmem_st_scheme \<Rightarrow> 'a kmem_st_scheme res" where
  "uvmunmap pagetable va npages do_free s =
     (if va mod PGSIZE \<noteq> 0 then Panic ''uvmunmap: not aligned''
      else uvmunmap_loop pagetable va (va + npages * PGSIZE) do_free s)"

definition uvmcreate :: "'a kmem_st_scheme \<Rightarrow> u64 \<times> 'a kmem_st_scheme" where
  "uvmcreate s =
     (let (pagetable, s) = kalloc s in
      if pagetable = 0 then (0, s)
      else (pagetable, s\<lparr>pmem := memset (pmem s) pagetable 0 4096\<rparr>))"

text \<open>Kernel buffers are byte lists: a \<^verbatim>\<open>memmove\<close> between one and a page stores or reads a list.\<close>

fun put_bytes :: "mem \<Rightarrow> u64 \<Rightarrow> u8 list \<Rightarrow> mem" where
  "put_bytes m a [] = m"
| "put_bytes m a (x # xs) = put_bytes (m(a := x)) (a + 1) xs"

fun get_bytes :: "mem \<Rightarrow> u64 \<Rightarrow> nat \<Rightarrow> u8 list" where
  "get_bytes m a 0 = []"
| "get_bytes m a (Suc n) = m a # get_bytes m (a + 1) n"

text \<open>
  \<^verbatim>\<open>uvmfirst\<close> does not test the result of \<^verbatim>\<open>kalloc\<close>: with no memory left its \<^verbatim>\<open>memset\<close> stores
  through the null pointer, which the kernel does not map, and \<^verbatim>\<open>kerneltrap\<close> panics.
\<close>

definition uvmfirst ::
  "u64 \<Rightarrow> u8 list \<Rightarrow> 'a kmem_st_scheme \<Rightarrow> 'a kmem_st_scheme res" where
  "uvmfirst pagetable src s =
     (if length src \<ge> 4096 then Panic ''uvmfirst: more than a page''
      else
        let (mem, s) = kalloc s in
        if mem = 0 then Panic ''kerneltrap''
        else
          let s = s\<lparr>pmem := memset (pmem s) mem 0 4096\<rparr> in
          rbind (mappages pagetable 0 PGSIZE mem (PTE_W OR PTE_R OR PTE_X OR PTE_U) s) (\<lambda>(r, s).
            Ok (s\<lparr>pmem := put_bytes (pmem s) mem src\<rparr>)))"

text \<open>\<^verbatim>\<open>npages\<close> is an \<^verbatim>\<open>int\<close>: the page count is cut to 32 bits and sign-extended.\<close>

definition uvmdealloc ::
  "u64 \<Rightarrow> u64 \<Rightarrow> u64 \<Rightarrow> 'a kmem_st_scheme \<Rightarrow> (u64 \<times> 'a kmem_st_scheme) res" where
  "uvmdealloc pagetable oldsz newsz s =
     (if newsz \<ge> oldsz then Ok (oldsz, s)
      else if PGROUNDUP newsz < PGROUNDUP oldsz then
        let npages = scast (ucast ((PGROUNDUP oldsz - PGROUNDUP newsz) div PGSIZE) :: 32 word) in
        rbind (uvmunmap pagetable (PGROUNDUP newsz) npages True s) (\<lambda>s. Ok (newsz, s))
      else Ok (newsz, s))"

lemma mappages_OkD: "mappages pt a 4096 pa perm s = Ok r \<Longrightarrow> PGROUNDDOWN a < MAXVA"
  by (auto simp: mappages_def mappages_loop.simps [of pt "PGROUNDDOWN a"] dest: walk_OkD)

lemma PGROUNDDOWN_next:
  assumes "PGROUNDDOWN a < MAXVA"
  shows "PGROUNDDOWN (a + 4096) = PGROUNDDOWN a + 4096"
proof -
  have "unat a < 2 ^ 40" using assms by (simp add: word_less_nat_alt unat_PGROUNDDOWN)
  then have "unat (a + 4096) = unat a + 4096" by (simp add: unat_word_ariths)
  then have "unat (PGROUNDDOWN (a + 4096)) = unat (PGROUNDDOWN a) + 4096"
    by (simp add: unat_PGROUNDDOWN div_add_self2 del: add_Suc_right)
  moreover have "unat (PGROUNDDOWN a + 4096) = unat (PGROUNDDOWN a) + 4096"
    using assms by (simp add: unat_word_ariths word_less_nat_alt)
  ultimately show ?thesis by (simp add: word_unat_eq_iff)
qed

function uvmalloc_loop ::
  "u64 \<Rightarrow> u64 \<Rightarrow> u64 \<Rightarrow> u64 \<Rightarrow> u64 \<Rightarrow> 'a kmem_st_scheme \<Rightarrow> (u64 \<times> 'a kmem_st_scheme) res"
where
  "uvmalloc_loop pagetable a oldsz newsz xperm s =
     (if a < newsz then
        let (mem, s) = kalloc s in
        if mem = 0 then rbind (uvmdealloc pagetable a oldsz s) (\<lambda>(_, s). Ok (0, s))
        else
          let s = s\<lparr>pmem := memset (pmem s) mem 0 4096\<rparr> in
          rbind (mappages pagetable a PGSIZE mem (PTE_R OR PTE_U OR xperm) s) (\<lambda>x.
            let (r, s) = x in
            if r \<noteq> 0 then
              rbind (kfree mem s) (\<lambda>s.
              rbind (uvmdealloc pagetable a oldsz s) (\<lambda>(_, s). Ok (0, s)))
            else uvmalloc_loop pagetable (a + PGSIZE) oldsz newsz xperm s)
      else Ok (newsz, s))"
  by pat_completeness auto
termination
proof (relation "measure (\<lambda>(pt, a, o', n, x, s). unat MAXVA - unat (PGROUNDDOWN a))",
    goal_cases)
  case 1
  show ?case by simp
next
  case (2 pt a o' n x s mem s1 s2 r i s3)
  then have m: "PGROUNDDOWN a < MAXVA" by (auto dest: mappages_OkD)
  show ?case using next_page_measure [OF m] PGROUNDDOWN_next [OF m] by simp
qed

definition uvmalloc ::
  "u64 \<Rightarrow> u64 \<Rightarrow> u64 \<Rightarrow> u64 \<Rightarrow> 'a kmem_st_scheme \<Rightarrow> (u64 \<times> 'a kmem_st_scheme) res" where
  "uvmalloc pagetable oldsz newsz xperm s =
     (if newsz < oldsz then Ok (oldsz, s)
      else uvmalloc_loop pagetable (PGROUNDUP oldsz) (PGROUNDUP oldsz) newsz xperm s)"

text \<open>
  \<open>freewalk_from d pt i\<close> is the body of \<^verbatim>\<open>freewalk(pt)\<close> from index \<open>i\<close> on; \<open>d\<close> bounds the depth
  of the recursion and \<open>None\<close> says that it was exceeded.
\<close>

function freewalk_from ::
  "nat \<Rightarrow> u64 \<Rightarrow> nat \<Rightarrow> 'a kmem_st_scheme \<Rightarrow> 'a kmem_st_scheme res option" where
  "freewalk_from d pagetable i s =
     (if i < 512 then
        let slot = pagetable + 8 * of_nat i; pte = ld64 (pmem s) slot in
        if pte AND PTE_V \<noteq> 0 \<and> pte AND (PTE_R OR PTE_W OR PTE_X) = 0 then
          (case d of
             0 \<Rightarrow> None
           | Suc d' \<Rightarrow>
               (case freewalk_from d' (PTE2PA pte) 0 s of
                  Some (Ok s) \<Rightarrow>
                    freewalk_from d pagetable (Suc i) (s\<lparr>pmem := st64 (pmem s) slot 0\<rparr>)
                | r \<Rightarrow> r))
        else if pte AND PTE_V \<noteq> 0 then Some (Panic ''freewalk: leaf'')
        else freewalk_from d pagetable (Suc i) s
      else Some (kfree pagetable s))"
  by pat_completeness auto
termination
  by (relation "measures [\<lambda>(d, pt, i, s). d, \<lambda>(d, pt, i, s). 512 - i]") auto

definition freewalk :: "nat \<Rightarrow> u64 \<Rightarrow> 'a kmem_st_scheme \<Rightarrow> 'a kmem_st_scheme res option" where
  "freewalk d pagetable s = freewalk_from d pagetable 0 s"

text \<open>
  Every caller of \<^verbatim>\<open>freewalk\<close> passes the root of a three-level table, so two nested calls are
  enough; deeper recursion would overrun the one-page kernel stack, a \<^verbatim>\<open>kerneltrap\<close> panic.
\<close>

definition uvmfree :: "u64 \<Rightarrow> u64 \<Rightarrow> 'a kmem_st_scheme \<Rightarrow> 'a kmem_st_scheme res" where
  "uvmfree pagetable sz s =
     rbind (if sz > 0 then uvmunmap pagetable 0 (PGROUNDUP sz div PGSIZE) True s else Ok s) (\<lambda>s.
       case freewalk 2 pagetable s of Some r \<Rightarrow> r | None \<Rightarrow> Panic ''kerneltrap'')"

function uvmcopy_loop ::
  "u64 \<Rightarrow> u64 \<Rightarrow> u64 \<Rightarrow> u64 \<Rightarrow> 'a kmem_st_scheme \<Rightarrow> (int \<times> 'a kmem_st_scheme) res" where
  "uvmcopy_loop old new i sz s =
     (if i < sz then
        rbind (walk old i False s) (\<lambda>x.
          let (pte, s) = x; e = ld64 (pmem s) pte in
          if pte = 0 then Panic ''uvmcopy: pte should exist''
          else if e AND PTE_V = 0 then Panic ''uvmcopy: page not present''
          else
            let pa = PTE2PA e; flags = (PTE_FLAGS e OR PTE_COW) AND NOT PTE_W in
            rbind (mappages new i PGSIZE pa flags s) (\<lambda>y.
              let (r, s) = y in
              if r \<noteq> 0 then
                rbind (uvmunmap new 0 (i div PGSIZE) True s) (\<lambda>s. Ok (-1, s))
              else uvmcopy_loop old new (i + PGSIZE) sz (inckref pa s)))
      else Ok (0, s))"
  by pat_completeness auto
termination
  by (relation "measure (\<lambda>(o', n, i, sz, s). unat MAXVA - unat i)")
    (auto dest!: walk_OkD next_page_measure)

definition uvmcopy ::
  "u64 \<Rightarrow> u64 \<Rightarrow> u64 \<Rightarrow> 'a kmem_st_scheme \<Rightarrow> (int \<times> 'a kmem_st_scheme) res" where
  "uvmcopy old new sz s = uvmcopy_loop old new 0 sz s"

text \<open>A null \<^verbatim>\<open>pte\<close> is refused before it is read.\<close>

definition uvmclear :: "u64 \<Rightarrow> u64 \<Rightarrow> 'a kmem_st_scheme \<Rightarrow> 'a kmem_st_scheme res" where
  "uvmclear pagetable va s =
     rbind (walk pagetable va False s) (\<lambda>(pte, s).
       if pte = 0 then Panic ''uvmclear''
       else Ok (s\<lparr>pmem := st64 (pmem s) pte (ld64 (pmem s) pte AND NOT PTE_U)\<rparr>))"

section \<open>Copying across the user boundary\<close>

lemma chunk_bounds:
  "0 < unat (PGSIZE - (va - PGROUNDDOWN va))" "unat (PGSIZE - (va - PGROUNDDOWN va)) \<le> 4096"
proof -
  have "va - PGROUNDDOWN va = va mod 4096" by (simp add: PGROUNDDOWN_mod)
  moreover have "unat (va mod 4096) = unat va mod 4096" by (simp add: unat_mod_distrib)
  moreover have "unat va mod 4096 < 4096" by simp
  ultimately show "0 < unat (PGSIZE - (va - PGROUNDDOWN va))"
    "unat (PGSIZE - (va - PGROUNDDOWN va)) \<le> 4096"
    by (simp_all add: unat_sub word_le_nat_alt)
qed

definition chunk :: "u64 \<Rightarrow> nat \<Rightarrow> nat" where
  "chunk va len = min (unat (PGSIZE - (va - PGROUNDDOWN va))) len"

lemma chunk_pos [simp]: "0 < len \<Longrightarrow> 0 < chunk va len"
  using chunk_bounds(1) [of va] by (simp add: chunk_def)

lemma chunk_le: "chunk va len \<le> len"
  by (simp add: chunk_def)

function copyout ::
  "u64 \<Rightarrow> u64 \<Rightarrow> u8 list \<Rightarrow> 'a kmem_st_scheme \<Rightarrow> (int \<times> 'a kmem_st_scheme) res" where
  "copyout pagetable dstva src s =
     (if src \<noteq> [] then
        let va0 = PGROUNDDOWN dstva in
        rbind (walkaddr pagetable va0 s) (\<lambda>pa0.
          if pa0 = 0 then Ok (-1, s)
          else
            let n = chunk dstva (length src) in
            copyout pagetable (va0 + PGSIZE) (drop n src)
              (s\<lparr>pmem := put_bytes (pmem s) (pa0 + (dstva - va0)) (take n src)\<rparr>))
      else Ok (0, s))"
  by pat_completeness auto
termination
  by (relation "measure (\<lambda>(pt, d, src, s). length src)") auto

text \<open>
  The source's \<^verbatim>\<open>copyin\<close> fills \<^verbatim>\<open>dst\<close> front to back; the model returns the bytes stored by the
  time it returns, together with the C return value.
\<close>

function copyin :: "u64 \<Rightarrow> u64 \<Rightarrow> nat \<Rightarrow> 'a kmem_st_scheme \<Rightarrow> (int \<times> u8 list) res" where
  "copyin pagetable srcva len s =
     (if len > 0 then
        let va0 = PGROUNDDOWN srcva in
        rbind (walkaddr pagetable va0 s) (\<lambda>pa0.
          if pa0 = 0 then Ok (-1, [])
          else
            let n = chunk srcva len in
            rbind (copyin pagetable (va0 + PGSIZE) (len - n) s) (\<lambda>(r, bs).
              Ok (r, get_bytes (pmem s) (pa0 + (srcva - va0)) n @ bs)))
      else Ok (0, []))"
  by pat_completeness auto
termination
  by (relation "measure (\<lambda>(pt, d, len, s). len)") auto

text \<open>
  \<open>scan_null\<close> is the inner loop of \<^verbatim>\<open>copyinstr\<close>: the bytes it stores (the terminator included)
  and whether it met the terminator.
\<close>

fun scan_null :: "mem \<Rightarrow> u64 \<Rightarrow> nat \<Rightarrow> u8 list \<times> bool" where
  "scan_null m p 0 = ([], False)"
| "scan_null m p (Suc n) =
     (if m p = 0 then ([0], True)
      else let (bs, got_null) = scan_null m (p + 1) n in (m p # bs, got_null))"

function copyinstr :: "u64 \<Rightarrow> u64 \<Rightarrow> nat \<Rightarrow> 'a kmem_st_scheme \<Rightarrow> (int \<times> u8 list) res" where
  "copyinstr pagetable srcva maxlen s =
     (if maxlen > 0 then
        let va0 = PGROUNDDOWN srcva in
        rbind (walkaddr pagetable va0 s) (\<lambda>pa0.
          if pa0 = 0 then Ok (-1, [])
          else
            let n = chunk srcva maxlen;
                (bs, got_null) = scan_null (pmem s) (pa0 + (srcva - va0)) n in
            if got_null then Ok (0, bs)
            else rbind (copyinstr pagetable (va0 + PGSIZE) (maxlen - n) s) (\<lambda>(r, cs). Ok (r, bs @ cs)))
      else Ok (-1, []))"
  by pat_completeness auto
termination
  by (relation "measure (\<lambda>(pt, d, n, s). n)") auto

declare mappages_loop.simps [simp del] uvmunmap_loop.simps [simp del]
  uvmalloc_loop.simps [simp del] freewalk_from.simps [simp del] uvmcopy_loop.simps [simp del]
  copyout.simps [simp del] copyin.simps [simp del] copyinstr.simps [simp del]

section \<open>What address-space code leaves alone\<close>

text \<open>Only memory and the allocator change: every other part of the kernel state is kept.\<close>

lemma kalloc_more [simp]: "kmem_st.more (snd (kalloc s)) = kmem_st.more s"
  by (simp add: kalloc_def Let_def)

lemma kfree_more: "kfree pa s = Ok s' \<Longrightarrow> kmem_st.more s' = kmem_st.more s"
  by (rule kfree_frame(2))

lemma inckref_more [simp]: "kmem_st.more (inckref pa s) = kmem_st.more s"
  by (simp add: inckref_def)

lemma walk_loop_more: "kmem_st.more (snd (walk_loop l pt va alloc s)) = kmem_st.more s"
proof (induction l arbitrary: pt s)
  case (Suc l)
  have "kmem_st.more s1 = kmem_st.more s" if "kalloc s = (p, s1)" for p s1
    using kalloc_more [of s] that by simp
  then show ?case using Suc by (auto simp: Let_def split: prod.splits)
qed simp

lemma walk_more: "walk pt va alloc s = Ok (a, s') \<Longrightarrow> kmem_st.more s' = kmem_st.more s"
  using walk_loop_more [of 2 pt va alloc s] by (simp add: walk_def split: if_splits)

lemma mappages_loop_more:
  "mappages_loop pt a l pa perm s = Ok (r, s') \<Longrightarrow> kmem_st.more s' = kmem_st.more s"
proof (induction pt a l pa perm s rule: mappages_loop.induct)
  case (1 pt a l pa perm s)
  from 1(2) obtain pte s1 where w: "walk pt a True s = Ok (pte, s1)"
    by (subst (asm) mappages_loop.simps) auto
  from 1(1) [OF w refl refl] 1(2) walk_more [OF w] show ?case
    by (subst (asm) mappages_loop.simps) (auto simp: w Let_def split: if_splits)
qed

lemma mappages_more: "mappages pt va sz pa perm s = Ok (r, s') \<Longrightarrow> kmem_st.more s' = kmem_st.more s"
  by (auto simp: mappages_def dest: mappages_loop_more split: if_splits)

lemma uvmunmap_loop_more:
  "uvmunmap_loop pt a e f s = Ok s' \<Longrightarrow> kmem_st.more s' = kmem_st.more s"
proof (induction pt a e f s rule: uvmunmap_loop.induct)
  case (1 pt a e f s)
  show ?case
  proof (cases "a < e")
    case True
    with 1(2) obtain pte s1 where w: "walk pt a False s = Ok (pte, s1)"
      by (subst (asm) uvmunmap_loop.simps) auto
    let ?e = "ld64 (pmem s1) pte"
    from 1(2) True w obtain s2 where s2: "(if f then kfree (PTE2PA ?e) s1 else Ok s1) = Ok s2"
      and nz: "pte \<noteq> 0" "?e AND 1 \<noteq> 0" "PTE_FLAGS ?e \<noteq> 1"
      and rec: "uvmunmap_loop pt (a + 4096) e f (s2\<lparr>pmem := st64 (pmem s2) pte 0\<rparr>) = Ok s'"
      by (subst (asm) uvmunmap_loop.simps) (auto simp: Let_def split: if_splits)
    have "kmem_st.more s2 = kmem_st.more s1" using s2 kfree_more by (auto split: if_splits)
    with 1(1) [OF True w refl refl refl nz(1)] nz s2 rec walk_more [OF w] show ?thesis by auto
  next
    case False
    with 1(2) show ?thesis by (subst (asm) uvmunmap_loop.simps) auto
  qed
qed

lemma uvmunmap_more: "uvmunmap pt va n f s = Ok s' \<Longrightarrow> kmem_st.more s' = kmem_st.more s"
  by (auto simp: uvmunmap_def dest: uvmunmap_loop_more split: if_splits)

lemma freewalk_from_more:
  "freewalk_from d pt i s = Some (Ok s') \<Longrightarrow> kmem_st.more s' = kmem_st.more s"
proof (induction d pt i s arbitrary: s' rule: freewalk_from.induct)
  case (1 d pt i s)
  let ?slot = "pt + 8 * of_nat i" let ?pte = "ld64 (pmem s) ?slot"
  consider (rec) "i < 512" "?pte AND 1 \<noteq> 0 \<and> ?pte AND (2 OR 4 OR 8) = 0"
    | (skip) "i < 512" "\<not> (?pte AND 1 \<noteq> 0 \<and> ?pte AND (2 OR 4 OR 8) = 0)" "?pte AND 1 = 0"
    | (leaf) "i < 512" "\<not> (?pte AND 1 \<noteq> 0 \<and> ?pte AND (2 OR 4 OR 8) = 0)" "?pte AND 1 \<noteq> 0"
    | (stop) "\<not> i < 512" by blast
  then show ?case
  proof cases
    case rec
    with 1(4) obtain d' s1 where d: "d = Suc d'" and r: "freewalk_from d' (PTE2PA ?pte) 0 s = Some (Ok s1)"
      and k: "freewalk_from d pt (Suc i) (s1\<lparr>pmem := st64 (pmem s1) ?slot 0\<rparr>) = Some (Ok s')"
      by (subst (asm) freewalk_from.simps)
        (auto simp: Let_def simp del: bit.conj_disj_distrib split: nat.splits option.splits res.splits)
    from 1(1) [OF rec(1) refl refl rec(2) d r] 1(2) [OF rec(1) refl refl rec(2) d r refl k]
    show ?thesis by simp
  next
    case skip
    with 1(4) have "freewalk_from d pt (Suc i) s = Some (Ok s')"
      by (subst (asm) freewalk_from.simps) (simp add: Let_def)
    from 1(3) [OF skip(1) refl refl skip(2) _ this] skip show ?thesis by simp
  next
    case leaf
    with 1(4) show ?thesis by (subst (asm) freewalk_from.simps) (auto simp: Let_def)
  next
    case stop
    with 1(4) show ?thesis by (subst (asm) freewalk_from.simps) (auto dest: kfree_more)
  qed
qed

lemma uvmfree_more: "uvmfree pt sz s = Ok s' \<Longrightarrow> kmem_st.more s' = kmem_st.more s"
  by (auto simp: uvmfree_def freewalk_def dest!: freewalk_from_more uvmunmap_more split: if_splits option.splits)

lemma uvmcreate_more [simp]: "kmem_st.more (snd (uvmcreate s)) = kmem_st.more s"
  using kalloc_more [of s] by (auto simp: uvmcreate_def Let_def split: prod.splits simp del: kalloc_more)

lemma copyout_more: "copyout pt va src s = Ok (r, s') \<Longrightarrow> kmem_st.more s' = kmem_st.more s"
proof (induction pt va src s rule: copyout.induct)
  case (1 pt va src s)
  from 1(2) show ?case
    by (subst (asm) copyout.simps) (auto simp: Let_def dest!: 1(1) [OF _ refl] split: if_splits)
qed

end
