(* ===== verification/Spinlock.thy ===== *)
theory Spinlock
  imports Prelude
begin

text \<open>
  \<^verbatim>\<open>kernel/spinlock.c\<close> on a machine with any number of harts. \<open>push_off\<close>, \<open>pop_off\<close> and \<open>holding\<close> are
  functions; \<open>acquire\<close> and \<open>release\<close> are split into the memory accesses the source makes, so that the
  step relation interleaves harts between the test-and-set and the store of \<^verbatim>\<open>lk->cpu\<close>, and between the
  two stores of \<open>release\<close>. Invariants by rule induction give mutual exclusion, correctness of
  \<open>holding\<close>, and interrupts staying off while a lock is held.
\<close>

section \<open>State and operations\<close>

record spinlock =
  sl_locked :: u32
  sl_cpu :: "nat option"         \<comment> \<open>hart holding the lock, \<open>None\<close> the null pointer\<close>

definition initlock :: "spinlock \<Rightarrow> spinlock" where
  "initlock lk = lk\<lparr>sl_locked := 0, sl_cpu := None\<rparr>"

record hart =
  h_noff :: int                  \<comment> \<open>\<^verbatim>\<open>mycpu()->noff\<close>\<close>
  h_intena :: bool               \<comment> \<open>\<^verbatim>\<open>mycpu()->intena\<close>\<close>
  h_intr :: bool                 \<comment> \<open>\<^verbatim>\<open>sstatus.SIE\<close>, read by \<^verbatim>\<open>intr_get\<close>\<close>

definition push_off :: "hart \<Rightarrow> hart" where
  "push_off c =
     (let old = h_intr c;
          c = c\<lparr>h_intr := False\<rparr>;
          c = (if h_noff c = 0 then c\<lparr>h_intena := old\<rparr> else c)
      in c\<lparr>h_noff := h_noff c + 1\<rparr>)"

definition pop_off :: "hart \<Rightarrow> hart res" where
  "pop_off c =
     (if h_intr c then Panic ''pop_off - interruptible''
      else if h_noff c < 1 then Panic ''pop_off''
      else
        let c = c\<lparr>h_noff := h_noff c - 1\<rparr> in
        Ok (if h_noff c = 0 \<and> h_intena c then c\<lparr>h_intr := True\<rparr> else c))"

definition holding :: "nat \<Rightarrow> spinlock \<Rightarrow> bool" where
  "holding me lk \<longleftrightarrow> sl_locked lk \<noteq> 0 \<and> sl_cpu lk = Some me"

text \<open>
  Where a hart stands: running with the listed locks acquired, or at one of the stores inside
  \<open>acquire\<close> or \<open>release\<close>.
\<close>

datatype pc =
    Run
  | Tas nat       \<comment> \<open>at the test-and-set of \<open>acquire\<close>\<close>
  | SetCpu nat    \<comment> \<open>test-and-set won, before \<^verbatim>\<open>lk->cpu = mycpu()\<close>\<close>
  | Unlock nat    \<comment> \<open>in \<open>release\<close>, before \<^verbatim>\<open>__sync_lock_release\<close>\<close>
  | PopOff        \<comment> \<open>at the end of \<open>release\<close>\<close>

record smp =
  m_lock :: "nat \<Rightarrow> spinlock"
  m_hart :: "nat \<Rightarrow> hart"
  m_pc :: "nat \<Rightarrow> pc"
  m_held :: "nat \<Rightarrow> nat list"

text \<open>The source's panics end the machine, so they are not steps.\<close>

inductive lock_step :: "nat \<Rightarrow> smp \<Rightarrow> smp \<Rightarrow> bool" for h where
  acquire_enter: "m_pc s h = Run \<Longrightarrow> c = push_off (m_hart s h) \<Longrightarrow> \<not> holding h (m_lock s l) \<Longrightarrow>
    lock_step h s (s\<lparr>m_hart := (m_hart s)(h := c), m_pc := (m_pc s)(h := Tas l)\<rparr>)"
| acquire_spin: "m_pc s h = Tas l \<Longrightarrow> sl_locked (m_lock s l) \<noteq> 0 \<Longrightarrow>
    lock_step h s (s\<lparr>m_lock := (m_lock s)(l := (m_lock s l)\<lparr>sl_locked := 1\<rparr>)\<rparr>)"
| acquire_win: "m_pc s h = Tas l \<Longrightarrow> sl_locked (m_lock s l) = 0 \<Longrightarrow>
    lock_step h s (s\<lparr>m_lock := (m_lock s)(l := (m_lock s l)\<lparr>sl_locked := 1\<rparr>), m_pc := (m_pc s)(h := SetCpu l)\<rparr>)"
| acquire_done: "m_pc s h = SetCpu l \<Longrightarrow>
    lock_step h s (s\<lparr>m_lock := (m_lock s)(l := (m_lock s l)\<lparr>sl_cpu := Some h\<rparr>), m_pc := (m_pc s)(h := Run),
      m_held := (m_held s)(h := l # m_held s h)\<rparr>)"
| release_enter: "m_pc s h = Run \<Longrightarrow> holding h (m_lock s l) \<Longrightarrow>
    lock_step h s (s\<lparr>m_lock := (m_lock s)(l := (m_lock s l)\<lparr>sl_cpu := None\<rparr>), m_pc := (m_pc s)(h := Unlock l),
      m_held := (m_held s)(h := remove1 l (m_held s h))\<rparr>)"
| release_unlock: "m_pc s h = Unlock l \<Longrightarrow>
    lock_step h s (s\<lparr>m_lock := (m_lock s)(l := (m_lock s l)\<lparr>sl_locked := 0\<rparr>), m_pc := (m_pc s)(h := PopOff)\<rparr>)"
| release_done: "m_pc s h = PopOff \<Longrightarrow> pop_off (m_hart s h) = Ok c \<Longrightarrow>
    lock_step h s (s\<lparr>m_hart := (m_hart s)(h := c), m_pc := (m_pc s)(h := Run)\<rparr>)"

inductive_cases lock_stepE: "lock_step h s s'"

definition boot :: smp where
  "boot = \<lparr>m_lock = (\<lambda>_. initlock \<lparr>sl_locked = 0, sl_cpu = None\<rparr>),
     m_hart = (\<lambda>_. \<lparr>h_noff = 0, h_intena = False, h_intr = False\<rparr>), m_pc = (\<lambda>_. Run), m_held = (\<lambda>_. [])\<rparr>"

inductive lock_reach :: "smp \<Rightarrow> bool" where
  reach_boot: "lock_reach boot"
| reach_step: "lock_reach s \<Longrightarrow> lock_step h s s' \<Longrightarrow> lock_reach s'"
| reach_intr: "lock_reach s \<Longrightarrow> m_pc s h = Run \<Longrightarrow> m_held s h = [] \<Longrightarrow>
    lock_reach (s\<lparr>m_hart := (m_hart s)(h := (m_hart s h)\<lparr>h_intr := b\<rparr>)\<rparr>)"

section \<open>Nesting of interrupt disabling\<close>

lemma push_pop_off:
  assumes "0 \<le> h_noff c" and "0 < h_noff c \<Longrightarrow> \<not> h_intr c"
  shows "pop_off (push_off c) =
    Ok (if h_noff c = 0 then c\<lparr>h_intena := h_intr c\<rparr> else c)"
  using assms by (cases c) (auto simp: push_off_def pop_off_def Let_def)

primrec push_offs :: "nat \<Rightarrow> hart \<Rightarrow> hart" where
  "push_offs 0 c = c"
| "push_offs (Suc n) c = push_offs n (push_off c)"

primrec pop_offs :: "nat \<Rightarrow> hart \<Rightarrow> hart res" where
  "pop_offs 0 c = Ok c"
| "pop_offs (Suc n) c = rbind (pop_offs n c) pop_off"

lemma push_offs_noff: "h_noff (push_offs n c) = h_noff c + int n"
  by (induction n arbitrary: c) (auto simp: push_off_def Let_def)

lemma push_offs_Suc: "push_offs (Suc n) c = push_off (push_offs n c)"
  by (induction n arbitrary: c) auto

lemma push_pop_inner:
  "1 \<le> h_noff c \<Longrightarrow> \<not> h_intr c \<Longrightarrow> pop_offs n (push_offs n c) = Ok c"
proof (induction n arbitrary: c)
  case (Suc n)
  have "1 \<le> h_noff (push_off c)" "\<not> h_intr (push_off c)"
    using Suc.prems by (simp_all add: push_off_def Let_def)
  from Suc.IH [OF this] show ?case using push_pop_off [of c] Suc.prems by simp
qed simp

section \<open>Invariant\<close>

definition owns :: "smp \<Rightarrow> nat \<Rightarrow> nat \<Rightarrow> bool" where
  "owns s h l \<longleftrightarrow> l \<in> set (m_held s h) \<or> m_pc s h = SetCpu l \<or> m_pc s h = Unlock l"

definition busy :: "pc \<Rightarrow> int" where
  "busy p = (if p = Run then 0 else 1)"

definition lock_inv :: "smp \<Rightarrow> bool" where
  "lock_inv s \<longleftrightarrow>
     (\<forall>l. (sl_locked (m_lock s l) = 0 \<longleftrightarrow> (\<forall>h. \<not> owns s h l))) \<and>
     (\<forall>l h h'. owns s h l \<longrightarrow> owns s h' l \<longrightarrow> h = h') \<and>
     (\<forall>l h. sl_cpu (m_lock s l) = Some h \<longleftrightarrow> l \<in> set (m_held s h)) \<and>
     (\<forall>h l. (m_pc s h = SetCpu l \<or> m_pc s h = Unlock l) \<longrightarrow> l \<notin> set (m_held s h)) \<and>
     (\<forall>h. distinct (m_held s h)) \<and>
     (\<forall>h. h_noff (m_hart s h) = int (length (m_held s h)) + busy (m_pc s h)) \<and>
     (\<forall>h. 0 < h_noff (m_hart s h) \<longrightarrow> \<not> h_intr (m_hart s h))"

lemma lock_invD:
  assumes "lock_inv s"
  shows "sl_locked (m_lock s l) = 0 \<longleftrightarrow> (\<forall>h. \<not> owns s h l)"
    "owns s h l \<Longrightarrow> owns s h' l \<Longrightarrow> h = h'"
    "sl_cpu (m_lock s l) = Some h \<longleftrightarrow> l \<in> set (m_held s h)"
    "m_pc s h = SetCpu l \<Longrightarrow> l \<notin> set (m_held s h)" "m_pc s h = Unlock l \<Longrightarrow> l \<notin> set (m_held s h)"
    "distinct (m_held s h)" "h_noff (m_hart s h) = int (length (m_held s h)) + busy (m_pc s h)"
    "0 < h_noff (m_hart s h) \<Longrightarrow> \<not> h_intr (m_hart s h)"
  using assms unfolding lock_inv_def by blast+

lemma holding_iff:
  assumes "lock_inv s"
  shows "holding h (m_lock s l) \<longleftrightarrow> l \<in> set (m_held s h)"
  using lock_invD(1,3) [OF assms, of l] by (auto simp: holding_def owns_def)

lemma lock_inv_boot: "lock_inv boot"
  by (simp add: lock_inv_def boot_def owns_def busy_def initlock_def)

text \<open>How a step changes ownership decides everything else.\<close>

lemma owns_upd:
  "owns (s\<lparr>m_lock := L, m_pc := (m_pc s)(h := p), m_held := (m_held s)(h := H)\<rparr>) k l \<longleftrightarrow>
     (if k = h then l \<in> set H \<or> p = SetCpu l \<or> p = Unlock l else owns s k l)"
  "owns (s\<lparr>m_hart := C, m_pc := (m_pc s)(h := p)\<rparr>) k l \<longleftrightarrow>
     (if k = h then l \<in> set (m_held s h) \<or> p = SetCpu l \<or> p = Unlock l else owns s k l)"
  "owns (s\<lparr>m_lock := L, m_pc := (m_pc s)(h := p)\<rparr>) k l \<longleftrightarrow>
     (if k = h then l \<in> set (m_held s h) \<or> p = SetCpu l \<or> p = Unlock l else owns s k l)"
  "owns (s\<lparr>m_lock := L\<rparr>) k l \<longleftrightarrow> owns s k l"
  "owns (s\<lparr>m_hart := C\<rparr>) k l \<longleftrightarrow> owns s k l"
  by (auto simp: owns_def)

lemma lock_inv_enter:
  assumes inv: "lock_inv s" and pc: "m_pc s h = Run"
  shows "lock_inv (s\<lparr>m_hart := (m_hart s)(h := push_off (m_hart s h)), m_pc := (m_pc s)(h := Tas l)\<rparr>)"
    (is "lock_inv ?s")
proof -
  have o: "owns ?s k j \<longleftrightarrow> owns s k j" for k j using pc by (auto simp: owns_def)
  show ?thesis
    using inv pc lock_invD(7) [OF inv, of h] unfolding lock_inv_def o
    by (auto simp: push_off_def Let_def busy_def)
qed

lemma lock_inv_spin:
  assumes inv: "lock_inv s" and l: "sl_locked (m_lock s l) \<noteq> 0"
  shows "lock_inv (s\<lparr>m_lock := (m_lock s)(l := (m_lock s l)\<lparr>sl_locked := 1\<rparr>)\<rparr>)"
  using inv l unfolding lock_inv_def owns_upd by auto

lemma lock_inv_win:
  assumes inv: "lock_inv s" and pc: "m_pc s h = Tas l" and l: "sl_locked (m_lock s l) = 0"
  shows "lock_inv (s\<lparr>m_lock := (m_lock s)(l := (m_lock s l)\<lparr>sl_locked := 1\<rparr>), m_pc := (m_pc s)(h := SetCpu l)\<rparr>)"
    (is "lock_inv ?s")
proof -
  have free: "\<not> owns s k l" for k using lock_invD(1) [OF inv, of l] l by blast
  have o: "owns ?s k j \<longleftrightarrow> owns s k j \<or> k = h \<and> j = l" for k j using pc by (auto simp: owns_def)
  have "l \<notin> set (m_held s h)" using free [of h] by (simp add: owns_def)
  then show ?thesis
    using inv pc free unfolding lock_inv_def o by (auto simp: busy_def)
qed

lemma lock_inv_done:
  assumes inv: "lock_inv s" and pc: "m_pc s h = SetCpu l"
  shows "lock_inv (s\<lparr>m_lock := (m_lock s)(l := (m_lock s l)\<lparr>sl_cpu := Some h\<rparr>), m_pc := (m_pc s)(h := Run),
      m_held := (m_held s)(h := l # m_held s h)\<rparr>)" (is "lock_inv ?s")
proof -
  have o: "owns ?s k j \<longleftrightarrow> owns s k j" for k j using pc by (auto simp: owns_def)
  have "owns s h l" using pc by (simp add: owns_def)
  then have only: "l \<notin> set (m_held s k)" for k
    using lock_invD(2) [OF inv, of h l k] lock_invD(4) [OF inv pc] by (cases "k = h") (auto simp: owns_def)
  show ?thesis
    using inv pc only lock_invD(7) [OF inv, of h] unfolding lock_inv_def o
    by (auto simp: busy_def)
qed

lemma lock_inv_release:
  assumes inv: "lock_inv s" and pc: "m_pc s h = Run" and l: "holding h (m_lock s l)"
  shows "lock_inv (s\<lparr>m_lock := (m_lock s)(l := (m_lock s l)\<lparr>sl_cpu := None\<rparr>), m_pc := (m_pc s)(h := Unlock l),
      m_held := (m_held s)(h := remove1 l (m_held s h))\<rparr>)" (is "lock_inv ?s")
proof -
  have mem: "l \<in> set (m_held s h)" using holding_iff [OF inv] l by simp
  have st: "set (remove1 l (m_held s h)) = set (m_held s h) - {l}"
    using lock_invD(6) [OF inv, of h] by simp
  have o: "owns ?s k j \<longleftrightarrow> owns s k j" for k j using pc mem st by (auto simp: owns_def)
  have "owns s h l" using mem by (simp add: owns_def)
  then have only: "l \<in> set (m_held s k) \<Longrightarrow> k = h" for k
    using lock_invD(2) [OF inv, of h l k] by (auto simp: owns_def)
  have len: "int (length (remove1 l (m_held s h))) = int (length (m_held s h)) - 1"
    using mem by (simp add: length_remove1) (metis length_pos_if_in_set One_nat_def Suc_leI of_nat_1 of_nat_diff)
  show ?thesis
    unfolding lock_inv_def o
  proof (intro conjI allI)
    fix j k k'
    show "(sl_locked (m_lock ?s j) = 0) = (\<forall>h. \<not> owns s h j)"
      using lock_invD(1) [OF inv, of j] by (cases "j = l") simp_all
    show "owns s k j \<longrightarrow> owns s k' j \<longrightarrow> k = k'" using lock_invD(2) [OF inv] by blast
    show "(sl_cpu (m_lock ?s j) = Some k) = (j \<in> set (m_held ?s k))"
      using lock_invD(3) [OF inv, of j k] only [of k] st by auto
    show "m_pc ?s k = SetCpu j \<or> m_pc ?s k = Unlock j \<longrightarrow> j \<notin> set (m_held ?s k)"
      using lock_invD(4,5) [OF inv, of k j] st by auto
    show "distinct (m_held ?s k)" using lock_invD(6) [OF inv] by (simp add: distinct_remove1)
    show "h_noff (m_hart ?s k) = int (length (m_held ?s k)) + busy (m_pc ?s k)"
      using lock_invD(7) [OF inv, of k] pc len by (auto simp: busy_def)
    show "0 < h_noff (m_hart ?s k) \<longrightarrow> \<not> h_intr (m_hart ?s k)" using lock_invD(8) [OF inv, of k] by simp
  qed
qed

lemma lock_inv_unlock:
  assumes inv: "lock_inv s" and pc: "m_pc s h = Unlock l"
  shows "lock_inv (s\<lparr>m_lock := (m_lock s)(l := (m_lock s l)\<lparr>sl_locked := 0\<rparr>), m_pc := (m_pc s)(h := PopOff)\<rparr>)"
    (is "lock_inv ?s")
proof -
  have own: "owns s h l" using pc by (simp add: owns_def)
  have nl: "l \<notin> set (m_held s h)" using lock_invD(5) [OF inv pc] .
  have o: "owns ?s k j \<longleftrightarrow> owns s k j \<and> j \<noteq> l" for k j
  proof (cases "k = h")
    case True
    then show ?thesis using pc nl by (auto simp: owns_def)
  next
    case False
    then have "owns ?s k j = owns s k j" by (simp add: owns_def)
    then show ?thesis using False lock_invD(2) [OF inv own, of k] by auto
  qed
  show ?thesis
    unfolding lock_inv_def o
  proof (intro conjI allI)
    fix j k k'
    show "(sl_locked (m_lock ?s j) = 0) = (\<forall>h. \<not> (owns s h j \<and> j \<noteq> l))"
      using lock_invD(1) [OF inv, of j] by simp
    show "owns s k j \<and> j \<noteq> l \<longrightarrow> owns s k' j \<and> j \<noteq> l \<longrightarrow> k = k'" using lock_invD(2) [OF inv] by blast
    show "(sl_cpu (m_lock ?s j) = Some k) = (j \<in> set (m_held ?s k))"
      using lock_invD(3) [OF inv, of j k] by auto
    show "m_pc ?s k = SetCpu j \<or> m_pc ?s k = Unlock j \<longrightarrow> j \<notin> set (m_held ?s k)"
      using lock_invD(4,5) [OF inv, of k j] by auto
    show "distinct (m_held ?s k)" using lock_invD(6) [OF inv, of k] by simp
    show "h_noff (m_hart ?s k) = int (length (m_held ?s k)) + busy (m_pc ?s k)"
      using lock_invD(7) [OF inv, of k] pc by (auto simp: busy_def)
    show "0 < h_noff (m_hart ?s k) \<longrightarrow> \<not> h_intr (m_hart ?s k)" using lock_invD(8) [OF inv, of k] by simp
  qed
qed

lemma lock_inv_pop:
  assumes inv: "lock_inv s" and pc: "m_pc s h = PopOff" and c: "pop_off (m_hart s h) = Ok c"
  shows "lock_inv (s\<lparr>m_hart := (m_hart s)(h := c), m_pc := (m_pc s)(h := Run)\<rparr>)" (is "lock_inv ?s")
proof -
  have o: "owns ?s k j \<longleftrightarrow> owns s k j" for k j using pc by (auto simp: owns_def)
  have "h_noff c = h_noff (m_hart s h) - 1" "0 < h_noff c \<longrightarrow> \<not> h_intr c"
    using c by (auto simp: pop_off_def Let_def split: if_splits)
  then show ?thesis
    using inv pc lock_invD(7) [OF inv, of h] unfolding lock_inv_def o by (auto simp: busy_def)
qed

lemma lock_inv_step: "lock_step h s s' \<Longrightarrow> lock_inv s \<Longrightarrow> lock_inv s'"
  by (erule lock_step.cases)
    (simp_all only: lock_inv_enter lock_inv_spin lock_inv_win lock_inv_done lock_inv_release lock_inv_unlock
      lock_inv_pop simp_thms)

lemma lock_inv_reach: "lock_reach s \<Longrightarrow> lock_inv s"
proof (induction rule: lock_reach.induct)
  case reach_boot
  show ?case by (rule lock_inv_boot)
next
  case (reach_step s h s')
  then show ?case by (blast intro: lock_inv_step)
next
  case (reach_intr s h b)
  then have "h_noff (m_hart s h) = 0" using lock_invD(7) [of s h] by (simp add: busy_def)
  then show ?case using reach_intr unfolding lock_inv_def owns_upd by auto
qed

section \<open>Properties\<close>

text \<open>
  C9: in every state that any interleaving of harts can reach, no two harts hold the same spin-lock, a hart
  that holds one runs with interrupts off, and \<^verbatim>\<open>holding\<close> answers yes exactly to the holder (so \<^verbatim>\<open>acquire\<close>
  panics exactly on a lock the hart already holds, and \<^verbatim>\<open>release\<close> exactly on one it does not).
\<close>

theorem spinlock_mutual_exclusion:
  assumes "lock_reach s"
  shows "(\<forall>l h h'. l \<in> set (m_held s h) \<longrightarrow> l \<in> set (m_held s h') \<longrightarrow> h = h') \<and>
    (\<forall>h. m_held s h \<noteq> [] \<longrightarrow> \<not> h_intr (m_hart s h)) \<and>
    (\<forall>h l. holding h (m_lock s l) \<longleftrightarrow> l \<in> set (m_held s h))"
proof -
  note inv = lock_inv_reach [OF assms]
  have "h = h'" if "l \<in> set (m_held s h)" "l \<in> set (m_held s h')" for l h h'
    using lock_invD(2) [OF inv, of h l h'] that by (simp add: owns_def)
  moreover have "\<not> h_intr (m_hart s h)" if "m_held s h \<noteq> []" for h
    using lock_invD(7,8) [OF inv, of h] that by (simp add: busy_def)
  ultimately show ?thesis using holding_iff [OF inv] by blast
qed

definition two_harts :: smp where
  "two_harts = boot\<lparr>m_lock := (m_lock boot)(7 := \<lparr>sl_locked = 1, sl_cpu = Some 0\<rparr>),
     m_hart := (m_hart boot)(0 := push_off (m_hart boot 0), 1 := push_off (m_hart boot 1)),
     m_pc := (m_pc boot)(1 := Tas 7), m_held := (m_held boot)(0 := [7])\<rparr>"

lemma two_harts_reach: "lock_reach two_harts"
proof -
  let ?s1 = "boot\<lparr>m_hart := (m_hart boot)(0 := push_off (m_hart boot 0)), m_pc := (m_pc boot)(0 := Tas 7)\<rparr>"
  let ?s2 = "?s1\<lparr>m_lock := (m_lock ?s1)(7 := (m_lock ?s1 7)\<lparr>sl_locked := 1\<rparr>), m_pc := (m_pc ?s1)(0 := SetCpu 7)\<rparr>"
  let ?s3 = "?s2\<lparr>m_lock := (m_lock ?s2)(7 := (m_lock ?s2 7)\<lparr>sl_cpu := Some 0\<rparr>), m_pc := (m_pc ?s2)(0 := Run),
      m_held := (m_held ?s2)(0 := 7 # m_held ?s2 0)\<rparr>"
  let ?s4 = "?s3\<lparr>m_hart := (m_hart ?s3)(1 := push_off (m_hart ?s3 1)), m_pc := (m_pc ?s3)(1 := Tas 7)\<rparr>"
  have "lock_step 0 boot ?s1" by (rule acquire_enter) (simp_all add: boot_def holding_def initlock_def)
  note r1 = reach_step [OF reach_boot this]
  have "lock_step 0 ?s1 ?s2" by (rule acquire_win) (simp_all add: boot_def initlock_def)
  note r2 = reach_step [OF r1 this]
  have "lock_step 0 ?s2 ?s3" by (rule acquire_done) simp
  note r3 = reach_step [OF r2 this]
  have "lock_step 1 ?s3 ?s4" by (rule acquire_enter) (simp_all add: boot_def holding_def)
  note r4 = reach_step [OF r3 this]
  have "?s4 = two_harts" by (simp add: two_harts_def boot_def initlock_def) (auto simp: fun_eq_iff)
  then show ?thesis using r4 by (simp only:)
qed

theorem spinlock_mutual_exclusion_witness:
  "holding 0 (m_lock two_harts 7) \<and> \<not> holding 1 (m_lock two_harts 7)"
proof -
  have "\<forall>h l. holding h (m_lock two_harts l) \<longleftrightarrow> l \<in> set (m_held two_harts h)"
    using spinlock_mutual_exclusion [OF two_harts_reach] by blast
  moreover have "m_held two_harts 0 = [7]" "m_held two_harts 1 = []"
    by (simp_all add: two_harts_def boot_def)
  ultimately show ?thesis by simp
qed

text \<open>
  \<^verbatim>\<open>push_off\<close> and \<^verbatim>\<open>pop_off\<close> nest: \<open>n\<close> calls of one followed by \<open>n\<close> of the other never panic and restore
  interrupt state and depth, and in between interrupts are off.
\<close>

lemma push_pop_off_nest:
  assumes "0 \<le> h_noff c" and "h_intr c \<longrightarrow> h_noff c = 0"
  shows "\<exists>c'. pop_offs n (push_offs n c) = Ok c' \<and> h_intr c' = h_intr c \<and> h_noff c' = h_noff c \<and>
    (0 < n \<longrightarrow> \<not> h_intr (push_offs n c) \<and> h_noff (push_offs n c) = h_noff c + int n)"
proof (cases n)
  case 0
  then show ?thesis by simp
next
  case (Suc m)
  have "1 \<le> h_noff (push_off c)" "\<not> h_intr (push_off c)"
    using assms by (simp_all add: push_off_def Let_def)
  then have "pop_offs n (push_offs n c) = pop_off (push_off c)"
    using push_pop_inner [of "push_off c" m] Suc by simp
  also have "\<dots> = Ok (if h_noff c = 0 then c\<lparr>h_intena := h_intr c\<rparr> else c)"
    using assms by (intro push_pop_off) auto
  finally have "pop_offs n (push_offs n c) = Ok (if h_noff c = 0 then c\<lparr>h_intena := h_intr c\<rparr> else c)" .
  moreover have "\<not> h_intr (push_offs n c)"
    unfolding Suc push_offs_Suc by (simp add: push_off_def Let_def)
  ultimately show ?thesis using push_offs_noff [of n c] by simp
qed

end
