(* ===== verification/Proc.thy ===== *)
theory Proc
  imports Vm Spinlock
begin

text \<open>
  \<^verbatim>\<open>kernel/proc.h\<close> and the part of \<^verbatim>\<open>kernel/proc.c\<close> that needs no files: the process table, allocation and
  freeing of slots, address-space set-up, sleep and wakeup, kill, wait, the two schedulers, statistics.
  Processes are named by their index in the table. Per-process spin-locks delimit the atomic steps
  modelled here. \<^verbatim>\<open>swtch\<close> is a parameter: what happens on the machine until control comes back.
\<close>

section \<open>Data\<close>

type_synonym i32 = "32 word"

record kcontext =
  ctx_ra :: u64
  ctx_sp :: u64
  ctx_s :: "u64 list"            \<comment> \<open>\<^verbatim>\<open>s0\<close> to \<^verbatim>\<open>s11\<close>\<close>

datatype procstate = UNUSED | USED | SLEEPING | RUNNABLE | RUNNING | ZOMBIE

datatype schedType = RR | FCFS

record proc =
  p_state :: procstate
  p_chan :: "chan option"
  p_killed :: i32
  p_xstate :: i32
  p_pid :: i32
  p_startingTick :: i32
  p_termination_time :: i32
  p_running_time :: i32
  p_ready_time :: i32
  p_sleeping_time :: i32
  p_parent :: "nat option"
  p_kstack :: u64
  p_sz :: u64
  p_pagetable :: u64
  p_trapframe :: u64             \<comment> \<open>address of the trapframe page\<close>
  p_context :: kcontext
  p_ofile :: "nat option list"   \<comment> \<open>indices into the file table\<close>
  p_cwd :: "nat option"          \<comment> \<open>index into the inode table\<close>
  p_name :: "u8 list"
  p_sched :: schedType

text \<open>
  \<open>curproc\<close> is \<^verbatim>\<open>mycpu()->proc\<close> of the hart that runs, \<open>intr\<close> its interrupt-enable bit. \<open>trampoline\<close> and
  \<open>forkret_pc\<close> are addresses fixed by the linker.
\<close>

record proc_st = kmem_st +
  procs :: "proc list"
  curproc :: "nat option"
  nextpid :: i32
  initproc :: "nat option"
  ticks :: u32
  intr :: bool
  trampoline :: u64
  forkret_pc :: u64

definition upd_proc :: "nat \<Rightarrow> (proc \<Rightarrow> proc) \<Rightarrow> 'a proc_st_scheme \<Rightarrow> 'a proc_st_scheme" where
  "upd_proc i f s = s\<lparr>procs := (procs s)[i := f (procs s ! i)]\<rparr>"

text \<open>
  \<^verbatim>\<open>myproc()\<close>. Its \<^verbatim>\<open>push_off\<close>/\<^verbatim>\<open>pop_off\<close> pair restores the interrupt state. Code that follows a null result
  faults in the kernel.
\<close>

definition myproc :: "'a proc_st_scheme \<Rightarrow> nat option" where
  "myproc s = curproc s"

definition with_proc :: "'a proc_st_scheme \<Rightarrow> (nat \<Rightarrow> 'b res) \<Rightarrow> 'b res" where
  "with_proc s f = (case myproc s of None \<Rightarrow> Panic ''kerneltrap'' | Some i \<Rightarrow> f i)"

text \<open>Fields of the trapframe page, by the offsets of \<^verbatim>\<open>struct trapframe\<close>.\<close>

definition tf_get :: "'a proc_st_scheme \<Rightarrow> nat \<Rightarrow> u64 \<Rightarrow> u64" where
  "tf_get s i off = ld64 (pmem s) (p_trapframe (procs s ! i) + off)"

definition tf_set :: "nat \<Rightarrow> u64 \<Rightarrow> u64 \<Rightarrow> 'a proc_st_scheme \<Rightarrow> 'a proc_st_scheme" where
  "tf_set i off v s = s\<lparr>pmem := st64 (pmem s) (p_trapframe (procs s ! i) + off) v\<rparr>"

abbreviation (input) TF_epc :: u64 where "TF_epc \<equiv> 24"
abbreviation (input) TF_sp :: u64 where "TF_sp \<equiv> 48"
abbreviation (input) TF_a0 :: u64 where "TF_a0 \<equiv> 112"
abbreviation (input) TF_a1 :: u64 where "TF_a1 \<equiv> 120"
abbreviation (input) TF_a7 :: u64 where "TF_a7 \<equiv> 168"

section \<open>The process table\<close>

definition procinit :: "'a proc_st_scheme \<Rightarrow> 'a proc_st_scheme" where
  "procinit s = s\<lparr>procs := map (\<lambda>i. (procs s ! i)\<lparr>p_state := UNUSED, p_kstack := KSTACK i\<rparr>) [0..<length (procs s)]\<rparr>"

definition allocpid :: "'a proc_st_scheme \<Rightarrow> i32 \<times> 'a proc_st_scheme" where
  "allocpid s = (let pid = nextpid s in (pid, s\<lparr>nextpid := nextpid s + 1\<rparr>))"

definition proc_freepagetable :: "u64 \<Rightarrow> u64 \<Rightarrow> 'a kmem_st_scheme \<Rightarrow> 'a kmem_st_scheme res" where
  "proc_freepagetable pagetable sz s =
     rbind (uvmunmap pagetable TRAMPOLINE 1 False s) (\<lambda>s.
     rbind (uvmunmap pagetable TRAPFRAME 1 False s) (\<lambda>s.
     uvmfree pagetable sz s))"

definition freeproc :: "nat \<Rightarrow> 'a proc_st_scheme \<Rightarrow> 'a proc_st_scheme res" where
  "freeproc i s =
     (let p = procs s ! i in
      rbind (if p_trapframe p \<noteq> 0 then kfree (p_trapframe p) s else Ok s) (\<lambda>s.
      let s = upd_proc i (\<lambda>p. p\<lparr>p_trapframe := 0\<rparr>) s in
      rbind (if p_pagetable p \<noteq> 0 then proc_freepagetable (p_pagetable p) (p_sz p) s else Ok s) (\<lambda>s.
      Ok (upd_proc i (\<lambda>p. p\<lparr>p_pagetable := 0, p_sz := 0, p_pid := 0, p_parent := None,
            p_name := (p_name p)[0 := 0], p_chan := None, p_killed := 0, p_xstate := 0, p_state := UNUSED\<rparr>) s))))"

definition proc_pagetable :: "nat \<Rightarrow> 'a proc_st_scheme \<Rightarrow> (u64 \<times> 'a proc_st_scheme) res" where
  "proc_pagetable i s =
     (let (pagetable, s) = uvmcreate s in
      if pagetable = 0 then Ok (0, s)
      else
        rbind (mappages pagetable TRAMPOLINE PGSIZE (trampoline s) (PTE_R OR PTE_X) s) (\<lambda>(r, s).
        if r < 0 then rbind (uvmfree pagetable 0 s) (\<lambda>s. Ok (0, s))
        else
          rbind (mappages pagetable TRAPFRAME PGSIZE (p_trapframe (procs s ! i)) (PTE_R OR PTE_W) s) (\<lambda>(r, s).
          if r < 0 then
            rbind (uvmunmap pagetable TRAMPOLINE 1 False s) (\<lambda>s.
            rbind (uvmfree pagetable 0 s) (\<lambda>s. Ok (0, s)))
          else Ok (pagetable, s))))"

definition allocproc :: "'a proc_st_scheme \<Rightarrow> (nat option \<times> 'a proc_st_scheme) res" where
  "allocproc s =
     (case first_idx (\<lambda>p. p_state p = UNUSED) (procs s) of
        None \<Rightarrow> Ok (None, s)
      | Some i \<Rightarrow>
          let (pid, s) = allocpid s;
              s = upd_proc i (\<lambda>p. p\<lparr>p_pid := pid, p_state := USED, p_sched := RR\<rparr>) s;
              (tf, s) = kalloc s;
              s = upd_proc i (\<lambda>p. p\<lparr>p_trapframe := tf\<rparr>) s in
          if tf = 0 then rbind (freeproc i s) (\<lambda>s. Ok (None, s))
          else
            rbind (proc_pagetable i s) (\<lambda>(pt, s).
            let s = upd_proc i (\<lambda>p. p\<lparr>p_pagetable := pt\<rparr>) s in
            if pt = 0 then rbind (freeproc i s) (\<lambda>s. Ok (None, s))
            else Ok (Some i, upd_proc i (\<lambda>p. p\<lparr>p_context :=
              \<lparr>ctx_ra = forkret_pc s, ctx_sp = p_kstack p + PGSIZE, ctx_s = replicate 12 0\<rparr>\<rparr>) s)))"

definition growproc :: "i32 \<Rightarrow> 'a proc_st_scheme \<Rightarrow> (int \<times> 'a proc_st_scheme) res" where
  "growproc n s = with_proc s (\<lambda>i.
     let p = procs s ! i; sz = p_sz p in
     if sint n > 0 then
       rbind (uvmalloc (p_pagetable p) sz (sz + scast n) PTE_W s) (\<lambda>(sz, s).
         if sz = 0 then Ok (-1, s) else Ok (0, upd_proc i (\<lambda>p. p\<lparr>p_sz := sz\<rparr>) s))
     else if sint n < 0 then
       rbind (uvmdealloc (p_pagetable p) sz (sz + scast n) s) (\<lambda>(sz, s).
         Ok (0, upd_proc i (\<lambda>p. p\<lparr>p_sz := sz\<rparr>) s))
     else Ok (0, upd_proc i (\<lambda>p. p\<lparr>p_sz := sz\<rparr>) s))"

section \<open>Sleep, wakeup, kill\<close>

text \<open>
  \<open>sleep_enter\<close> is \<^verbatim>\<open>sleep\<close> up to \<^verbatim>\<open>sched()\<close>, \<open>sleep_leave\<close> what it does when it runs again.
\<close>

definition sleep_enter :: "chan \<Rightarrow> nat \<Rightarrow> 'a proc_st_scheme \<Rightarrow> 'a proc_st_scheme" where
  "sleep_enter c i s = upd_proc i (\<lambda>p. p\<lparr>p_chan := Some c, p_state := SLEEPING\<rparr>) s"

definition sleep_leave :: "nat \<Rightarrow> 'a proc_st_scheme \<Rightarrow> 'a proc_st_scheme" where
  "sleep_leave i s = upd_proc i (\<lambda>p. p\<lparr>p_chan := None\<rparr>) s"

definition wakeup :: "chan \<Rightarrow> 'a proc_st_scheme \<Rightarrow> 'a proc_st_scheme" where
  "wakeup c s = s\<lparr>procs := map (\<lambda>i.
     let p = procs s ! i in
     if myproc s \<noteq> Some i \<and> p_state p = SLEEPING \<and> p_chan p = Some c then p\<lparr>p_state := RUNNABLE\<rparr> else p)
     [0..<length (procs s)]\<rparr>"

definition kill :: "i32 \<Rightarrow> 'a proc_st_scheme \<Rightarrow> int \<times> 'a proc_st_scheme" where
  "kill pid s =
     (case first_idx (\<lambda>p. p_pid p = pid) (procs s) of
        None \<Rightarrow> (-1, s)
      | Some i \<Rightarrow>
          let s = upd_proc i (\<lambda>p. p\<lparr>p_killed := 1\<rparr>) s in
          (0, if p_state (procs s ! i) = SLEEPING then upd_proc i (\<lambda>p. p\<lparr>p_state := RUNNABLE\<rparr>) s else s))"

definition setkilled :: "nat \<Rightarrow> 'a proc_st_scheme \<Rightarrow> 'a proc_st_scheme" where
  "setkilled i s = upd_proc i (\<lambda>p. p\<lparr>p_killed := 1\<rparr>) s"

definition killed :: "nat \<Rightarrow> 'a proc_st_scheme \<Rightarrow> i32" where
  "killed i s = p_killed (procs s ! i)"

text \<open>\<open>reparent\<close> hands the children of \<open>p\<close> to init, waking init once per child.\<close>

fun reparent_from :: "nat \<Rightarrow> nat \<Rightarrow> nat \<Rightarrow> 'a proc_st_scheme \<Rightarrow> 'a proc_st_scheme res" where
  "reparent_from pp 0 p s = Ok s"
| "reparent_from pp (Suc n) p s =
     (if p_parent (procs s ! pp) = Some p then
        (case initproc s of
           None \<Rightarrow> reparent_from (Suc pp) n p (upd_proc pp (\<lambda>q. q\<lparr>p_parent := None\<rparr>) s)
         | Some ip \<Rightarrow>
             reparent_from (Suc pp) n p
               (wakeup (ChProc ip) (upd_proc pp (\<lambda>q. q\<lparr>p_parent := Some ip\<rparr>) s)))
      else reparent_from (Suc pp) n p s)"

definition reparent :: "nat \<Rightarrow> 'a proc_st_scheme \<Rightarrow> 'a proc_st_scheme res" where
  "reparent p s = reparent_from 0 (length (procs s)) p s"

text \<open>The bytes of an \<^verbatim>\<open>int\<close> in memory, little-endian.\<close>

definition int_bytes :: "i32 \<Rightarrow> u8 list" where
  "int_bytes v = [ucast v, ucast (drop_bit 8 v), ucast (drop_bit 16 v), ucast (drop_bit 24 v)]"

text \<open>
  One round of \<^verbatim>\<open>wait\<close>: the scan for an exited child and the decision to sleep. \<open>Sleep\<close> is the call
  of \<^verbatim>\<open>sleep(p, &wait_lock)\<close>; the next round starts when the process is woken.
\<close>

definition wait_round :: "u64 \<Rightarrow> 'a proc_st_scheme \<Rightarrow> (i32 \<times> 'a proc_st_scheme) res" where
  "wait_round addr s = with_proc s (\<lambda>i.
     case first_idx (\<lambda>p. p_parent p = Some i \<and> p_state p = ZOMBIE) (procs s) of
       Some pp \<Rightarrow>
         let pid = p_pid (procs s ! pp) in
         rbind (if addr \<noteq> 0 then copyout (p_pagetable (procs s ! i)) addr (int_bytes (p_xstate (procs s ! pp))) s
                else Ok (0, s)) (\<lambda>(r, s).
           if r < 0 then Ok (-1, s)
           else rbind (freeproc pp s) (\<lambda>s. Ok (pid, s)))
     | None \<Rightarrow>
         if (\<forall>p\<in>set (procs s). p_parent p \<noteq> Some i) \<or> killed i s \<noteq> 0 then Ok (-1, s)
         else Sleep (ChProc i))"

section \<open>Copying to user or kernel\<close>

text \<open>
  The flag \<^verbatim>\<open>user_dst\<close> and the address: a user address, a kernel address in physical memory, or a kernel
  object outside it (the callers of the model then take the bytes from the result).
\<close>

datatype kdst = UDst u64 | KDst u64 | KBuf

datatype ksrc = USrc u64 | KSrc "u8 list"

definition either_copyout :: "kdst \<Rightarrow> u8 list \<Rightarrow> 'a proc_st_scheme \<Rightarrow> (int \<times> 'a proc_st_scheme) res" where
  "either_copyout dst src s =
     (case dst of
        UDst a \<Rightarrow> with_proc s (\<lambda>i. copyout (p_pagetable (procs s ! i)) a src s)
      | KDst a \<Rightarrow> Ok (0, s\<lparr>pmem := put_bytes (pmem s) a src\<rparr>)
      | KBuf \<Rightarrow> Ok (0, s))"

definition either_copyin :: "ksrc \<Rightarrow> nat \<Rightarrow> 'a proc_st_scheme \<Rightarrow> (int \<times> u8 list) res" where
  "either_copyin src len s =
     (case src of
        USrc a \<Rightarrow> with_proc s (\<lambda>i. copyin (p_pagetable (procs s ! i)) a len s)
      | KSrc bs \<Rightarrow> Ok (0, take len bs))"

text \<open>Moving the pointer on by \<open>n\<close> bytes.\<close>

fun dst_add :: "kdst \<Rightarrow> nat \<Rightarrow> kdst" where
  "dst_add (UDst a) n = UDst (a + of_nat n)"
| "dst_add (KDst a) n = KDst (a + of_nat n)"
| "dst_add KBuf n = KBuf"

fun src_add :: "ksrc \<Rightarrow> nat \<Rightarrow> ksrc" where
  "src_add (USrc a) n = USrc (a + of_nat n)"
| "src_add (KSrc bs) n = KSrc (drop n bs)"

section \<open>Schedulers\<close>

text \<open>
  The scan of \<^verbatim>\<open>fcfs\<close>: \<open>minP\<close> is the candidate so far, with its index. Starting ticks are signed.
\<close>

fun fcfs_scan :: "nat \<Rightarrow> proc list \<Rightarrow> (nat \<times> proc) option \<Rightarrow> bool \<Rightarrow> bool \<times> (nat \<times> proc) option" where
  "fcfs_scan i [] minP found = (found, minP)"
| "fcfs_scan i (p # ps) minP found =
     (if p_state p \<noteq> RUNNABLE then fcfs_scan (Suc i) ps minP found
      else if p_sched p = FCFS then
        fcfs_scan (Suc i) ps
          (case minP of
             Some (j, q) \<Rightarrow> if sint (p_startingTick p) < sint (p_startingTick q) then Some (i, p) else minP
           | None \<Rightarrow> Some (i, p)) True
      else fcfs_scan (Suc i) ps minP found)"

text \<open>
  \<open>run i\<close> is \<^verbatim>\<open>swtch\<close> to process \<open>i\<close>, from the scheduler's side: the state when some process switches
  back to this hart's scheduler.
\<close>

definition dispatch :: "(nat \<Rightarrow> 'a proc_st_scheme \<Rightarrow> 'a proc_st_scheme) \<Rightarrow> nat \<Rightarrow> 'a proc_st_scheme \<Rightarrow> 'a proc_st_scheme"
where
  "dispatch run i s =
     (let s = upd_proc i (\<lambda>p. p\<lparr>p_state := RUNNING\<rparr>) s;
          s = run i (s\<lparr>curproc := Some i\<rparr>)
      in s\<lparr>curproc := None\<rparr>)"

definition fcfs ::
  "(nat \<Rightarrow> 'a proc_st_scheme \<Rightarrow> 'a proc_st_scheme) \<Rightarrow> 'a proc_st_scheme \<Rightarrow> bool \<times> 'a proc_st_scheme" where
  "fcfs run s =
     (let s = s\<lparr>curproc := None, intr := False\<rparr>;
          (found, minP) = fcfs_scan 0 (procs s) None False in
      case minP of
        Some (i, _) \<Rightarrow> (found, if p_state (procs s ! i) = RUNNABLE then dispatch run i s else s)
      | None \<Rightarrow> (found, s))"

fun round_robin_from ::
  "(nat \<Rightarrow> 'a proc_st_scheme \<Rightarrow> 'a proc_st_scheme) \<Rightarrow> nat \<Rightarrow> nat \<Rightarrow> bool \<Rightarrow> 'a proc_st_scheme \<Rightarrow> 'a proc_st_scheme"
where
  "round_robin_from run i 0 found s = s"
| "round_robin_from run i (Suc n) found s =
     (let p = procs s ! i;
          (found, s) = (if p_state p = RUNNABLE \<and> p_sched p = RR then (True, dispatch run i s) else (found, s));
          s = (if \<not> found then s\<lparr>intr := True\<rparr> else s)
      in round_robin_from run (Suc i) n found s)"

definition round_robin ::
  "(nat \<Rightarrow> 'a proc_st_scheme \<Rightarrow> 'a proc_st_scheme) \<Rightarrow> nat \<Rightarrow> 'a proc_st_scheme \<Rightarrow> 'a proc_st_scheme" where
  "round_robin run num s = round_robin_from run 0 num False (s\<lparr>curproc := None, intr := True\<rparr>)"

text \<open>One pass of the endless loop of \<^verbatim>\<open>scheduler\<close>, and \<open>n\<close> passes.\<close>

definition scheduler_pass ::
  "(nat \<Rightarrow> 'a proc_st_scheme \<Rightarrow> 'a proc_st_scheme) \<Rightarrow> 'a proc_st_scheme \<Rightarrow> 'a proc_st_scheme" where
  "scheduler_pass run s =
     (let (found, s) = fcfs run s in if \<not> found then round_robin run NPROC s else s)"

primrec scheduler ::
  "(nat \<Rightarrow> 'a proc_st_scheme \<Rightarrow> 'a proc_st_scheme) \<Rightarrow> nat \<Rightarrow> 'a proc_st_scheme \<Rightarrow> 'a proc_st_scheme" where
  "scheduler run 0 s = s"
| "scheduler run (Suc n) s = scheduler run n (scheduler_pass run s)"

fun default_pass_from ::
  "(nat \<Rightarrow> 'a proc_st_scheme \<Rightarrow> 'a proc_st_scheme) \<Rightarrow> nat \<Rightarrow> nat \<Rightarrow> 'a proc_st_scheme \<Rightarrow> 'a proc_st_scheme" where
  "default_pass_from run i 0 s = s"
| "default_pass_from run i (Suc n) s =
     default_pass_from run (Suc i) n (if p_state (procs s ! i) = RUNNABLE then dispatch run i s else s)"

text \<open>The loop body of \<^verbatim>\<open>default_Scheduler\<close>; \<^verbatim>\<open>found\<close> is never set there.\<close>

definition default_Scheduler_pass ::
  "(nat \<Rightarrow> 'a proc_st_scheme \<Rightarrow> 'a proc_st_scheme) \<Rightarrow> 'a proc_st_scheme \<Rightarrow> 'a proc_st_scheme" where
  "default_Scheduler_pass run s =
     (default_pass_from run 0 NPROC (s\<lparr>curproc := None, intr := True\<rparr>))\<lparr>intr := True\<rparr>"

text \<open>
  \<^verbatim>\<open>sched\<close> and \<^verbatim>\<open>yield\<close> with the lock and interrupt state they check: \<open>me\<close> is the hart, \<open>lk\<close> the process's
  lock, \<open>c\<close> the hart's state, \<open>swtch\<close> the hart's state when this process runs again.
\<close>

definition sched :: "nat \<Rightarrow> (hart \<Rightarrow> hart) \<Rightarrow> spinlock \<Rightarrow> procstate \<Rightarrow> hart \<Rightarrow> hart res" where
  "sched me swtch lk st c =
     (if \<not> holding me lk then Panic ''sched p->lock''
      else if h_noff c \<noteq> 1 then Panic ''sched locks''
      else if st = RUNNING then Panic ''sched running''
      else if h_intr c then Panic ''sched interruptible''
      else let intena = h_intena c in Ok ((swtch c)\<lparr>h_intena := intena\<rparr>))"

text \<open>\<open>lk\<close> is free when \<^verbatim>\<open>acquire\<close> gets it; \<^verbatim>\<open>release\<close> ends with \<^verbatim>\<open>pop_off\<close>.\<close>

definition yield :: "nat \<Rightarrow> (hart \<Rightarrow> hart) \<Rightarrow> spinlock \<Rightarrow> hart \<Rightarrow> hart res" where
  "yield me swtch lk c =
     (let c = push_off c in
      if holding me lk then Panic ''acquire''
      else
        let lk = \<lparr>sl_locked = 1, sl_cpu = Some me\<rparr> in
        rbind (sched me swtch lk RUNNABLE c) pop_off)"

section \<open>Statistics and control\<close>

definition find_active_proc :: "'a proc_st_scheme \<Rightarrow> nat" where
  "find_active_proc s = length (filter (\<lambda>p. p_state p \<noteq> UNUSED) (procs s))"

text \<open>Little-endian bytes of a 64-bit value, for structures copied to the user.\<close>

definition long_bytes :: "u64 \<Rightarrow> u8 list" where
  "long_bytes v = map (\<lambda>i. ucast (drop_bit (8 * i) v)) [0..<8]"

text \<open>
  \<^verbatim>\<open>sysinfo\<close>: \<open>pad\<close> are the six padding bytes of the structure, which are never written. The uptime is
  the tick count over ten, an \<^verbatim>\<open>int\<close>.
\<close>

definition sysinfo :: "u8 list \<Rightarrow> u64 \<Rightarrow> 'a proc_st_scheme \<Rightarrow> (int \<times> 'a proc_st_scheme) res option" where
  "sysinfo pad uinfo s =
     map_option (\<lambda>fr. rbind fr (\<lambda>freeram. with_proc s (\<lambda>i.
       let n = of_nat (find_active_proc s) :: u16;
           info = long_bytes (scast (ticks s div 10)) @ long_bytes (PHYSTOP - KERNBASE) @
             long_bytes (scast freeram) @ [ucast n, ucast (drop_bit 8 n)] @ pad in
       rbind (copyout (p_pagetable (procs s ! i)) uinfo info s) (\<lambda>(r, s).
         Ok (if r < 0 then -1 else 0, s)))))
     (calculate_free_ram s)"

text \<open>\<open>junk\<close> is what the stack holds where \<^verbatim>\<open>info.name\<close> lies: \<^verbatim>\<open>procinfo\<close> never writes it.\<close>

definition procinfo :: "u8 list \<Rightarrow> u64 \<Rightarrow> i32 \<Rightarrow> 'a proc_st_scheme \<Rightarrow> (int \<times> 'a proc_st_scheme) res" where
  "procinfo junk uinfo pid s =
     (case first_idx (\<lambda>p. p_pid p = pid) (procs s) of
        None \<Rightarrow> Ok (-1, s)
      | Some j \<Rightarrow>
          let p = procs s ! j;
              info = junk @ int_bytes (p_running_time p) @
                int_bytes (p_running_time p + p_sleeping_time p + p_ready_time p) @ int_bytes (p_sleeping_time p) in
          with_proc s (\<lambda>i.
            rbind (copyout (p_pagetable (procs s ! i)) uinfo info s) (\<lambda>(r, s). Ok (if r < 0 then -1 else 0, s))))"

definition proctick :: "i32 \<Rightarrow> 'a proc_st_scheme \<Rightarrow> i32 \<times> 'a proc_st_scheme" where
  "proctick pid s =
     (let s = s\<lparr>intr := True\<rparr> in
      case first_idx (\<lambda>p. p_pid p = pid) (procs s) of
        Some i \<Rightarrow> (ticks s - p_startingTick (procs s ! i), s)
      | None \<Rightarrow> (-1, s))"

definition find_scheduler_type :: "u8 list \<Rightarrow> schedType" where
  "find_scheduler_type scheduler_name =
     (if strncmp scheduler_name (bytes_of ''fcfs'') 4 = 0 \<or> strncmp scheduler_name (bytes_of ''FCFS'') 4 = 0
      then FCFS else RR)"

definition changeScheduler :: "i32 \<Rightarrow> u8 list \<Rightarrow> 'a proc_st_scheme \<Rightarrow> int \<times> 'a proc_st_scheme" where
  "changeScheduler pid scheduler_name s =
     (let s = s\<lparr>intr := False\<rparr> in
      case first_idx (\<lambda>p. p_pid p = pid) (procs s) of
        Some i \<Rightarrow> (1, upd_proc i (\<lambda>p. p\<lparr>p_sched := find_scheduler_type scheduler_name\<rparr>) s)
      | None \<Rightarrow> (0, s))"

definition update_pinfo :: "'a proc_st_scheme \<Rightarrow> 'a proc_st_scheme" where
  "update_pinfo s = s\<lparr>procs := map (\<lambda>p.
     case p_state p of
       SLEEPING \<Rightarrow> p\<lparr>p_sleeping_time := p_sleeping_time p + 1\<rparr>
     | RUNNING \<Rightarrow> p\<lparr>p_running_time := p_running_time p + 1\<rparr>
     | RUNNABLE \<Rightarrow> p\<lparr>p_ready_time := p_ready_time p + 1\<rparr>
     | _ \<Rightarrow> p) (procs s)\<rparr>"

text \<open>\<^verbatim>\<open>clockintr\<close> of \<^verbatim>\<open>kernel/trap.c\<close>.\<close>

definition clockintr :: "'a proc_st_scheme \<Rightarrow> 'a proc_st_scheme" where
  "clockintr s =
     (let s = s\<lparr>ticks := ticks s + 1\<rparr>;
          s = update_pinfo s
      in wakeup ChTicks s)"

section \<open>Frames\<close>

text \<open>Address-space code keeps the process table.\<close>

lemma more_procs:
  assumes "kmem_st.more s' = kmem_st.more s"
  shows "procs s' = procs s" "curproc s' = curproc s" "nextpid s' = nextpid s" "initproc s' = initproc s"
    "ticks s' = ticks s" "intr s' = intr s" "trampoline s' = trampoline s" "forkret_pc s' = forkret_pc s"
    "proc_st.more s' = proc_st.more s"
  using assms by (cases s; cases s'; simp)+

lemma upd_proc_simps [simp]:
  "procs (upd_proc i f s) = (procs s)[i := f (procs s ! i)]" "curproc (upd_proc i f s) = curproc s"
  "nextpid (upd_proc i f s) = nextpid s" "initproc (upd_proc i f s) = initproc s"
  "ticks (upd_proc i f s) = ticks s" "intr (upd_proc i f s) = intr s" "pmem (upd_proc i f s) = pmem s"
  "kend (upd_proc i f s) = kend s" "kref (upd_proc i f s) = kref s" "freelist (upd_proc i f s) = freelist s"
  "proc_st.more (upd_proc i f s) = proc_st.more s"
  by (simp_all add: upd_proc_def)

lemma with_proc_Ok: "with_proc s f = Ok x \<longleftrightarrow> (\<exists>i. myproc s = Some i \<and> f i = Ok x)"
  by (simp add: with_proc_def split: option.splits)

lemma proc_freepagetable_more:
  "proc_freepagetable pt sz s = Ok s' \<Longrightarrow> kmem_st.more s' = kmem_st.more s"
  by (auto simp: proc_freepagetable_def dest!: uvmunmap_more uvmfree_more)

lemma freeproc_eq:
  assumes "freeproc i s = Ok s'"
  shows "procs s' = (procs s)[i := (procs s ! i)\<lparr>p_trapframe := 0, p_pagetable := 0, p_sz := 0, p_pid := 0,
      p_parent := None, p_name := (p_name (procs s ! i))[0 := 0], p_chan := None, p_killed := 0, p_xstate := 0,
      p_state := UNUSED\<rparr>]"
    "nextpid s' = nextpid s" "curproc s' = curproc s" "ticks s' = ticks s"
proof -
  let ?p = "procs s ! i"
  from assms obtain s1 s2 where s1: "(if p_trapframe ?p \<noteq> 0 then kfree (p_trapframe ?p) s else Ok s) = Ok s1"
    and s2: "(if p_pagetable ?p \<noteq> 0 then proc_freepagetable (p_pagetable ?p) (p_sz ?p)
        (upd_proc i (\<lambda>p. p\<lparr>p_trapframe := 0\<rparr>) s1) else Ok (upd_proc i (\<lambda>p. p\<lparr>p_trapframe := 0\<rparr>) s1)) = Ok s2"
    and s': "s' = upd_proc i (\<lambda>p. p\<lparr>p_pagetable := 0, p_sz := 0, p_pid := 0, p_parent := None,
            p_name := (p_name p)[0 := 0], p_chan := None, p_killed := 0, p_xstate := 0, p_state := UNUSED\<rparr>) s2"
    by (auto simp: freeproc_def Let_def)
  have m1: "kmem_st.more s1 = kmem_st.more s" using s1 kfree_more by (auto split: if_splits)
  have m2: "kmem_st.more s2 = kmem_st.more (upd_proc i (\<lambda>p. p\<lparr>p_trapframe := 0\<rparr>) s1)"
    using s2 proc_freepagetable_more by (auto split: if_splits)
  note e1 = more_procs [OF m1] and e2 = more_procs [OF m2]
  have pr: "procs s2 = (procs s)[i := ?p\<lparr>p_trapframe := 0\<rparr>]" using e1 e2 by simp
  show "procs s' = (procs s)[i := ?p\<lparr>p_trapframe := 0, p_pagetable := 0, p_sz := 0, p_pid := 0,
      p_parent := None, p_name := (p_name ?p)[0 := 0], p_chan := None, p_killed := 0, p_xstate := 0,
      p_state := UNUSED\<rparr>]"
    using s' pr by (cases "i < length (procs s)") (auto simp: list_update_beyond)
  show "nextpid s' = nextpid s" "curproc s' = curproc s" "ticks s' = ticks s" using s' e1 e2 by simp_all
qed

lemma proc_pagetable_more: "proc_pagetable i s = Ok (pt, s') \<Longrightarrow> kmem_st.more s' = kmem_st.more s"
proof -
  assume a: "proc_pagetable i s = Ok (pt, s')"
  obtain q s1 where q: "uvmcreate s = (q, s1)" by fastforce
  have "kmem_st.more s1 = kmem_st.more s" using uvmcreate_more [of s] q by simp
  with a q show ?thesis
    by (auto simp: proc_pagetable_def Let_def dest!: mappages_more uvmfree_more uvmunmap_more
        split: if_splits prod.splits)
qed

lemma allocproc_cases:
  assumes "allocproc s = Ok (r, s')"
  obtains (full) "r = None" "s' = s" "\<forall>p\<in>set (procs s). p_state p \<noteq> UNUSED"
  | (fail) i where "r = None" "first_idx (\<lambda>p. p_state p = UNUSED) (procs s) = Some i"
      "nextpid s' = nextpid s + 1" "curproc s' = curproc s"
      "\<exists>q. procs s' = (procs s)[i := q] \<and> p_state q = UNUSED \<and> p_pid q = 0"
  | (ok) i where "r = Some i" "first_idx (\<lambda>p. p_state p = UNUSED) (procs s) = Some i"
      "nextpid s' = nextpid s + 1" "curproc s' = curproc s"
      "\<exists>tf pt cx. tf \<noteq> 0 \<and> pt \<noteq> 0 \<and> procs s' = (procs s)[i := (procs s ! i)\<lparr>p_pid := nextpid s, p_state := USED,
         p_sched := RR, p_trapframe := tf, p_pagetable := pt, p_context := cx\<rparr>]"
proof (cases "first_idx (\<lambda>p. p_state p = UNUSED) (procs s)")
  case None
  then have "allocproc s = Ok (None, s)" by (simp add: allocproc_def)
  moreover have "\<forall>p\<in>set (procs s). p_state p \<noteq> UNUSED" using None by (simp add: first_idx_None)
  ultimately show thesis using assms full by simp
next
  case (Some i)
  then have i: "i < length (procs s)" by (simp add: first_idx_Some)
  define s1 where "s1 = upd_proc i (\<lambda>p. p\<lparr>p_pid := nextpid s, p_state := USED, p_sched := RR\<rparr>) (s\<lparr>nextpid := nextpid s + 1\<rparr>)"
  obtain tf s2 where k: "kalloc s1 = (tf, s2)" by fastforce
  define s3 where "s3 = upd_proc i (\<lambda>p. p\<lparr>p_trapframe := tf\<rparr>) s2"
  have m2: "kmem_st.more s2 = kmem_st.more s1" using kalloc_more [of s1] k by simp
  note e2 = more_procs [OF m2]
  let ?q = "(procs s ! i)\<lparr>p_pid := nextpid s, p_state := USED, p_sched := RR, p_trapframe := tf\<rparr>"
  have p3: "procs s3 = (procs s)[i := ?q]" "nextpid s3 = nextpid s + 1" "curproc s3 = curproc s"
    using e2 i by (simp_all add: s3_def s1_def)
  have run: "allocproc s = (if tf = 0 then rbind (freeproc i s3) (\<lambda>s. Ok (None, s))
      else rbind (proc_pagetable i s3) (\<lambda>(pt, s).
        let s = upd_proc i (\<lambda>p. p\<lparr>p_pagetable := pt\<rparr>) s in
        if pt = 0 then rbind (freeproc i s) (\<lambda>s. Ok (None, s))
        else Ok (Some i, upd_proc i (\<lambda>p. p\<lparr>p_context :=
          \<lparr>ctx_ra = forkret_pc s, ctx_sp = p_kstack p + PGSIZE, ctx_s = replicate 12 0\<rparr>\<rparr>) s)))"
    using Some k by (simp add: allocproc_def allocpid_def Let_def s1_def s3_def)
  show thesis
  proof (cases "tf = 0")
    case True
    then have "rbind (freeproc i s3) (\<lambda>s. Ok (None, s)) = Ok (r, s')" using run assms by simp
    then obtain t where t: "freeproc i s3 = Ok t" "r = None" "s' = t" by auto
    from freeproc_eq [OF t(1)] p3 t i show thesis by (intro fail [OF _ Some]) auto
  next
    case False
    then have "rbind (proc_pagetable i s3) (\<lambda>(pt, s).
        let s = upd_proc i (\<lambda>p. p\<lparr>p_pagetable := pt\<rparr>) s in
        if pt = 0 then rbind (freeproc i s) (\<lambda>s. Ok (None, s))
        else Ok (Some i, upd_proc i (\<lambda>p. p\<lparr>p_context :=
          \<lparr>ctx_ra = forkret_pc s, ctx_sp = p_kstack p + PGSIZE, ctx_s = replicate 12 0\<rparr>\<rparr>) s)) = Ok (r, s')"
      using run assms by simp
    then obtain pt s4 where g: "proc_pagetable i s3 = Ok (pt, s4)"
      and c: "(let s = upd_proc i (\<lambda>p. p\<lparr>p_pagetable := pt\<rparr>) s4 in
        if pt = 0 then rbind (freeproc i s) (\<lambda>s. Ok (None, s))
        else Ok (Some i, upd_proc i (\<lambda>p. p\<lparr>p_context :=
          \<lparr>ctx_ra = forkret_pc s, ctx_sp = p_kstack p + PGSIZE, ctx_s = replicate 12 0\<rparr>\<rparr>) s)) = Ok (r, s')"
      by auto
    note e4 = more_procs [OF proc_pagetable_more [OF g]]
    show thesis
    proof (cases "pt = 0")
      case True
      then obtain t where t: "freeproc i (upd_proc i (\<lambda>p. p\<lparr>p_pagetable := pt\<rparr>) s4) = Ok t" "r = None" "s' = t"
        using c by (auto simp: Let_def)
      from freeproc_eq [OF t(1)] p3 e4 t i show thesis by (intro fail [OF _ Some]) auto
    next
      case pt: False
      have "procs s' = (procs s)[i := ?q\<lparr>p_pagetable := pt, p_context := p_context (procs s' ! i)\<rparr>]"
        using c pt p3 e4 i by (auto simp: Let_def)
      then show thesis using c pt p3 e4 i False by (intro ok [OF _ Some]) (auto simp: Let_def)
    qed
  qed
qed

section \<open>Life of the process table\<close>

text \<open>
  The exit of a process up to \<^verbatim>\<open>sched()\<close>, after its files are closed and its children handed over.
\<close>

definition exit_zombie :: "nat \<Rightarrow> i32 \<Rightarrow> 'a proc_st_scheme \<Rightarrow> 'a proc_st_scheme" where
  "exit_zombie i status s = upd_proc i (\<lambda>p. p\<lparr>p_termination_time := ticks s, p_xstate := status, p_state := ZOMBIE\<rparr>) s"

text \<open>
  Everything in \<^verbatim>\<open>proc.c\<close> that writes a pid, a state or a channel, or takes a pid, one atomic step each. Allocation is for
  \<^verbatim>\<open>userinit\<close> and \<^verbatim>\<open>fork\<close>; the process it yields is started, or discarded when \<^verbatim>\<open>fork\<close> cannot copy the memory. The
  condition on \<^verbatim>\<open>nextpid\<close> is that the counter does not overflow. All other kernel code leaves pids, states and channels
  alone (\<open>ps_frame\<close>).
\<close>

inductive proc_step :: "'a proc_st_scheme \<Rightarrow> 'a proc_st_scheme \<Rightarrow> bool" where
  ps_alloc: "allocproc s = Ok (r, s') \<Longrightarrow> sint (nextpid s) < 2 ^ 31 - 1 \<Longrightarrow> proc_step s s'"
| ps_discard: "i < length (procs s) \<Longrightarrow> p_state (procs s ! i) = USED \<Longrightarrow> freeproc i s = Ok s' \<Longrightarrow> proc_step s s'"
| ps_start: "i < length (procs s) \<Longrightarrow> p_state (procs s ! i) = USED \<Longrightarrow>
    proc_step s (upd_proc i (\<lambda>p. p\<lparr>p_state := RUNNABLE\<rparr>) s)"
| ps_run: "i < length (procs s) \<Longrightarrow> p_state (procs s ! i) = RUNNABLE \<Longrightarrow>
    proc_step s ((upd_proc i (\<lambda>p. p\<lparr>p_state := RUNNING\<rparr>) s)\<lparr>curproc := Some i\<rparr>)"
| ps_switch: "proc_step s (s\<lparr>curproc := None\<rparr>)"
| ps_yield: "i < length (procs s) \<Longrightarrow> p_state (procs s ! i) = RUNNING \<Longrightarrow>
    proc_step s (upd_proc i (\<lambda>p. p\<lparr>p_state := RUNNABLE\<rparr>) s)"
| ps_sleep: "i < length (procs s) \<Longrightarrow> p_state (procs s ! i) = RUNNING \<Longrightarrow> proc_step s (sleep_enter c i s)"
| ps_leave: "i < length (procs s) \<Longrightarrow> p_state (procs s ! i) = RUNNING \<Longrightarrow> proc_step s (sleep_leave i s)"
| ps_wakeup: "proc_step s (wakeup c s)"
| ps_kill: "kill pid s = (r, s') \<Longrightarrow> proc_step s s'"
| ps_exit: "i < length (procs s) \<Longrightarrow> p_state (procs s ! i) = RUNNING \<Longrightarrow> proc_step s (exit_zombie i st s)"
| ps_wait: "wait_round addr s = Ok (r, s') \<Longrightarrow> proc_step s s'"
| ps_clock: "proc_step s (clockintr s)"
| ps_sched: "changeScheduler pid nm s = (r, s') \<Longrightarrow> proc_step s s'"
| ps_frame: "map (\<lambda>p. (p_pid p, p_state p, p_chan p)) (procs s') = map (\<lambda>p. (p_pid p, p_state p, p_chan p)) (procs s) \<Longrightarrow>
    nextpid s' = nextpid s \<Longrightarrow> proc_step s s'"

definition used :: "proc \<Rightarrow> bool" where
  "used p \<longleftrightarrow> p_state p \<noteq> UNUSED"

text \<open>
  Slots in use carry distinct positive pids below \<^verbatim>\<open>nextpid\<close>, free slots pid 0, and a sleeping process has
  a channel.
\<close>

definition slot_ok :: "i32 \<Rightarrow> proc \<Rightarrow> bool" where
  "slot_ok n p \<longleftrightarrow> (if used p then 0 < sint (p_pid p) \<and> sint (p_pid p) < sint n else p_pid p = 0) \<and>
     (p_state p = SLEEPING \<longrightarrow> p_chan p \<noteq> None)"

definition proc_inv :: "'a proc_st_scheme \<Rightarrow> bool" where
  "proc_inv s \<longleftrightarrow> 0 < sint (nextpid s) \<and> (\<forall>i<length (procs s). slot_ok (nextpid s) (procs s ! i)) \<and>
     (\<forall>i<length (procs s). \<forall>j<length (procs s). used (procs s ! i) \<longrightarrow> used (procs s ! j) \<longrightarrow>
        p_pid (procs s ! i) = p_pid (procs s ! j) \<longrightarrow> i = j)"

lemma proc_inv_cong:
  assumes "proc_inv s" and "length (procs s') = length (procs s)" and "nextpid s' = nextpid s"
    and "\<And>i. i < length (procs s) \<Longrightarrow> p_pid (procs s' ! i) = p_pid (procs s ! i) \<and>
      used (procs s' ! i) = used (procs s ! i) \<and>
      (p_state (procs s' ! i) = SLEEPING \<longrightarrow> p_chan (procs s' ! i) \<noteq> None)"
  shows "proc_inv s'"
  using assms unfolding proc_inv_def by (auto simp: slot_ok_def)

lemma proc_inv_upd:
  assumes "proc_inv s" and "p_pid (f (procs s ! i)) = p_pid (procs s ! i)"
    and "used (f (procs s ! i)) = used (procs s ! i)"
    and "p_state (f (procs s ! i)) = SLEEPING \<Longrightarrow> i < length (procs s) \<Longrightarrow> p_chan (f (procs s ! i)) \<noteq> None"
  shows "proc_inv (upd_proc i f s)"
proof (rule proc_inv_cong [OF assms(1)])
  fix j assume j: "j < length (procs s)"
  then have "p_state (procs s ! j) = SLEEPING \<longrightarrow> p_chan (procs s ! j) \<noteq> None"
    using assms(1) by (auto simp: proc_inv_def slot_ok_def)
  with j assms(2-4) show "p_pid (procs (upd_proc i f s) ! j) = p_pid (procs s ! j) \<and>
      used (procs (upd_proc i f s) ! j) = used (procs s ! j) \<and>
      (p_state (procs (upd_proc i f s) ! j) = SLEEPING \<longrightarrow> p_chan (procs (upd_proc i f s) ! j) \<noteq> None)"
    by (cases "j = i") auto
qed simp_all

lemma proc_inv_sleepD:
  "proc_inv s \<Longrightarrow> i < length (procs s) \<Longrightarrow> p_state (procs s ! i) = SLEEPING \<Longrightarrow> \<exists>c. p_chan (procs s ! i) = Some c"
  by (auto simp: proc_inv_def slot_ok_def)

lemma proc_inv_replace:
  assumes "proc_inv s" and "procs s' = (procs s)[i := q]" and "slot_ok (nextpid s') q"
    and "sint (nextpid s) \<le> sint (nextpid s')"
    and "used q \<Longrightarrow> \<forall>j<length (procs s). used (procs s ! j) \<longrightarrow> p_pid (procs s ! j) \<noteq> p_pid q"
  shows "proc_inv s'"
proof -
  have len: "length (procs s') = length (procs s)" using assms(2) by simp
  have nth: "procs s' ! j = (if j = i then q else procs s ! j)" if "j < length (procs s)" for j
    using assms(2) that by simp
  have "slot_ok (nextpid s') (procs s' ! j)" if "j < length (procs s)" for j
    using assms(1,3,4) that by (auto simp: nth proc_inv_def slot_ok_def)
  moreover have "j = k" if "j < length (procs s)" "k < length (procs s)" "used (procs s' ! j)" "used (procs s' ! k)"
    "p_pid (procs s' ! j) = p_pid (procs s' ! k)" for j k
    using that assms(1,5) unfolding nth [OF that(1)] nth [OF that(2)] proc_inv_def
    by (cases "j = i"; cases "k = i") auto
  ultimately show ?thesis using assms(1,4) unfolding proc_inv_def len by auto
qed

lemma proc_inv_nextpid:
  assumes "proc_inv s" and "sint (nextpid s) < 2 ^ 31 - 1"
  shows "sint (nextpid s + 1) = sint (nextpid s) + 1" "0 < sint (nextpid s)"
proof -
  show p: "0 < sint (nextpid s)" using assms(1) by (simp add: proc_inv_def)
  have "sint (nextpid s + 1) = signed_take_bit 31 (sint (nextpid s) + 1)"
    by (simp add: sint_word_ariths)
  also have "\<dots> = sint (nextpid s) + 1"
    using assms(2) p by (intro signed_take_bit_int_eq_self) simp_all
  finally show "sint (nextpid s + 1) = sint (nextpid s) + 1" .
qed

lemma proc_inv_alloc:
  assumes inv: "proc_inv s" and a: "allocproc s = Ok (r, s')" and n: "sint (nextpid s) < 2 ^ 31 - 1"
  shows "proc_inv s'"
  using a
proof (cases rule: allocproc_cases)
  case full
  then show ?thesis using inv by simp
next
  case (fail i)
  then obtain q where "procs s' = (procs s)[i := q]" "p_state q = UNUSED" "p_pid q = 0" by blast
  then show ?thesis
    using proc_inv_nextpid [OF inv n] fail(3) by (intro proc_inv_replace [OF inv]) (auto simp: slot_ok_def used_def)
next
  case (ok i)
  then obtain tf pt cx where q: "procs s' = (procs s)[i := (procs s ! i)\<lparr>p_pid := nextpid s, p_state := USED,
         p_sched := RR, p_trapframe := tf, p_pagetable := pt, p_context := cx\<rparr>]" by blast
  have "\<forall>j<length (procs s). used (procs s ! j) \<longrightarrow> p_pid (procs s ! j) \<noteq> nextpid s"
    using inv by (fastforce simp: proc_inv_def slot_ok_def)
  then show ?thesis
    using q proc_inv_nextpid [OF inv n] ok(3) by (intro proc_inv_replace [OF inv q]) (auto simp: slot_ok_def used_def)
qed

lemma wakeup_nth:
  "i < length (procs s) \<Longrightarrow> procs (wakeup c s) ! i =
     (if myproc s \<noteq> Some i \<and> p_state (procs s ! i) = SLEEPING \<and> p_chan (procs s ! i) = Some c
      then (procs s ! i)\<lparr>p_state := RUNNABLE\<rparr> else procs s ! i)"
  by (simp add: wakeup_def Let_def)

lemma wakeup_simps [simp]:
  "length (procs (wakeup c s)) = length (procs s)" "nextpid (wakeup c s) = nextpid s"
  "curproc (wakeup c s) = curproc s" "ticks (wakeup c s) = ticks s"
  by (simp_all add: wakeup_def)

lemma proc_inv_wakeup: "proc_inv s \<Longrightarrow> proc_inv (wakeup c s)"
  by (rule proc_inv_cong) (auto simp: wakeup_nth used_def dest: proc_inv_sleepD split: if_splits)

lemma proc_inv_wait:
  assumes inv: "proc_inv s" and w: "wait_round addr s = Ok (r, s')"
  shows "proc_inv s'"
proof -
  have same: "proc_inv t" if "kmem_st.more t = kmem_st.more s" for t
    using proc_inv_cong [OF inv, of t] more_procs [OF that] by (auto dest: proc_inv_sleepD [OF inv])
  have free: "proc_inv u" if t: "kmem_st.more t = kmem_st.more s" and "freeproc pp t = Ok u" for t u pp
    using freeproc_eq [OF that(2)] by (intro proc_inv_replace [OF same [OF t]]) (auto simp: slot_ok_def used_def)
  obtain i where i: "myproc s = Some i" using w by (auto simp: wait_round_def with_proc_Ok)
  show ?thesis
  proof (cases "first_idx (\<lambda>p. p_parent p = Some i \<and> p_state p = ZOMBIE) (procs s)")
    case None
    then have "s' = s" using w i by (auto simp: wait_round_def with_proc_Ok split: if_splits)
    then show ?thesis using inv by simp
  next
    case (Some pp)
    let ?out = "if addr \<noteq> 0 then copyout (p_pagetable (procs s ! i)) addr (int_bytes (p_xstate (procs s ! pp))) s
                else Ok (0, s)"
    obtain q t where q: "?out = Ok (q, t)" using w i Some by (auto simp: wait_round_def with_proc_Ok Let_def)
    then have t: "kmem_st.more t = kmem_st.more s" by (auto dest: copyout_more split: if_splits)
    show ?thesis
    proof (cases "q < 0")
      case True
      then have "s' = t" using w i Some q by (auto simp: wait_round_def with_proc_Ok Let_def)
      then show ?thesis using same [OF t] by simp
    next
      case False
      then have "freeproc pp t = Ok s'" using w i Some q by (auto simp: wait_round_def with_proc_Ok Let_def)
      then show ?thesis by (rule free [OF t])
    qed
  qed
qed

lemma proc_inv_step: "proc_step s s' \<Longrightarrow> proc_inv s \<Longrightarrow> proc_inv s'"
proof (induction rule: proc_step.induct)
  case (ps_alloc s r s')
  then show ?case by (blast intro: proc_inv_alloc)
next
  case (ps_discard i s s')
  then show ?case using freeproc_eq [OF ps_discard.hyps(3)] by (intro proc_inv_replace [OF ps_discard.prems]) (auto simp: slot_ok_def used_def)
next
  case (ps_frame s' s)
  have len: "length (procs s') = length (procs s)" using ps_frame(1) by (rule map_eq_imp_length_eq)
  have "(p_pid (procs s' ! i), p_state (procs s' ! i), p_chan (procs s' ! i)) = (p_pid (procs s ! i), p_state (procs s ! i), p_chan (procs s ! i))"
    if "i < length (procs s)" for i
    using arg_cong [OF ps_frame(1), of "\<lambda>xs. xs ! i"] that len by simp
  then show ?case using proc_inv_cong [OF ps_frame(3) len ps_frame(2)] proc_inv_sleepD [OF ps_frame(3)] by (auto simp: used_def)
next
  case (ps_kill pid s r s')
  then show ?case
    by (auto simp: kill_def Let_def used_def split: option.splits if_splits
        intro!: proc_inv_upd dest: proc_inv_sleepD)
next
  case (ps_wait addr s r s')
  then show ?case by (blast intro: proc_inv_wait)
next
  case (ps_clock s)
  have "proc_inv (update_pinfo (s\<lparr>ticks := ticks s + 1\<rparr>))"
    using ps_clock
    by (intro proc_inv_cong [OF ps_clock])
      (auto simp: update_pinfo_def used_def split: procstate.splits dest: proc_inv_sleepD)
  then show ?case by (simp add: clockintr_def Let_def proc_inv_wakeup)
next
  case (ps_sched pid nm s r s')
  have "proc_inv (s\<lparr>intr := False\<rparr>)" using ps_sched(2) by (simp add: proc_inv_def)
  then show ?case
    using ps_sched(1)
    by (auto simp: changeScheduler_def Let_def used_def split: option.splits
        intro!: proc_inv_upd dest: proc_inv_sleepD)
next
  case (ps_run i s)
  then have "proc_inv (upd_proc i (\<lambda>p. p\<lparr>p_state := RUNNING\<rparr>) s)" by (intro proc_inv_upd) (auto simp: used_def)
  then show ?case by (simp add: proc_inv_def)
next
  case (ps_switch s)
  then show ?case by (simp add: proc_inv_def)
qed (auto simp: used_def sleep_enter_def sleep_leave_def exit_zombie_def intro!: proc_inv_upd proc_inv_wakeup
      dest: proc_inv_sleepD) 

section \<open>Scheduling decisions\<close>

definition fcfs_ready :: "proc \<Rightarrow> bool" where
  "fcfs_ready p \<longleftrightarrow> p_state p = RUNNABLE \<and> p_sched p = FCFS"

text \<open>\<open>j\<close> is the first process of least starting tick among the runnable FCFS processes of \<open>ps\<close>.\<close>

definition earliest :: "proc list \<Rightarrow> nat \<Rightarrow> bool" where
  "earliest ps j \<longleftrightarrow> j < length ps \<and> fcfs_ready (ps ! j) \<and>
     (\<forall>k<length ps. fcfs_ready (ps ! k) \<longrightarrow>
        sint (p_startingTick (ps ! j)) \<le> sint (p_startingTick (ps ! k)) \<and>
        (k < j \<longrightarrow> sint (p_startingTick (ps ! j)) < sint (p_startingTick (ps ! k))))"

definition best :: "proc list \<Rightarrow> (nat \<times> proc) option \<Rightarrow> bool" where
  "best ps r \<longleftrightarrow> (case r of None \<Rightarrow> \<forall>p\<in>set ps. \<not> fcfs_ready p | Some (j, q) \<Rightarrow> earliest ps j \<and> q = ps ! j)"

lemma earliest_unique: "earliest ps i \<Longrightarrow> earliest ps j \<Longrightarrow> i = j"
  unfolding earliest_def by (metis linorder_neqE_nat order_less_le_trans order_less_irrefl)

lemma earliest_snoc:
  assumes "earliest ps j"
  shows "earliest (ps @ [p]) j \<longleftrightarrow>
    (fcfs_ready p \<longrightarrow> sint (p_startingTick (ps ! j)) \<le> sint (p_startingTick p))"
  using assms by (auto simp: earliest_def nth_append less_Suc_eq)

lemma best_snoc:
  assumes "best ps r"
  shows "best (ps @ [p])
    (if fcfs_ready p then
       (case r of Some (j, q) \<Rightarrow> if sint (p_startingTick p) < sint (p_startingTick q) then Some (length ps, p) else r
        | None \<Rightarrow> Some (length ps, p))
     else r)"
proof (cases r)
  case None
  with assms have "\<forall>k<length ps. \<not> fcfs_ready (ps ! k)" by (simp add: best_def)
  with assms None show ?thesis by (auto simp: best_def earliest_def nth_append less_Suc_eq)
next
  case (Some jq)
  obtain j q where jq: "jq = (j, q)" by fastforce
  with assms Some have e: "earliest ps j" "q = ps ! j" "j < length ps"
    by (auto simp: best_def earliest_def)
  have "earliest (ps @ [p]) (length ps)" if "fcfs_ready p" "sint (p_startingTick p) < sint (p_startingTick q)"
    using that e by (fastforce simp: earliest_def nth_append less_Suc_eq)
  with e jq Some show ?thesis by (auto simp: best_def earliest_snoc nth_append)
qed

lemma fcfs_scan_best:
  "best ps r \<Longrightarrow> fcfs_scan (length ps) qs r f = (f', r') \<Longrightarrow>
     best (ps @ qs) r' \<and> (f' \<longleftrightarrow> f \<or> (\<exists>p\<in>set qs. fcfs_ready p))"
proof (induction qs arbitrary: ps r f)
  case Nil
  then show ?case by simp
next
  case (Cons p qs)
  let ?r = "if fcfs_ready p then
       (case r of Some (j, q) \<Rightarrow> if sint (p_startingTick p) < sint (p_startingTick q) then Some (length ps, p) else r
        | None \<Rightarrow> Some (length ps, p))
     else r"
  have "fcfs_scan (length (ps @ [p])) qs ?r (f \<or> fcfs_ready p) = (f', r')"
    using Cons.prems(2) by (auto simp: fcfs_ready_def split: if_splits)
  from Cons.IH [OF best_snoc [OF Cons.prems(1)] this] show ?case by auto
qed

lemma fcfs_scan_correct:
  assumes "fcfs_scan 0 ps None False = (f, r)"
  shows "f \<longleftrightarrow> (\<exists>p\<in>set ps. fcfs_ready p)" and "r = None \<longleftrightarrow> \<not> f"
    and "r = Some (j, q) \<Longrightarrow> earliest ps j \<and> q = ps ! j"
proof -
  have "best [] None" by (simp add: best_def)
  from fcfs_scan_best [OF this, of ps False f r] assms
  have b: "best ps r" "f \<longleftrightarrow> (\<exists>p\<in>set ps. fcfs_ready p)" by auto
  then show "f \<longleftrightarrow> (\<exists>p\<in>set ps. fcfs_ready p)" by simp
  show "r = None \<longleftrightarrow> \<not> f" using b by (cases r) (auto simp: best_def earliest_def)
  show "r = Some (j, q) \<Longrightarrow> earliest ps j \<and> q = ps ! j" using b by (simp add: best_def)
qed

section \<open>Properties\<close>

definition blank_proc :: proc where
  "blank_proc = \<lparr>p_state = UNUSED, p_chan = None, p_killed = 0, p_xstate = 0, p_pid = 0, p_startingTick = 0,
     p_termination_time = 0, p_running_time = 0, p_ready_time = 0, p_sleeping_time = 0, p_parent = None,
     p_kstack = 0, p_sz = 0, p_pagetable = 0, p_trapframe = 0,
     p_context = \<lparr>ctx_ra = 0, ctx_sp = 0, ctx_s = replicate 12 0\<rparr>, p_ofile = replicate 16 None, p_cwd = None,
     p_name = replicate 16 0, p_sched = RR\<rparr>"

definition proc_machine :: "proc list \<Rightarrow> proc_st" where
  "proc_machine ps = \<lparr>pmem = (\<lambda>_. 0), kend = 0x87FFF000, freelist = 0, kref = (\<lambda>_. 0), procs = ps, curproc = None,
     nextpid = 9, initproc = None, ticks = 0, intr = False, trampoline = 0x80007000, forkret_pc = 0x80001000\<rparr>"

lemma pass_choice:
  "if \<exists>p\<in>set (procs s). fcfs_ready p
   then \<exists>j. earliest (procs s) j \<and> scheduler_pass run s = dispatch run j (s\<lparr>curproc := None, intr := False\<rparr>)
   else scheduler_pass run s = round_robin run 64 (s\<lparr>curproc := None, intr := False\<rparr>)"
proof -
  obtain f r where fr: "fcfs_scan 0 (procs s) None False = (f, r)" by fastforce
  note F = fcfs_scan_correct [OF fr]
  show ?thesis
  proof (cases r)
    case None
    then show ?thesis using F fr by (auto simp: scheduler_pass_def fcfs_def)
  next
    case (Some jq)
    obtain j q where jq: "jq = (j, q)" by fastforce
    with F(3) Some have e: "earliest (procs s) j" by blast
    then have "p_state (procs s ! j) = RUNNABLE" by (simp add: earliest_def fcfs_ready_def)
    then have "scheduler_pass run s = dispatch run j (s\<lparr>curproc := None, intr := False\<rparr>)"
      using fr Some jq F(2) by (simp add: scheduler_pass_def fcfs_def)
    with e F Some show ?thesis by auto
  qed
qed

text \<open>
  C8: one pass of \<^verbatim>\<open>scheduler\<close>. If some process is runnable under FCFS, the pass runs exactly one process:
  among the runnable FCFS processes the one with the least starting tick, the lowest slot on ties. No
  round-robin process runs in that pass. Only when no FCFS process is runnable does the pass run
  round robin over the table.
\<close>

theorem scheduler_pass_choice:
  "if \<exists>p\<in>set (procs s). fcfs_ready p
   then \<exists>j. earliest (procs s) j \<and> scheduler_pass run s = dispatch run j (s\<lparr>curproc := None, intr := False\<rparr>)
   else scheduler_pass run s = round_robin run 64 (s\<lparr>curproc := None, intr := False\<rparr>)"
  by (rule pass_choice)

theorem scheduler_pass_choice_witness:
  "scheduler_pass (\<lambda>i s. s) (proc_machine [blank_proc\<lparr>p_state := RUNNABLE\<rparr>,
      blank_proc\<lparr>p_state := RUNNABLE, p_sched := FCFS, p_startingTick := 5\<rparr>]) =
   dispatch (\<lambda>i s. s) 1 ((proc_machine [blank_proc\<lparr>p_state := RUNNABLE\<rparr>,
      blank_proc\<lparr>p_state := RUNNABLE, p_sched := FCFS, p_startingTick := 5\<rparr>])\<lparr>curproc := None, intr := False\<rparr>)"
  using scheduler_pass_choice [of "proc_machine [blank_proc\<lparr>p_state := RUNNABLE\<rparr>,
      blank_proc\<lparr>p_state := RUNNABLE, p_sched := FCFS, p_startingTick := 5\<rparr>]" "\<lambda>i s. s"]
  by (auto simp: proc_machine_def blank_proc_def fcfs_ready_def earliest_def less_Suc_eq)

text \<open>
  C15: round-robin processes starve while FCFS processes stay runnable. Suppose that whenever a dispatched FCFS process gives
  the hart back, some FCFS process (the same or another) is runnable; anything else may have happened meanwhile. Then, from a
  state with a runnable FCFS process on, no other process is ever dispatched: replacing what the round-robin processes would do
  when run (\<open>run'\<close> for \<open>run\<close>) changes nothing, however many passes the scheduler makes.
\<close>

theorem rr_starvation:
  assumes ready: "\<And>i t. i < length (procs t) \<Longrightarrow> curproc t = Some i \<Longrightarrow> p_state (procs t ! i) = RUNNING \<Longrightarrow> p_sched (procs t ! i) = FCFS \<Longrightarrow>
      \<exists>p\<in>set (procs (run i t)). fcfs_ready p"
    and other: "\<And>i t. p_sched (procs t ! i) = FCFS \<Longrightarrow> run' i t = run i t"
    and start: "\<exists>p\<in>set (procs s). fcfs_ready p"
  shows "scheduler run' n s = scheduler run n s"
  using start
proof (induction n arbitrary: s)
  case 0
  then show ?case by simp
next
  case (Suc n)
  define t where "t = s\<lparr>curproc := None, intr := False\<rparr>"
  obtain i where i: "earliest (procs s) i" "scheduler_pass run s = dispatch run i t"
    using pass_choice [of s run] Suc.prems unfolding t_def by auto
  obtain i' where i': "earliest (procs s) i'" "scheduler_pass run' s = dispatch run' i' t"
    using pass_choice [of s run'] Suc.prems unfolding t_def by auto
  have "i' = i" by (rule earliest_unique [OF i'(1) i(1)])
  have il: "i < length (procs s)" "p_sched (procs s ! i) = FCFS" using i(1) by (auto simp: earliest_def fcfs_ready_def)
  let ?u = "(upd_proc i (\<lambda>p. p\<lparr>p_state := RUNNING\<rparr>) t)\<lparr>curproc := Some i\<rparr>"
  have u: "i < length (procs ?u)" "p_state (procs ?u ! i) = RUNNING" "p_sched (procs ?u ! i) = FCFS" "curproc ?u = Some i"
    using il by (simp_all add: t_def)
  have "scheduler_pass run' s = scheduler_pass run s"
    unfolding i(2) i'(2) \<open>i' = i\<close> dispatch_def using other [OF u(3)] by (simp add: Let_def)
  moreover have "\<exists>p\<in>set (procs (scheduler_pass run s)). fcfs_ready p"
    unfolding i(2) dispatch_def using ready [OF u(1,4,2,3)] by (simp add: Let_def)
  ultimately show ?case using Suc.IH [of "scheduler_pass run s"] by simp
qed

text \<open>An FCFS process that computes until the next clock tick, and a round-robin process that would exit.\<close>

definition tick_run :: "nat \<Rightarrow> proc_st \<Rightarrow> proc_st" where
  "tick_run i t = clockintr (upd_proc i (\<lambda>p. p\<lparr>p_state := RUNNABLE\<rparr>) t)"

definition exit_run :: "nat \<Rightarrow> proc_st \<Rightarrow> proc_st" where
  "exit_run i t = (if p_sched (procs t ! i) = RR then exit_zombie i 0 t else tick_run i t)"

theorem rr_starvation_witness:
  "scheduler exit_run 1000 (proc_machine [blank_proc\<lparr>p_state := RUNNABLE\<rparr>, blank_proc\<lparr>p_state := RUNNABLE, p_sched := FCFS\<rparr>]) =
   scheduler tick_run 1000 (proc_machine [blank_proc\<lparr>p_state := RUNNABLE\<rparr>, blank_proc\<lparr>p_state := RUNNABLE, p_sched := FCFS\<rparr>])"
proof (rule rr_starvation)
  fix i :: nat and t :: proc_st
  assume i: "i < length (procs t)" and f: "p_sched (procs t ! i) = FCFS"
  let ?u = "update_pinfo (upd_proc i (\<lambda>p. p\<lparr>p_state := RUNNABLE\<rparr>) t\<lparr>ticks := ticks t + 1\<rparr>)"
  have "fcfs_ready (procs ?u ! i)" "i < length (procs ?u)" using i f by (simp_all add: update_pinfo_def fcfs_ready_def)
  then have "fcfs_ready (procs (tick_run i t) ! i)" "i < length (procs (tick_run i t))"
    by (simp_all add: tick_run_def clockintr_def Let_def wakeup_nth fcfs_ready_def)
  then show "\<exists>p\<in>set (procs (tick_run i t)). fcfs_ready p" by (meson nth_mem)
qed (auto simp: exit_run_def proc_machine_def fcfs_ready_def blank_proc_def)

inductive proc_reach :: "'a proc_st_scheme \<Rightarrow> bool" where
  pr_boot: "nextpid s = 1 \<Longrightarrow> (\<forall>p\<in>set (procs s). p_pid p = 0) \<Longrightarrow> proc_reach (procinit s)"
| pr_step: "proc_reach s \<Longrightarrow> proc_step s s' \<Longrightarrow> proc_reach s'"

text \<open>
  C10: from the boot state, whatever sequence of kernel operations on the process table happens (allocation, also when
  it fails or \<^verbatim>\<open>fork\<close> gives the slot up again, dispatch, sleep, wakeup, kill, exit, wait, clock ticks, scheduler changes),
  and as long as the pid counter does not overflow an \<^verbatim>\<open>int\<close>, processes in use have pairwise distinct positive pids, free slots have pid 0 and
  every sleeping process has a channel to be woken on.
\<close>

theorem proc_table_invariant:
  assumes "proc_reach s"
  shows "(\<forall>i<length (procs s). \<forall>j<length (procs s). p_state (procs s ! i) \<noteq> UNUSED \<longrightarrow>
      p_state (procs s ! j) \<noteq> UNUSED \<longrightarrow> p_pid (procs s ! i) = p_pid (procs s ! j) \<longrightarrow> i = j) \<and>
    (\<forall>p\<in>set (procs s). (p_state p = UNUSED \<longrightarrow> p_pid p = 0) \<and> (p_state p \<noteq> UNUSED \<longrightarrow> 0 < sint (p_pid p)) \<and>
      (p_state p = SLEEPING \<longrightarrow> p_chan p \<noteq> None))"
proof -
  have "proc_inv s"
    using assms
  proof (induction rule: proc_reach.induct)
    case (pr_boot s)
    then show ?case by (auto simp: proc_inv_def slot_ok_def used_def procinit_def)
  next
    case (pr_step s s')
    then show ?case by (blast intro: proc_inv_step)
  qed
  then have "\<forall>p\<in>set (procs s). slot_ok (nextpid s) p" and u: "\<forall>i<length (procs s). \<forall>j<length (procs s).
      used (procs s ! i) \<longrightarrow> used (procs s ! j) \<longrightarrow> p_pid (procs s ! i) = p_pid (procs s ! j) \<longrightarrow> i = j"
    unfolding proc_inv_def by (metis in_set_conv_nth, blast)
  then have "\<forall>p\<in>set (procs s). (p_state p = UNUSED \<longrightarrow> p_pid p = 0) \<and> (p_state p \<noteq> UNUSED \<longrightarrow> 0 < sint (p_pid p)) \<and>
      (p_state p = SLEEPING \<longrightarrow> p_chan p \<noteq> None)"
    unfolding slot_ok_def used_def by (metis procstate.distinct(3))
  then show ?thesis using u by (simp add: used_def)
qed

text \<open>A process is allocated, which fails for lack of memory and gives the slot back, and the clock ticks.\<close>

theorem proc_table_invariant_witness:
  "\<exists>s. allocproc (procinit (proc_machine [blank_proc]\<lparr>nextpid := 1\<rparr>)) = Ok (None, s) \<and> nextpid (clockintr s) = 2 \<and> p_pid (procs (clockintr s) ! 0) = 0"
proof -
  let ?s = "procinit (proc_machine [blank_proc]\<lparr>nextpid := 1\<rparr>)"
  have r: "proc_reach ?s" by (rule pr_boot) (simp_all add: proc_machine_def blank_proc_def)
  obtain s where a: "allocproc ?s = Ok (None, s)" "length (procs s) = 1" "p_state (procs s ! 0) = UNUSED" "nextpid s = 2"
    by (simp add: allocproc_def procinit_def proc_machine_def blank_proc_def allocpid_def kalloc_def freeproc_def Let_def upd_proc_def)
  have "proc_step ?s s" by (rule ps_alloc [OF a(1)]) (simp add: procinit_def proc_machine_def)
  from pr_step [OF pr_step [OF r this] ps_clock] have c: "proc_reach (clockintr s)" .
  have st: "length (procs (clockintr s)) = 1" "p_state (procs (clockintr s) ! 0) = UNUSED" "nextpid (clockintr s) = 2"
    using a(2-4) by (simp_all add: clockintr_def Let_def wakeup_nth update_pinfo_def)
  then have "procs (clockintr s) ! 0 \<in> set (procs (clockintr s))" by (intro nth_mem) simp
  then show ?thesis using proc_table_invariant [OF c] st a(1) by blast
qed

text \<open>
  A slot is handed out with what its previous life left in it. When \<^verbatim>\<open>allocproc\<close> succeeds, the new process
  has the pid, a trapframe and a page table, but its killed flag, starting tick and time
  statistics are those found in the slot: \<^verbatim>\<open>freeproc\<close> never clears the statistics, and after \<^verbatim>\<open>kill(0)\<close>,
  which matches a free slot because free slots have pid 0, the next process is born killed.
\<close>

lemma allocproc_inherits:
  "case allocproc s of
     Ok (Some i, s') \<Rightarrow>
       p_state (procs s' ! i) = USED \<and> p_pid (procs s' ! i) = nextpid s \<and> p_trapframe (procs s' ! i) \<noteq> 0 \<and>
       p_pagetable (procs s' ! i) \<noteq> 0 \<and> p_killed (procs s' ! i) = p_killed (procs s ! i) \<and>
       p_startingTick (procs s' ! i) = p_startingTick (procs s ! i) \<and>
       p_running_time (procs s' ! i) = p_running_time (procs s ! i) \<and>
       p_ready_time (procs s' ! i) = p_ready_time (procs s ! i) \<and>
       p_sleeping_time (procs s' ! i) = p_sleeping_time (procs s ! i)
   | Ok (None, s') \<Rightarrow> nextpid s' = nextpid s \<or> nextpid s' = nextpid s + 1
   | _ \<Rightarrow> True"
proof (cases "allocproc s")
  case (Ok x)
  obtain r s' where x: "x = (r, s')" by fastforce
  from Ok x have "allocproc s = Ok (r, s')" by simp
  then show ?thesis
  proof (cases rule: allocproc_cases)
    case (ok i)
    then have "i < length (procs s)" by (simp add: first_idx_Some)
    with ok Ok x show ?thesis by auto
  qed (auto simp: Ok x)
qed auto

text \<open>
  \<^verbatim>\<open>yield\<close> called with no spin-lock held passes every check of \<^verbatim>\<open>sched\<close>, so it does not panic, and it returns
  with interrupts as they were, on whatever hart the process runs next (a hart whose scheduler
  hands over holding one lock with interrupts off).
\<close>

lemma yield_returns:
  assumes "h_noff c = 0" and "\<not> holding me lk"
    and "\<And>c. h_noff (swtch c) = 1 \<and> \<not> h_intr (swtch c)"
  shows "\<exists>c'. yield me swtch lk c = Ok c' \<and> h_noff c' = 0 \<and> h_intr c' = h_intr c"
  using assms by (auto simp: yield_def sched_def push_off_def pop_off_def holding_def Let_def)

end
