(* ===== verification/Bio.thy ===== *)
theory Bio
  imports Proc
begin

text \<open>
  \<^verbatim>\<open>kernel/sleeplock.c\<close> and \<^verbatim>\<open>kernel/bio.c\<close>: the block cache. Buffers are a table; \<open>lru\<close> lists their indices
  in the order of the circular list through \<^verbatim>\<open>next\<close>, most recent first (theory \<open>Bcache_List\<close> relates it to
  the pointers). The disk is a function from block numbers to blocks, and \<open>dwrites\<close> records the writes
  made to it in order, so that crashes between two writes can be described. \<open>blk\<close> is the contents of a
  block as the file system sees it, through the cache.
\<close>

section \<open>State\<close>

record sleeplock =
  slk_locked :: u32
  slk_pid :: i32

record buf =
  b_valid :: i32
  b_dev :: u32
  b_blockno :: u32
  b_lock :: sleeplock
  b_refcnt :: u32
  b_data :: "u8 list"

record bio_st = proc_st +
  bufs :: "buf list"
  lru :: "nat list"
  disk :: "u32 \<Rightarrow> u8 list"
  dwrites :: "(u32 \<times> u8 list) list"    \<comment> \<open>history of disk writes, oldest first\<close>

definition upd_buf :: "nat \<Rightarrow> (buf \<Rightarrow> buf) \<Rightarrow> 'a bio_st_scheme \<Rightarrow> 'a bio_st_scheme" where
  "upd_buf i f s = s\<lparr>bufs := (bufs s)[i := f (bufs s ! i)]\<rparr>"

section \<open>Sleep-locks\<close>

definition initsleeplock :: "sleeplock \<Rightarrow> sleeplock" where
  "initsleeplock lk = lk\<lparr>slk_locked := 0, slk_pid := 0\<rparr>"

text \<open>
  \<^verbatim>\<open>acquiresleep\<close>: \<open>Sleep\<close> when the lock is taken; the loop tries again when woken. \<open>pid\<close> is that of
  \<^verbatim>\<open>myproc()\<close>.
\<close>

definition acquiresleep :: "chan \<Rightarrow> i32 \<Rightarrow> sleeplock \<Rightarrow> sleeplock res" where
  "acquiresleep c pid lk =
     (if slk_locked lk \<noteq> 0 then Sleep c else Ok (lk\<lparr>slk_locked := 1, slk_pid := pid\<rparr>))"

text \<open>The \<^verbatim>\<open>wakeup\<close> of \<^verbatim>\<open>releasesleep\<close> concerns the process table and is applied by its callers below.\<close>

definition releasesleep :: "sleeplock \<Rightarrow> sleeplock" where
  "releasesleep lk = lk\<lparr>slk_locked := 0, slk_pid := 0\<rparr>"

definition holdingsleep :: "i32 \<Rightarrow> sleeplock \<Rightarrow> bool" where
  "holdingsleep pid lk \<longleftrightarrow> slk_locked lk \<noteq> 0 \<and> slk_pid lk = pid"

definition mypid :: "'a proc_st_scheme \<Rightarrow> i32" where
  "mypid s = (case myproc s of Some i \<Rightarrow> p_pid (procs s ! i) | None \<Rightarrow> 0)"

section \<open>The cache\<close>

text \<open>
  \<^verbatim>\<open>binit\<close> pushes the buffers to the front of the list one by one, so the last one is first.
\<close>

definition binit :: "'a bio_st_scheme \<Rightarrow> 'a bio_st_scheme" where
  "binit s = s\<lparr>bufs := map (\<lambda>b. b\<lparr>b_lock := initsleeplock (b_lock b)\<rparr>) (bufs s), lru := rev [0..<length (bufs s)]\<rparr>"

definition lock_buf :: "nat \<Rightarrow> 'a bio_st_scheme \<Rightarrow> (nat \<times> 'a bio_st_scheme) res" where
  "lock_buf i s =
     rbind (acquiresleep (ChBufLock i) (mypid s) (b_lock (bufs s ! i))) (\<lambda>lk.
       with_proc s (\<lambda>_. Ok (i, upd_buf i (\<lambda>b. b\<lparr>b_lock := lk\<rparr>) s)))"

definition bget :: "u32 \<Rightarrow> u32 \<Rightarrow> 'a bio_st_scheme \<Rightarrow> (nat \<times> 'a bio_st_scheme) res" where
  "bget dev blockno s =
     (case find (\<lambda>i. b_dev (bufs s ! i) = dev \<and> b_blockno (bufs s ! i) = blockno) (lru s) of
        Some i \<Rightarrow> lock_buf i (upd_buf i (\<lambda>b. b\<lparr>b_refcnt := b_refcnt b + 1\<rparr>) s)
      | None \<Rightarrow>
          (case find (\<lambda>i. b_refcnt (bufs s ! i) = 0) (rev (lru s)) of
             Some i \<Rightarrow>
               lock_buf i (upd_buf i (\<lambda>b. b\<lparr>b_dev := dev, b_blockno := blockno, b_valid := 0, b_refcnt := 1\<rparr>) s)
           | None \<Rightarrow> Panic ''bget: no buffers''))"

text \<open>
  \<^verbatim>\<open>virtio_disk_rw\<close> as its callers see it: the request is done when it returns. The driver looks
  only at the block number.
\<close>

definition disk_rw :: "nat \<Rightarrow> bool \<Rightarrow> 'a bio_st_scheme \<Rightarrow> 'a bio_st_scheme" where
  "disk_rw i write s =
     (let b = bufs s ! i in
      if write then s\<lparr>disk := (disk s)(b_blockno b := b_data b), dwrites := dwrites s @ [(b_blockno b, b_data b)]\<rparr>
      else upd_buf i (\<lambda>b. b\<lparr>b_data := disk s (b_blockno b)\<rparr>) s)"

definition bread :: "u32 \<Rightarrow> u32 \<Rightarrow> 'a bio_st_scheme \<Rightarrow> (nat \<times> 'a bio_st_scheme) res" where
  "bread dev blockno s =
     rbind (bget dev blockno s) (\<lambda>(i, s).
       if b_valid (bufs s ! i) = 0
       then Ok (i, upd_buf i (\<lambda>b. b\<lparr>b_valid := 1\<rparr>) (disk_rw i False s))
       else Ok (i, s))"

definition bwrite :: "nat \<Rightarrow> 'a bio_st_scheme \<Rightarrow> 'a bio_st_scheme res" where
  "bwrite i s =
     (if \<not> holdingsleep (mypid s) (b_lock (bufs s ! i)) then Panic ''bwrite'' else Ok (disk_rw i True s))"

definition brelse :: "nat \<Rightarrow> 'a bio_st_scheme \<Rightarrow> 'a bio_st_scheme res" where
  "brelse i s =
     (if \<not> holdingsleep (mypid s) (b_lock (bufs s ! i)) then Panic ''brelse''
      else
        let s = wakeup (ChBufLock i) (upd_buf i (\<lambda>b. b\<lparr>b_lock := releasesleep (b_lock b)\<rparr>) s);
            s = upd_buf i (\<lambda>b. b\<lparr>b_refcnt := b_refcnt b - 1\<rparr>) s in
        Ok (if b_refcnt (bufs s ! i) = 0 then s\<lparr>lru := i # remove1 i (lru s)\<rparr> else s))"

definition bpin :: "nat \<Rightarrow> 'a bio_st_scheme \<Rightarrow> 'a bio_st_scheme" where
  "bpin i s = upd_buf i (\<lambda>b. b\<lparr>b_refcnt := b_refcnt b + 1\<rparr>) s"

definition bunpin :: "nat \<Rightarrow> 'a bio_st_scheme \<Rightarrow> 'a bio_st_scheme" where
  "bunpin i s = upd_buf i (\<lambda>b. b\<lparr>b_refcnt := b_refcnt b - 1\<rparr>) s"

text \<open>The callers' assignments to \<^verbatim>\<open>b->data\<close>.\<close>

definition set_data :: "nat \<Rightarrow> u8 list \<Rightarrow> 'a bio_st_scheme \<Rightarrow> 'a bio_st_scheme" where
  "set_data i d s = upd_buf i (\<lambda>b. b\<lparr>b_data := d\<rparr>) s"

section \<open>The cache as a view of the disk\<close>

text \<open>\<open>slot s n\<close> is the buffer that caches block \<open>n\<close> of the root device.\<close>

definition slot :: "'a bio_st_scheme \<Rightarrow> u32 \<Rightarrow> nat option" where
  "slot s n = find (\<lambda>i. b_dev (bufs s ! i) = 1 \<and> b_blockno (bufs s ! i) = n) (lru s)"

definition blk :: "'a bio_st_scheme \<Rightarrow> u32 \<Rightarrow> u8 list" where
  "blk s n = (case slot s n of
     Some i \<Rightarrow> if b_valid (bufs s ! i) \<noteq> 0 then b_data (bufs s ! i) else disk s n
   | None \<Rightarrow> disk s n)"

text \<open>
  What the clients of the cache see of a state: the contents, reference count and lock owner of every
  block, the disk, and the history of its writes.
\<close>

definition lock_owner :: "sleeplock \<Rightarrow> i32 option" where
  "lock_owner lk = (if slk_locked lk = 0 then None else Some (slk_pid lk))"

record bview =
  v_blk :: "u32 \<Rightarrow> u8 list"
  v_refs :: "u32 \<Rightarrow> u32"
  v_lock :: "u32 \<Rightarrow> i32 option"
  v_disk :: "u32 \<Rightarrow> u8 list"
  v_writes :: "(u32 \<times> u8 list) list"

definition refs :: "'a bio_st_scheme \<Rightarrow> u32 \<Rightarrow> u32" where
  "refs s n = (case slot s n of Some i \<Rightarrow> b_refcnt (bufs s ! i) | None \<Rightarrow> 0)"

definition locks :: "'a bio_st_scheme \<Rightarrow> u32 \<Rightarrow> i32 option" where
  "locks s n = (case slot s n of Some i \<Rightarrow> lock_owner (b_lock (bufs s ! i)) | None \<Rightarrow> None)"

definition view :: "'a bio_st_scheme \<Rightarrow> bview" where
  "view s = \<lparr>v_blk = blk s, v_refs = refs s, v_lock = locks s, v_disk = disk s, v_writes = dwrites s\<rparr>"

text \<open>
  The invariant: \<open>lru\<close> is a permutation of the table, no block is cached twice, a buffer nobody
  refers to is clean or empty and unlocked, and only blocks of the root device are referred to.
\<close>

definition buf_ok :: "(u32 \<Rightarrow> u8 list) \<Rightarrow> buf \<Rightarrow> bool" where
  "buf_ok d b \<longleftrightarrow> (if b_refcnt b = 0
     then slk_locked (b_lock b) = 0 \<and> (b_dev b = 1 \<longrightarrow> b_valid b \<noteq> 0 \<longrightarrow> b_data b = d (b_blockno b))
     else b_dev b = 1)"

definition bio_inv :: "'a bio_st_scheme \<Rightarrow> bool" where
  "bio_inv s \<longleftrightarrow> distinct (lru s) \<and> set (lru s) = {..<length (bufs s)} \<and>
     (\<forall>i<length (bufs s). \<forall>j<length (bufs s). b_dev (bufs s ! i) = 1 \<longrightarrow> b_dev (bufs s ! j) = 1 \<longrightarrow>
        b_blockno (bufs s ! i) = b_blockno (bufs s ! j) \<longrightarrow> i = j) \<and>
     (\<forall>i<length (bufs s). buf_ok (disk s) (bufs s ! i)) \<and>
     (\<exists>p<length (procs s). myproc s = Some p)"

lemma bio_invD:
  assumes "bio_inv s"
  shows "distinct (lru s)" "i \<in> set (lru s) \<longleftrightarrow> i < length (bufs s)"
    "i < length (bufs s) \<Longrightarrow> j < length (bufs s) \<Longrightarrow> b_dev (bufs s ! i) = 1 \<Longrightarrow> b_dev (bufs s ! j) = 1 \<Longrightarrow>
        b_blockno (bufs s ! i) = b_blockno (bufs s ! j) \<Longrightarrow> i = j"
    "i < length (bufs s) \<Longrightarrow> buf_ok (disk s) (bufs s ! i)"
    "\<exists>p<length (procs s). myproc s = Some p"
  using assms unfolding bio_inv_def by (blast, blast, blast, blast, auto)

lemma slot_Some:
  assumes "bio_inv s"
  shows "slot s n = Some i \<longleftrightarrow> i < length (bufs s) \<and> b_dev (bufs s ! i) = 1 \<and> b_blockno (bufs s ! i) = n"
proof
  assume "slot s n = Some i"
  then show "i < length (bufs s) \<and> b_dev (bufs s ! i) = 1 \<and> b_blockno (bufs s ! i) = n"
    using bio_invD(2) [OF assms, of i] by (auto simp: slot_def find_Some_iff)
next
  assume i: "i < length (bufs s) \<and> b_dev (bufs s ! i) = 1 \<and> b_blockno (bufs s ! i) = n"
  then have "i \<in> set (lru s)" using bio_invD(2) [OF assms] by blast
  then obtain j where j: "slot s n = Some j"
    using i by (cases "slot s n") (auto simp: slot_def find_None_iff)
  then have "j < length (bufs s)" "b_dev (bufs s ! j) = 1" "b_blockno (bufs s ! j) = n"
    using bio_invD(2) [OF assms, of j] by (auto simp: slot_def find_Some_iff)
  with i have "j = i" using bio_invD(3) [OF assms, of j i] by simp
  with j show "slot s n = Some i" by simp
qed

lemma slot_eqI:
  assumes "bio_inv s" "bio_inv s'" "length (bufs s') = length (bufs s)"
    and "\<forall>i<length (bufs s). b_dev (bufs s' ! i) = b_dev (bufs s ! i) \<and> b_blockno (bufs s' ! i) = b_blockno (bufs s ! i)"
  shows "slot s' = slot s"
proof
  fix n
  have "slot s' n = Some i \<longleftrightarrow> slot s n = Some i" for i
    using assms by (auto simp: slot_Some)
  then show "slot s' n = slot s n" by (metis option.exhaust)
qed

lemma upd_buf_simps [simp]:
  "length (bufs (upd_buf i f s)) = length (bufs s)" "lru (upd_buf i f s) = lru s" "disk (upd_buf i f s) = disk s"
  "dwrites (upd_buf i f s) = dwrites s" "myproc (upd_buf i f s) = myproc s" "procs (upd_buf i f s) = procs s" "mypid (upd_buf i f s) = mypid s"
  by (simp_all add: upd_buf_def myproc_def mypid_def split: option.split)

lemma upd_buf_nth: "j < length (bufs s) \<Longrightarrow> bufs (upd_buf i f s) ! j = (if j = i then f (bufs s ! j) else bufs s ! j)"
  by (auto simp: upd_buf_def)

lemma upd_buf_upd_buf: "i < length (bufs s) \<Longrightarrow> upd_buf i f (upd_buf i g s) = upd_buf i (\<lambda>b. f (g b)) s"
  by (simp add: upd_buf_def)

lemma bio_inv_upd:
  assumes "bio_inv s" "i < length (bufs s)" "buf_ok (disk s) (f (bufs s ! i))"
    and "b_dev (f (bufs s ! i)) = b_dev (bufs s ! i)" "b_blockno (f (bufs s ! i)) = b_blockno (bufs s ! i)"
  shows "bio_inv (upd_buf i f s)"
  using assms unfolding bio_inv_def by (auto simp: upd_buf_nth split: if_splits)

lemma slot_upd:
  assumes "bio_inv s" "i < length (bufs s)" "buf_ok (disk s) (f (bufs s ! i))"
    and "b_dev (f (bufs s ! i)) = b_dev (bufs s ! i)" "b_blockno (f (bufs s ! i)) = b_blockno (bufs s ! i)"
  shows "slot (upd_buf i f s) = slot s"
  by (rule slot_eqI [OF assms(1) bio_inv_upd [of s i f, OF assms]]) (auto simp: upd_buf_nth assms)

text \<open>The three parts of the view that depend on buffers, after a change of one buffer.\<close>

lemma view_upd:
  assumes "bio_inv s" "slot s n = Some i" "buf_ok (disk s) (f (bufs s ! i))"
    and "b_dev (f (bufs s ! i)) = b_dev (bufs s ! i)" "b_blockno (f (bufs s ! i)) = b_blockno (bufs s ! i)"
  defines "b \<equiv> f (bufs s ! i)"
  shows "view (upd_buf i f s) =
    (view s)\<lparr>v_blk := (blk s)(n := if b_valid b \<noteq> 0 then b_data b else disk s n),
             v_refs := (refs s)(n := b_refcnt b), v_lock := (locks s)(n := lock_owner (b_lock b))\<rparr>"
proof -
  have i: "i < length (bufs s)" and n: "b_blockno (bufs s ! i) = n" using assms(1,2) by (auto simp: slot_Some)
  have sl: "slot (upd_buf i f s) = slot s" by (rule slot_upd [of s i f, OF assms(1) i assms(3-5)])
  have ne: "j < length (bufs s) \<and> j \<noteq> i" if "slot s m = Some j" "m \<noteq> n" for m j
    using that n assms(1) by (auto simp: slot_Some)
  show ?thesis
    using i assms(2) ne
    by (auto simp: view_def blk_def refs_def locks_def sl fun_eq_iff upd_buf_nth b_def split: option.splits)
qed

text \<open>
  What the operations of the cache leave alone: everything outside it, except that processes asleep on a
  buffer's lock may have been woken; buffers in use stay where they are.
\<close>

definition bcore :: "'a bio_st_scheme \<Rightarrow> 'a bio_st_scheme" where
  "bcore s = s\<lparr>bufs := [], lru := [], disk := (\<lambda>_. []), dwrites := [],
               procs := map (\<lambda>p. p\<lparr>p_state := UNUSED\<rparr>) (procs s)\<rparr>"

definition cached :: "'a bio_st_scheme \<Rightarrow> nat \<Rightarrow> u32 \<Rightarrow> bool" where
  "cached s i n \<longleftrightarrow> slot s n = Some i \<and> b_valid (bufs s ! i) \<noteq> 0"

definition bframe :: "'a bio_st_scheme \<Rightarrow> 'a bio_st_scheme \<Rightarrow> bool" where
  "bframe s s' \<longleftrightarrow> bcore s' = bcore s \<and> length (bufs s') = length (bufs s) \<and> mypid s' = mypid s \<and>
     (\<forall>n j. cached s j n \<longrightarrow> refs s n \<noteq> 0 \<longrightarrow> refs s' n \<noteq> 0 \<longrightarrow> cached s' j n)"

lemma bcore_upd [simp]: "bcore (upd_buf i f s) = bcore s"
  by (simp add: bcore_def upd_buf_def)

lemma bcore_more: "bcore s' = bcore s \<Longrightarrow> bio_st.more s' = bio_st.more s"
  by (drule arg_cong [where f = bio_st.more]) (simp add: bcore_def)

lemma bcore_core:
  assumes "bcore s' = bcore s"
  shows "pmem s' = pmem s" "kref s' = kref s" "freelist s' = freelist s" "kend s' = kend s" "curproc s' = curproc s"
  using assms [THEN arg_cong [where f = pmem]] assms [THEN arg_cong [where f = kref]]
    assms [THEN arg_cong [where f = freelist]] assms [THEN arg_cong [where f = kend]] assms [THEN arg_cong [where f = curproc]]
  by (simp_all add: bcore_def)

lemma bframe_upd:
  assumes "bio_inv s" "i < length (bufs s)" "buf_ok (disk s) (f (bufs s ! i))"
    and "b_dev (f (bufs s ! i)) = b_dev (bufs s ! i)" "b_blockno (f (bufs s ! i)) = b_blockno (bufs s ! i)"
    and "b_valid (bufs s ! i) \<noteq> 0 \<longrightarrow> b_valid (f (bufs s ! i)) \<noteq> 0"
  shows "bframe s (upd_buf i f s)"
proof -
  have "cached (upd_buf i f s) j n" if "cached s j n" for j n
    using that assms(6) slot_Some [OF assms(1), of n j] slot_upd [of s i f, OF assms(1-5)]
    by (auto simp: cached_def upd_buf_nth)
  then show ?thesis by (simp add: bframe_def)
qed

subsection \<open>Reading a block\<close>

definition taken :: "'a bio_st_scheme \<Rightarrow> sleeplock \<Rightarrow> sleeplock" where
  "taken s lk = lk\<lparr>slk_locked := 1, slk_pid := mypid s\<rparr>"

lemma lock_buf_ok:
  assumes "myproc s \<noteq> None" "slk_locked (b_lock (bufs s ! i)) = 0"
  shows "lock_buf i s = Ok (i, upd_buf i (\<lambda>b. b\<lparr>b_lock := taken s (b_lock (bufs s ! i))\<rparr>) s)"
  using assms by (auto simp: lock_buf_def acquiresleep_def with_proc_def taken_def)

definition fill :: "u8 list \<Rightarrow> buf \<Rightarrow> buf" where
  "fill d b = (if b_valid b = 0 then b\<lparr>b_data := d, b_valid := 1\<rparr> else b)"

lemma bread_hit:
  assumes "slot s n = Some i" "i < length (bufs s)" "myproc s \<noteq> None" "slk_locked (b_lock (bufs s ! i)) = 0"
    "b_blockno (bufs s ! i) = n"
  shows "bread 1 n s = Ok (i, upd_buf i (\<lambda>b. fill (disk s n)
    (b\<lparr>b_refcnt := b_refcnt b + 1, b_lock := taken s (b_lock b)\<rparr>)) s)"
  using assms
  by (simp add: bread_def bget_def slot_def lock_buf_ok upd_buf_nth upd_buf_upd_buf disk_rw_def taken_def Let_def)
    (auto simp: upd_buf_def fill_def)

lemma bread_miss:
  assumes "slot s n = None" "find (\<lambda>i. b_refcnt (bufs s ! i) = 0) (rev (lru s)) = Some i"
    "i < length (bufs s)" "myproc s \<noteq> None" "slk_locked (b_lock (bufs s ! i)) = 0"
  shows "bread 1 n s = Ok (i, upd_buf i (\<lambda>b. fill (disk s n)
    (b\<lparr>b_dev := 1, b_blockno := n, b_valid := 0, b_refcnt := 1, b_lock := taken s (b_lock b)\<rparr>)) s)"
  using assms
  by (simp add: bread_def bget_def slot_def lock_buf_ok upd_buf_nth upd_buf_upd_buf disk_rw_def taken_def Let_def)
    (auto simp: upd_buf_def fill_def)

lemma find_SomeD: "find P xs = Some x \<Longrightarrow> x \<in> set xs \<and> P x"
  by (induction xs) (auto split: if_splits)

lemma free_buf:
  assumes inv: "bio_inv s" and c: "card {m. refs s m \<noteq> 0} < length (bufs s)"
  shows "\<exists>i. find (\<lambda>i. b_refcnt (bufs s ! i) = 0) (rev (lru s)) = Some i \<and> i < length (bufs s) \<and> b_refcnt (bufs s ! i) = 0"
proof -
  have "\<exists>i<length (bufs s). b_refcnt (bufs s ! i) = 0"
  proof (rule ccontr)
    assume "\<not> ?thesis"
    then have r: "b_refcnt (bufs s ! i) \<noteq> 0 \<and> b_dev (bufs s ! i) = 1" if "i < length (bufs s)" for i
      using that bio_invD(4) [OF inv that] by (auto simp: buf_ok_def)
    have "inj_on (\<lambda>i. b_blockno (bufs s ! i)) {..<length (bufs s)}"
      by (rule inj_onI) (use r bio_invD(3) [OF inv] in auto)
    moreover have "(\<lambda>i. b_blockno (bufs s ! i)) ` {..<length (bufs s)} \<subseteq> {m. refs s m \<noteq> 0}"
    proof
      fix m assume "m \<in> (\<lambda>i. b_blockno (bufs s ! i)) ` {..<length (bufs s)}"
      then obtain i where i: "i < length (bufs s)" "m = b_blockno (bufs s ! i)" by auto
      then have "slot s m = Some i" using r inv by (simp add: slot_Some)
      with i r show "m \<in> {m. refs s m \<noteq> 0}" by (simp add: refs_def)
    qed
    ultimately have "length (bufs s) \<le> card {m. refs s m \<noteq> 0}"
      by (metis card_inj_on_le card_lessThan finite)
    with c show False by simp
  qed
  then obtain i where "i \<in> set (rev (lru s))" "b_refcnt (bufs s ! i) = 0"
    using bio_invD(2) [OF inv] by auto
  then obtain j where "find (\<lambda>i. b_refcnt (bufs s ! i) = 0) (rev (lru s)) = Some j"
    by (cases "find (\<lambda>i. b_refcnt (bufs s ! i) = 0) (rev (lru s))") (auto simp: find_None_iff)
  moreover from this have "j \<in> set (rev (lru s))" "b_refcnt (bufs s ! j) = 0"
    using find_SomeD by fastforce+
  ultimately show ?thesis using bio_invD(2) [OF inv] by auto
qed

text \<open>Recycling an unused buffer loses nothing: it was clean.\<close>

lemma recycle:
  assumes inv: "bio_inv s" and n: "slot s n = None" and i: "i < length (bufs s)" and r: "b_refcnt (bufs s ! i) = 0"
    and f: "b_dev (f (bufs s ! i)) = 1" "b_blockno (f (bufs s ! i)) = n" "b_refcnt (f (bufs s ! i)) \<noteq> 0"
  shows "bio_inv (upd_buf i f s)"
    and "slot (upd_buf i f s) m = (if m = n then Some i else if slot s m = Some i then None else slot s m)"
proof -
  have nn: "\<not> (j < length (bufs s) \<and> b_dev (bufs s ! j) = 1 \<and> b_blockno (bufs s ! j) = n)" for j
    using n slot_Some [OF inv, of n j] by simp
  have "\<forall>j<length (bufs s). \<forall>k<length (bufs s). b_dev (bufs (upd_buf i f s) ! j) = 1 \<longrightarrow>
      b_dev (bufs (upd_buf i f s) ! k) = 1 \<longrightarrow>
      b_blockno (bufs (upd_buf i f s) ! j) = b_blockno (bufs (upd_buf i f s) ! k) \<longrightarrow> j = k"
    using bio_invD(3) [OF inv] f(2) nn by (simp add: upd_buf_nth) metis
  moreover have "\<forall>j<length (bufs s). buf_ok (disk s) (bufs (upd_buf i f s) ! j)"
    using bio_invD(4) [OF inv] f by (simp add: upd_buf_nth buf_ok_def)
  ultimately show 1: "bio_inv (upd_buf i f s)"
    using inv unfolding bio_inv_def by simp
  have "slot (upd_buf i f s) m = Some j \<longleftrightarrow>
      (if m = n then Some i else if slot s m = Some i then None else slot s m) = Some j" for j
    using i f nn [of j] bio_invD(3) [OF inv, of j i] by (auto simp: slot_Some [OF 1] slot_Some [OF inv] upd_buf_nth split: if_splits)
  then show "slot (upd_buf i f s) m = (if m = n then Some i else if slot s m = Some i then None else slot s m)"
    by (metis option.exhaust)
qed

lemma recycle_view:
  assumes inv: "bio_inv s" and n: "slot s n = None" and i: "i < length (bufs s)" and r: "b_refcnt (bufs s ! i) = 0"
    and f: "b_dev (f (bufs s ! i)) = 1" "b_blockno (f (bufs s ! i)) = n" "b_refcnt (f (bufs s ! i)) = 1"
      "b_valid (f (bufs s ! i)) = 1" "b_data (f (bufs s ! i)) = disk s n"
  shows "view (upd_buf i f s) = (view s)\<lparr>v_refs := (refs s)(n := 1),
    v_lock := (locks s)(n := lock_owner (b_lock (f (bufs s ! i))))\<rparr>"
proof -
  have f': "b_refcnt (f (bufs s ! i)) \<noteq> 0" using f by simp
  note sl = recycle(2) [of s n i f, OF inv n i r f(1,2) f']
  have old: "b_dev (bufs s ! i) = 1 \<and> b_blockno (bufs s ! i) = m" if "slot s m = Some i" for m
    using that inv by (simp add: slot_Some)
  have ok: "buf_ok (disk s) (bufs s ! i)" using bio_invD(4) [OF inv i] .
  have keep: "bufs (upd_buf i f s) ! j = bufs s ! j" if "slot s m = Some j" "slot s m \<noteq> Some i" for m j
    using that slot_Some [OF inv, of m j] by (auto simp: upd_buf_nth)
  have "blk (upd_buf i f s) m = blk s m" for m
    using n i f ok r old [of m] keep [of m]
    by (auto simp: blk_def sl upd_buf_nth buf_ok_def split: option.split)
  moreover have "refs (upd_buf i f s) m = ((refs s)(n := 1)) m" for m
    using n i f r keep [of m] by (auto simp: refs_def sl upd_buf_nth split: option.split)
  moreover have "locks (upd_buf i f s) m = ((locks s)(n := lock_owner (b_lock (f (bufs s ! i))))) m" for m
    using n i f r ok keep [of m]
    by (auto simp: locks_def sl upd_buf_nth lock_owner_def buf_ok_def split: option.split)
  ultimately show ?thesis by (simp add: view_def fun_eq_iff)
qed

lemma lock_owner_None: "lock_owner lk = None \<longleftrightarrow> slk_locked lk = 0"
  by (simp add: lock_owner_def)

lemma lock_owner_taken [simp]: "lock_owner (taken s lk) = Some (mypid s)"
  by (simp add: lock_owner_def taken_def)

lemma fill_simps [simp]:
  "b_dev (fill d b) = b_dev b" "b_blockno (fill d b) = b_blockno b" "b_refcnt (fill d b) = b_refcnt b"
  "b_lock (fill d b) = b_lock b" "b_valid (fill d b) \<noteq> 0" "b_valid b = 0 \<Longrightarrow> b_valid (fill d b) = 1"
  "b_data (fill d b) = (if b_valid b = 0 then d else b_data b)"
  by (simp_all add: fill_def)

text \<open>
  \<^verbatim>\<open>bread\<close> succeeds on an unlocked block when a buffer is to be had, and returns the block's contents in
  a buffer locked by the caller; the contents of all blocks stay.
\<close>

definition can_read :: "'a bio_st_scheme \<Rightarrow> u32 \<Rightarrow> bool" where
  "can_read s n \<longleftrightarrow> locks s n = None \<and> refs s n + 1 \<noteq> 0 \<and>
     (refs s n \<noteq> 0 \<or> card {m. refs s m \<noteq> 0} < length (bufs s))"

lemma cached_data: "cached s i n \<Longrightarrow> b_data (bufs s ! i) = blk s n"
  by (simp add: cached_def blk_def)

lemma bread_spec:
  assumes inv: "bio_inv s" and c: "can_read s n"
  shows "\<exists>i s'. bread 1 n s = Ok (i, s') \<and> bio_inv s' \<and> cached s' i n \<and> bframe s s' \<and>
    view s' = (view s)\<lparr>v_refs := (refs s)(n := refs s n + 1), v_lock := (locks s)(n := Some (mypid s))\<rparr>"
proof (cases "slot s n")
  case (Some i)
  define f where "f = (\<lambda>b. fill (disk s n) (b\<lparr>b_refcnt := b_refcnt b + 1, b_lock := taken s (b_lock b)\<rparr>))"
  have i: "i < length (bufs s)" "b_dev (bufs s ! i) = 1" "b_blockno (bufs s ! i) = n"
    using Some inv by (simp_all add: slot_Some)
  have l: "slk_locked (b_lock (bufs s ! i)) = 0" and r: "b_refcnt (bufs s ! i) + 1 \<noteq> 0"
    and rn: "refs s n = b_refcnt (bufs s ! i)"
    using c Some by (simp_all add: can_read_def locks_def refs_def lock_owner_None)
  have ok: "buf_ok (disk s) (f (bufs s ! i))" using i r by (simp add: f_def buf_ok_def)
  have g: "b_dev (f (bufs s ! i)) = b_dev (bufs s ! i)" "b_blockno (f (bufs s ! i)) = b_blockno (bufs s ! i)"
    by (simp_all add: f_def)
  have "bread 1 n s = Ok (i, upd_buf i f s)"
    unfolding f_def by (rule bread_hit [OF Some i(1) _ l i(3)]) (use bio_invD(5) [OF inv] in auto)
  moreover have "cached (upd_buf i f s) i n"
    using Some slot_upd [of s i f, OF inv i(1) ok g] i by (simp add: cached_def upd_buf_nth f_def)
  moreover have "view (upd_buf i f s) =
      (view s)\<lparr>v_refs := (refs s)(n := refs s n + 1), v_lock := (locks s)(n := Some (mypid s))\<rparr>"
    using Some rn by (subst view_upd [of s n i f, OF inv Some ok g])
      (auto simp: view_def f_def blk_def fun_eq_iff fill_def)
  ultimately show ?thesis
    using bio_inv_upd [of s i f, OF inv i(1) ok g] bframe_upd [of s i f, OF inv i(1) ok g] by (auto simp: f_def)
next
  case None
  then have "card {m. refs s m \<noteq> 0} < length (bufs s)" using c by (auto simp: can_read_def refs_def)
  then obtain i where i: "find (\<lambda>i. b_refcnt (bufs s ! i) = 0) (rev (lru s)) = Some i" "i < length (bufs s)"
    "b_refcnt (bufs s ! i) = 0" using free_buf [OF inv] by blast
  define f where "f = (\<lambda>b. fill (disk s n)
    (b\<lparr>b_dev := 1, b_blockno := n, b_valid := 0, b_refcnt := 1, b_lock := taken s (b_lock b)\<rparr>))"
  have g: "b_dev (f (bufs s ! i)) = 1" "b_blockno (f (bufs s ! i)) = n" "b_refcnt (f (bufs s ! i)) = 1"
    "b_valid (f (bufs s ! i)) = 1" "b_data (f (bufs s ! i)) = disk s n" by (simp_all add: f_def)
  then have g3: "b_refcnt (f (bufs s ! i)) \<noteq> 0" by simp
  note R = recycle [of s n i f, OF inv None i(2,3) g(1,2) g3]
  have l: "slk_locked (b_lock (bufs s ! i)) = 0" using bio_invD(4) [OF inv i(2)] i(3) by (simp add: buf_ok_def)
  have "bread 1 n s = Ok (i, upd_buf i f s)"
    unfolding f_def by (rule bread_miss [OF None i(1,2) _ l]) (use bio_invD(5) [OF inv] in auto)
  moreover have "cached (upd_buf i f s) i n" using i g by (simp add: cached_def R(2) upd_buf_nth)
  moreover have "view (upd_buf i f s) =
      (view s)\<lparr>v_refs := (refs s)(n := refs s n + 1), v_lock := (locks s)(n := Some (mypid s))\<rparr>"
    using None recycle_view [of s n i f, OF inv None i(2,3) g] by (simp add: f_def refs_def)
  moreover have "bframe s (upd_buf i f s)"
  proof -
    have "cached (upd_buf i f s) j m" if "cached s j m" "refs s m \<noteq> 0" for j m
    proof -
      have "slot s m = Some j" "j \<noteq> i" "m \<noteq> n" using that None i(3) by (auto simp: cached_def refs_def)
      then show ?thesis using that slot_Some [OF inv, of m j] by (auto simp: cached_def R(2) upd_buf_nth)
    qed
    then show ?thesis by (auto simp: bframe_def)
  qed
  ultimately show ?thesis using R(1) by blast
qed

subsection \<open>Writing, releasing and pinning\<close>

lemma cachedD:
  assumes "bio_inv s" "cached s i n"
  shows "i < length (bufs s)" "b_dev (bufs s ! i) = 1" "b_blockno (bufs s ! i) = n" "slot s n = Some i"
    "b_valid (bufs s ! i) \<noteq> 0" "refs s n = b_refcnt (bufs s ! i)" "locks s n = lock_owner (b_lock (bufs s ! i))"
    "blk s n = b_data (bufs s ! i)"
  using assms slot_Some [OF assms(1), of n i] by (simp_all add: cached_def refs_def locks_def blk_def)

lemma holding_locks:
  assumes "bio_inv s" "cached s i n" "locks s n = Some (mypid s)"
  shows "holdingsleep (mypid s) (b_lock (bufs s ! i))"
  using cachedD(7) [OF assms(1,2)] assms(3) by (simp add: holdingsleep_def lock_owner_def split: if_splits)

text \<open>One buffer changes and stays in use: the common part of the proofs below.\<close>

lemma touch_spec:
  assumes inv: "bio_inv s" and c: "cached s i n" and r: "b_refcnt (f (bufs s ! i)) \<noteq> 0"
    and g: "b_dev (f (bufs s ! i)) = b_dev (bufs s ! i)" "b_blockno (f (bufs s ! i)) = b_blockno (bufs s ! i)"
      "b_valid (f (bufs s ! i)) = b_valid (bufs s ! i)"
  shows "bio_inv (upd_buf i f s) \<and> cached (upd_buf i f s) i n \<and> bframe s (upd_buf i f s) \<and>
    view (upd_buf i f s) = (view s)\<lparr>v_blk := (blk s)(n := b_data (f (bufs s ! i))),
      v_refs := (refs s)(n := b_refcnt (f (bufs s ! i))), v_lock := (locks s)(n := lock_owner (b_lock (f (bufs s ! i))))\<rparr>"
proof -
  note C = cachedD [OF inv c]
  have ok: "buf_ok (disk s) (f (bufs s ! i))" using r C(2) g by (simp add: buf_ok_def)
  show ?thesis
    using bio_inv_upd [of s i f, OF inv C(1) ok g(1,2)] bframe_upd [of s i f, OF inv C(1) ok g(1,2)]
      view_upd [of s n i f, OF inv C(4) ok g(1,2)] slot_upd [of s i f, OF inv C(1) ok g(1,2)] C(1,4,5) g(3)
    by (simp add: cached_def upd_buf_nth)
qed

lemma set_data_spec:
  assumes "bio_inv s" "cached s i n" "refs s n \<noteq> 0"
  shows "bio_inv (set_data i d s)" "cached (set_data i d s) i n" "bframe s (set_data i d s)"
    "view (set_data i d s) = (view s)\<lparr>v_blk := (blk s)(n := d)\<rparr>"
  using touch_spec [of s i n "\<lambda>b. b\<lparr>b_data := d\<rparr>", OF assms(1,2)] assms(3) cachedD(6,7) [OF assms(1,2)]
  by (auto simp: set_data_def view_def fun_upd_idem)

lemma bpin_spec:
  assumes "bio_inv s" "cached s i n" "refs s n + 1 \<noteq> 0"
  shows "bio_inv (bpin i s)" "cached (bpin i s) i n" "bframe s (bpin i s)"
    "view (bpin i s) = (view s)\<lparr>v_refs := (refs s)(n := refs s n + 1)\<rparr>"
  using touch_spec [of s i n "\<lambda>b. b\<lparr>b_refcnt := b_refcnt b + 1\<rparr>", OF assms(1,2)] assms(3) cachedD(6-8) [OF assms(1,2)]
  by (auto simp: bpin_def view_def fun_upd_idem)

lemma bunpin_spec:
  assumes "bio_inv s" "cached s i n" "refs s n \<noteq> 1"
  shows "bio_inv (bunpin i s)" "cached (bunpin i s) i n" "bframe s (bunpin i s)"
    "view (bunpin i s) = (view s)\<lparr>v_refs := (refs s)(n := refs s n - 1)\<rparr>"
  using touch_spec [of s i n "\<lambda>b. b\<lparr>b_refcnt := b_refcnt b - 1\<rparr>", OF assms(1,2)] assms(3) cachedD(6-8) [OF assms(1,2)]
  by (auto simp: bunpin_def view_def fun_upd_idem)

lemma view_cong:
  assumes "slot s' = slot s" "bufs s' = bufs s"
  shows "refs s' = refs s" "locks s' = locks s" "disk s' = disk s \<Longrightarrow> blk s' = blk s"
  using assms by (auto simp: fun_eq_iff refs_def locks_def blk_def split: option.split)

lemma bwrite_spec:
  assumes inv: "bio_inv s" and c: "cached s i n" and l: "locks s n = Some (mypid s)"
  shows "\<exists>s'. bwrite i s = Ok s' \<and> bio_inv s' \<and> cached s' i n \<and> bframe s s' \<and>
    view s' = (view s)\<lparr>v_disk := (disk s)(n := blk s n), v_writes := dwrites s @ [(n, blk s n)]\<rparr>"
proof -
  note C = cachedD [OF inv c]
  define s' where "s' = disk_rw i True s"
  have s': "bufs s' = bufs s" "lru s' = lru s" "disk s' = (disk s)(n := blk s n)"
    "dwrites s' = dwrites s @ [(n, blk s n)]" "myproc s' = myproc s" "procs s' = procs s" "mypid s' = mypid s" "bcore s' = bcore s"
    using C(3,8) by (simp_all add: s'_def disk_rw_def Let_def myproc_def mypid_def bcore_def split: option.split)
  have b: "bwrite i s = Ok s'" using holding_locks [OF inv c l] by (simp add: bwrite_def s'_def)
  have "buf_ok (disk s') (bufs s ! j)" if "j < length (bufs s)" for j
  proof (cases "j = i")
    case True
    then show ?thesis using C bio_invD(4) [OF inv that] s'(3) by (auto simp: buf_ok_def)
  next
    case False
    then have "b_dev (bufs s ! j) = 1 \<Longrightarrow> b_blockno (bufs s ! j) \<noteq> n"
      using bio_invD(3) [OF inv that C(1)] C by auto
    then show ?thesis using bio_invD(4) [OF inv that] by (auto simp: buf_ok_def s')
  qed
  then have inv': "bio_inv s'" using inv unfolding bio_inv_def by (simp add: s')
  have sl: "slot s' = slot s" by (simp add: slot_def fun_eq_iff s')
  have "blk s' = blk s" using C(4,5) by (auto simp: blk_def sl s' fun_eq_iff split: option.split)
  then have "view s' = (view s)\<lparr>v_disk := (disk s)(n := blk s n), v_writes := dwrites s @ [(n, blk s n)]\<rparr>"
    by (simp add: view_def s' view_cong [OF sl s'(1)])
  then show ?thesis using b inv' C(4,5) by (auto simp: cached_def bframe_def sl s')
qed

lemma wakeup_bio [simp]:
  "bufs (wakeup c s) = bufs s" "lru (wakeup c s) = lru s" "disk (wakeup c s) = disk s" "dwrites (wakeup c s) = dwrites s"
  "myproc (wakeup c s) = myproc s"
  by (auto simp: wakeup_def myproc_def)

lemma bcore_wakeup [simp]: "bcore (wakeup c s) = bcore s"
proof -
  have "map (\<lambda>p. p\<lparr>p_state := UNUSED\<rparr>) (procs (wakeup c s)) = map (\<lambda>p. p\<lparr>p_state := UNUSED\<rparr>) (procs s)"
    by (rule nth_equalityI) (simp_all add: wakeup_nth)
  then show ?thesis by (simp add: bcore_def) (simp add: wakeup_def)
qed

lemma wakeup_upd_buf: "wakeup c (upd_buf i f s) = upd_buf i f (wakeup c s)"
  by (simp add: wakeup_def upd_buf_def myproc_def Let_def)

lemma wakeup_spec:
  assumes "bio_inv s"
  shows "bio_inv (wakeup c s) \<and> view (wakeup c s) = view s \<and> bframe s (wakeup c s) \<and> slot (wakeup c s) = slot s"
proof -
  have sl: "slot (wakeup c s) = slot s" by (simp add: slot_def fun_eq_iff)
  obtain p where "myproc s = Some p" "p < length (procs s)" using bio_invD(5) [OF assms] by blast
  then have "mypid (wakeup c s) = mypid s" by (simp add: mypid_def wakeup_nth)
  moreover have "view (wakeup c s) = view s"
    by (simp add: view_def view_cong [OF sl])
  ultimately show ?thesis using assms by (auto simp: bio_inv_def bframe_def cached_def sl)
qed

lemma lru_spec:
  assumes inv: "bio_inv s" and i: "i < length (bufs s)"
  defines "s' \<equiv> s\<lparr>lru := i # remove1 i (lru s)\<rparr>"
  shows "bio_inv s' \<and> view s' = view s \<and> bframe s s' \<and> slot s' = slot s"
proof -
  have s': "bufs s' = bufs s" "disk s' = disk s" "dwrites s' = dwrites s" "myproc s' = myproc s" "procs s' = procs s"
    "bcore s' = bcore s" "mypid s' = mypid s"
    by (simp_all add: s'_def myproc_def bcore_def mypid_def split: option.split)
  have "distinct (lru s')" "set (lru s') = {..<length (bufs s)}"
    using inv i by (auto simp: s'_def bio_inv_def)
  then have inv': "bio_inv s'" using inv unfolding bio_inv_def by (simp add: s')
  have sl: "slot s' = slot s" by (rule slot_eqI [OF inv inv']) (simp_all add: s')
  then show ?thesis
    using inv' by (simp add: bframe_def cached_def s' view_def view_cong [OF sl s'(1)])
qed

lemma bframe_refl [simp]: "bframe s s"
  by (simp add: bframe_def)

lemma bframe_trans:
  assumes "bframe s t" "bframe t u" "\<And>n. refs s n \<noteq> 0 \<Longrightarrow> refs u n \<noteq> 0 \<Longrightarrow> refs t n \<noteq> 0"
  shows "bframe s u"
  using assms by (auto simp: bframe_def)

lemma brelse_spec:
  assumes inv: "bio_inv s" and c: "cached s i n" and l: "locks s n = Some (mypid s)"
    and r: "refs s n \<noteq> 0" and d: "refs s n = 1 \<longrightarrow> blk s n = disk s n"
  shows "\<exists>s'. brelse i s = Ok s' \<and> bio_inv s' \<and> bframe s s' \<and> (refs s n \<noteq> 1 \<longrightarrow> cached s' i n) \<and>
    view s' = (view s)\<lparr>v_refs := (refs s)(n := refs s n - 1), v_lock := (locks s)(n := None)\<rparr>"
proof -
  note C = cachedD [OF inv c]
  define w where "w = wakeup (ChBufLock i) s"
  note W = wakeup_spec [OF inv, of "ChBufLock i", folded w_def]
  define f :: "buf \<Rightarrow> buf" where "f = (\<lambda>b. b\<lparr>b_lock := releasesleep (b_lock b), b_refcnt := b_refcnt b - 1\<rparr>)"
  define t where "t = upd_buf i f w"
  have bw: "bufs w = bufs s" "disk w = disk s" "dwrites w = dwrites s" by (simp_all add: w_def)
  have vw: "blk w = blk s" "refs w = refs s" "locks w = locks s"
    using W by (simp_all add: view_def)
  have iw: "i < length (bufs w)" and ok: "buf_ok (disk w) (f (bufs w ! i))"
    using C d by (simp_all add: bw buf_ok_def f_def releasesleep_def)
  have g: "b_dev (f (bufs w ! i)) = b_dev (bufs w ! i)" "b_blockno (f (bufs w ! i)) = b_blockno (bufs w ! i)"
    by (simp_all add: f_def)
  have iw': "bio_inv w" "slot w n = Some i" using W C(4) by simp_all
  have t: "bio_inv t" "slot t = slot s"
    using bio_inv_upd [of w i f, OF iw'(1) iw ok g] slot_upd [of w i f, OF iw'(1) iw ok g] W by (simp_all add: t_def)
  have vt: "view t = (view s)\<lparr>v_refs := (refs s)(n := refs s n - 1), v_lock := (locks s)(n := None)\<rparr>"
    using view_upd [of w n i f, OF iw' ok g] C W
    by (simp add: t_def vw bw f_def view_def releasesleep_def lock_owner_def fun_upd_idem)
  have ft: "bframe s t"
  proof (rule bframe_trans [of s w])
    show "bframe w t" using bframe_upd [of w i f, OF iw'(1) iw ok g] by (simp add: t_def f_def)
  qed (use W in \<open>simp_all add: vw\<close>)
  define u where "u = t\<lparr>lru := i # remove1 i (lru t)\<rparr>"
  have it: "i < length (bufs t)" using iw by (simp add: t_def)
  note U = lru_spec [OF t(1) it, folded u_def]
  have b: "brelse i s = Ok (if b_refcnt (bufs t ! i) = 0 then u else t)"
    using holding_locks [OF inv c l] C(1)
    by (simp add: brelse_def Let_def wakeup_upd_buf upd_buf_upd_buf bw flip: w_def) (simp add: t_def f_def u_def)
  have ct: "cached t i n" using C t(2) iw by (simp add: cached_def t_def upd_buf_nth f_def bw)
  have fu: "bframe s u" by (rule bframe_trans [OF ft]) (use U in \<open>simp_all add: view_def\<close>)
  show ?thesis
  proof (cases "b_refcnt (bufs t ! i) = 0")
    case True
    then have "refs s n = 1" using C iw by (simp add: t_def upd_buf_nth f_def bw)
    then show ?thesis using True b U vt fu by auto
  next
    case False
    then show ?thesis using b t vt ft ct by auto
  qed
qed

section \<open>The contract of the cache\<close>

text \<open>
  What a client may rely on. \<open>holds s i n\<close> says that handle \<open>i\<close> is the buffer of block \<open>n\<close>. Reading takes a
  reference and the block's lock, storing into the buffer changes the block's contents, writing copies them
  to disk, and releasing gives reference and lock back; a block nobody refers to is as on disk.
\<close>

locale block_cache =
  fixes inv :: "'s \<Rightarrow> bool" and view_of :: "'s \<Rightarrow> bview" and me :: "'s \<Rightarrow> i32"
    and ready :: "'s \<Rightarrow> u32 \<Rightarrow> bool" and holds :: "'s \<Rightarrow> nat \<Rightarrow> u32 \<Rightarrow> bool"
    and rd :: "u32 \<Rightarrow> 's \<Rightarrow> (nat \<times> 's) res" and put :: "nat \<Rightarrow> u8 list \<Rightarrow> 's \<Rightarrow> 's"
    and wr :: "nat \<Rightarrow> 's \<Rightarrow> 's res" and rel :: "nat \<Rightarrow> 's \<Rightarrow> 's res"
  assumes ready_law: "ready s n \<Longrightarrow> v_lock (view_of s) n = None \<and> v_refs (view_of s) n + 1 \<noteq> 0"
    and clean_law: "inv s \<Longrightarrow> v_refs (view_of s) n = 0 \<Longrightarrow> v_blk (view_of s) n = v_disk (view_of s) n"
    and rd_law: "inv s \<Longrightarrow> ready s n \<Longrightarrow> \<exists>i s'. rd n s = Ok (i, s') \<and> inv s' \<and> holds s' i n \<and> me s' = me s \<and>
      view_of s' = (view_of s)\<lparr>v_refs := (v_refs (view_of s))(n := v_refs (view_of s) n + 1),
        v_lock := (v_lock (view_of s))(n := Some (me s))\<rparr>"
    and put_law: "inv s \<Longrightarrow> holds s i n \<Longrightarrow> v_refs (view_of s) n \<noteq> 0 \<Longrightarrow> inv (put i d s) \<and> holds (put i d s) i n \<and>
      me (put i d s) = me s \<and> view_of (put i d s) = (view_of s)\<lparr>v_blk := (v_blk (view_of s))(n := d)\<rparr>"
    and wr_law: "inv s \<Longrightarrow> holds s i n \<Longrightarrow> v_lock (view_of s) n = Some (me s) \<Longrightarrow> \<exists>s'. wr i s = Ok s' \<and> inv s' \<and>
      holds s' i n \<and> me s' = me s \<and> view_of s' = (view_of s)\<lparr>v_disk := (v_disk (view_of s))(n := v_blk (view_of s) n),
        v_writes := v_writes (view_of s) @ [(n, v_blk (view_of s) n)]\<rparr>"
    and rel_law: "inv s \<Longrightarrow> holds s i n \<Longrightarrow> v_lock (view_of s) n = Some (me s) \<Longrightarrow> v_refs (view_of s) n \<noteq> 0 \<Longrightarrow>
      v_refs (view_of s) n = 1 \<longrightarrow> v_blk (view_of s) n = v_disk (view_of s) n \<Longrightarrow> \<exists>s'. rel i s = Ok s' \<and> inv s' \<and>
      me s' = me s \<and> view_of s' = (view_of s)\<lparr>v_refs := (v_refs (view_of s))(n := v_refs (view_of s) n - 1),
        v_lock := (v_lock (view_of s))(n := None)\<rparr>"
begin

text \<open>Looking at a block leaves no trace.\<close>

lemma look:
  assumes "inv s" "ready s n"
  shows "\<exists>s'. rbind (rd n s) (\<lambda>(i, s). rel i s) = Ok s' \<and> inv s' \<and> view_of s' = view_of s"
proof -
  obtain i s1 where 1: "rd n s = Ok (i, s1)" "inv s1" "holds s1 i n" "me s1 = me s"
    "view_of s1 = (view_of s)\<lparr>v_refs := (v_refs (view_of s))(n := v_refs (view_of s) n + 1),
        v_lock := (v_lock (view_of s))(n := Some (me s))\<rparr>" using rd_law [OF assms] by blast
  have "v_lock (view_of s1) n = Some (me s1)" "v_refs (view_of s1) n \<noteq> 0"
    "v_refs (view_of s1) n = 1 \<longrightarrow> v_blk (view_of s1) n = v_disk (view_of s1) n"
    using 1 ready_law [OF assms(2)] clean_law [OF assms(1), of n] by auto
  from rel_law [OF 1(2,3) this] show ?thesis
    using 1 ready_law [OF assms(2)] by (auto simp: fun_upd_idem)
qed

text \<open>Replacing a block through the cache replaces it in the cache and on disk, with one disk write.\<close>

lemma update:
  assumes "inv s" "ready s n"
  shows "\<exists>s'. rbind (rd n s) (\<lambda>(i, s). rbind (wr i (put i d s)) (\<lambda>s. rel i s)) = Ok s' \<and> inv s' \<and>
    view_of s' = (view_of s)\<lparr>v_blk := (v_blk (view_of s))(n := d), v_disk := (v_disk (view_of s))(n := d),
      v_writes := v_writes (view_of s) @ [(n, d)]\<rparr>"
proof -
  obtain i s1 where 1: "rd n s = Ok (i, s1)" "inv s1" "holds s1 i n" "me s1 = me s"
    "view_of s1 = (view_of s)\<lparr>v_refs := (v_refs (view_of s))(n := v_refs (view_of s) n + 1),
        v_lock := (v_lock (view_of s))(n := Some (me s))\<rparr>" using rd_law [OF assms] by blast
  have r1: "v_refs (view_of s1) n \<noteq> 0" using 1 ready_law [OF assms(2)] by simp
  note 2 = put_law [OF 1(2,3) r1, of d]
  have l2: "v_lock (view_of (put i d s1)) n = Some (me (put i d s1))" using 1 2 by simp
  obtain s3 where 3: "wr i (put i d s1) = Ok s3" "inv s3" "holds s3 i n" "me s3 = me s"
    "view_of s3 = (view_of (put i d s1))\<lparr>v_disk := (v_disk (view_of (put i d s1)))(n := d),
       v_writes := v_writes (view_of (put i d s1)) @ [(n, d)]\<rparr>"
    using wr_law [of "put i d s1" i n] 1 2 l2 by auto
  have "v_lock (view_of s3) n = Some (me s3)" "v_refs (view_of s3) n \<noteq> 0"
    "v_refs (view_of s3) n = 1 \<longrightarrow> v_blk (view_of s3) n = v_disk (view_of s3) n"
    using 1 2 3 r1 by auto
  from rel_law [OF 3(2,3) this] show ?thesis
    using 1 2 3 ready_law [OF assms(2)] by (auto simp: fun_upd_idem)
qed

end

lemma bframe_mypid: "bframe s s' \<Longrightarrow> mypid s' = mypid s"
  by (simp add: bframe_def)

lemma clean_blk:
  assumes "bio_inv s" "refs s n = 0"
  shows "blk s n = disk s n"
proof (cases "slot s n")
  case (Some i)
  then have "i < length (bufs s)" "b_dev (bufs s ! i) = 1" "b_blockno (bufs s ! i) = n" "b_refcnt (bufs s ! i) = 0"
    using assms(2) slot_Some [OF assms(1), of n i] by (auto simp: refs_def)
  then show ?thesis using Some bio_invD(4) [OF assms(1), of i] by (auto simp: blk_def buf_ok_def)
qed (simp add: blk_def)

lemma view_sel [simp]:
  "v_blk (view s) = blk s" "v_refs (view s) = refs s" "v_lock (view s) = locks s" "v_disk (view s) = disk s"
  "v_writes (view s) = dwrites s"
  by (simp_all add: view_def)

interpretation bc: block_cache bio_inv view mypid can_read cached "bread 1" set_data bwrite brelse
proof (unfold_locales, goal_cases)
  case (1 s n)
  then show ?case by (simp add: can_read_def)
next
  case (2 s n)
  then show ?case by (simp add: clean_blk)
next
  case (3 s n)
  from bread_spec [OF this] show ?case using bframe_mypid by auto
next
  case (4 s i n d)
  then show ?case using set_data_spec [of s i n d] bframe_mypid [of s "set_data i d s"] by simp
next
  case (5 s i n)
  then have "locks s n = Some (mypid s)" by simp
  from bwrite_spec [OF 5(1,2) this] show ?case using bframe_mypid by auto
next
  case (6 s i n)
  then have "locks s n = Some (mypid s)" "refs s n \<noteq> 0" "refs s n = 1 \<longrightarrow> blk s n = disk s n" by simp_all
  from brelse_spec [OF 6(1,2) this] show ?case using bframe_mypid by auto
qed

section \<open>Properties\<close>

definition NBUF :: nat where "NBUF = 30"

definition blank_buf :: buf where
  "blank_buf = \<lparr>b_valid = 0, b_dev = 0, b_blockno = 0, b_lock = \<lparr>slk_locked = 0, slk_pid = 0\<rparr>, b_refcnt = 0, b_data = []\<rparr>"

text \<open>A machine after \<^verbatim>\<open>binit\<close>, with one running process and a given disk.\<close>

definition bio_machine :: "(u32 \<Rightarrow> u8 list) \<Rightarrow> bio_st" where
  "bio_machine d = binit \<lparr>pmem = (\<lambda>_. 0), kend = 0x87FFF000, freelist = 0, kref = (\<lambda>_. 0),
     procs = [blank_proc\<lparr>p_state := RUNNING, p_pid := 1\<rparr>], curproc = Some 0,
     nextpid = 9, initproc = None, ticks = 0, intr = False, trampoline = 0x80007000, forkret_pc = 0x80001000,
     bufs = replicate NBUF blank_buf, lru = [], disk = d, dwrites = []\<rparr>"

lemma binit_inv:
  assumes "\<forall>b\<in>set (bufs s). b_refcnt b = 0 \<and> b_dev b = 0" and "\<exists>p<length (procs s). myproc s = Some p"
  shows "bio_inv (binit s) \<and> (\<forall>n. slot (binit s) n = None)"
proof -
  have n: "b_refcnt (bufs s ! i) = 0 \<and> b_dev (bufs s ! i) = 0" if "i < length (bufs s)" for i
    using assms(1) that by auto
  then have "bio_inv (binit s)"
    using assms(2) by (auto simp: bio_inv_def binit_def buf_ok_def initsleeplock_def myproc_def)
  moreover from this have "slot (binit s) m \<noteq> Some i" for m i
    using n by (subst slot_Some) (auto simp: binit_def)
  ultimately show ?thesis by (metis option.exhaust)
qed

lemma slot_None: "slot s n = None \<Longrightarrow> refs s n = 0 \<and> locks s n = None \<and> blk s n = disk s n"
  by (simp add: refs_def locks_def blk_def)

lemma bio_machine_inv: "bio_inv (bio_machine d)" "slot (bio_machine d) n = None"
  using binit_inv [of "\<lparr>pmem = (\<lambda>_. 0), kend = 0x87FFF000, freelist = 0, kref = (\<lambda>_. 0),
     procs = [blank_proc\<lparr>p_state := RUNNING, p_pid := 1\<rparr>], curproc = Some 0,
     nextpid = 9, initproc = None, ticks = 0, intr = False, trampoline = 0x80007000, forkret_pc = 0x80001000,
     bufs = replicate NBUF blank_buf, lru = [], disk = d, dwrites = []\<rparr>", folded bio_machine_def]
  by (auto simp: myproc_def blank_buf_def)

lemma bio_machine_read: "can_read (bio_machine d) n" "blk (bio_machine d) = d" "disk (bio_machine d) = d"
  using slot_None [OF bio_machine_inv(2) [of d]]
  by (auto simp: can_read_def fun_eq_iff bio_machine_def binit_def NBUF_def)

text \<open>
  \<^verbatim>\<open>bread\<close> of an unlocked block, when the block is cached in use or some buffer is unused, returns a buffer
  that holds the block's current contents and is locked by the calling process. The contents of every
  block, the disk, and all other buffers in use stay as they were, and the cache's invariant is kept:
  recycling the least recently used buffer loses no data.
\<close>

lemma bread_correct:
  assumes "bio_inv s" "can_read s n"
  shows "\<exists>i s'. bread 1 n s = Ok (i, s') \<and> bio_inv s' \<and> cached s' i n \<and> b_data (bufs s' ! i) = blk s n \<and>
    blk s' = blk s \<and> disk s' = disk s \<and> refs s' = (refs s)(n := refs s n + 1) \<and>
    locks s' = (locks s)(n := Some (mypid s)) \<and> bframe s s'"
proof -
  obtain i s' where r: "bread 1 n s = Ok (i, s')" "bio_inv s'" "cached s' i n" "bframe s s'"
    "view s' = (view s)\<lparr>v_refs := (refs s)(n := refs s n + 1), v_lock := (locks s)(n := Some (mypid s))\<rparr>"
    using bread_spec [OF assms] by blast
  then show ?thesis using cached_data [OF r(3)] by (simp add: view_def)
qed

text \<open>
  C18: reading a block, replacing its data, writing it with \<^verbatim>\<open>bwrite\<close> and releasing it with \<^verbatim>\<open>brelse\<close> replaces exactly
  that block, in the cache and on disk, by exactly one disk write, and gives every lock and reference back.
\<close>

theorem block_update_durable:
  assumes "bio_inv s" "can_read s n"
  shows "\<exists>s'. rbind (bread 1 n s) (\<lambda>(i, s). rbind (bwrite i (set_data i d s)) (\<lambda>s. brelse i s)) = Ok s' \<and>
    bio_inv s' \<and> view s' = (view s)\<lparr>v_blk := (blk s)(n := d), v_disk := (disk s)(n := d), v_writes := dwrites s @ [(n, d)]\<rparr>"
  using bc.update [OF assms, of d] by (simp add: view_def)

theorem block_update_durable_witness:
  "\<exists>s'. rbind (bread 1 7 (bio_machine (\<lambda>_. []))) (\<lambda>(i, s). rbind (bwrite i (set_data i [1] s)) (\<lambda>s. brelse i s)) = Ok s' \<and>
    disk s' = (\<lambda>_. [])(7 := [1])"
  using block_update_durable [of "bio_machine (\<lambda>_. [])" 7 "[1]", OF bio_machine_inv(1) bio_machine_read(1)]
  by (auto simp: bio_machine_read dest!: arg_cong [where f = v_disk])

end
