(* ===== verification/Diskfmt.thy ===== *)
theory Diskfmt
  imports Proc
begin

text \<open>
  \<^verbatim>\<open>kernel/fs.h\<close>: the on-disk format. The kernel casts block data to the structures \<^verbatim>\<open>superblock\<close>, \<^verbatim>\<open>dinode\<close> and
  \<^verbatim>\<open>dirent\<close>; here their fields are read from and stored into byte lists at the offsets of the C
  layout, little-endian.
\<close>

section \<open>Integers in byte lists\<close>

type_synonym i16 = "16 word"

definition get_int :: "u8 list \<Rightarrow> nat \<Rightarrow> u32" where
  "get_int d off = ucast (d ! off) OR push_bit 8 (ucast (d ! (off + 1))) OR
     push_bit 16 (ucast (d ! (off + 2))) OR push_bit 24 (ucast (d ! (off + 3)))"

definition set_int :: "u8 list \<Rightarrow> nat \<Rightarrow> u32 \<Rightarrow> u8 list" where
  "set_int d off v = overlay d off (int_bytes v)"

definition get_short :: "u8 list \<Rightarrow> nat \<Rightarrow> u16" where
  "get_short d off = ucast (d ! off) OR push_bit 8 (ucast (d ! (off + 1)))"

definition short_bytes :: "u16 \<Rightarrow> u8 list" where
  "short_bytes v = [ucast v, ucast (drop_bit 8 v)]"

definition set_short :: "u8 list \<Rightarrow> nat \<Rightarrow> u16 \<Rightarrow> u8 list" where
  "set_short d off v = overlay d off (short_bytes v)"

primrec put_ints :: "u8 list \<Rightarrow> nat \<Rightarrow> u32 list \<Rightarrow> u8 list" where
  "put_ints d off [] = d"
| "put_ints d off (x # xs) = put_ints (set_int d off x) (off + 4) xs"

lemma length_int_bytes [simp]: "length (int_bytes v) = 4"
  by (simp add: int_bytes_def)

lemma length_short_bytes [simp]: "length (short_bytes v) = 2"
  by (simp add: short_bytes_def)

lemma length_set_int [simp]: "off + 4 \<le> length d \<Longrightarrow> length (set_int d off v) = length d"
  by (simp add: set_int_def)

lemma length_set_short [simp]: "off + 2 \<le> length d \<Longrightarrow> length (set_short d off v) = length d"
  by (simp add: set_short_def)

lemma int_bytes_join:
  fixes v :: u32
  shows "ucast (ucast v :: u8) OR push_bit 8 (ucast (ucast (drop_bit 8 v) :: u8)) OR
     push_bit 16 (ucast (ucast (drop_bit 16 v) :: u8)) OR push_bit 24 (ucast (ucast (drop_bit 24 v) :: u8)) = v"
    (is "?w = v")
proof (rule bit_word_eqI)
  fix n assume "n < LENGTH(32)"
  then consider "n < 8" | "8 \<le> n" "n < 16" | "16 \<le> n" "n < 24" | "24 \<le> n" "n < 32" by fastforce
  then show "bit ?w n \<longleftrightarrow> bit v n" by cases (auto simp: bit_simps)
qed

lemma short_bytes_join:
  fixes v :: u16
  shows "ucast (ucast v :: u8) OR push_bit 8 (ucast (ucast (drop_bit 8 v) :: u8)) = v"
  by (rule bit_word_eqI) (auto simp: bit_simps)

lemma get_set_int [simp]:
  assumes "off + 4 \<le> length d"
  shows "get_int (set_int d off v) off = v"
  using assms int_bytes_join [of v] by (simp add: get_int_def set_int_def nth_overlay int_bytes_def)

lemma get_set_int_other [simp]:
  assumes "off + 4 \<le> length d" "off' + 4 \<le> length d" "off' + 4 \<le> off \<or> off + 4 \<le> off'"
  shows "get_int (set_int d off v) off' = get_int d off'"
  using assms by (auto simp: get_int_def set_int_def nth_overlay)

lemma get_set_short [simp]:
  assumes "off + 2 \<le> length d"
  shows "get_short (set_short d off v) off = v"
  using assms short_bytes_join [of v] by (simp add: get_short_def set_short_def nth_overlay short_bytes_def)

lemma get_set_short_other [simp]:
  assumes "off + 2 \<le> length d" "off' + 2 \<le> length d" "off' + 2 \<le> off \<or> off + 2 \<le> off'"
  shows "get_short (set_short d off v) off' = get_short d off'"
  using assms by (auto simp: get_short_def set_short_def nth_overlay)

lemma get_int_set_short [simp]:
  assumes "off + 2 \<le> length d" "off' + 4 \<le> length d" "off' + 4 \<le> off \<or> off + 2 \<le> off'"
  shows "get_int (set_short d off v) off' = get_int d off'"
  using assms by (auto simp: get_int_def set_short_def nth_overlay)

lemma get_short_set_int [simp]:
  assumes "off + 4 \<le> length d" "off' + 2 \<le> length d" "off' + 2 \<le> off \<or> off + 4 \<le> off'"
  shows "get_short (set_int d off v) off' = get_short d off'"
  using assms by (auto simp: get_short_def set_int_def nth_overlay)

lemma length_put_ints [simp]: "off + 4 * length xs \<le> length d \<Longrightarrow> length (put_ints d off xs) = length d"
  by (induction xs arbitrary: d off) auto

lemma get_put_ints_other:
  "off + 4 * length xs \<le> length d \<Longrightarrow> o2 + 4 \<le> length d \<Longrightarrow> o2 + 4 \<le> off \<or> off + 4 * length xs \<le> o2 \<Longrightarrow>
     get_int (put_ints d off xs) o2 = get_int d o2"
proof (induction xs arbitrary: d off)
  case (Cons x xs)
  then have "get_int (put_ints (set_int d off x) (off + 4) xs) o2 = get_int (set_int d off x) o2"
    by (intro Cons.IH) auto
  with Cons.prems show ?case by auto
qed simp

lemma get_put_ints:
  "off + 4 * length xs \<le> length d \<Longrightarrow> i < length xs \<Longrightarrow> get_int (put_ints d off xs) (off + 4 * i) = xs ! i"
proof (induction xs arbitrary: d off i)
  case (Cons x xs)
  show ?case
  proof (cases i)
    case 0
    then show ?thesis using Cons.prems by (simp add: get_put_ints_other)
  next
    case (Suc j)
    then show ?thesis using Cons.prems Cons.IH [of "off + 4" "set_int d off x" j] by (simp add: add.assoc)
  qed
qed simp

lemma short_put_ints_other:
  "off + 4 * length xs \<le> length d \<Longrightarrow> o2 + 2 \<le> length d \<Longrightarrow> o2 + 2 \<le> off \<or> off + 4 * length xs \<le> o2 \<Longrightarrow>
     get_short (put_ints d off xs) o2 = get_short d o2"
proof (induction xs arbitrary: d off)
  case (Cons x xs)
  then have "get_short (put_ints (set_int d off x) (off + 4) xs) o2 = get_short (set_int d off x) o2"
    by (intro Cons.IH) auto
  with Cons.prems show ?case by auto
qed simp

section \<open>Structures\<close>

record superblock =
  sb_magic :: u32
  sb_size :: u32
  sb_nblocks :: u32
  sb_ninodes :: u32
  sb_nlog :: u32
  sb_logstart :: u32
  sb_inodestart :: u32
  sb_bmapstart :: u32

definition BSIZE :: nat where "BSIZE = 1024"
definition FSMAGIC :: u32 where "FSMAGIC = 0x10203040"

definition get_super :: "u8 list \<Rightarrow> superblock" where
  "get_super d = \<lparr>sb_magic = get_int d 0, sb_size = get_int d 4, sb_nblocks = get_int d 8, sb_ninodes = get_int d 12,
     sb_nlog = get_int d 16, sb_logstart = get_int d 20, sb_inodestart = get_int d 24, sb_bmapstart = get_int d 28\<rparr>"

record dinode =
  di_type :: i16
  di_major :: i16
  di_minor :: i16
  di_nlink :: i16
  di_size :: u32
  di_addrs :: "u32 list"

definition NDIRECT :: nat where "NDIRECT = 12"
definition NINDIRECT :: nat where "NINDIRECT = 256"
definition MAXFILE :: nat where "MAXFILE = NDIRECT + NINDIRECT"

text \<open>\<^verbatim>\<open>sizeof(struct dinode)\<close> is 64; inode \<open>inum\<close> is slot \<^verbatim>\<open>inum % IPB\<close> of block \<^verbatim>\<open>IBLOCK(inum, sb)\<close>.\<close>

definition IPB :: u32 where "IPB = 16"
definition BPB :: u32 where "BPB = 8192"

definition IBLOCK :: "u32 \<Rightarrow> superblock \<Rightarrow> u32" where
  "IBLOCK i sb = i div IPB + sb_inodestart sb"

definition BBLOCK :: "u32 \<Rightarrow> superblock \<Rightarrow> u32" where
  "BBLOCK b sb = b div BPB + sb_bmapstart sb"

definition dinode_off :: "u32 \<Rightarrow> nat" where
  "dinode_off inum = 64 * unat (inum mod IPB)"

definition get_dinode :: "u8 list \<Rightarrow> nat \<Rightarrow> dinode" where
  "get_dinode d off = \<lparr>di_type = get_short d off, di_major = get_short d (off + 2), di_minor = get_short d (off + 4),
     di_nlink = get_short d (off + 6), di_size = get_int d (off + 8),
     di_addrs = map (\<lambda>k. get_int d (off + 12 + 4 * k)) [0..<13]\<rparr>"

definition put_dinode :: "u8 list \<Rightarrow> nat \<Rightarrow> dinode \<Rightarrow> u8 list" where
  "put_dinode d off di =
     put_ints (set_int (set_short (set_short (set_short (set_short d off (di_type di)) (off + 2) (di_major di))
       (off + 4) (di_minor di)) (off + 6) (di_nlink di)) (off + 8) (di_size di)) (off + 12) (di_addrs di)"

lemma length_put_dinode [simp]:
  "off + 64 \<le> length d \<Longrightarrow> length (di_addrs di) = 13 \<Longrightarrow> length (put_dinode d off di) = length d"
  by (simp add: put_dinode_def)

lemma dinode_off_fits: "dinode_off inum + 64 \<le> 1024"
proof -
  have "unat (inum mod IPB) < 16" by (simp add: IPB_def unat_mod)
  then show ?thesis by (simp add: dinode_off_def)
qed

lemma get_put_dinode:
  assumes "off + 64 \<le> length d" "length (di_addrs di) = 13"
  shows "get_dinode (put_dinode d off di) off = di"
proof -
  have "map (\<lambda>k. get_int (put_dinode d off di) (off + 12 + 4 * k)) [0..<13] = di_addrs di"
    using assms by (intro nth_equalityI) (simp_all add: put_dinode_def get_put_ints)
  then show ?thesis using assms
    by (simp add: get_dinode_def put_dinode_def short_put_ints_other get_put_ints_other)
qed

lemma get_put_dinode_other:
  assumes "off + 64 \<le> length d" "length (di_addrs di) = 13" "o2 + 64 \<le> length d" "o2 + 64 \<le> off \<or> off + 64 \<le> o2"
  shows "get_dinode (put_dinode d off di) o2 = get_dinode d o2"
  using assms by (auto simp: get_dinode_def put_dinode_def short_put_ints_other get_put_ints_other)

end
