(* ===== verification/Wal.thy ===== *)
theory Wal
  imports Bio Diskfmt
begin

text \<open>
  \<^verbatim>\<open>kernel/log.c\<close>: the write-ahead log. System calls change blocks only in the cache and record them with
  \<^verbatim>\<open>log_write\<close>; \<^verbatim>\<open>commit\<close> copies them to the log area, writes the header that lists them, installs
  them at their home locations and clears the header. The main result is that a crash between any two
  disk writes of a commit, followed by recovery, leaves the file system either as before the
  transaction or as after it.
\<close>

section \<open>The code\<close>

record log_st = bio_st +
  lg_start :: i32
  lg_size :: i32
  lg_outstanding :: i32
  lg_committing :: i32
  lg_dev :: i32
  lh_n :: i32
  lh_block :: "i32 list"

definition LOGSIZE :: nat where "LOGSIZE = 30"
definition MAXOPBLOCKS :: nat where "MAXOPBLOCKS = 10"

text \<open>Loops run \<open>tail\<close> from 0 while it is below the signed count \<^verbatim>\<open>log.lh.n\<close>; \<open>k\<close> rounds are left.\<close>

fun install_loop :: "bool \<Rightarrow> nat \<Rightarrow> nat \<Rightarrow> 'a log_st_scheme \<Rightarrow> 'a log_st_scheme res" where
  "install_loop recovering 0 tail s = Ok s"
| "install_loop recovering (Suc k) tail s =
     rbind (bread (lg_dev s) (lg_start s + of_nat tail + 1) s) (\<lambda>(lbuf, s).
     rbind (bread (lg_dev s) (lh_block s ! tail) s) (\<lambda>(dbuf, s).
     rbind (bwrite dbuf (set_data dbuf (b_data (bufs s ! lbuf)) s)) (\<lambda>s.
     rbind (brelse lbuf (if recovering then s else bunpin dbuf s)) (\<lambda>s.
     rbind (brelse dbuf s) (\<lambda>s.
     install_loop recovering k (Suc tail) s)))))"

definition install_trans :: "bool \<Rightarrow> 'a log_st_scheme \<Rightarrow> 'a log_st_scheme res" where
  "install_trans recovering s = install_loop recovering (nat (sint (lh_n s))) 0 s"

text \<open>
  The header is an int \<^verbatim>\<open>n\<close> followed by the block numbers. Entries past \<^verbatim>\<open>LOGSIZE\<close> would overrun the array
  \<^verbatim>\<open>log.lh.block\<close>; the code writes no such header.
\<close>

definition head_block :: "u8 list \<Rightarrow> nat \<Rightarrow> i32" where
  "head_block d i = get_int d (4 + 4 * i)"

definition read_head :: "'a log_st_scheme \<Rightarrow> 'a log_st_scheme res" where
  "read_head s =
     rbind (bread (lg_dev s) (lg_start s) s) (\<lambda>(b, s).
     let d = b_data (bufs s ! b); n = get_int d 0 in
     brelse b (s\<lparr>lh_n := n,
       lh_block := map (\<lambda>i. if i < nat (sint n) then head_block d i else lh_block s ! i) [0..<LOGSIZE]\<rparr>))"

definition put_head :: "u8 list \<Rightarrow> i32 \<Rightarrow> i32 list \<Rightarrow> u8 list" where
  "put_head d n bs = put_ints (set_int d 0 n) 4 (take (nat (sint n)) bs)"

definition write_head :: "'a log_st_scheme \<Rightarrow> 'a log_st_scheme res" where
  "write_head s =
     rbind (bread (lg_dev s) (lg_start s) s) (\<lambda>(b, s).
     rbind (bwrite b (set_data b (put_head (b_data (bufs s ! b)) (lh_n s) (lh_block s)) s)) (\<lambda>s.
     brelse b s))"

definition recover_from_log :: "'a log_st_scheme \<Rightarrow> 'a log_st_scheme res" where
  "recover_from_log s =
     rbind (read_head s) (\<lambda>s.
     rbind (install_trans True s) (\<lambda>s.
     write_head (s\<lparr>lh_n := 0\<rparr>)))"

text \<open>The header of \<^verbatim>\<open>4 + 4 * LOGSIZE\<close> bytes fits a block, so the size check of \<^verbatim>\<open>initlog\<close> passes.\<close>

definition initlog :: "i32 \<Rightarrow> superblock \<Rightarrow> 'a log_st_scheme \<Rightarrow> 'a log_st_scheme res" where
  "initlog dev sb s =
     (if 4 + 4 * LOGSIZE \<ge> BSIZE then Panic ''initlog: too big logheader''
      else recover_from_log (s\<lparr>lg_start := sb_logstart sb, lg_size := sb_nlog sb, lg_dev := dev\<rparr>))"

text \<open>One round of the loop of \<^verbatim>\<open>begin_op\<close>; \<open>Sleep\<close> waits for the log.\<close>

definition begin_op :: "'a log_st_scheme \<Rightarrow> 'a log_st_scheme res" where
  "begin_op s =
     (if lg_committing s \<noteq> 0 then Sleep ChLog
      else if sint (lh_n s) + (sint (lg_outstanding s) + 1) * int MAXOPBLOCKS > int LOGSIZE then Sleep ChLog
      else Ok (s\<lparr>lg_outstanding := lg_outstanding s + 1\<rparr>))"

fun write_log_loop :: "nat \<Rightarrow> nat \<Rightarrow> 'a log_st_scheme \<Rightarrow> 'a log_st_scheme res" where
  "write_log_loop 0 tail s = Ok s"
| "write_log_loop (Suc k) tail s =
     rbind (bread (lg_dev s) (lg_start s + of_nat tail + 1) s) (\<lambda>(to, s).
     rbind (bread (lg_dev s) (lh_block s ! tail) s) (\<lambda>(from, s).
     rbind (bwrite to (set_data to (b_data (bufs s ! from)) s)) (\<lambda>s.
     rbind (brelse from s) (\<lambda>s.
     rbind (brelse to s) (\<lambda>s.
     write_log_loop k (Suc tail) s)))))"

definition write_log :: "'a log_st_scheme \<Rightarrow> 'a log_st_scheme res" where
  "write_log s = write_log_loop (nat (sint (lh_n s))) 0 s"

definition commit :: "'a log_st_scheme \<Rightarrow> 'a log_st_scheme res" where
  "commit s =
     (if sint (lh_n s) > 0 then
        rbind (write_log s) (\<lambda>s.
        rbind (write_head s) (\<lambda>s.
        rbind (install_trans False s) (\<lambda>s.
        write_head (s\<lparr>lh_n := 0\<rparr>))))
      else Ok s)"

definition end_op :: "'a log_st_scheme \<Rightarrow> 'a log_st_scheme res" where
  "end_op s =
     (let s = s\<lparr>lg_outstanding := lg_outstanding s - 1\<rparr> in
      if lg_committing s \<noteq> 0 then Panic ''log.committing''
      else if lg_outstanding s = 0 then
        rbind (commit (s\<lparr>lg_committing := 1\<rparr>)) (\<lambda>s. Ok (wakeup ChLog (s\<lparr>lg_committing := 0\<rparr>)))
      else Ok (wakeup ChLog s))"

definition log_write :: "nat \<Rightarrow> 'a log_st_scheme \<Rightarrow> 'a log_st_scheme res" where
  "log_write b s =
     (if sint (lh_n s) \<ge> int LOGSIZE \<or> sint (lh_n s) \<ge> sint (lg_size s) - 1 then Panic ''too big a transaction''
      else if sint (lg_outstanding s) < 1 then Panic ''log_write outside of trans''
      else
        let n = nat (sint (lh_n s)); blockno = b_blockno (bufs s ! b);
            i = (case first_idx (\<lambda>x. x = blockno) (take n (lh_block s)) of Some i \<Rightarrow> i | None \<Rightarrow> n);
            s = s\<lparr>lh_block := (lh_block s)[i := blockno]\<rparr> in
        Ok (if i = n then (bpin b s)\<lparr>lh_n := lh_n s + 1\<rparr> else s))"

section \<open>Copying a block through the cache\<close>

text \<open>Facts about the log's own fields, which the cache does not touch.\<close>

lemma more_log:
  "bio_st.more s' = bio_st.more s \<Longrightarrow> lg_start s' = lg_start s \<and> lg_size s' = lg_size s \<and> lg_outstanding s' = lg_outstanding s \<and>
     lg_committing s' = lg_committing s \<and> lg_dev s' = lg_dev s \<and> lh_n s' = lh_n s \<and> lh_block s' = lh_block s \<and>
     log_st.more s' = log_st.more s"
  by (cases s; cases s') auto

definition kept :: "'a bio_st_scheme \<Rightarrow> 'a bio_st_scheme \<Rightarrow> bool" where
  "kept s s' \<longleftrightarrow> bcore s' = bcore s \<and> length (bufs s') = length (bufs s) \<and> mypid s' = mypid s"

lemma kept_refl [simp]: "kept s s"
  by (simp add: kept_def)

lemma kept_trans [trans]: "kept s t \<Longrightarrow> kept t u \<Longrightarrow> kept s u"
  by (simp add: kept_def)

lemma bframe_kept: "bframe s s' \<Longrightarrow> kept s s'"
  by (simp add: bframe_def kept_def)

lemma kept_log:
  assumes "kept s s'"
  shows "lg_start s' = lg_start s" "lg_size s' = lg_size s" "lg_outstanding s' = lg_outstanding s"
    "lg_committing s' = lg_committing s" "lg_dev s' = lg_dev s" "lh_n s' = lh_n s" "lh_block s' = lh_block s"
    "log_st.more s' = log_st.more s" "length (bufs s') = length (bufs s)" "mypid s' = mypid s"
  using assms more_log [OF bcore_more, of s' s] by (auto simp: kept_def)

lemma view_eqD:
  assumes "view s = v"
  shows "blk s = v_blk v" "refs s = v_refs v" "locks s = v_lock v" "disk s = v_disk v" "dwrites s = v_writes v"
  using assms by auto

lemma view_eqI:
  "blk s = v_blk v \<Longrightarrow> refs s = v_refs v \<Longrightarrow> locks s = v_lock v \<Longrightarrow> disk s = v_disk v \<Longrightarrow> dwrites s = v_writes v \<Longrightarrow>
   view s = v"
  by (simp add: view_def)

lemma bframe_cached: "bframe s s' \<Longrightarrow> cached s i n \<Longrightarrow> refs s n \<noteq> 0 \<Longrightarrow> refs s' n \<noteq> 0 \<Longrightarrow> cached s' i n"
  by (simp add: bframe_def)

text \<open>The number of buffers in use.\<close>

definition in_use :: "'a bio_st_scheme \<Rightarrow> nat" where
  "in_use s = card {m. refs s m \<noteq> 0}"

lemma can_read_iff:
  "can_read s n \<longleftrightarrow> locks s n = None \<and> refs s n + 1 \<noteq> 0 \<and> (refs s n \<noteq> 0 \<or> in_use s < length (bufs s))"
  by (simp add: can_read_def in_use_def)

lemma in_use_mono: "(\<And>m. refs s' m \<noteq> 0 \<Longrightarrow> refs s m \<noteq> 0) \<Longrightarrow> in_use s' \<le> in_use s"
  unfolding in_use_def by (intro card_mono) auto

lemma in_use_upd: "refs s' = (refs s)(n := r) \<Longrightarrow> in_use s' \<le> Suc (in_use s)"
proof -
  assume "refs s' = (refs s)(n := r)"
  then have "{m. refs s' m \<noteq> 0} \<subseteq> insert n {m. refs s m \<noteq> 0}" by auto
  then have "card {m. refs s' m \<noteq> 0} \<le> card (insert n {m. refs s m \<noteq> 0})" by (intro card_mono) auto
  also have "\<dots> \<le> Suc (card {m. refs s m \<noteq> 0})" by (simp add: card_insert_if)
  finally show ?thesis by (simp add: in_use_def)
qed

lemma small_refs: "r < (1000::u32) \<Longrightarrow> r + 1 \<noteq> 0"
proof
  assume "r < 1000" "r + 1 = 0"
  then have "r = -1" by (simp add: eq_neg_iff_add_eq_0)
  then show False using \<open>r < 1000\<close> by simp
qed

lemma read2:
  assumes inv: "bio_inv s" and l: "locks s a = None" "locks s b = None" "a \<noteq> b"
    and r: "refs s a < 1000" "refs s b < 1000"
    and room: "refs s a \<noteq> 0 \<or> in_use s < length (bufs s)" "refs s b \<noteq> 0 \<or> Suc (in_use s) < length (bufs s)"
  shows "\<exists>i j s1 s2. bread 1 a s = Ok (i, s1) \<and> bread 1 b s1 = Ok (j, s2) \<and> bio_inv s2 \<and> cached s2 i a \<and> cached s2 j b \<and>
    bframe s s1 \<and> bframe s1 s2 \<and> view s2 = (view s)\<lparr>v_refs := (refs s)(a := refs s a + 1, b := refs s b + 1),
      v_lock := (locks s)(a := Some (mypid s), b := Some (mypid s))\<rparr>"
proof -
  note r1 = small_refs [OF r(1)] small_refs [OF r(2)]
  have "can_read s a" using l r1 room by (auto simp: can_read_iff)
  from bread_spec [OF inv this] obtain i s1 where 1: "bread 1 a s = Ok (i, s1)" "bio_inv s1" "cached s1 i a" "bframe s s1"
    "view s1 = (view s)\<lparr>v_refs := (refs s)(a := refs s a + 1), v_lock := (locks s)(a := Some (mypid s))\<rparr>" by blast
  note v1 = view_eqD [OF 1(5), simplified]
  note f1 = bframe_kept [OF 1(4), unfolded kept_def]
  have "in_use s1 \<le> Suc (in_use s)" using in_use_upd [OF v1(2)] .
  then have "can_read s1 b" using l r1 room f1 by (auto simp: can_read_iff v1)
  from bread_spec [OF 1(2) this] obtain j s2 where 2: "bread 1 b s1 = Ok (j, s2)" "bio_inv s2" "cached s2 j b" "bframe s1 s2"
    "view s2 = (view s1)\<lparr>v_refs := (refs s1)(b := refs s1 b + 1), v_lock := (locks s1)(b := Some (mypid s1))\<rparr>" by blast
  note v2 = view_eqD [OF 2(5), simplified]
  have "cached s2 i a" by (rule bframe_cached [OF 2(4) 1(3)]) (use l r1 in \<open>simp_all add: v1 v2\<close>)
  moreover have "view s2 = (view s)\<lparr>v_refs := (refs s)(a := refs s a + 1, b := refs s b + 1),
      v_lock := (locks s)(a := Some (mypid s), b := Some (mypid s))\<rparr>"
    using l f1 by (intro view_eqI) (simp_all add: v1 v2)
  ultimately show ?thesis using 1 2 by blast
qed

lemma release2:
  assumes inv: "bio_inv s" and c: "cached s i a" "cached s j b" and l: "locks s a = Some (mypid s)" "locks s b = Some (mypid s)"
    and r: "refs s a \<noteq> 0" "refs s b \<noteq> 0" "a \<noteq> b"
    and d: "refs s a = 1 \<longrightarrow> blk s a = disk s a" "refs s b = 1 \<longrightarrow> blk s b = disk s b"
  shows "\<exists>s1 s2. brelse i s = Ok s1 \<and> brelse j s1 = Ok s2 \<and> bio_inv s2 \<and> kept s s2 \<and>
    view s2 = (view s)\<lparr>v_refs := (refs s)(a := refs s a - 1, b := refs s b - 1), v_lock := (locks s)(a := None, b := None)\<rparr>"
proof -
  from brelse_spec [OF inv c(1) l(1) r(1) d(1)] obtain s1 where 1: "brelse i s = Ok s1" "bio_inv s1" "bframe s s1"
    "view s1 = (view s)\<lparr>v_refs := (refs s)(a := refs s a - 1), v_lock := (locks s)(a := None)\<rparr>" by blast
  note v1 = view_eqD [OF 1(4), simplified]
  note f1 = bframe_kept [OF 1(3), unfolded kept_def]
  have c1: "cached s1 j b" by (rule bframe_cached [OF 1(3) c(2)]) (use r in \<open>simp_all add: v1\<close>)
  have "locks s1 b = Some (mypid s1)" "refs s1 b \<noteq> 0" "refs s1 b = 1 \<longrightarrow> blk s1 b = disk s1 b"
    using l r d f1 by (simp_all add: v1)
  from brelse_spec [OF 1(2) c1 this] obtain s2 where 2: "brelse j s1 = Ok s2" "bio_inv s2" "bframe s1 s2"
    "view s2 = (view s1)\<lparr>v_refs := (refs s1)(b := refs s1 b - 1), v_lock := (locks s1)(b := None)\<rparr>" by blast
  note v2 = view_eqD [OF 2(4), simplified]
  have "view s2 = (view s)\<lparr>v_refs := (refs s)(a := refs s a - 1, b := refs s b - 1), v_lock := (locks s)(a := None, b := None)\<rparr>"
    using r by (intro view_eqI) (simp_all add: v1 v2)
  then show ?thesis using 1 2 bframe_kept kept_trans by blast
qed

text \<open>
  One round of each loop. \<open>idle\<close>: no buffer is locked, so that reading never waits, and reference counts
  are far from overflow.
\<close>

definition idle :: "'a bio_st_scheme \<Rightarrow> bool" where
  "idle s \<longleftrightarrow> bio_inv s \<and> (\<forall>m. locks s m = None) \<and> (\<forall>m. refs s m < 1000)"

definition logblk :: "'a log_st_scheme \<Rightarrow> nat \<Rightarrow> u32" where
  "logblk s t = lg_start s + of_nat t + 1"

lemma small_dec: "r < (1000::u32) \<Longrightarrow> r \<noteq> 0 \<Longrightarrow> r - 1 < 1000"
  using unat_minus_one [of r] by (simp add: word_less_nat_alt)

lemma store_spec:
  assumes inv: "bio_inv s" and c: "cached s i n" and r: "refs s n \<noteq> 0" and l: "locks s n = Some (mypid s)"
  shows "\<exists>s'. bwrite i (set_data i d s) = Ok s' \<and> bio_inv s' \<and> cached s' i n \<and> bframe s s' \<and>
    view s' = (view s)\<lparr>v_blk := (blk s)(n := d), v_disk := (disk s)(n := d), v_writes := dwrites s @ [(n, d)]\<rparr>"
proof -
  note 1 = set_data_spec [OF inv c r, of d]
  note v1 = view_eqD [OF 1(4), simplified]
  have "locks (set_data i d s) n = Some (mypid (set_data i d s))" using l bframe_mypid [OF 1(3)] by (simp add: v1)
  from bwrite_spec [OF 1(1,2) this] obtain s' where 2: "bwrite i (set_data i d s) = Ok s'" "bio_inv s'" "cached s' i n"
    "bframe (set_data i d s) s'" "view s' = (view (set_data i d s))\<lparr>v_disk := (disk (set_data i d s))(n := blk (set_data i d s) n),
      v_writes := dwrites (set_data i d s) @ [(n, blk (set_data i d s) n)]\<rparr>" by blast
  note v2 = view_eqD [OF 2(5), simplified, unfolded v1]
  have "bframe s s'" by (rule bframe_trans [OF 1(3) 2(4)]) (simp add: v1)
  moreover have "view s' = (view s)\<lparr>v_blk := (blk s)(n := d), v_disk := (disk s)(n := d), v_writes := dwrites s @ [(n, d)]\<rparr>"
    by (intro view_eqI) (simp_all add: v2)
  ultimately show ?thesis using 2 by blast
qed

lemma write_step:
  assumes id: "idle s" and dev: "lg_dev s = 1" and ab: "logblk s tail = a" "lh_block s ! tail = b" "a \<noteq> b"
    and room: "in_use s < length (bufs s)" "refs s b \<noteq> 0"
  shows "\<exists>s'. write_log_loop (Suc k) tail s = write_log_loop k (Suc tail) s' \<and> idle s' \<and> kept s s' \<and>
    view s' = (view s)\<lparr>v_blk := (blk s)(a := blk s b), v_disk := (disk s)(a := blk s b), v_writes := dwrites s @ [(a, blk s b)]\<rparr>"
proof -
  have inv: "bio_inv s" and l: "locks s a = None" "locks s b = None" and r: "refs s a < 1000" "refs s b < 1000"
    using id by (auto simp: idle_def)
  obtain i j s1 s2 where 2: "bread 1 a s = Ok (i, s1)" "bread 1 b s1 = Ok (j, s2)" "bio_inv s2" "cached s2 i a" "cached s2 j b"
    "bframe s s1" "bframe s1 s2" "view s2 = (view s)\<lparr>v_refs := (refs s)(a := refs s a + 1, b := refs s b + 1),
      v_lock := (locks s)(a := Some (mypid s), b := Some (mypid s))\<rparr>"
    using read2 [OF inv l ab(3) r] room by blast
  note v2 = view_eqD [OF 2(8), simplified]
  note k2 = kept_trans [OF bframe_kept [OF 2(6)] bframe_kept [OF 2(7)]]
  note r' = small_refs [OF r(1)] small_refs [OF r(2)]
  have dj: "b_data (bufs s2 ! j) = blk s b" using cached_data [OF 2(5)] by (simp add: v2)
  have ra2: "refs s2 a \<noteq> 0" using r' ab(3) by (simp add: v2)
  have la2: "locks s2 a = Some (mypid s2)" using ab(3) kept_log(10) [OF k2] by (simp add: v2)
  from store_spec [OF 2(3,4) ra2 la2, of "blk s b"] obtain s4 where 4: "bwrite i (set_data i (blk s b) s2) = Ok s4" "bio_inv s4"
    "cached s4 i a" "bframe s2 s4" "view s4 = (view s2)\<lparr>v_blk := (blk s2)(a := blk s b), v_disk := (disk s2)(a := blk s b),
       v_writes := dwrites s2 @ [(a, blk s b)]\<rparr>" by blast
  note v4 = view_eqD [OF 4(5), simplified, unfolded v2]
  note k4 = kept_trans [OF k2 bframe_kept [OF 4(4)]]
  have p4: "mypid s4 = mypid s" using kept_log(10) [OF k4] .
  have c4: "cached s4 j b" by (rule bframe_cached [OF 4(4) 2(5)]) (use r' ab(3) in \<open>simp_all add: v2 v4\<close>)
  have "locks s4 b = Some (mypid s4)" "locks s4 a = Some (mypid s4)" "refs s4 b \<noteq> 0" "refs s4 a \<noteq> 0" "b \<noteq> a"
    "refs s4 b = 1 \<longrightarrow> blk s4 b = disk s4 b" "refs s4 a = 1 \<longrightarrow> blk s4 a = disk s4 a"
    using r' ab(3) room p4 by (auto simp: v4)
  from release2 [OF 4(2) c4 4(3) this] obtain s5 s6 where 6: "brelse j s4 = Ok s5" "brelse i s5 = Ok s6" "bio_inv s6" "kept s4 s6"
    "view s6 = (view s4)\<lparr>v_refs := (refs s4)(b := refs s4 b - 1, a := refs s4 a - 1), v_lock := (locks s4)(b := None, a := None)\<rparr>" by blast
  note v6 = view_eqD [OF 6(5), simplified, unfolded v4]
  have v: "view s6 = (view s)\<lparr>v_blk := (blk s)(a := blk s b), v_disk := (disk s)(a := blk s b), v_writes := dwrites s @ [(a, blk s b)]\<rparr>"
    using ab(3) l by (intro view_eqI) (simp_all add: v6 fun_upd_twist fun_upd_idem)
  have "idle s6" using id 6(3) view_eqD(2,3) [OF v] by (simp add: idle_def)
  moreover have "write_log_loop (Suc k) tail s = write_log_loop k (Suc tail) s6"
    using 2(1,2) dev kept_log(5,7) [OF bframe_kept [OF 2(6)]] ab dj 4(1) 6(1,2)
    by (simp add: logblk_def)
  ultimately show ?thesis using kept_trans [OF k4 6(4)] v by blast
qed

lemma unpin_other:
  assumes "bio_inv s" "cached s j b" "cached s i a" "a \<noteq> b" "refs s a \<noteq> 0" "refs s b \<noteq> 1"
  shows "cached (bunpin j s) i a"
  by (rule bframe_cached [OF bunpin_spec(3) [OF assms(1,2,6)] assms(3,5)])
    (use assms view_eqD(2) [OF bunpin_spec(4) [OF assms(1,2,6)]] in simp)

lemma unpin_if:
  assumes "bio_inv s" "cached s j b" "cached s i a" "a \<noteq> b" "refs s a \<noteq> 0" "recovering \<or> refs s b \<noteq> 1"
  defines "s' \<equiv> if recovering then s else bunpin j s"
  shows "bio_inv s'" "cached s' j b" "cached s' i a" "bframe s s'"
    "view s' = (view s)\<lparr>v_refs := (refs s)(b := if recovering then refs s b else refs s b - 1)\<rparr>"
proof -
  have "bio_inv s' \<and> cached s' j b \<and> cached s' i a \<and> bframe s s' \<and>
      view s' = (view s)\<lparr>v_refs := (refs s)(b := if recovering then refs s b else refs s b - 1)\<rparr>"
  proof (cases recovering)
    case True
    then show ?thesis using assms by (auto simp: s'_def intro!: view_eqI)
  next
    case False
    then show ?thesis using bunpin_spec [OF assms(1,2)] unpin_other [OF assms(1-5)] assms(6) by (simp add: s'_def)
  qed
  then show "bio_inv s'" "cached s' j b" "cached s' i a" "bframe s s'"
    "view s' = (view s)\<lparr>v_refs := (refs s)(b := if recovering then refs s b else refs s b - 1)\<rparr>" by blast+
qed

lemma install_step:
  assumes id: "idle s" and dev: "lg_dev s = 1" and ab: "logblk s tail = a" "lh_block s ! tail = b" "a \<noteq> b"
    and room: "in_use s < length (bufs s)" "refs s b \<noteq> 0 \<or> Suc (in_use s) < length (bufs s)" "recovering \<or> refs s b \<noteq> 0"
  shows "\<exists>s'. install_loop recovering (Suc k) tail s = install_loop recovering k (Suc tail) s' \<and> idle s' \<and> kept s s' \<and>
    view s' = (view s)\<lparr>v_blk := (blk s)(b := blk s a), v_refs := (refs s)(b := if recovering then refs s b else refs s b - 1),
      v_disk := (disk s)(b := blk s a), v_writes := dwrites s @ [(b, blk s a)]\<rparr>"
proof -
  have inv: "bio_inv s" and l: "locks s a = None" "locks s b = None" and r: "refs s a < 1000" "refs s b < 1000"
    using id by (auto simp: idle_def)
  obtain i j s1 s2 where 2: "bread 1 a s = Ok (i, s1)" "bread 1 b s1 = Ok (j, s2)" "bio_inv s2" "cached s2 i a" "cached s2 j b"
    "bframe s s1" "bframe s1 s2" "view s2 = (view s)\<lparr>v_refs := (refs s)(a := refs s a + 1, b := refs s b + 1),
      v_lock := (locks s)(a := Some (mypid s), b := Some (mypid s))\<rparr>"
    using read2 [OF inv l ab(3) r] room by blast
  note v2 = view_eqD [OF 2(8), simplified]
  note k2 = kept_trans [OF bframe_kept [OF 2(6)] bframe_kept [OF 2(7)]]
  note r' = small_refs [OF r(1)] small_refs [OF r(2)]
  have di: "b_data (bufs s2 ! i) = blk s a" using cached_data [OF 2(4)] by (simp add: v2)
  have rb2: "refs s2 b \<noteq> 0" "locks s2 b = Some (mypid s2)" using r' ab(3) kept_log(10) [OF k2] by (simp_all add: v2)
  from store_spec [OF 2(3,5) rb2, of "blk s a"] obtain s3 where 3: "bwrite j (set_data j (blk s a) s2) = Ok s3" "bio_inv s3"
    "cached s3 j b" "bframe s2 s3" "view s3 = (view s2)\<lparr>v_blk := (blk s2)(b := blk s a), v_disk := (disk s2)(b := blk s a),
       v_writes := dwrites s2 @ [(b, blk s a)]\<rparr>" by blast
  note v3 = view_eqD [OF 3(5), simplified, unfolded v2]
  have c3: "cached s3 i a" by (rule bframe_cached [OF 3(4) 2(4)]) (use r' ab(3) in \<open>simp_all add: v2 v3\<close>)
  define s4 where "s4 = (if recovering then s3 else bunpin j s3)"
  have u: "refs s3 a \<noteq> 0" "recovering \<or> refs s3 b \<noteq> 1" using r' ab(3) room by (auto simp: v3)
  note 4 = unpin_if [OF 3(2,3) c3 ab(3) u, folded s4_def]
  note v4 = view_eqD [OF 4(5), simplified, unfolded v3]
  have k4: "kept s s4" using k2 bframe_kept [OF 3(4)] bframe_kept [OF 4(4)] kept_trans by blast
  have p: "locks s4 a = Some (mypid s4)" "locks s4 b = Some (mypid s4)" "refs s4 a \<noteq> 0" "refs s4 b \<noteq> 0"
    "refs s4 a = 1 \<longrightarrow> blk s4 a = disk s4 a" "refs s4 b = 1 \<longrightarrow> blk s4 b = disk s4 b"
    using ab(3) r' room kept_log(10) [OF k4] clean_blk [OF inv, of a] by (auto simp: v4)
  obtain s5 s6 where 6: "brelse i s4 = Ok s5" "brelse j s5 = Ok s6" "bio_inv s6" "kept s4 s6"
    "view s6 = (view s4)\<lparr>v_refs := (refs s4)(a := refs s4 a - 1, b := refs s4 b - 1), v_lock := (locks s4)(a := None, b := None)\<rparr>"
    using release2 [OF 4(1,3,2) p(1-4) ab(3) p(5,6)] by blast
  note v6 = view_eqD [OF 6(5), simplified, unfolded v4]
  have v: "view s6 = (view s)\<lparr>v_blk := (blk s)(b := blk s a), v_refs := (refs s)(b := if recovering then refs s b else refs s b - 1),
      v_disk := (disk s)(b := blk s a), v_writes := dwrites s @ [(b, blk s a)]\<rparr>"
    using ab(3) l by (intro view_eqI) (auto simp: v6 fun_eq_iff)
  have "idle s6" using id 6(3) view_eqD(2,3) [OF v] small_dec [of "refs s b"] room by (auto simp: idle_def)
  moreover have "install_loop recovering (Suc k) tail s = install_loop recovering k (Suc tail) s6"
    using 2(1,2) dev kept_log(5,7) [OF bframe_kept [OF 2(6)]] ab di 3(1) 6(1,2)
    by (simp add: logblk_def s4_def)
  ultimately show ?thesis using kept_trans [OF k4 6(4)] v by blast
qed

section \<open>The loops\<close>

definition apply_ws :: "(u32 \<times> u8 list) list \<Rightarrow> (u32 \<Rightarrow> u8 list) \<Rightarrow> u32 \<Rightarrow> u8 list" where
  "apply_ws ws d = fold (\<lambda>(n, x) f. f(n := x)) ws d"

lemma apply_ws_simps [simp]:
  "apply_ws [] d = d" "apply_ws ((n, x) # ws) d = apply_ws ws (d(n := x))"
  "apply_ws (ws @ ws') d = apply_ws ws' (apply_ws ws d)"
  by (simp_all add: apply_ws_def)

lemma apply_ws_other: "m \<notin> fst ` set ws \<Longrightarrow> apply_ws ws d m = d m"
  by (induction ws arbitrary: d) auto

lemma apply_ws_map:
  "inj_on f (set ts) \<Longrightarrow> distinct ts \<Longrightarrow> t \<in> set ts \<Longrightarrow> apply_ws (map (\<lambda>t. (f t, g t)) ts) d (f t) = g t"
proof (induction ts arbitrary: d)
  case (Cons u ts)
  show ?case
  proof (cases "t \<in> set ts")
    case True
    then show ?thesis using Cons by simp
  next
    case False
    then have "t = u" using Cons.prems by simp
    moreover have "f u \<notin> fst ` set (map (\<lambda>t. (f t, g t)) ts)" using Cons.prems by auto
    ultimately show ?thesis by (simp add: apply_ws_other)
  qed
qed simp

lemma write_loop_spec:
  assumes "idle s" "lg_dev s = 1" "in_use s < length (bufs s)"
    and "\<forall>t\<in>{tail..<tail + k}. refs s (lh_block s ! t) \<noteq> 0 \<and> (\<forall>u\<in>{tail..<tail + k}. lh_block s ! t \<noteq> logblk s u)"
  shows "\<exists>s'. write_log_loop k tail s = Ok s' \<and> idle s' \<and> kept s s' \<and>
    view s' = (let ws = map (\<lambda>t. (logblk s t, blk s (lh_block s ! t))) [tail..<tail + k] in
      (view s)\<lparr>v_blk := apply_ws ws (blk s), v_disk := apply_ws ws (disk s), v_writes := dwrites s @ ws\<rparr>)"
  using assms
proof (induction k arbitrary: tail s)
  case 0
  then show ?case by (auto intro!: view_eqI)
next
  case (Suc k)
  let ?a = "logblk s tail" and ?b = "lh_block s ! tail"
  have "tail \<in> {tail..<tail + Suc k}" by simp
  then have "?a \<noteq> ?b" "refs s ?b \<noteq> 0" using Suc.prems(4) by metis+
  from write_step [OF Suc.prems(1,2) refl refl this(1) Suc.prems(3) this(2), of k] obtain s1 where
    1: "write_log_loop (Suc k) tail s = write_log_loop k (Suc tail) s1" "idle s1" "kept s s1"
    "view s1 = (view s)\<lparr>v_blk := (blk s)(?a := blk s ?b), v_disk := (disk s)(?a := blk s ?b), v_writes := dwrites s @ [(?a, blk s ?b)]\<rparr>"
    by blast
  note v1 = view_eqD [OF 1(4), simplified]
  note k1 = kept_log [OF 1(3)]
  have lb: "logblk s1 t = logblk s t" for t by (simp add: logblk_def k1)
  have b1: "blk s1 (lh_block s ! t) = blk s (lh_block s ! t)" if "t \<in> {Suc tail..<Suc tail + k}" for t
    using that Suc.prems(4) by (auto simp: v1)
  have u: "in_use s1 < length (bufs s1)" using Suc.prems(3) by (simp add: in_use_def v1 k1)
  have g: "\<forall>t\<in>{Suc tail..<Suc tail + k}. refs s1 (lh_block s1 ! t) \<noteq> 0 \<and>
      (\<forall>u\<in>{Suc tail..<Suc tail + k}. lh_block s1 ! t \<noteq> logblk s1 u)"
    using Suc.prems(4) by (auto simp: k1 v1 lb)
  obtain s' where 2: "write_log_loop k (Suc tail) s1 = Ok s'" "idle s'" "kept s1 s'"
    "view s' = (let ws = map (\<lambda>t. (logblk s t, blk s1 (lh_block s ! t))) [Suc tail..<Suc tail + k] in
      (view s1)\<lparr>v_blk := apply_ws ws (blk s1), v_disk := apply_ws ws (disk s1), v_writes := dwrites s1 @ ws\<rparr>)"
    using Suc.IH [OF 1(2) _ u g] Suc.prems(2) by (auto simp: k1 lb)
  have m: "map (\<lambda>t. (logblk s t, blk s1 (lh_block s ! t))) [Suc tail..<Suc tail + k] =
      map (\<lambda>t. (logblk s t, blk s (lh_block s ! t))) [Suc tail..<Suc tail + k]" using b1 by auto
  note v2 = view_eqD [OF 2(4) [unfolded m Let_def]]
  have "view s' = (let ws = map (\<lambda>t. (logblk s t, blk s (lh_block s ! t))) [tail..<tail + Suc k] in
      (view s)\<lparr>v_blk := apply_ws ws (blk s), v_disk := apply_ws ws (disk s), v_writes := dwrites s @ ws\<rparr>)"
    by (intro view_eqI) (simp_all add: Let_def v2 v1 upt_conv_Cons del: upt_Suc)
  then show ?case using 1(1) 2(1,2) kept_trans [OF 1(3) 2(3)] by auto
qed

lemma install_loop_spec:
  assumes "idle s" "lg_dev s = 1" "in_use s < length (bufs s)"
    and "recovering \<Longrightarrow> Suc (in_use s) < length (bufs s)"
    and "\<forall>t\<in>{tail..<tail + k}. (recovering \<or> refs s (lh_block s ! t) \<noteq> 0) \<and> (\<forall>u\<in>{tail..<tail + k}. lh_block s ! t \<noteq> logblk s u)"
    and "inj_on (\<lambda>t. lh_block s ! t) {tail..<tail + k}"
  shows "\<exists>s'. install_loop recovering k tail s = Ok s' \<and> idle s' \<and> kept s s' \<and>
    view s' = (let ws = map (\<lambda>t. (lh_block s ! t, blk s (logblk s t))) [tail..<tail + k] in
      (view s)\<lparr>v_blk := apply_ws ws (blk s), v_disk := apply_ws ws (disk s), v_writes := dwrites s @ ws,
        v_refs := (\<lambda>m. if \<not> recovering \<and> m \<in> (\<lambda>t. lh_block s ! t) ` {tail..<tail + k} then refs s m - 1 else refs s m)\<rparr>)"
  using assms
proof (induction k arbitrary: tail s)
  case 0
  then show ?case by (auto intro!: view_eqI)
next
  case (Suc k)
  let ?a = "logblk s tail" and ?b = "lh_block s ! tail"
  have tl: "tail \<in> {tail..<tail + Suc k}" by simp
  then have ab: "?a \<noteq> ?b" "recovering \<or> refs s ?b \<noteq> 0" using Suc.prems(5) by metis+
  then have room: "refs s ?b \<noteq> 0 \<or> Suc (in_use s) < length (bufs s)" using Suc.prems(4) by blast
  from install_step [OF Suc.prems(1,2) refl refl ab(1) Suc.prems(3) room ab(2), of k] obtain s1 where
    1: "install_loop recovering (Suc k) tail s = install_loop recovering k (Suc tail) s1" "idle s1" "kept s s1"
    "view s1 = (view s)\<lparr>v_blk := (blk s)(?b := blk s ?a), v_refs := (refs s)(?b := if recovering then refs s ?b else refs s ?b - 1),
      v_disk := (disk s)(?b := blk s ?a), v_writes := dwrites s @ [(?b, blk s ?a)]\<rparr>" by blast
  note v1 = view_eqD [OF 1(4), simplified]
  note k1 = kept_log [OF 1(3)]
  have lb: "logblk s1 t = logblk s t" for t by (simp add: logblk_def k1)
  have b1: "blk s1 (logblk s t) = blk s (logblk s t)" if "t \<in> {Suc tail..<Suc tail + k}" for t
  proof -
    have "t \<in> {tail..<tail + Suc k}" using that by auto
    then have "lh_block s ! tail \<noteq> logblk s t" using Suc.prems(5) tl by blast
    then show ?thesis by (simp add: v1)
  qed
  have ne: "lh_block s ! t \<noteq> ?b" if "t \<in> {Suc tail..<Suc tail + k}" for t
    using inj_onD [OF Suc.prems(6), of t tail] that by auto
  have "in_use s1 \<le> in_use s" by (rule in_use_mono) (use ab(2) in \<open>auto simp: v1 split: if_splits\<close>)
  then have u: "in_use s1 < length (bufs s1)" "recovering \<Longrightarrow> Suc (in_use s1) < length (bufs s1)"
    using Suc.prems(3,4) by (auto simp: k1)
  have g: "\<forall>t\<in>{Suc tail..<Suc tail + k}. (recovering \<or> refs s1 (lh_block s1 ! t) \<noteq> 0) \<and>
      (\<forall>u\<in>{Suc tail..<Suc tail + k}. lh_block s1 ! t \<noteq> logblk s1 u)"
    using Suc.prems(5) ne by (auto simp: k1 v1 lb)
  have inj: "inj_on (\<lambda>t. lh_block s1 ! t) {Suc tail..<Suc tail + k}"
    unfolding k1 by (rule inj_on_subset [OF Suc.prems(6)]) auto
  obtain s' where 2: "install_loop recovering k (Suc tail) s1 = Ok s'" "idle s'" "kept s1 s'"
    "view s' = (let ws = map (\<lambda>t. (lh_block s ! t, blk s1 (logblk s t))) [Suc tail..<Suc tail + k] in
      (view s1)\<lparr>v_blk := apply_ws ws (blk s1), v_disk := apply_ws ws (disk s1), v_writes := dwrites s1 @ ws,
        v_refs := (\<lambda>m. if \<not> recovering \<and> m \<in> (\<lambda>t. lh_block s ! t) ` {Suc tail..<Suc tail + k} then refs s1 m - 1 else refs s1 m)\<rparr>)"
    using Suc.IH [OF 1(2) _ u g inj] Suc.prems(2) by (auto simp: k1 lb)
  have m: "map (\<lambda>t. (lh_block s ! t, blk s1 (logblk s t))) [Suc tail..<Suc tail + k] =
      map (\<lambda>t. (lh_block s ! t, blk s (logblk s t))) [Suc tail..<Suc tail + k]" using b1 by auto
  note v2 = view_eqD [OF 2(4) [unfolded m Let_def]]
  have im: "(\<lambda>t. lh_block s ! t) ` {tail..<tail + Suc k} = insert ?b ((\<lambda>t. lh_block s ! t) ` {Suc tail..<Suc tail + k})"
    by (subst image_insert [symmetric], rule arg_cong [where f = "\<lambda>A. _ ` A"]) auto
  have nb: "?b \<notin> (\<lambda>t. lh_block s ! t) ` {Suc tail..<Suc tail + k}" using ne by (metis imageE)
  have "view s' = (let ws = map (\<lambda>t. (lh_block s ! t, blk s (logblk s t))) [tail..<tail + Suc k] in
      (view s)\<lparr>v_blk := apply_ws ws (blk s), v_disk := apply_ws ws (disk s), v_writes := dwrites s @ ws,
        v_refs := (\<lambda>m. if \<not> recovering \<and> m \<in> (\<lambda>t. lh_block s ! t) ` {tail..<tail + Suc k} then refs s m - 1 else refs s m)\<rparr>)"
    unfolding Let_def im using nb
    by (intro view_eqI) (simp_all add: v2 v1 upt_conv_Cons fun_eq_iff del: upt_Suc image_Suc_atLeastLessThan)
  then show ?case using 1(1) 2(1,2) kept_trans [OF 1(3) 2(3)] by auto
qed

lemma head_step:
  assumes id: "idle s" and u: "in_use s < length (bufs s)"
  shows "\<exists>b s1 s2 s3. bread 1 n s = Ok (b, s1) \<and> b_data (bufs s1 ! b) = blk s n \<and> bwrite b (set_data b d s1) = Ok s2 \<and>
    brelse b s2 = Ok s3 \<and> kept s s1 \<and> idle s3 \<and> kept s s3 \<and>
    view s3 = (view s)\<lparr>v_blk := (blk s)(n := d), v_disk := (disk s)(n := d), v_writes := dwrites s @ [(n, d)]\<rparr>"
proof -
  have inv: "bio_inv s" and c: "can_read s n" using id u small_refs by (auto simp: idle_def can_read_iff)
  obtain b s1 where 1: "bread 1 n s = Ok (b, s1)" "bio_inv s1" "cached s1 b n" "bframe s s1"
    "view s1 = (view s)\<lparr>v_refs := (refs s)(n := refs s n + 1), v_lock := (locks s)(n := Some (mypid s))\<rparr>"
    using bread_spec [OF inv c] by blast
  note v1 = view_eqD [OF 1(5), simplified]
  have r1: "refs s1 n \<noteq> 0" "locks s1 n = Some (mypid s1)"
    using c bframe_mypid [OF 1(4)] by (simp_all add: v1 can_read_iff)
  obtain s2 where 2: "bwrite b (set_data b d s1) = Ok s2" "bio_inv s2" "cached s2 b n" "bframe s1 s2"
    "view s2 = (view s1)\<lparr>v_blk := (blk s1)(n := d), v_disk := (disk s1)(n := d), v_writes := dwrites s1 @ [(n, d)]\<rparr>"
    using store_spec [OF 1(2,3) r1] by blast
  note v2 = view_eqD [OF 2(5), simplified, unfolded v1]
  have r2: "locks s2 n = Some (mypid s2)" "refs s2 n \<noteq> 0" "refs s2 n = 1 \<longrightarrow> blk s2 n = disk s2 n"
    using r1 bframe_mypid [OF 2(4)] bframe_mypid [OF 1(4)] by (simp_all add: v2 v1)
  obtain s3 where 3: "brelse b s2 = Ok s3" "bio_inv s3" "bframe s2 s3"
    "view s3 = (view s2)\<lparr>v_refs := (refs s2)(n := refs s2 n - 1), v_lock := (locks s2)(n := None)\<rparr>"
    using brelse_spec [OF 2(2,3) r2] by blast
  note v3 = view_eqD [OF 3(4), simplified, unfolded v2]
  have v: "view s3 = (view s)\<lparr>v_blk := (blk s)(n := d), v_disk := (disk s)(n := d), v_writes := dwrites s @ [(n, d)]\<rparr>"
    using id by (intro view_eqI) (auto simp: v3 fun_eq_iff idle_def)
  have "idle s3" using id 3(2) view_eqD(2,3) [OF v] by (simp add: idle_def)
  then show ?thesis using 1(1) cached_data [OF 1(3)] 2(1) 3(1) v kept_trans bframe_kept [OF 1(4)] bframe_kept [OF 2(4)]
      bframe_kept [OF 3(3)] by (simp add: v1) blast
qed

lemma write_head_spec:
  assumes id: "idle s" and u: "in_use s < length (bufs s)" and dev: "lg_dev s = 1"
  defines "h \<equiv> put_head (blk s (lg_start s)) (lh_n s) (lh_block s)"
  shows "\<exists>s'. write_head s = Ok s' \<and> idle s' \<and> kept s s' \<and>
    view s' = (view s)\<lparr>v_blk := (blk s)(lg_start s := h), v_disk := (disk s)(lg_start s := h), v_writes := dwrites s @ [(lg_start s, h)]\<rparr>"
proof -
  obtain b s1 s2 s3 where 1: "bread 1 (lg_start s) s = Ok (b, s1)" "b_data (bufs s1 ! b) = blk s (lg_start s)"
    "bwrite b (set_data b h s1) = Ok s2" "brelse b s2 = Ok s3" "kept s s1" "idle s3" "kept s s3"
    "view s3 = (view s)\<lparr>v_blk := (blk s)(lg_start s := h), v_disk := (disk s)(lg_start s := h), v_writes := dwrites s @ [(lg_start s, h)]\<rparr>"
    using head_step [OF id u] by blast
  then show ?thesis using dev kept_log [OF 1(5)] by (simp add: write_head_def h_def)
qed

section \<open>Commit and recovery\<close>

text \<open>The log on disk: the header block and \<^verbatim>\<open>LOGSIZE - 1\<close> data blocks.\<close>

definition logarea :: "i32 \<Rightarrow> u32 set" where
  "logarea start = insert start ((\<lambda>t. start + of_nat t + 1) ` {..<LOGSIZE - 1})"

definition nlog :: "'a log_st_scheme \<Rightarrow> nat" where
  "nlog s = nat (sint (lh_n s))"

text \<open>
  A state in which a transaction can commit: the logged blocks are distinct, pinned and outside the log
  area, every other block is clean, the header on disk is empty, and a buffer is to be had for the log.
\<close>

definition tx_ok :: "'a log_st_scheme \<Rightarrow> bool" where
  "tx_ok s \<longleftrightarrow> idle s \<and> lg_dev s = 1 \<and> in_use s < length (bufs s) \<and> length (lh_block s) = LOGSIZE \<and> nlog s < LOGSIZE \<and>
     0 \<le> sint (lh_n s) \<and> inj_on (\<lambda>t. lh_block s ! t) {..<nlog s} \<and>
     (\<forall>t<nlog s. refs s (lh_block s ! t) \<noteq> 0 \<and> lh_block s ! t \<notin> logarea (lg_start s)) \<and>
     (\<forall>b. b \<notin> (\<lambda>t. lh_block s ! t) ` {..<nlog s} \<longrightarrow> blk s b = disk s b) \<and>
     length (disk s (lg_start s)) = BSIZE \<and> get_int (disk s (lg_start s)) 0 = 0"

definition full_head :: "'a log_st_scheme \<Rightarrow> u8 list" where
  "full_head s = put_head (disk s (lg_start s)) (lh_n s) (lh_block s)"

text \<open>The disk writes of a commit, in order.\<close>

definition log_ws :: "'a log_st_scheme \<Rightarrow> (u32 \<times> u8 list) list" where
  "log_ws s = map (\<lambda>t. (logblk s t, blk s (lh_block s ! t))) [0..<nlog s]"

definition home_ws :: "'a log_st_scheme \<Rightarrow> (u32 \<times> u8 list) list" where
  "home_ws s = map (\<lambda>t. (lh_block s ! t, blk s (lh_block s ! t))) [0..<nlog s]"

definition commit_ws :: "'a log_st_scheme \<Rightarrow> (u32 \<times> u8 list) list" where
  "commit_ws s = log_ws s @ [(lg_start s, full_head s)] @ home_ws s @ [(lg_start s, set_int (full_head s) 0 0)]"

lemma of_nat_small: "t < LOGSIZE \<Longrightarrow> u < LOGSIZE \<Longrightarrow> (of_nat t :: u32) = of_nat u \<longleftrightarrow> t = u"
proof
  assume "t < LOGSIZE" "u < LOGSIZE" "(of_nat t :: u32) = of_nat u"
  then have "unat (of_nat t :: u32) = unat (of_nat u :: u32)" by simp
  with \<open>t < LOGSIZE\<close> \<open>u < LOGSIZE\<close> show "t = u" by (simp add: unat_of_nat_less LOGSIZE_def)
qed simp

lemma logblk_inj: "inj_on (logblk s) {..<LOGSIZE}"
  by (rule inj_onI) (simp add: logblk_def of_nat_small)

lemma logblk_start: "t < LOGSIZE \<Longrightarrow> logblk s t \<noteq> lg_start s"
proof
  assume t: "t < LOGSIZE" and "logblk s t = lg_start s"
  then have "(of_nat (Suc t) :: u32) = 0" by (simp add: logblk_def add.assoc add.commute)
  then have "unat (of_nat (Suc t) :: u32) = 0" by simp
  moreover have "unat (of_nat (Suc t) :: u32) = Suc t" using t by (intro unat_of_nat_less) (simp add: LOGSIZE_def)
  ultimately show False by simp
qed

lemma logblk_area: "Suc t < LOGSIZE \<Longrightarrow> logblk s t \<in> logarea (lg_start s)"
  by (auto simp: logblk_def logarea_def)

lemma not_logblk: "b \<notin> logarea (lg_start s) \<Longrightarrow> n < LOGSIZE \<Longrightarrow> b \<notin> logblk s ` {..<n}"
  using logblk_area [of _ s] by (metis Suc_leI imageE lessThan_iff order_le_less_trans)

lemma put_head_get:
  assumes "length d = BSIZE" "length bs = LOGSIZE" "0 \<le> sint n" "nat (sint n) < LOGSIZE"
  shows "length (put_head d n bs) = BSIZE" "get_int (put_head d n bs) 0 = n"
    "t < nat (sint n) \<Longrightarrow> head_block (put_head d n bs) t = bs ! t"
  using assms
  by (simp_all add: put_head_def head_block_def get_put_ints get_put_ints_other BSIZE_def LOGSIZE_def min_def)

lemma put_head_zero: "put_head d 0 bs = set_int d 0 0"
  by (simp add: put_head_def)

text \<open>Changing the log's own fields does not touch the cache.\<close>

lemma same_cache:
  assumes "bufs s' = bufs s" "lru s' = lru s" "disk s' = disk s" "dwrites s' = dwrites s" "procs s' = procs s" "curproc s' = curproc s"
  shows "view s' = view s" "bio_inv s' = bio_inv s" "idle s' = idle s" "in_use s' = in_use s" "mypid s' = mypid s"
    "cached s' i m = cached s i m"
proof -
  have sl: "slot s' = slot s" by (simp add: slot_def fun_eq_iff assms)
  note vc = view_cong [OF sl assms(1)]
  show "view s' = view s" by (rule view_eqI) (simp_all add: vc assms)
  show inv: "bio_inv s' = bio_inv s" by (simp add: bio_inv_def myproc_def assms)
  show "idle s' = idle s" by (simp add: idle_def vc inv)
  show "in_use s' = in_use s" by (simp add: in_use_def vc)
  show "mypid s' = mypid s" by (simp add: mypid_def myproc_def assms split: option.split)
  show "cached s' i m = cached s i m" by (simp add: cached_def sl assms)
qed

lemma log_fields [simp]:
  "view (s\<lparr>lh_n := n\<rparr>) = view s" "idle (s\<lparr>lh_n := n\<rparr>) = idle s" "in_use (s\<lparr>lh_n := n\<rparr>) = in_use s"
  "logblk (s\<lparr>lh_n := n\<rparr>) = logblk s" "mypid (s\<lparr>lh_n := n\<rparr>) = mypid s"
  by (simp_all add: same_cache [of "s\<lparr>lh_n := n\<rparr>" s] logblk_def [abs_def])

lemma kept_upd: "kept s t \<Longrightarrow> kept (s\<lparr>lh_n := n\<rparr>) (t\<lparr>lh_n := n\<rparr>)"
proof -
  assume "kept s t"
  moreover have "bcore (u\<lparr>lh_n := n\<rparr>) = (bcore u)\<lparr>lh_n := n\<rparr>" for u :: "'a log_st_scheme" by (simp add: bcore_def)
  ultimately show ?thesis by (simp add: kept_def)
qed

lemma tx_okD:
  assumes "tx_ok s"
  shows "idle s" "lg_dev s = 1" "in_use s < length (bufs s)" "length (lh_block s) = LOGSIZE" "nlog s < LOGSIZE" "0 \<le> sint (lh_n s)"
    "inj_on (\<lambda>t. lh_block s ! t) {..<nlog s}" "t < nlog s \<Longrightarrow> refs s (lh_block s ! t) \<noteq> 0"
    "t < nlog s \<Longrightarrow> lh_block s ! t \<notin> logarea (lg_start s)"
    "b \<notin> (\<lambda>t. lh_block s ! t) ` {..<nlog s} \<Longrightarrow> blk s b = disk s b"
    "length (disk s (lg_start s)) = BSIZE" "get_int (disk s (lg_start s)) 0 = 0"
  using assms unfolding tx_ok_def by blast+

lemma tx_geometry:
  assumes "tx_ok s" "t < nlog s"
  shows "u < nlog s \<Longrightarrow> lh_block s ! t \<noteq> logblk s u" "lh_block s ! t \<noteq> lg_start s" "logblk s t \<noteq> lg_start s"
  using tx_okD(5) [OF assms(1)] tx_okD(9) [OF assms(1), of t] assms(2) logblk_area [of u s] logblk_start [of t s]
  by (auto simp: logarea_def)

lemma fst_log_ws: "fst ` set (log_ws s) = logblk s ` {..<nlog s}"
  by (force simp: log_ws_def)

lemma fst_home_ws: "fst ` set (home_ws s) = (\<lambda>t. lh_block s ! t) ` {..<nlog s}"
  by (force simp: home_ws_def)

lemma after_log:
  assumes tx: "tx_ok s"
  shows "t < nlog s \<Longrightarrow> apply_ws (log_ws s) d (logblk s t) = blk s (lh_block s ! t)"
    "t < nlog s \<Longrightarrow> apply_ws (log_ws s) d (lh_block s ! t) = d (lh_block s ! t)"
    "apply_ws (log_ws s) d (lg_start s) = d (lg_start s)"
proof -
  show "t < nlog s \<Longrightarrow> apply_ws (log_ws s) d (logblk s t) = blk s (lh_block s ! t)"
    unfolding log_ws_def using tx_okD(5) [OF tx]
    by (intro apply_ws_map) (auto intro!: inj_on_subset [OF logblk_inj])
  show "t < nlog s \<Longrightarrow> apply_ws (log_ws s) d (lh_block s ! t) = d (lh_block s ! t)"
    using tx_geometry(1) [OF tx] by (intro apply_ws_other) (auto simp: fst_log_ws)
  show "apply_ws (log_ws s) d (lg_start s) = d (lg_start s)"
    by (intro apply_ws_other) (metis tx_geometry(3) [OF tx] fst_log_ws imageE lessThan_iff)
qed

lemma after_home:
  assumes tx: "tx_ok s"
  shows "t < nlog s \<Longrightarrow> apply_ws (home_ws s) d (lh_block s ! t) = blk s (lh_block s ! t)"
    "b \<notin> (\<lambda>t. lh_block s ! t) ` {..<nlog s} \<Longrightarrow> apply_ws (home_ws s) d b = d b"
    "apply_ws (home_ws s) d (lg_start s) = d (lg_start s)"
proof -
  show "t < nlog s \<Longrightarrow> apply_ws (home_ws s) d (lh_block s ! t) = blk s (lh_block s ! t)"
    unfolding home_ws_def using tx_okD(7) [OF tx] by (intro apply_ws_map) (auto simp: lessThan_atLeast0)
  show "b \<notin> (\<lambda>t. lh_block s ! t) ` {..<nlog s} \<Longrightarrow> apply_ws (home_ws s) d b = d b"
    by (intro apply_ws_other) (simp add: fst_home_ws)
  show "apply_ws (home_ws s) d (lg_start s) = d (lg_start s)"
    by (intro apply_ws_other) (metis tx_geometry(2) [OF tx] fst_home_ws imageE lessThan_iff)
qed

lemma commit_spec:
  assumes tx: "tx_ok s" and n: "0 < nlog s"
  shows "\<exists>s'. commit s = Ok s' \<and> idle s' \<and> kept (s\<lparr>lh_n := 0\<rparr>) s' \<and>
    view s' = (view s)\<lparr>v_blk := apply_ws (commit_ws s) (blk s), v_disk := apply_ws (commit_ws s) (disk s),
      v_writes := dwrites s @ commit_ws s,
      v_refs := (\<lambda>m. if m \<in> (\<lambda>t. lh_block s ! t) ` {..<nlog s} then refs s m - 1 else refs s m)\<rparr>"
proof -
  note T = tx_okD [OF tx] and G = tx_geometry [OF tx]
  obtain s1 where 1: "write_log s = Ok s1" "idle s1" "kept s s1"
    "view s1 = (view s)\<lparr>v_blk := apply_ws (log_ws s) (blk s), v_disk := apply_ws (log_ws s) (disk s), v_writes := dwrites s @ log_ws s\<rparr>"
    using write_loop_spec [OF T(1-3), of 0 "nlog s"] T(8) G(1) by (auto simp: write_log_def nlog_def log_ws_def Let_def)
  note v1 = view_eqD [OF 1(4), simplified] and k1 = kept_log [OF 1(3)]
  have "lg_start s \<notin> (\<lambda>t. lh_block s ! t) ` {..<nlog s}" using G(2) by (metis imageE lessThan_iff)
  then have st: "blk s (lg_start s) = disk s (lg_start s)" using T(10) by blast
  have u1: "in_use s1 < length (bufs s1)" "lg_dev s1 = 1" using T by (simp_all add: in_use_def v1 k1)
  obtain s2 where 2: "write_head s1 = Ok s2" "idle s2" "kept s1 s2"
    "view s2 = (view s1)\<lparr>v_blk := (blk s1)(lg_start s := full_head s), v_disk := (disk s1)(lg_start s := full_head s),
       v_writes := dwrites s1 @ [(lg_start s, full_head s)]\<rparr>"
    using write_head_spec [OF 1(2) u1] by (auto simp: k1 v1 full_head_def after_log(3) [OF tx] st)
  note v2 = view_eqD [OF 2(4), simplified, unfolded v1] and k2 = kept_log [OF kept_trans [OF 1(3) 2(3)]]
  have u2: "lg_dev s2 = 1" "in_use s2 < length (bufs s2)" using T by (simp_all add: in_use_def v2 k2)
  have lb: "logblk s2 = logblk s" by (simp add: logblk_def fun_eq_iff k2)
  have "map (\<lambda>t. (lh_block s ! t, blk s2 (logblk s t))) [0..<nlog s] = home_ws s"
    using G(3) after_log(1) [OF tx] by (auto simp: home_ws_def v2)
  then obtain s3 where 3: "install_trans False s2 = Ok s3" "idle s3" "kept s2 s3"
    "view s3 = (view s2)\<lparr>v_blk := apply_ws (home_ws s) (blk s2), v_disk := apply_ws (home_ws s) (disk s2), v_writes := dwrites s2 @ home_ws s,
      v_refs := (\<lambda>m. if m \<in> (\<lambda>t. lh_block s ! t) ` {..<nlog s} then refs s2 m - 1 else refs s2 m)\<rparr>"
    using install_loop_spec [OF 2(2) u2, of False 0 "nlog s"] T(7,8) G(1)
    by (auto simp: install_trans_def nlog_def k2 lb v2 lessThan_atLeast0 Let_def)
  note v3 = view_eqD [OF 3(4), simplified, unfolded v2] and k3 = kept_trans [OF kept_trans [OF 1(3) 2(3)] 3(3)]
  have "in_use s3 \<le> in_use s" by (rule in_use_mono) (use T(8) in \<open>auto simp: v3 split: if_splits\<close>)
  then have u3: "idle (s3\<lparr>lh_n := 0\<rparr>)" "in_use (s3\<lparr>lh_n := 0\<rparr>) < length (bufs (s3\<lparr>lh_n := 0\<rparr>))" "lg_dev (s3\<lparr>lh_n := 0\<rparr>) = 1"
    using T 3(2) kept_log [OF k3] by simp_all
  have s0: "blk (s3\<lparr>lh_n := 0\<rparr>) (lg_start s) = full_head s" using view_eqD(1) [OF log_fields(1) [of 0 s3]]
    by (simp add: v3 after_home(3) [OF tx])
  obtain s4 where 4: "write_head (s3\<lparr>lh_n := 0\<rparr>) = Ok s4" "idle s4" "kept (s3\<lparr>lh_n := 0\<rparr>) s4"
    "view s4 = (view s3)\<lparr>v_blk := (blk s3)(lg_start s := set_int (full_head s) 0 0), v_disk := (disk s3)(lg_start s := set_int (full_head s) 0 0),
       v_writes := dwrites s3 @ [(lg_start s, set_int (full_head s) 0 0)]\<rparr>"
    using write_head_spec [OF u3] s0 view_eqD [OF log_fields(1) [of 0 s3], simplified] kept_log [OF k3]
    by (auto simp: put_head_zero)
  note v4 = view_eqD [OF 4(4), simplified, unfolded v3]
  have "commit s = Ok s4" using n 1(1) 2(1) 3(1) 4(1) by (simp add: commit_def nlog_def)
  moreover have "kept (s\<lparr>lh_n := 0\<rparr>) s4" using kept_trans [OF kept_upd [OF k3] 4(3)] .
  ultimately show ?thesis using 4(2) by (intro exI [of _ s4] conjI view_eqI) (simp_all add: v4 commit_ws_def)
qed

section \<open>Recovery\<close>

lemma read_head_spec:
  assumes id: "idle s" and u: "in_use s < length (bufs s)" and dev: "lg_dev s = 1"
  defines "d \<equiv> blk s (lg_start s)"
  defines "n \<equiv> get_int d 0"
  defines "bs \<equiv> map (\<lambda>i. if i < nat (sint n) then head_block d i else lh_block s ! i) [0..<LOGSIZE]"
  shows "\<exists>s'. read_head s = Ok s' \<and> idle s' \<and> view s' = view s \<and> kept (s\<lparr>lh_n := n, lh_block := bs\<rparr>) s'"
proof -
  have inv: "bio_inv s" and c: "can_read s (lg_start s)" using id u small_refs by (auto simp: idle_def can_read_iff)
  obtain b s1 where 1: "bread 1 (lg_start s) s = Ok (b, s1)" "bio_inv s1" "cached s1 b (lg_start s)" "bframe s s1"
    "view s1 = (view s)\<lparr>v_refs := (refs s)(lg_start s := refs s (lg_start s) + 1), v_lock := (locks s)(lg_start s := Some (mypid s))\<rparr>"
    using bread_spec [OF inv c] by blast
  define s2 where "s2 = s1\<lparr>lh_n := n, lh_block := bs\<rparr>"
  have sc: "bufs s2 = bufs s1" "lru s2 = lru s1" "disk s2 = disk s1" "dwrites s2 = dwrites s1" "procs s2 = procs s1" "curproc s2 = curproc s1"
    by (simp_all add: s2_def)
  note sc2 = same_cache [OF sc]
  note v1 = view_eqD [OF 1(5), simplified] and v2 = view_eqD [OF sc2(1), simplified]
  have d1: "b_data (bufs s1 ! b) = d" using cached_data [OF 1(3)] by (simp add: v1 d_def)
  have i2: "bio_inv s2" "cached s2 b (lg_start s)" using 1(2,3) sc2 by simp_all
  have l2: "locks s2 (lg_start s) = Some (mypid s2)" "refs s2 (lg_start s) \<noteq> 0"
    "refs s2 (lg_start s) = 1 \<longrightarrow> blk s2 (lg_start s) = disk s2 (lg_start s)"
    using c bframe_mypid [OF 1(4)] sc2(5) clean_blk [OF inv, of "lg_start s"] by (auto simp: v2 v1 can_read_iff)
  obtain s3 where 3: "brelse b s2 = Ok s3" "bio_inv s3" "bframe s2 s3"
    "view s3 = (view s2)\<lparr>v_refs := (refs s2)(lg_start s := refs s2 (lg_start s) - 1), v_lock := (locks s2)(lg_start s := None)\<rparr>"
    using brelse_spec [OF i2 l2] by blast
  have v: "view s3 = view s"
    using id by (intro view_eqI) (auto simp: view_eqD [OF 3(4), simplified] v2 v1 idle_def fun_eq_iff)
  note v3 = view_eqD [OF v, simplified]
  have "kept (s\<lparr>lh_n := n, lh_block := bs\<rparr>) s2"
  proof -
    have "bcore (t\<lparr>lh_n := n, lh_block := bs\<rparr>) = (bcore t)\<lparr>lh_n := n, lh_block := bs\<rparr>" for t :: "'a log_st_scheme"
      by (simp add: bcore_def)
    moreover have "mypid (s\<lparr>lh_n := n, lh_block := bs\<rparr>) = mypid s" by (rule same_cache(5)) simp_all
    ultimately show ?thesis using bframe_kept [OF 1(4)] sc2(5) by (simp add: kept_def s2_def)
  qed
  moreover have "read_head s = Ok s3"
    using 1(1) dev d1 3(1) kept_log(7) [OF bframe_kept [OF 1(4)]]
    by (simp add: read_head_def Let_def s2_def bs_def n_def cong: if_cong)
  moreover have "idle s3" using id 3(2) by (simp add: idle_def v3)
  ultimately show ?thesis using v kept_trans [OF _ bframe_kept [OF 3(3)]] by blast
qed

definition recovery_ws :: "u8 list \<Rightarrow> i32 \<Rightarrow> (u32 \<Rightarrow> u8 list) \<Rightarrow> (u32 \<times> u8 list) list" where
  "recovery_ws h start d = map (\<lambda>t. (head_block h t, d (start + of_nat t + 1))) [0..<nat (sint (get_int h 0))] @ [(start, set_int h 0 0)]"

text \<open>A header that recovery can follow.\<close>

definition head_ok :: "i32 \<Rightarrow> u8 list \<Rightarrow> bool" where
  "head_ok start h \<longleftrightarrow> length h = BSIZE \<and> nat (sint (get_int h 0)) < LOGSIZE \<and>
     inj_on (head_block h) {..<nat (sint (get_int h 0))} \<and> (\<forall>t<nat (sint (get_int h 0)). head_block h t \<notin> logarea start)"

lemma recover_spec:
  assumes id: "idle s" and u: "Suc (in_use s) < length (bufs s)" and dev: "lg_dev s = 1" and ok: "head_ok (lg_start s) (blk s (lg_start s))"
  defines "ws \<equiv> recovery_ws (blk s (lg_start s)) (lg_start s) (blk s)"
  shows "\<exists>s'. recover_from_log s = Ok s' \<and> idle s' \<and>
    view s' = (view s)\<lparr>v_blk := apply_ws ws (blk s), v_disk := apply_ws ws (disk s), v_writes := dwrites s @ ws\<rparr>"
proof -
  define h where "h = blk s (lg_start s)"
  define n where "n = nat (sint (get_int h 0))"
  define ws1 where "ws1 = map (\<lambda>t. (head_block h t, blk s (logblk s t))) [0..<n]"
  note H = ok [folded h_def, unfolded head_ok_def, folded n_def]
  have u0: "in_use s < length (bufs s)" using u by simp
  obtain s1 where 1: "read_head s = Ok s1" "idle s1" "view s1 = view s" "kept (s\<lparr>lh_n := get_int h 0,
      lh_block := map (\<lambda>i. if i < n then head_block h i else lh_block s ! i) [0..<LOGSIZE]\<rparr>) s1"
    using read_head_spec [OF id u0 dev] unfolding h_def n_def by blast
  note v1 = view_eqD [OF 1(3), simplified] and k1 = kept_log [OF 1(4), simplified]
  have B: "lh_block s1 ! t = head_block h t" if "t < n" for t using that H by (simp add: k1)
  have lb: "logblk s1 = logblk s" by (simp add: logblk_def fun_eq_iff k1)
  have u1: "lg_dev s1 = 1" "in_use s1 < length (bufs s1)" "True \<Longrightarrow> Suc (in_use s1) < length (bufs s1)"
    using u dev by (simp_all add: in_use_def v1 k1)
  have g: "\<forall>t\<in>{0..<0 + n}. (True \<or> refs s1 (lh_block s1 ! t) \<noteq> 0) \<and> (\<forall>u\<in>{0..<0 + n}. lh_block s1 ! t \<noteq> logblk s1 u)"
  proof (intro ballI conjI)
    fix t u assume tu: "t \<in> {0..<0 + n}" "u \<in> {0..<0 + n}"
    then have "head_block h t \<notin> logarea (lg_start s)" "logblk s u \<in> logarea (lg_start s)"
      using H logblk_area [of u s] by auto
    then show "lh_block s1 ! t \<noteq> logblk s1 u" using B [of t] tu by (auto simp: lb)
  qed simp
  have inj: "inj_on (\<lambda>t. lh_block s1 ! t) {0..<0 + n}"
    using H by (subst inj_on_cong [where g = "head_block h"]) (auto simp: B lessThan_atLeast0)
  have m: "map (\<lambda>t. (lh_block s1 ! t, blk s1 (logblk s1 t))) [0..<0 + n] = ws1"
    by (simp add: ws1_def B v1 lb)
  obtain s2 where 2: "install_trans True s1 = Ok s2" "idle s2" "kept s1 s2"
    "view s2 = (view s)\<lparr>v_blk := apply_ws ws1 (blk s), v_disk := apply_ws ws1 (disk s), v_writes := dwrites s @ ws1\<rparr>"
    using install_loop_spec [OF 1(2) u1 g inj, unfolded m] 1(3)
    by (auto simp: install_trans_def k1 v1 n_def Let_def view_def)
  note v2 = view_eqD [OF 2(4), simplified] and k2 = kept_log [OF 2(3)]
  have "in_use s2 = in_use s" by (simp add: in_use_def v2)
  then have u2: "idle (s2\<lparr>lh_n := 0\<rparr>)" "in_use (s2\<lparr>lh_n := 0\<rparr>) < length (bufs (s2\<lparr>lh_n := 0\<rparr>))" "lg_dev (s2\<lparr>lh_n := 0\<rparr>) = 1"
    using 2(2) u1 k2 u by (simp_all add: k1)
  have "lg_start s \<notin> fst ` set ws1" using H by (auto simp: ws1_def logarea_def)
  then have st: "apply_ws ws1 (blk s) (lg_start s) = h" by (simp add: apply_ws_other h_def)
  obtain s3 where 3: "write_head (s2\<lparr>lh_n := 0\<rparr>) = Ok s3" "idle s3"
    "view s3 = (view s2)\<lparr>v_blk := (blk s2)(lg_start s := set_int h 0 0), v_disk := (disk s2)(lg_start s := set_int h 0 0),
       v_writes := dwrites s2 @ [(lg_start s, set_int h 0 0)]\<rparr>"
    using write_head_spec [OF u2] view_eqD [OF log_fields(1) [of 0 s2], simplified] k1 k2 st
    by (auto simp: put_head_zero v2)
  have "ws = ws1 @ [(lg_start s, set_int h 0 0)]"
    by (simp add: ws_def recovery_ws_def ws1_def h_def n_def logblk_def)
  then have "view s3 = (view s)\<lparr>v_blk := apply_ws ws (blk s), v_disk := apply_ws ws (disk s), v_writes := dwrites s @ ws\<rparr>"
    by (intro view_eqI) (simp_all add: view_eqD [OF 3(3), simplified] v2)
  then show ?thesis using 1(1) 2(1) 3(1,2) by (auto simp: recover_from_log_def)
qed

lemma recovery_home:
  assumes "head_ok start h" "t < nat (sint (get_int h 0))"
  shows "apply_ws (recovery_ws h start d) d (head_block h t) = d (start + of_nat t + 1)"
proof -
  have "head_block h t \<noteq> start" using assms by (auto simp: head_ok_def logarea_def)
  moreover have "apply_ws (map (\<lambda>t. (head_block h t, d (start + of_nat t + 1))) [0..<nat (sint (get_int h 0))]) d (head_block h t) =
      d (start + of_nat t + 1)"
    using assms by (intro apply_ws_map) (auto simp: head_ok_def lessThan_atLeast0)
  ultimately show ?thesis by (simp add: recovery_ws_def)
qed

lemma recovery_other:
  assumes "b \<noteq> start" "b \<notin> head_block h ` {..<nat (sint (get_int h 0))}"
  shows "apply_ws (recovery_ws h start d) d b = d b"
  using assms by (intro apply_ws_other) (auto simp: recovery_ws_def)

lemma full_head_get:
  assumes "tx_ok s"
  shows "length (full_head s) = BSIZE" "get_int (full_head s) 0 = lh_n s" "t < nlog s \<Longrightarrow> head_block (full_head s) t = lh_block s ! t"
  using put_head_get [OF tx_okD(11,4,6) [OF assms] tx_okD(5) [OF assms, unfolded nlog_def]]
  by (simp_all add: full_head_def nlog_def)

lemma full_head_ok:
  assumes tx: "tx_ok s"
  shows "head_ok (lg_start s) (full_head s)"
  using tx_okD(5,7,9) [OF tx] full_head_get [OF tx]
  by (auto simp: head_ok_def nlog_def inj_on_def)

lemma empty_head_ok: "length h = BSIZE \<Longrightarrow> get_int h 0 = 0 \<Longrightarrow> head_ok start h"
  by (simp add: head_ok_def LOGSIZE_def)

text \<open>The three kinds of crash: before, at or after the header write, and after the header is cleared.\<close>

lemma crash_old:
  assumes tx: "tx_ok s" and k: "k \<le> nlog s" and b: "b \<notin> logarea (lg_start s)"
  defines "d \<equiv> apply_ws (take k (commit_ws s)) (disk s)"
  shows "head_ok (lg_start s) (d (lg_start s)) \<and> apply_ws (recovery_ws (d (lg_start s)) (lg_start s) d) d b = disk s b"
proof -
  note T = tx_okD [OF tx]
  have tk: "take k (commit_ws s) = take k (log_ws s)" using k by (simp add: commit_ws_def log_ws_def)
  have sub: "fst ` set (take k (log_ws s)) \<subseteq> logblk s ` {..<nlog s}" by (metis fst_log_ws image_mono set_take_subset)
  have od: "d m = disk s m" if "m \<notin> logblk s ` {..<nlog s}" for m
    unfolding d_def tk by (rule apply_ws_other) (use sub that in blast)
  have "lg_start s \<notin> logblk s ` {..<nlog s}" using tx_geometry(3) [OF tx] by (metis imageE lessThan_iff)
  then have h: "d (lg_start s) = disk s (lg_start s)" by (rule od)
  have "b \<notin> logblk s ` {..<nlog s}" by (rule not_logblk [OF b T(5)])
  then have db: "d b = disk s b" by (rule od)
  have "b \<noteq> lg_start s" using b by (auto simp: logarea_def)
  then have "apply_ws (recovery_ws (d (lg_start s)) (lg_start s) d) d b = d b"
    using T(12) by (intro recovery_other) (simp_all add: h)
  then show ?thesis using T(11,12) by (simp add: h db empty_head_ok)
qed

lemma crash_new:
  assumes tx: "tx_ok s" and k: "k \<le> nlog s" and b: "b \<notin> logarea (lg_start s)"
  defines "d \<equiv> apply_ws (log_ws s @ [(lg_start s, full_head s)] @ take k (home_ws s)) (disk s)"
  shows "head_ok (lg_start s) (d (lg_start s)) \<and> apply_ws (recovery_ws (d (lg_start s)) (lg_start s) d) d b = blk s b"
proof -
  note T = tx_okD [OF tx] and G = tx_geometry [OF tx] and F = full_head_get [OF tx]
  let ?e = "(apply_ws (log_ws s) (disk s))(lg_start s := full_head s)"
  have sub: "fst ` set (take k (home_ws s)) \<subseteq> (\<lambda>t. lh_block s ! t) ` {..<nlog s}"
    by (metis fst_home_ws image_mono set_take_subset)
  have od: "d m = ?e m" if "m \<notin> (\<lambda>t. lh_block s ! t) ` {..<nlog s}" for m
  proof -
    have "m \<notin> fst ` set (take k (home_ws s))" using sub that by blast
    then show ?thesis by (simp add: d_def apply_ws_other)
  qed
  have "lg_start s \<notin> (\<lambda>t. lh_block s ! t) ` {..<nlog s}" using G(2) by (metis imageE lessThan_iff)
  then have h: "d (lg_start s) = full_head s" using od by simp
  have n: "nat (sint (get_int (full_head s) 0)) = nlog s" by (simp add: F nlog_def)
  have bs: "b \<noteq> lg_start s" using b by (auto simp: logarea_def)
  have "apply_ws (recovery_ws (full_head s) (lg_start s) d) d b = blk s b"
  proof (cases "b \<in> (\<lambda>t. lh_block s ! t) ` {..<nlog s}")
    case True
    then obtain t where t: "t < nlog s" "b = lh_block s ! t" by auto
    have "logblk s t \<notin> (\<lambda>t. lh_block s ! t) ` {..<nlog s}" using G(1) t(1) by (metis imageE lessThan_iff)
    then have "d (logblk s t) = blk s b" using od after_log(1) [OF tx t(1)] G(3) [OF t(1)] t(2) by simp
    moreover have "apply_ws (recovery_ws (full_head s) (lg_start s) d) d (head_block (full_head s) t) = d (logblk s t)"
      unfolding logblk_def by (rule recovery_home [OF full_head_ok [OF tx]]) (simp add: n t)
    ultimately show ?thesis using F(3) [OF t(1)] t(2) by simp
  next
    case False
    have "b \<notin> logblk s ` {..<nlog s}" by (rule not_logblk [OF b T(5)])
    then have "d b = disk s b" using od [OF False] bs by (simp add: apply_ws_other fst_log_ws)
    moreover have "b \<notin> head_block (full_head s) ` {..<nlog s}" using False F(3) by (metis (no_types, lifting) image_cong lessThan_iff)
    ultimately show ?thesis using T(10) [OF False] bs by (simp add: recovery_other n)
  qed
  then show ?thesis by (simp add: h full_head_ok [OF tx])
qed

lemma crash_done:
  assumes tx: "tx_ok s" and b: "b \<notin> logarea (lg_start s)"
  defines "d \<equiv> apply_ws (commit_ws s) (disk s)"
  shows "head_ok (lg_start s) (d (lg_start s)) \<and> d b = blk s b \<and> apply_ws (recovery_ws (d (lg_start s)) (lg_start s) d) d b = blk s b"
proof -
  note T = tx_okD [OF tx] and F = full_head_get [OF tx]
  have bs: "b \<noteq> lg_start s" using b by (auto simp: logarea_def)
  have h: "d (lg_start s) = set_int (full_head s) 0 0" by (simp add: d_def commit_ws_def)
  have z: "get_int (set_int (full_head s) 0 0) 0 = 0" "length (set_int (full_head s) 0 0) = BSIZE"
    using F(1) by (simp_all add: BSIZE_def)
  have lb: "b \<notin> logblk s ` {..<nlog s}" by (rule not_logblk [OF b T(5)])
  have db: "d b = blk s b"
  proof (cases "b \<in> (\<lambda>t. lh_block s ! t) ` {..<nlog s}")
    case True
    then show ?thesis using after_home(1) [OF tx] bs by (auto simp: d_def commit_ws_def)
  next
    case False
    then show ?thesis using after_home(2) [OF tx False] bs lb T(10) [OF False]
      by (simp add: d_def commit_ws_def apply_ws_other fst_log_ws)
  qed
  have "apply_ws (recovery_ws (d (lg_start s)) (lg_start s) d) d b = d b"
    using bs z by (intro recovery_other) (simp_all add: h)
  then show ?thesis using z by (simp add: h db empty_head_ok)
qed

section \<open>Recording a block in the transaction\<close>

definition logged :: "'a log_st_scheme \<Rightarrow> u32 set" where
  "logged s = (\<lambda>t. lh_block s ! t) ` {..<nlog s}"

text \<open>
  \<open>quiet\<close>: a transaction state in which the only references to buffers are the pins of logged blocks. It is
  what holds between the block operations of a system call that runs alone.
\<close>

definition quiet :: "'a log_st_scheme \<Rightarrow> bool" where
  "quiet s \<longleftrightarrow> tx_ok s \<and> (\<forall>m. refs s m = (if m \<in> logged s then 1 else 0))"

lemma quiet_in_use:
  assumes "quiet s"
  shows "in_use s = nlog s"
proof -
  have "{m. refs s m \<noteq> 0} = logged s" using assms by (auto simp: quiet_def)
  then show ?thesis using tx_okD(7) [of s] assms by (simp add: in_use_def logged_def card_image quiet_def)
qed

text \<open>The frame of transaction code: like \<open>kept\<close>, but the log header in memory may change.\<close>

definition lcore :: "'a log_st_scheme \<Rightarrow> 'a log_st_scheme" where
  "lcore s = (bcore s)\<lparr>lh_n := 0, lh_block := []\<rparr>"

definition lkept :: "'a log_st_scheme \<Rightarrow> 'a log_st_scheme \<Rightarrow> bool" where
  "lkept s s' \<longleftrightarrow> lcore s' = lcore s \<and> length (bufs s') = length (bufs s) \<and> mypid s' = mypid s"

lemma lkept_refl [simp]: "lkept s s"
  by (simp add: lkept_def)

lemma lkept_trans [trans]: "lkept s t \<Longrightarrow> lkept t u \<Longrightarrow> lkept s u"
  by (simp add: lkept_def)

lemma kept_lkept: "kept s s' \<Longrightarrow> lkept s s'"
  by (simp add: kept_def lkept_def lcore_def)

lemma lkept_log:
  assumes "lkept s s'"
  shows "lg_start s' = lg_start s" "lg_size s' = lg_size s" "lg_outstanding s' = lg_outstanding s"
    "lg_committing s' = lg_committing s" "lg_dev s' = lg_dev s" "log_st.more s' = log_st.more s"
    "length (bufs s') = length (bufs s)" "mypid s' = mypid s"
proof -
  have c: "lcore s' = lcore s" using assms by (simp add: lkept_def)
  show "lg_start s' = lg_start s" "lg_size s' = lg_size s" "lg_outstanding s' = lg_outstanding s"
    "lg_committing s' = lg_committing s" "lg_dev s' = lg_dev s" "log_st.more s' = log_st.more s"
    using arg_cong [OF c, where f = lg_start] arg_cong [OF c, where f = lg_size] arg_cong [OF c, where f = lg_outstanding]
      arg_cong [OF c, where f = lg_committing] arg_cong [OF c, where f = lg_dev] arg_cong [OF c, where f = log_st.more]
    by (simp_all add: lcore_def bcore_def)
  show "length (bufs s') = length (bufs s)" "mypid s' = mypid s" using assms by (simp_all add: lkept_def)
qed

lemma lcore_upd [simp]:
  "lcore (s\<lparr>lh_n := n\<rparr>) = lcore s" "lcore (s\<lparr>lh_block := bs\<rparr>) = lcore s" "lcore (s\<lparr>lh_n := n, lh_block := bs\<rparr>) = lcore s"
  by (simp_all add: lcore_def bcore_def)

lemma first_idx_logged:
  assumes "length (lh_block s) = LOGSIZE" "nlog s \<le> LOGSIZE"
  shows "n \<in> logged s \<Longrightarrow> \<exists>t<nlog s. first_idx (\<lambda>x. x = n) (take (nlog s) (lh_block s)) = Some t \<and> lh_block s ! t = n"
    "n \<notin> logged s \<Longrightarrow> first_idx (\<lambda>x. x = n) (take (nlog s) (lh_block s)) = None"
proof -
  have st: "set (take (nlog s) (lh_block s)) = logged s"
    using assms nth_image [of "nlog s" "lh_block s"] by (simp add: logged_def lessThan_atLeast0)
  show "n \<notin> logged s \<Longrightarrow> first_idx (\<lambda>x. x = n) (take (nlog s) (lh_block s)) = None"
    unfolding first_idx_None st by blast
  assume "n \<in> logged s"
  then have "first_idx (\<lambda>x. x = n) (take (nlog s) (lh_block s)) \<noteq> None" unfolding first_idx_None st by blast
  then obtain t where t: "first_idx (\<lambda>x. x = n) (take (nlog s) (lh_block s)) = Some t" by blast
  then have "t < nlog s" "lh_block s ! t = n" using first_idx_less [OF t] first_idx_holds [OF t] by simp_all
  with t show "\<exists>t<nlog s. first_idx (\<lambda>x. x = n) (take (nlog s) (lh_block s)) = Some t \<and> lh_block s ! t = n" by blast
qed

text \<open>\<^verbatim>\<open>log_write\<close> on a block that is already logged changes nothing; a new block is appended and pinned.\<close>

definition can_log :: "'a log_st_scheme \<Rightarrow> bool" where
  "can_log s \<longleftrightarrow> length (lh_block s) = LOGSIZE \<and> 0 \<le> sint (lh_n s) \<and> Suc (nlog s) < LOGSIZE \<and>
     lg_size s = of_nat LOGSIZE \<and> 1 \<le> sint (lg_outstanding s)"

lemma can_logD:
  assumes "can_log s"
  shows "\<not> int LOGSIZE \<le> sint (lh_n s)" "\<not> sint (lg_size s) - 1 \<le> sint (lh_n s)" "\<not> sint (lg_outstanding s) < 1"
    "length (lh_block s) = LOGSIZE" "Suc (nlog s) < LOGSIZE" "0 \<le> sint (lh_n s)"
  using assms by (auto simp: can_log_def nlog_def LOGSIZE_def)

lemma log_write_old:
  assumes c: "cached s i n" and inv: "bio_inv s" and l: "can_log s" and n: "n \<in> logged s"
  shows "log_write i s = Ok s"
proof -
  have bn: "b_blockno (bufs s ! i) = n" using cachedD(3) [OF inv c] .
  obtain t where t: "t < nlog s" "first_idx (\<lambda>x. x = n) (take (nlog s) (lh_block s)) = Some t" "lh_block s ! t = n"
    using first_idx_logged(1) [of s, OF _ _ n] l by (auto simp: can_log_def)
  then have "(lh_block s)[t := n] = lh_block s" by (metis list_update_id)
  then show ?thesis using t can_logD(1-3) [OF l] by (simp add: log_write_def Let_def bn flip: nlog_def)
qed

lemma log_write_new:
  assumes c: "cached s i n" and inv: "bio_inv s" and l: "can_log s" and n: "n \<notin> logged s" and r: "refs s n + 1 \<noteq> 0"
  shows "\<exists>s'. log_write i s = Ok s' \<and> bio_inv s' \<and> cached s' i n \<and> lkept s s' \<and> lh_n s' = lh_n s + 1 \<and>
    lh_block s' = (lh_block s)[nlog s := n] \<and> view s' = (view s)\<lparr>v_refs := (refs s)(n := refs s n + 1)\<rparr>"
proof -
  have bn: "b_blockno (bufs s ! i) = n" using cachedD(3) [OF inv c] .
  define s0 where "s0 = s\<lparr>lh_block := (lh_block s)[nlog s := n]\<rparr>"
  have eq: "bufs s0 = bufs s" "lru s0 = lru s" "disk s0 = disk s" "dwrites s0 = dwrites s" "procs s0 = procs s" "curproc s0 = curproc s"
    by (simp_all add: s0_def)
  note sc = same_cache [OF eq]
  have r0: "bio_inv s0" "cached s0 i n" "refs s0 n + 1 \<noteq> 0" using inv c r sc view_eqD(2) [OF sc(1)] by simp_all
  note p = bpin_spec [OF r0]
  define s' where "s' = (bpin i s0)\<lparr>lh_n := lh_n s + 1\<rparr>"
  have "first_idx (\<lambda>x. x = n) (take (nlog s) (lh_block s)) = None"
    using first_idx_logged(2) [of s] n l by (simp add: can_log_def)
  then have "log_write i s = Ok s'"
    using can_logD(1-3) [OF l] by (simp add: log_write_def Let_def bn s'_def s0_def flip: nlog_def)
  moreover have "bio_inv s'" "cached s' i n" "view s' = view (bpin i s0)" "mypid s' = mypid (bpin i s0)"
    using p(1,2) same_cache [of s' "bpin i s0"] by (simp_all add: s'_def)
  moreover from this have "view s' = (view s)\<lparr>v_refs := (refs s)(n := refs s n + 1)\<rparr>"
    using p(4) sc(1) view_eqD(2) [OF sc(1)] by simp
  moreover have "lkept s s'"
  proof -
    have "lkept s s0" using sc(5) by (simp add: lkept_def s0_def)
    moreover have "lkept s0 (bpin i s0)" using p(3) bframe_kept kept_lkept by blast
    moreover have "lkept (bpin i s0) s'" by (simp add: lkept_def s'_def)
    ultimately show ?thesis using lkept_trans by blast
  qed
  moreover have "lh_n s' = lh_n s + 1" "lh_block s' = (lh_block s)[nlog s := n]"
    by (simp_all add: s'_def s0_def bpin_def upd_buf_def)
  ultimately show ?thesis by blast
qed

lemma sint_inc:
  fixes x :: i32
  assumes "0 \<le> sint x" "sint x < 2 ^ 30"
  shows "sint (x + 1) = sint x + 1"
proof -
  have "x + 1 = word_of_int (sint x + 1)" by simp
  moreover have "sint (word_of_int (sint x + 1) :: i32) = signed_take_bit 31 (sint x + 1)"
    using sint_sbintrunc' [where ?'a = 32, of "sint x + 1"] by simp
  ultimately show ?thesis using assms by (simp add: signed_take_bit_int_eq_self)
qed

lemma tx_ok_grow:
  assumes q: "quiet s" and cl: "can_log s" and room: "Suc (nlog s) < length (bufs s)"
    and n: "n \<notin> logged s" "n \<notin> logarea (lg_start s)"
    and s': "bio_inv s'" "lkept s s'" "lh_n s' = lh_n s + 1" "lh_block s' = (lh_block s)[nlog s := n]"
      "refs s' = (refs s)(n := 1)" "locks s' = locks s" "blk s' = (blk s)(n := d)" "disk s' = disk s"
  shows "quiet s' \<and> nlog s' = Suc (nlog s) \<and> logged s' = insert n (logged s)"
proof -
  have tx: "tx_ok s" using q by (simp add: quiet_def)
  note T = tx_okD [OF tx] and C = can_logD [OF cl] and K = lkept_log [OF s'(2)]
  have "sint (lh_n s) < 2 ^ 30" using C(1) by (simp add: LOGSIZE_def)
  then have sn: "sint (lh_n s') = sint (lh_n s) + 1" using sint_inc T(6) s'(3) by simp
  then have nl: "nlog s' = Suc (nlog s)" using T(6) by (simp add: nlog_def nat_add_distrib)
  have B: "lh_block s' ! t = (if t = nlog s then n else lh_block s ! t)" if "t < Suc (nlog s)" for t
    using that C(4,5) s'(4) by auto
  have lg: "logged s' = insert n (logged s)"
    unfolding logged_def nl lessThan_Suc using B by (auto simp: image_iff)
  have inj: "inj_on (\<lambda>t. lh_block s' ! t) {..<nlog s'}"
    using T(7) n(1) B unfolding nl lessThan_Suc by (auto simp: inj_on_def logged_def)
  have id: "idle s'" using s' T(1) by (auto simp: idle_def)
  have rf: "\<forall>m. refs s' m = (if m \<in> logged s' then 1 else 0)" using q by (simp add: lg s'(5) quiet_def)
  then have "{m. refs s' m \<noteq> 0} = logged s'" by auto
  then have u: "in_use s' < length (bufs s')"
    using inj room by (simp add: in_use_def logged_def card_image nl K)
  have home: "\<forall>t<nlog s'. refs s' (lh_block s' ! t) \<noteq> 0 \<and> lh_block s' ! t \<notin> logarea (lg_start s')"
    using rf T(9) n(2) B by (auto simp: K nl logged_def)
  have "\<forall>b. b \<notin> logged s' \<longrightarrow> blk s' b = disk s' b" using T(10) [folded logged_def] by (simp add: lg s')
  then have "tx_ok s'" unfolding tx_ok_def logged_def
    using id u inj home T C sn nl by (simp add: K s' nlog_def [symmetric])
  then show ?thesis using rf nl lg by (simp add: quiet_def)
qed

lemma tx_ok_again:
  assumes q: "quiet s" and n: "n \<in> logged s" "n \<notin> logarea (lg_start s)"
    and s': "bio_inv s'" "lkept s s'" "lh_n s' = lh_n s" "lh_block s' = lh_block s"
      "refs s' = refs s" "locks s' = locks s" "blk s' = (blk s)(n := d)" "disk s' = disk s"
  shows "quiet s' \<and> nlog s' = nlog s \<and> logged s' = logged s"
proof -
  have tx: "tx_ok s" using q by (simp add: quiet_def)
  note T = tx_okD [OF tx] and K = lkept_log [OF s'(2)]
  have nl: "nlog s' = nlog s" and lg: "logged s' = logged s" by (simp_all add: nlog_def logged_def s')
  have id: "idle s'" "in_use s' = in_use s" using s' T(1) by (simp_all add: idle_def in_use_def)
  have "\<forall>b. b \<notin> logged s' \<longrightarrow> blk s' b = disk s' b" using T(10) [folded logged_def] n by (auto simp: lg s')
  then have "tx_ok s'" unfolding tx_ok_def logged_def using id T by (simp add: K s' nl)
  then show ?thesis using q nl lg by (simp add: quiet_def s')
qed

text \<open>Reading a block in a quiet state.\<close>

lemma quiet_bread:
  assumes q: "quiet s"
  shows "\<exists>i s1. bread 1 n s = Ok (i, s1) \<and> bio_inv s1 \<and> cached s1 i n \<and> b_data (bufs s1 ! i) = blk s n \<and> bframe s s1 \<and>
    refs s1 n \<noteq> 0 \<and> locks s1 n = Some (mypid s1) \<and>
    view s1 = (view s)\<lparr>v_refs := (refs s)(n := refs s n + 1), v_lock := (locks s)(n := Some (mypid s))\<rparr>"
proof -
  have T: "idle s" "in_use s < length (bufs s)" using q tx_okD(1,3) by (auto simp: quiet_def)
  have inv: "bio_inv s" and c: "can_read s n" using T small_refs by (auto simp: idle_def can_read_iff)
  obtain i s1 where 1: "bread 1 n s = Ok (i, s1)" "bio_inv s1" "cached s1 i n" "bframe s s1"
    "view s1 = (view s)\<lparr>v_refs := (refs s)(n := refs s n + 1), v_lock := (locks s)(n := Some (mypid s))\<rparr>"
    using bread_spec [OF inv c] by blast
  note v1 = view_eqD [OF 1(5), simplified]
  have "b_data (bufs s1 ! i) = blk s n" using cached_data [OF 1(3)] by (simp add: v1)
  moreover have "refs s1 n \<noteq> 0" "locks s1 n = Some (mypid s1)" using c bframe_mypid [OF 1(4)] by (simp_all add: v1 can_read_iff)
  ultimately show ?thesis using 1 by blast
qed

lemma quiet_same:
  assumes q: "quiet s" and s': "bio_inv s'" "kept s s'" "view s' = view s"
  shows "quiet s'"
proof -
  note K = kept_log [OF s'(2)] and v = view_eqD [OF s'(3), simplified]
  have e: "nlog s' = nlog s" "in_use s' = in_use s" "idle s' = idle s" "logged s' = logged s"
    using q s'(1) tx_okD(1) [of s] by (simp_all add: nlog_def in_use_def idle_def logged_def K v quiet_def)
  have "tx_ok s' = tx_ok s" unfolding tx_ok_def by (simp add: e K v)
  then show ?thesis using q by (simp add: quiet_def e v)
qed

text \<open>Looking at a block: nothing changes but the cache's bookkeeping.\<close>

lemma quiet_look:
  assumes q: "quiet s" and 1: "bio_inv s1" "cached s1 i n" "bframe s s1" "refs s1 n \<noteq> 0" "locks s1 n = Some (mypid s1)"
    "view s1 = (view s)\<lparr>v_refs := (refs s)(n := refs s n + 1), v_lock := (locks s)(n := Some (mypid s))\<rparr>"
  shows "\<exists>s2. brelse i s1 = Ok s2 \<and> quiet s2 \<and> kept s s2 \<and> view s2 = view s"
proof -
  have inv: "bio_inv s" and l: "locks s n = None" using q tx_okD(1) by (auto simp: quiet_def idle_def)
  note v1 = view_eqD [OF 1(6), simplified]
  have "refs s1 n = 1 \<longrightarrow> blk s1 n = disk s1 n" using clean_blk [OF inv, of n] by (auto simp: v1)
  then obtain s2 where 2: "brelse i s1 = Ok s2" "bio_inv s2" "bframe s1 s2"
    "view s2 = (view s1)\<lparr>v_refs := (refs s1)(n := refs s1 n - 1), v_lock := (locks s1)(n := None)\<rparr>"
    using brelse_spec [OF 1(1,2,5,4)] by blast
  have v: "view s2 = view s" using l
    by (intro view_eqI) (auto simp: view_eqD [OF 2(4), simplified] v1 fun_eq_iff)
  have "kept s s2" using bframe_kept [OF 1(3)] bframe_kept [OF 2(3)] kept_trans by blast
  then show ?thesis using 2(1) quiet_same [OF q 2(2) _ v] v by blast
qed

text \<open>Updating a block: the cache shows the new contents, the disk does not, and the block is logged.\<close>

lemma quiet_update:
  assumes q: "quiet s" and cl: "can_log s" and room: "Suc (nlog s) < length (bufs s)" and n: "n \<notin> logarea (lg_start s)"
    and 1: "bio_inv s1" "cached s1 i n" "bframe s s1" "refs s1 n \<noteq> 0" "locks s1 n = Some (mypid s1)"
    "view s1 = (view s)\<lparr>v_refs := (refs s)(n := refs s n + 1), v_lock := (locks s)(n := Some (mypid s))\<rparr>"
  shows "\<exists>s2 s3. log_write i (set_data i d s1) = Ok s2 \<and> brelse i s2 = Ok s3 \<and> quiet s3 \<and> lkept s s3 \<and>
    blk s3 = (blk s)(n := d) \<and> disk s3 = disk s \<and> dwrites s3 = dwrites s \<and> logged s3 = insert n (logged s) \<and>
    nlog s3 = (if n \<in> logged s then nlog s else Suc (nlog s))"
proof -
  have l: "locks s n = None" using q tx_okD(1) by (auto simp: quiet_def idle_def)
  have rf: "refs s n = (if n \<in> logged s then 1 else 0)" using q by (simp add: quiet_def)
  note v1 = view_eqD [OF 1(6), simplified] and k1 = kept_log [OF bframe_kept [OF 1(3)]]
  define t where "t = set_data i d s1"
  note t = set_data_spec [OF 1(1,2,4), of d, folded t_def]
  note vt = view_eqD [OF t(4), simplified, unfolded v1] and kt = kept_trans [OF bframe_kept [OF 1(3)] bframe_kept [OF t(3)]]
  have nt: "nlog t = nlog s" by (simp add: nlog_def kept_log [OF kt])
  then have lt: "can_log t" "logged t = logged s" "nlog t = nlog s"
    using cl by (simp_all add: can_log_def logged_def kept_log [OF kt])
  have "\<exists>s2. log_write i t = Ok s2 \<and> bio_inv s2 \<and> cached s2 i n \<and> lkept s s2 \<and> blk s2 = (blk s)(n := d) \<and> disk s2 = disk s \<and>
      dwrites s2 = dwrites s \<and> refs s2 = (refs s)(n := 2) \<and> locks s2 = (locks s)(n := Some (mypid s)) \<and>
      (if n \<in> logged s then lh_n s2 = lh_n s \<and> lh_block s2 = lh_block s else lh_n s2 = lh_n s + 1 \<and> lh_block s2 = (lh_block s)[nlog s := n])"
  proof (cases "n \<in> logged s")
    case True
    then show ?thesis using log_write_old [OF t(2,1) lt(1)] t(1,2) kept_lkept [OF kt] rf
      by (auto simp: lt vt kept_log [OF kt])
  next
    case False
    then have "n \<notin> logged t" "refs t n + 1 \<noteq> 0" using rf by (simp_all add: lt vt)
    from log_write_new [OF t(2,1) lt(1) this] obtain s2 where 2: "log_write i t = Ok s2" "bio_inv s2" "cached s2 i n" "lkept t s2"
      "lh_n s2 = lh_n t + 1" "lh_block s2 = (lh_block t)[nlog t := n]" "view s2 = (view t)\<lparr>v_refs := (refs t)(n := refs t n + 1)\<rparr>" by blast
    then show ?thesis using False lkept_trans [OF kept_lkept [OF kt] 2(4)] rf view_eqD [OF 2(7), simplified, unfolded vt]
      by (auto simp: lt kept_log [OF kt])
  qed
  then obtain s2 where 2: "log_write i t = Ok s2" "bio_inv s2" "cached s2 i n" "lkept s s2" "blk s2 = (blk s)(n := d)"
    "disk s2 = disk s" "dwrites s2 = dwrites s" "refs s2 = (refs s)(n := 2)" "locks s2 = (locks s)(n := Some (mypid s))"
    "if n \<in> logged s then lh_n s2 = lh_n s \<and> lh_block s2 = lh_block s else lh_n s2 = lh_n s + 1 \<and> lh_block s2 = (lh_block s)[nlog s := n]"
    by blast
  have "locks s2 n = Some (mypid s2)" "refs s2 n \<noteq> 0" "refs s2 n = 1 \<longrightarrow> blk s2 n = disk s2 n"
    using 2(8,9) lkept_log(8) [OF 2(4)] by simp_all
  from brelse_spec [OF 2(2,3) this] obtain s3 where 3: "brelse i s2 = Ok s3" "bio_inv s3" "bframe s2 s3"
    "view s3 = (view s2)\<lparr>v_refs := (refs s2)(n := refs s2 n - 1), v_lock := (locks s2)(n := None)\<rparr>" by blast
  note v3 = view_eqD [OF 3(4), simplified, unfolded 2(5-9)] and k3 = kept_log(6,7) [OF bframe_kept [OF 3(3)]]
  have lk: "lkept s s3" using lkept_trans [OF 2(4) kept_lkept [OF bframe_kept [OF 3(3)]]] .
  have r3: "refs s3 = (refs s)(n := 1)" "locks s3 = locks s" using l by (auto simp: v3 fun_eq_iff)
  have "quiet s3 \<and> logged s3 = insert n (logged s) \<and> nlog s3 = (if n \<in> logged s then nlog s else Suc (nlog s))"
  proof (cases "n \<in> logged s")
    case True
    then have "refs s3 = refs s" "lh_n s3 = lh_n s" "lh_block s3 = lh_block s" using r3 rf 2(10) by (auto simp: fun_eq_iff k3)
    from tx_ok_again [OF q True n 3(2) lk this(2,3,1) r3(2) v3(1,4)] show ?thesis using True by auto
  next
    case False
    then have "lh_n s3 = lh_n s + 1" "lh_block s3 = (lh_block s)[nlog s := n]" using 2(10) by (auto simp: k3)
    from tx_ok_grow [OF q cl room False n 3(2) lk this r3 v3(1,4)] show ?thesis using False by simp
  qed
  then show ?thesis using 2(1) 3(1) lk v3 by (simp add: t_def)
qed

end
