(* ===== verification/Fs.thy ===== *)
theory Fs
  imports Wal
begin

text \<open>
  \<^verbatim>\<open>kernel/fs.c\<close>, the whole file: block allocation, inodes, file contents, directories and path names, on top of the
  log and the block cache. The state adds the super block and the table of in-memory inodes; an inode
  pointer is an index into the table. This theory holds the code; \<open>Fs_Blocks\<close>, \<open>Fs_Inodes\<close> and \<open>Fs_Path\<close> prove things
  about it.
\<close>

section \<open>State\<close>

record inode =
  i_dev :: u32
  i_inum :: u32
  i_ref :: int
  i_lock :: sleeplock
  i_valid :: i32
  i_type :: i16
  i_major :: i16
  i_minor :: i16
  i_nlink :: i16
  i_size :: u32
  i_addrs :: "u32 list"

record fs_st = log_st +
  fs_sb :: superblock
  inodes :: "inode list"

definition NINODE :: nat where "NINODE = 50"
definition T_DIR :: i16 where "T_DIR = 1"
definition T_FILE :: i16 where "T_FILE = 2"
definition T_DEVICE :: i16 where "T_DEVICE = 3"
definition DIRSIZ :: nat where "DIRSIZ = 14"
definition ROOTDEV :: u32 where "ROOTDEV = 1"
definition ROOTINO :: u32 where "ROOTINO = 1"

abbreviation ino :: "'a fs_st_scheme \<Rightarrow> nat \<Rightarrow> inode" where
  "ino s ip \<equiv> inodes s ! ip"

definition upd_inode :: "nat \<Rightarrow> (inode \<Rightarrow> inode) \<Rightarrow> 'a fs_st_scheme \<Rightarrow> 'a fs_st_scheme" where
  "upd_inode ip f s = s\<lparr>inodes := (inodes s)[ip := f (ino s ip)]\<rparr>"

section \<open>Blocks\<close>

definition readsb :: "u32 \<Rightarrow> 'a fs_st_scheme \<Rightarrow> 'a fs_st_scheme res" where
  "readsb dev s =
     rbind (bread dev 1 s) (\<lambda>(bp, s).
     brelse bp (s\<lparr>fs_sb := get_super (b_data (bufs s ! bp))\<rparr>))"

definition fsinit :: "u32 \<Rightarrow> 'a fs_st_scheme \<Rightarrow> 'a fs_st_scheme res" where
  "fsinit dev s =
     rbind (readsb dev s) (\<lambda>s.
     if sb_magic (fs_sb s) \<noteq> FSMAGIC then Panic ''invalid file system'' else initlog dev (fs_sb s) s)"

definition bzero :: "u32 \<Rightarrow> u32 \<Rightarrow> 'a fs_st_scheme \<Rightarrow> 'a fs_st_scheme res" where
  "bzero dev bno s =
     rbind (bread dev bno s) (\<lambda>(bp, s).
     rbind (log_write bp (set_data bp (replicate BSIZE 0) s)) (\<lambda>s.
     brelse bp s))"

text \<open>\<^verbatim>\<open>m = 1 << (bi % 8)\<close> and the test, set and clear of bit \<open>bi\<close> of a bitmap block.\<close>

definition bit_mask :: "nat \<Rightarrow> u8" where
  "bit_mask bi = push_bit (bi mod 8) 1"

definition in_use_bit :: "u8 list \<Rightarrow> nat \<Rightarrow> bool" where
  "in_use_bit d bi \<longleftrightarrow> d ! (bi div 8) AND bit_mask bi \<noteq> 0"

definition mark_bit :: "u8 list \<Rightarrow> nat \<Rightarrow> u8 list" where
  "mark_bit d bi = d[bi div 8 := d ! (bi div 8) OR bit_mask bi]"

definition clear_bit :: "u8 list \<Rightarrow> nat \<Rightarrow> u8 list" where
  "clear_bit d bi = d[bi div 8 := d ! (bi div 8) AND NOT (bit_mask bi)]"

text \<open>The outer loop from bitmap position \<open>b\<close>; \<open>sz\<close> is \<^verbatim>\<open>sb.size\<close>. The message on failure is not modelled.\<close>

function balloc_loop :: "u32 \<Rightarrow> nat \<Rightarrow> nat \<Rightarrow> 'a fs_st_scheme \<Rightarrow> (u32 \<times> 'a fs_st_scheme) res" where
  "balloc_loop dev sz b s =
     (if b < sz then
        rbind (bread dev (BBLOCK (of_nat b) (fs_sb s)) s) (\<lambda>(bp, s).
          let d = b_data (bufs s ! bp) in
          case find (\<lambda>bi. \<not> in_use_bit d bi) [0..<min (unat BPB) (sz - b)] of
            Some bi \<Rightarrow>
              rbind (log_write bp (set_data bp (mark_bit d bi) s)) (\<lambda>s.
              rbind (brelse bp s) (\<lambda>s.
              rbind (bzero dev (of_nat (b + bi)) s) (\<lambda>s.
              Ok (of_nat (b + bi), s))))
          | None \<Rightarrow> rbind (brelse bp s) (\<lambda>s. balloc_loop dev sz (b + unat BPB) s))
      else Ok (0, s))"
  by pat_completeness auto
termination
  by (relation "measure (\<lambda>(dev, sz, b, s). sz - b)") (auto simp: BPB_def)

declare balloc_loop.simps [simp del]

definition balloc :: "u32 \<Rightarrow> 'a fs_st_scheme \<Rightarrow> (u32 \<times> 'a fs_st_scheme) res" where
  "balloc dev s = balloc_loop dev (unat (sb_size (fs_sb s))) 0 s"

definition bfree :: "u32 \<Rightarrow> u32 \<Rightarrow> 'a fs_st_scheme \<Rightarrow> 'a fs_st_scheme res" where
  "bfree dev b s =
     rbind (bread dev (BBLOCK b (fs_sb s)) s) (\<lambda>(bp, s).
     let d = b_data (bufs s ! bp); bi = unat (b mod BPB) in
     if \<not> in_use_bit d bi then Panic ''freeing free block''
     else rbind (log_write bp (set_data bp (clear_bit d bi) s)) (\<lambda>s. brelse bp s))"

section \<open>Inodes\<close>

definition iinit :: "'a fs_st_scheme \<Rightarrow> 'a fs_st_scheme" where
  "iinit s = s\<lparr>inodes := map (\<lambda>p. p\<lparr>i_lock := initsleeplock (i_lock p)\<rparr>) (inodes s)\<rparr>"

definition iget :: "u32 \<Rightarrow> u32 \<Rightarrow> 'a fs_st_scheme \<Rightarrow> (nat \<times> 'a fs_st_scheme) res" where
  "iget dev inum s =
     (case first_idx (\<lambda>p. i_ref p > 0 \<and> i_dev p = dev \<and> i_inum p = inum) (inodes s) of
        Some ip \<Rightarrow> Ok (ip, upd_inode ip (\<lambda>p. p\<lparr>i_ref := i_ref p + 1\<rparr>) s)
      | None \<Rightarrow>
          (case first_idx (\<lambda>p. i_ref p = 0) (inodes s) of
             None \<Rightarrow> Panic ''iget: no inodes''
           | Some ip \<Rightarrow> Ok (ip, upd_inode ip (\<lambda>p. p\<lparr>i_dev := dev, i_inum := inum, i_ref := 1, i_valid := 0\<rparr>) s)))"

definition idup :: "nat \<Rightarrow> 'a fs_st_scheme \<Rightarrow> nat \<times> 'a fs_st_scheme" where
  "idup ip s = (ip, upd_inode ip (\<lambda>p. p\<lparr>i_ref := i_ref p + 1\<rparr>) s)"

definition blank_dinode :: "i16 \<Rightarrow> dinode" where
  "blank_dinode ty = \<lparr>di_type = ty, di_major = 0, di_minor = 0, di_nlink = 0, di_size = 0, di_addrs = replicate (NDIRECT + 1) 0\<rparr>"

text \<open>\<open>k\<close> inode numbers from \<open>inum\<close> on are left to try.\<close>

fun ialloc_loop :: "u32 \<Rightarrow> i16 \<Rightarrow> nat \<Rightarrow> u32 \<Rightarrow> 'a fs_st_scheme \<Rightarrow> (nat option \<times> 'a fs_st_scheme) res" where
  "ialloc_loop dev ty 0 inum s = Ok (None, s)"
| "ialloc_loop dev ty (Suc k) inum s =
     rbind (bread dev (IBLOCK inum (fs_sb s)) s) (\<lambda>(bp, s).
     let d = b_data (bufs s ! bp) in
     if di_type (get_dinode d (dinode_off inum)) = 0 then
       rbind (log_write bp (set_data bp (put_dinode d (dinode_off inum) (blank_dinode ty)) s)) (\<lambda>s.
       rbind (brelse bp s) (\<lambda>s.
       rbind (iget dev inum s) (\<lambda>(ip, s). Ok (Some ip, s))))
     else rbind (brelse bp s) (\<lambda>s. ialloc_loop dev ty k (inum + 1) s))"

definition ialloc :: "u32 \<Rightarrow> i16 \<Rightarrow> 'a fs_st_scheme \<Rightarrow> (nat option \<times> 'a fs_st_scheme) res" where
  "ialloc dev ty s = ialloc_loop dev ty (unat (sb_ninodes (fs_sb s)) - 1) 1 s"

definition dinode_of :: "inode \<Rightarrow> dinode" where
  "dinode_of p = \<lparr>di_type = i_type p, di_major = i_major p, di_minor = i_minor p, di_nlink = i_nlink p,
     di_size = i_size p, di_addrs = i_addrs p\<rparr>"

definition iupdate :: "nat \<Rightarrow> 'a fs_st_scheme \<Rightarrow> 'a fs_st_scheme res" where
  "iupdate ip s =
     rbind (bread (i_dev (ino s ip)) (IBLOCK (i_inum (ino s ip)) (fs_sb s)) s) (\<lambda>(bp, s).
     rbind (log_write bp (set_data bp (put_dinode (b_data (bufs s ! bp)) (dinode_off (i_inum (ino s ip))) (dinode_of (ino s ip))) s)) (\<lambda>s.
     brelse bp s))"

definition load_inode :: "dinode \<Rightarrow> inode \<Rightarrow> inode" where
  "load_inode di p = p\<lparr>i_type := di_type di, i_major := di_major di, i_minor := di_minor di, i_nlink := di_nlink di,
     i_size := di_size di, i_addrs := di_addrs di\<rparr>"

definition lock_inode :: "nat \<Rightarrow> 'a fs_st_scheme \<Rightarrow> 'a fs_st_scheme res" where
  "lock_inode ip s =
     with_proc s (\<lambda>_. rbind (acquiresleep (ChInodeLock ip) (mypid s) (i_lock (ino s ip))) (\<lambda>lk.
       Ok (upd_inode ip (\<lambda>p. p\<lparr>i_lock := lk\<rparr>) s)))"

definition ilock :: "nat \<Rightarrow> 'a fs_st_scheme \<Rightarrow> 'a fs_st_scheme res" where
  "ilock ip s =
     (if i_ref (ino s ip) < 1 then Panic ''ilock''
      else rbind (lock_inode ip s) (\<lambda>s.
        if i_valid (ino s ip) = 0 then
          rbind (bread (i_dev (ino s ip)) (IBLOCK (i_inum (ino s ip)) (fs_sb s)) s) (\<lambda>(bp, s).
          let s = upd_inode ip (load_inode (get_dinode (b_data (bufs s ! bp)) (dinode_off (i_inum (ino s ip))))) s in
          rbind (brelse bp s) (\<lambda>s.
          let s = upd_inode ip (\<lambda>p. p\<lparr>i_valid := 1\<rparr>) s in
          if i_type (ino s ip) = 0 then Panic ''ilock: no type'' else Ok s))
        else Ok s))"

definition unlock_inode :: "nat \<Rightarrow> 'a fs_st_scheme \<Rightarrow> 'a fs_st_scheme" where
  "unlock_inode ip s = wakeup (ChInodeLock ip) (upd_inode ip (\<lambda>p. p\<lparr>i_lock := releasesleep (i_lock p)\<rparr>) s)"

definition iunlock :: "nat \<Rightarrow> 'a fs_st_scheme \<Rightarrow> 'a fs_st_scheme res" where
  "iunlock ip s =
     (if \<not> holdingsleep (mypid s) (i_lock (ino s ip)) \<or> i_ref (ino s ip) < 1 then Panic ''iunlock''
      else Ok (unlock_inode ip s))"

section \<open>File contents\<close>

definition set_addr :: "nat \<Rightarrow> nat \<Rightarrow> u32 \<Rightarrow> 'a fs_st_scheme \<Rightarrow> 'a fs_st_scheme" where
  "set_addr ip k a s = upd_inode ip (\<lambda>p. p\<lparr>i_addrs := (i_addrs p)[k := a]\<rparr>) s"

text \<open>Slot \<open>k\<close> of \<^verbatim>\<open>ip->addrs\<close>, allocated if empty.\<close>

definition bmap_slot :: "nat \<Rightarrow> nat \<Rightarrow> 'a fs_st_scheme \<Rightarrow> (u32 \<times> 'a fs_st_scheme) res" where
  "bmap_slot ip k s =
     (let addr = i_addrs (ino s ip) ! k in
      if addr = 0 then
        rbind (balloc (i_dev (ino s ip)) s) (\<lambda>(addr, s).
        if addr = 0 then Ok (0, s) else Ok (addr, set_addr ip k addr s))
      else Ok (addr, s))"

definition bmap :: "nat \<Rightarrow> nat \<Rightarrow> 'a fs_st_scheme \<Rightarrow> (u32 \<times> 'a fs_st_scheme) res" where
  "bmap ip bn s =
     (if bn < NDIRECT then bmap_slot ip bn s
      else if bn - NDIRECT < NINDIRECT then
        rbind (bmap_slot ip NDIRECT s) (\<lambda>(addr, s).
        if addr = 0 then Ok (0, s)
        else
          rbind (bread (i_dev (ino s ip)) addr s) (\<lambda>(bp, s).
          let addr = get_int (b_data (bufs s ! bp)) (4 * (bn - NDIRECT)) in
          if addr = 0 then
            rbind (balloc (i_dev (ino s ip)) s) (\<lambda>(addr, s).
            rbind (if addr \<noteq> 0
                   then log_write bp (set_data bp (set_int (b_data (bufs s ! bp)) (4 * (bn - NDIRECT)) addr) s)
                   else Ok s) (\<lambda>s.
            rbind (brelse bp s) (\<lambda>s. Ok (addr, s))))
          else rbind (brelse bp s) (\<lambda>s. Ok (addr, s))))
      else Panic ''bmap: out of range'')"

fun itrunc_direct :: "nat \<Rightarrow> nat list \<Rightarrow> 'a fs_st_scheme \<Rightarrow> 'a fs_st_scheme res" where
  "itrunc_direct ip [] s = Ok s"
| "itrunc_direct ip (k # ks) s =
     (if i_addrs (ino s ip) ! k \<noteq> 0 then
        rbind (bfree (i_dev (ino s ip)) (i_addrs (ino s ip) ! k) s) (\<lambda>s. itrunc_direct ip ks (set_addr ip k 0 s))
      else itrunc_direct ip ks s)"

fun itrunc_indirect :: "u32 \<Rightarrow> u32 list \<Rightarrow> 'a fs_st_scheme \<Rightarrow> 'a fs_st_scheme res" where
  "itrunc_indirect dev [] s = Ok s"
| "itrunc_indirect dev (a # as) s =
     (if a \<noteq> 0 then rbind (bfree dev a s) (\<lambda>s. itrunc_indirect dev as s) else itrunc_indirect dev as s)"

definition indirect_addrs :: "u8 list \<Rightarrow> u32 list" where
  "indirect_addrs d = map (\<lambda>j. get_int d (4 * j)) [0..<NINDIRECT]"

definition itrunc :: "nat \<Rightarrow> 'a fs_st_scheme \<Rightarrow> 'a fs_st_scheme res" where
  "itrunc ip s =
     rbind (itrunc_direct ip [0..<NDIRECT] s) (\<lambda>s.
     rbind (if i_addrs (ino s ip) ! NDIRECT \<noteq> 0 then
              rbind (bread (i_dev (ino s ip)) (i_addrs (ino s ip) ! NDIRECT) s) (\<lambda>(bp, s).
              rbind (itrunc_indirect (i_dev (ino s ip)) (indirect_addrs (b_data (bufs s ! bp))) s) (\<lambda>s.
              rbind (brelse bp s) (\<lambda>s.
              rbind (bfree (i_dev (ino s ip)) (i_addrs (ino s ip) ! NDIRECT) s) (\<lambda>s.
              Ok (set_addr ip NDIRECT 0 s)))))
            else Ok s) (\<lambda>s.
     iupdate ip (upd_inode ip (\<lambda>p. p\<lparr>i_size := 0\<rparr>) s)))"

definition iput :: "nat \<Rightarrow> 'a fs_st_scheme \<Rightarrow> 'a fs_st_scheme res" where
  "iput ip s =
     rbind (if i_ref (ino s ip) = 1 \<and> i_valid (ino s ip) \<noteq> 0 \<and> i_nlink (ino s ip) = 0 then
              rbind (lock_inode ip s) (\<lambda>s.
              rbind (itrunc ip s) (\<lambda>s.
              rbind (iupdate ip (upd_inode ip (\<lambda>p. p\<lparr>i_type := 0\<rparr>) s)) (\<lambda>s.
              Ok (unlock_inode ip (upd_inode ip (\<lambda>p. p\<lparr>i_valid := 0\<rparr>) s)))))
            else Ok s) (\<lambda>s.
     Ok (upd_inode ip (\<lambda>p. p\<lparr>i_ref := i_ref p - 1\<rparr>) s))"

definition iunlockput :: "nat \<Rightarrow> 'a fs_st_scheme \<Rightarrow> 'a fs_st_scheme res" where
  "iunlockput ip s = rbind (iunlock ip s) (\<lambda>s. iput ip s)"

record stat =
  st_dev :: i32
  st_ino :: u32
  st_type :: i16
  st_nlink :: i16
  st_size :: u64

definition stati :: "nat \<Rightarrow> 'a fs_st_scheme \<Rightarrow> stat" where
  "stati ip s = \<lparr>st_dev = i_dev (ino s ip), st_ino = i_inum (ino s ip), st_type = i_type (ino s ip),
     st_nlink = i_nlink (ino s ip), st_size = ucast (i_size (ino s ip))\<rparr>"

text \<open>
  The loop of \<^verbatim>\<open>readi\<close>: \<open>k = n - tot\<close> bytes are left. Besides the count the model returns the bytes, for callers that
  read into a kernel variable. The first check of \<^verbatim>\<open>readi\<close> keeps \<^verbatim>\<open>off + n\<close> below 2 to the 32, so \<open>off\<close> does not wrap.
\<close>

function readi_loop :: "nat \<Rightarrow> kdst \<Rightarrow> nat \<Rightarrow> nat \<Rightarrow> u8 list \<Rightarrow> 'a fs_st_scheme \<Rightarrow> (int \<times> u8 list \<times> 'a fs_st_scheme) res" where
  "readi_loop ip dst off k acc s =
     (if 0 < k then
        rbind (bmap ip (off div BSIZE) s) (\<lambda>(addr, s).
        if addr = 0 then Ok (int (length acc), acc, s)
        else
          rbind (bread (i_dev (ino s ip)) addr s) (\<lambda>(bp, s).
          let m = min k (BSIZE - off mod BSIZE);
              bs = take m (drop (off mod BSIZE) (b_data (bufs s ! bp))) in
          rbind (either_copyout (dst_add dst (length acc)) bs s) (\<lambda>(r, s).
          if r = -1 then rbind (brelse bp s) (\<lambda>s. Ok (-1, acc, s))
          else rbind (brelse bp s) (\<lambda>s. readi_loop ip dst (off + m) (k - m) (acc @ bs) s))))
      else Ok (int (length acc), acc, s))"
  by pat_completeness auto
termination
  by (relation "measure (\<lambda>(ip, dst, off, k, acc, s). k)") (auto simp: BSIZE_def)

declare readi_loop.simps [simp del]

definition readi :: "nat \<Rightarrow> kdst \<Rightarrow> u32 \<Rightarrow> u32 \<Rightarrow> 'a fs_st_scheme \<Rightarrow> (int \<times> u8 list \<times> 'a fs_st_scheme) res" where
  "readi ip dst off n s =
     (let sz = i_size (ino s ip) in
      if off > sz \<or> off + n < off then Ok (0, [], s)
      else readi_loop ip dst (unat off) (unat (if off + n > sz then sz - off else n)) [] s)"

text \<open>\<open>tot\<close> bytes are written, \<open>k\<close> are left. A failing copy has changed the buffer up to where it got.\<close>

function writei_loop :: "nat \<Rightarrow> ksrc \<Rightarrow> nat \<Rightarrow> nat \<Rightarrow> nat \<Rightarrow> 'a fs_st_scheme \<Rightarrow> (nat \<times> nat \<times> 'a fs_st_scheme) res" where
  "writei_loop ip src off tot k s =
     (if 0 < k then
        rbind (bmap ip (off div BSIZE) s) (\<lambda>(addr, s).
        if addr = 0 then Ok (tot, off, s)
        else
          rbind (bread (i_dev (ino s ip)) addr s) (\<lambda>(bp, s).
          let m = min k (BSIZE - off mod BSIZE) in
          rbind (either_copyin (src_add src tot) m s) (\<lambda>(r, bs).
          let s = set_data bp (overlay (b_data (bufs s ! bp)) (off mod BSIZE) bs) s in
          if r = -1 then rbind (brelse bp s) (\<lambda>s. Ok (tot, off, s))
          else
            rbind (log_write bp s) (\<lambda>s.
            rbind (brelse bp s) (\<lambda>s.
            writei_loop ip src (off + m) (tot + m) (k - m) s)))))
      else Ok (tot, off, s))"
  by pat_completeness auto
termination
  by (relation "measure (\<lambda>(ip, src, off, tot, k, s). k)") (auto simp: BSIZE_def)

declare writei_loop.simps [simp del]

definition writei :: "nat \<Rightarrow> ksrc \<Rightarrow> u32 \<Rightarrow> u32 \<Rightarrow> 'a fs_st_scheme \<Rightarrow> (int \<times> 'a fs_st_scheme) res" where
  "writei ip src off n s =
     (if off > i_size (ino s ip) \<or> off + n < off then Ok (-1, s)
      else if off + n > of_nat (MAXFILE * BSIZE) then Ok (-1, s)
      else
        rbind (writei_loop ip src (unat off) 0 (unat n) s) (\<lambda>(tot, off, s).
        let s = (if off > unat (i_size (ino s ip)) then upd_inode ip (\<lambda>p. p\<lparr>i_size := of_nat off\<rparr>) s else s) in
        rbind (iupdate ip s) (\<lambda>s. Ok (int tot, s))))"

section \<open>Directories\<close>

definition namecmp :: "u8 list \<Rightarrow> u8 list \<Rightarrow> int" where
  "namecmp s t = strncmp s t DIRSIZ"

definition de_inum :: "u8 list \<Rightarrow> u16" where "de_inum de = get_short de 0"
definition de_name :: "u8 list \<Rightarrow> u8 list" where "de_name de = drop 2 de"

text \<open>The scan for a matching entry; \<open>sz\<close> is \<^verbatim>\<open>dp->size\<close>. The offset of the entry is part of the result.\<close>

function dirlookup_loop :: "nat \<Rightarrow> u8 list \<Rightarrow> nat \<Rightarrow> nat \<Rightarrow> 'a fs_st_scheme \<Rightarrow> ((nat \<times> nat) option \<times> 'a fs_st_scheme) res" where
  "dirlookup_loop dp name sz off s =
     (if off < sz then
        rbind (readi dp KBuf (of_nat off) 16 s) (\<lambda>(r, de, s).
        if r \<noteq> 16 then Panic ''dirlookup read''
        else if de_inum de = 0 then dirlookup_loop dp name sz (off + 16) s
        else if namecmp name (de_name de) = 0 then
          rbind (iget (i_dev (ino s dp)) (ucast (de_inum de)) s) (\<lambda>(ip, s). Ok (Some (ip, off), s))
        else dirlookup_loop dp name sz (off + 16) s)
      else Ok (None, s))"
  by pat_completeness auto
termination
  by (relation "measure (\<lambda>(dp, name, sz, off, s). sz - off)") auto

declare dirlookup_loop.simps [simp del]

definition dirlookup :: "nat \<Rightarrow> u8 list \<Rightarrow> 'a fs_st_scheme \<Rightarrow> ((nat \<times> nat) option \<times> 'a fs_st_scheme) res" where
  "dirlookup dp name s =
     (if i_type (ino s dp) \<noteq> T_DIR then Panic ''dirlookup not DIR''
      else dirlookup_loop dp name (unat (i_size (ino s dp))) 0 s)"

function dirlink_loop :: "nat \<Rightarrow> nat \<Rightarrow> nat \<Rightarrow> 'a fs_st_scheme \<Rightarrow> (nat \<times> 'a fs_st_scheme) res" where
  "dirlink_loop dp sz off s =
     (if off < sz then
        rbind (readi dp KBuf (of_nat off) 16 s) (\<lambda>(r, de, s).
        if r \<noteq> 16 then Panic ''dirlink read''
        else if de_inum de = 0 then Ok (off, s)
        else dirlink_loop dp sz (off + 16) s)
      else Ok (off, s))"
  by pat_completeness auto
termination
  by (relation "measure (\<lambda>(dp, sz, off, s). sz - off)") auto

declare dirlink_loop.simps [simp del]

definition dirlink :: "nat \<Rightarrow> u8 list \<Rightarrow> u32 \<Rightarrow> 'a fs_st_scheme \<Rightarrow> (int \<times> 'a fs_st_scheme) res" where
  "dirlink dp name inum s =
     rbind (dirlookup dp name s) (\<lambda>(found, s).
     case found of
       Some (ip, _) \<Rightarrow> rbind (iput ip s) (\<lambda>s. Ok (-1, s))
     | None \<Rightarrow>
         rbind (dirlink_loop dp (unat (i_size (ino s dp))) 0 s) (\<lambda>(off, s).
         let de = short_bytes (ucast inum) @ strncpy (replicate DIRSIZ 0) name DIRSIZ in
         rbind (writei dp (KSrc de) (of_nat off) 16 s) (\<lambda>(r, s). Ok (if r \<noteq> 16 then -1 else 0, s))))"

section \<open>Paths\<close>

definition slash :: u8 where "slash = byte_of CHR ''/''"

fun skip_slashes :: "u8 list \<Rightarrow> u8 list" where
  "skip_slashes [] = []"
| "skip_slashes (c # p) = (if c = slash then skip_slashes p else c # p)"

text \<open>The element up to the next slash or the end of the string, and what follows.\<close>

fun path_elem :: "u8 list \<Rightarrow> u8 list \<times> u8 list" where
  "path_elem [] = ([], [])"
| "path_elem (c # p) = (if c \<noteq> slash \<and> c \<noteq> 0 then (c # fst (path_elem p), snd (path_elem p)) else ([], c # p))"

definition skipelem :: "u8 list \<Rightarrow> u8 list \<Rightarrow> (u8 list \<times> u8 list) option" where
  "skipelem path name =
     (let path = skip_slashes path in
      if chr0 path = 0 then None
      else
        let (e, rest) = path_elem path;
            name = (if length e \<ge> DIRSIZ then overlay name 0 (take DIRSIZ e) else overlay name 0 (e @ [0]))
        in Some (skip_slashes rest, name))"

lemma length_skip_slashes: "length (skip_slashes p) \<le> length p"
  by (induction p) auto

lemma path_elem_append: "fst (path_elem p) @ snd (path_elem p) = p"
  by (induction p) auto

lemma skipelem_shorter: "skipelem path name = Some (path', name') \<Longrightarrow> length path' < length path"
proof -
  assume s: "skipelem path name = Some (path', name')"
  define p where "p = skip_slashes path"
  have p: "chr0 p \<noteq> 0" "path' = skip_slashes (snd (path_elem p))"
    using s by (auto simp: skipelem_def Let_def p_def case_prod_beta split: if_splits)
  have "chr0 p \<noteq> slash" unfolding p_def by (induction path) (auto simp: slash_def byte_of_def)
  then have "fst (path_elem p) \<noteq> []" using p(1) by (cases p) auto
  then have "0 < length (fst (path_elem p))" by simp
  moreover have "length (fst (path_elem p)) + length (snd (path_elem p)) = length p"
    using arg_cong [OF path_elem_append [of p], of length] by simp
  ultimately have "length (snd (path_elem p)) < length p" by linarith
  then show ?thesis using length_skip_slashes [of "snd (path_elem p)"] length_skip_slashes [of path] p(2) by (simp add: p_def)
qed

text \<open>The walk from inode \<open>ip\<close>; \<open>name\<close> is the caller's buffer, returned as it is at the end.\<close>

function namex_loop :: "nat \<Rightarrow> u8 list \<Rightarrow> bool \<Rightarrow> u8 list \<Rightarrow> 'a fs_st_scheme \<Rightarrow> (nat option \<times> u8 list \<times> 'a fs_st_scheme) res" where
  "namex_loop ip path parent name s =
     (case skipelem path name of
        None \<Rightarrow> if parent then rbind (iput ip s) (\<lambda>s. Ok (None, name, s)) else Ok (Some ip, name, s)
      | Some (path, name) \<Rightarrow>
          rbind (ilock ip s) (\<lambda>s.
          if i_type (ino s ip) \<noteq> T_DIR then rbind (iunlockput ip s) (\<lambda>s. Ok (None, name, s))
          else if parent \<and> chr0 path = 0 then rbind (iunlock ip s) (\<lambda>s. Ok (Some ip, name, s))
          else
            rbind (dirlookup ip name s) (\<lambda>(found, s).
            rbind (iunlockput ip s) (\<lambda>s.
            case found of
              None \<Rightarrow> Ok (None, name, s)
            | Some (next, _) \<Rightarrow> namex_loop next path parent name s))))"
  by pat_completeness auto
termination
  by (relation "measure (\<lambda>(ip, path, parent, name, s). length path)") (auto dest: skipelem_shorter)

declare namex_loop.simps [simp del]

definition namex :: "u8 list \<Rightarrow> bool \<Rightarrow> u8 list \<Rightarrow> 'a fs_st_scheme \<Rightarrow> (nat option \<times> u8 list \<times> 'a fs_st_scheme) res" where
  "namex path parent name s =
     rbind (if chr0 path = slash then iget ROOTDEV ROOTINO s
            else with_proc s (\<lambda>p. case p_cwd (procs s ! p) of None \<Rightarrow> Panic ''kerneltrap'' | Some ip \<Rightarrow> Ok (idup ip s)))
       (\<lambda>(ip, s). namex_loop ip path parent name s)"

definition namei :: "u8 list \<Rightarrow> 'a fs_st_scheme \<Rightarrow> (nat option \<times> 'a fs_st_scheme) res" where
  "namei path s = rbind (namex path False (replicate DIRSIZ 0) s) (\<lambda>(ip, _, s). Ok (ip, s))"

definition nameiparent :: "u8 list \<Rightarrow> u8 list \<Rightarrow> 'a fs_st_scheme \<Rightarrow> (nat option \<times> u8 list \<times> 'a fs_st_scheme) res" where
  "nameiparent path name s = namex path True name s"

end
