(* ===== verification/Ring.thy ===== *)
theory Ring
  imports Prelude
begin

text \<open>
  Ring buffers: an array indexed by ever-growing counters modulo its length, as used by pipes and by the
  UART driver. The counters are machine words and wrap around; since the array length divides the number
  of counter values, the contents survive the wrap. The locale states what a queue promises.
\<close>

section \<open>Contents\<close>

definition ring_items :: "'a list \<Rightarrow> 'w::len word \<Rightarrow> 'w word \<Rightarrow> 'a list" where
  "ring_items d r w = map (\<lambda>k. d ! (unat (r + of_nat k) mod length d)) [0..<unat (w - r)]"

lemma ring_index:
  fixes r :: "'w::len word"
  assumes "N dvd 2 ^ LENGTH('w)"
  shows "unat (r + of_nat k) mod N = (unat r + k) mod N"
proof -
  have "unat (r + of_nat k) = (unat r + k) mod 2 ^ LENGTH('w)"
    by (simp add: unat_word_ariths unat_of_nat take_bit_eq_mod mod_simps)
  then show ?thesis using assms by (simp add: mod_mod_cancel)
qed

lemma length_ring_items [simp]: "length (ring_items d r w) = unat (w - r)"
  by (simp add: ring_items_def)

lemma mod_distinct:
  fixes a k n N :: nat
  assumes "k < n" "n < N"
  shows "(a + k) mod N \<noteq> (a + n) mod N"
proof
  assume "(a + k) mod N = (a + n) mod N"
  then have "N dvd (a + n) - (a + k)" using assms by (subst mod_eq_dvd_iff_nat [symmetric]) auto
  then have "N dvd n - k" by simp
  then show False using assms by (auto dest: dvd_imp_le)
qed

lemma ring_step:
  fixes r w :: "'w::len word"
  assumes "unat (w - r) < N" "N < 2 ^ LENGTH('w)"
  shows "unat (w + 1 - r) = Suc (unat (w - r))"
proof -
  have "w + 1 - r = of_nat (Suc (unat (w - r)))" by simp
  then show ?thesis using assms by (simp only: unat_of_nat_less)
qed

lemma ring_push:
  fixes r w :: "'w::len word"
  assumes "length d dvd 2 ^ LENGTH('w)" "length d < 2 ^ LENGTH('w)" "unat (w - r) < length d"
  shows "ring_items (d[unat w mod length d := x]) r (w + 1) = ring_items d r w @ [x]"
proof (rule nth_equalityI)
  show "length (ring_items (d[unat w mod length d := x]) r (w + 1)) = length (ring_items d r w @ [x])"
    using ring_step [OF assms(3,2)] by simp
next
  fix k assume "k < length (ring_items (d[unat w mod length d := x]) r (w + 1))"
  then have k: "k \<le> unat (w - r)" using ring_step [OF assms(3,2)] by simp
  have w: "unat w mod length d = (unat r + unat (w - r)) mod length d"
    using ring_index [OF assms(1), of r "unat (w - r)"] by simp
  have N: "0 < length d" using assms(3) by (cases "length d") auto
  show "ring_items (d[unat w mod length d := x]) r (w + 1) ! k = (ring_items d r w @ [x]) ! k"
  proof (cases "k < unat (w - r)")
    case True
    then have "unat w mod length d \<noteq> unat (r + of_nat k) mod length d"
      using mod_distinct [OF True assms(3), of "unat r"] by (simp add: w ring_index [OF assms(1)])
    then show ?thesis using True ring_step [OF assms(3,2)] by (simp add: ring_items_def nth_append)
  next
    case False
    with k have "k = unat (w - r)" by simp
    then show ?thesis using ring_step [OF assms(3,2)] N by (simp add: ring_items_def nth_append)
  qed
qed

lemma ring_pop:
  fixes r w :: "'w::len word"
  assumes "r \<noteq> w"
  shows "ring_items d r w = d ! (unat r mod length d) # ring_items d (r + 1) w"
proof -
  have ne: "w - r \<noteq> 0" using assms by simp
  then have "unat (w - r) = Suc (unat (w - (r + 1)))"
    using unat_minus_one [OF ne] by (simp add: diff_diff_eq unat_gt_0)
  moreover have "map (\<lambda>k. d ! (unat (r + of_nat (Suc k)) mod length d)) [0..<n] =
      map (\<lambda>k. d ! (unat (r + 1 + of_nat k) mod length d)) [0..<n]" for n by (simp add: ac_simps)
  ultimately show ?thesis by (simp add: ring_items_def upt_conv_Cons map_Suc_upt [symmetric] o_def del: upt_Suc of_nat_Suc)
qed

lemma ring_back:
  fixes r w :: "'w::len word"
  assumes "r \<noteq> w"
  shows "unat (w - 1 - r) = unat (w - r) - 1" "0 < unat (w - r)"
    "ring_items d r w = ring_items d r (w - 1) @ [d ! (unat (w - 1) mod length d)]"
proof -
  have ne: "w - r \<noteq> 0" using assms by simp
  have "w - 1 - r = w - r - 1" by simp
  then show u: "unat (w - 1 - r) = unat (w - r) - 1" using unat_minus_one [OF ne] by (simp only:)
  show p: "0 < unat (w - r)" using ne by (simp add: unat_gt_0)
  then have "unat (w - r) = Suc (unat (w - 1 - r))" using u by simp
  moreover have "r + of_nat (unat (w - 1 - r)) = w - 1" by simp
  ultimately show "ring_items d r w = ring_items d r (w - 1) @ [d ! (unat (w - 1) mod length d)]"
    unfolding ring_items_def by simp
qed

lemma ring_empty: "ring_items d r w = [] \<longleftrightarrow> r = w"
  by (metis eq_iff_diff_eq_0 length_0_conv length_ring_items unat_eq_0)

section \<open>Queues\<close>

text \<open>The contract of a bounded queue, and what follows for whole sequences.\<close>

locale bounded_queue =
  fixes inv :: "'q \<Rightarrow> bool" and items :: "'q \<Rightarrow> 'a list" and cap :: nat
    and is_full :: "'q \<Rightarrow> bool" and is_empty :: "'q \<Rightarrow> bool"
    and put :: "'a \<Rightarrow> 'q \<Rightarrow> 'q" and front :: "'q \<Rightarrow> 'a" and get :: "'q \<Rightarrow> 'q"
  assumes full_law: "inv q \<Longrightarrow> is_full q \<longleftrightarrow> length (items q) = cap"
    and empty_law: "inv q \<Longrightarrow> is_empty q \<longleftrightarrow> items q = []"
    and bound_law: "inv q \<Longrightarrow> length (items q) \<le> cap"
    and put_law: "inv q \<Longrightarrow> \<not> is_full q \<Longrightarrow> inv (put x q) \<and> items (put x q) = items q @ [x]"
    and get_law: "inv q \<Longrightarrow> \<not> is_empty q \<Longrightarrow> inv (get q) \<and> items q = front q # items (get q)"
begin

lemma put_all:
  "inv q \<Longrightarrow> length (items q) + length xs \<le> cap \<Longrightarrow> inv (fold put xs q) \<and> items (fold put xs q) = items q @ xs"
proof (induction xs arbitrary: q)
  case (Cons x xs)
  then have "\<not> is_full q" using full_law by simp
  then show ?case using Cons put_law [of q x] by simp
qed simp

lemma get_all:
  "inv q \<Longrightarrow> n \<le> length (items q) \<Longrightarrow> inv ((get ^^ n) q) \<and> items ((get ^^ n) q) = drop n (items q)"
proof (induction n)
  case (Suc n)
  then have i: "inv ((get ^^ n) q)" "items ((get ^^ n) q) = drop n (items q)" by simp_all
  then have "\<not> is_empty ((get ^^ n) q)" using Suc.prems empty_law by simp
  then have "inv (get ((get ^^ n) q)) \<and> items ((get ^^ n) q) = front ((get ^^ n) q) # items (get ((get ^^ n) q))"
    using get_law i(1) by blast
  then show ?case using i(2) by (simp add: drop_Suc flip: tl_drop)
qed simp

end

end
