(* ===== verification/PageTable.thy ===== *)
theory PageTable
  imports Vm
begin

text \<open>
  The abstract view of the tables \<^verbatim>\<open>kernel/vm.c\<close> builds. \<open>tabs\<close> are the pages a table occupies,
  \<open>pt_ok\<close> says that they form a tree, and \<open>pte_val\<close> is the page-table entry of a virtual address.
  The lemmas lift a change of one subtree to the whole tree and give \<open>walk\<close>, \<open>mappages\<close>,
  \<open>uvmunmap\<close>, \<open>uvmcopy\<close>, \<open>copyout\<close> and \<open>copyin\<close> their effect on this view.
\<close>

section \<open>Tables as trees\<close>

abbreviation pte_valid :: "u64 \<Rightarrow> bool" where
  "pte_valid e \<equiv> e AND 1 \<noteq> 0"

definition ent :: "mem \<Rightarrow> u64 \<Rightarrow> u64 \<Rightarrow> u64" where
  "ent m pt i = ld64 m (pt + 8 * i)"

primrec find_pte :: "nat \<Rightarrow> mem \<Rightarrow> u64 \<Rightarrow> u64 \<Rightarrow> u64 option" where
  "find_pte 0 m pt va = Some (pt + 8 * PX 0 va)"
| "find_pte (Suc l) m pt va =
     (if pte_valid (ent m pt (PX (Suc l) va)) then find_pte l m (PTE2PA (ent m pt (PX (Suc l) va))) va
      else None)"

definition pte_val :: "nat \<Rightarrow> mem \<Rightarrow> u64 \<Rightarrow> u64 \<Rightarrow> u64" where
  "pte_val l m pt va = (case find_pte l m pt va of None \<Rightarrow> 0 | Some a \<Rightarrow> ld64 m a)"

primrec tabs :: "nat \<Rightarrow> mem \<Rightarrow> u64 \<Rightarrow> u64 set" where
  "tabs 0 m pt = {pt}"
| "tabs (Suc l) m pt =
     insert pt (\<Union>i\<in>{i. i < 512 \<and> pte_valid (ent m pt i)}. tabs l m (PTE2PA (ent m pt i)))"

primrec pt_ok :: "nat \<Rightarrow> mem \<Rightarrow> u64 \<Rightarrow> bool" where
  "pt_ok 0 m pt \<longleftrightarrow> page_aligned pt"
| "pt_ok (Suc l) m pt \<longleftrightarrow> page_aligned pt \<and>
     (\<forall>i<512. pte_valid (ent m pt i) \<longrightarrow>
        pt_ok l m (PTE2PA (ent m pt i)) \<and> pt \<notin> tabs l m (PTE2PA (ent m pt i)) \<and>
        (\<forall>j<512. j \<noteq> i \<longrightarrow> pte_valid (ent m pt j) \<longrightarrow>
           tabs l m (PTE2PA (ent m pt i)) \<inter> tabs l m (PTE2PA (ent m pt j)) = {}))"

lemma tabs_root [simp]: "pt \<in> tabs l m pt"
  by (cases l) auto

lemma pt_ok_aligned: "pt_ok l m pt \<Longrightarrow> page_aligned pt"
  by (cases l) auto

lemma tabs_aligned: "pt_ok l m pt \<Longrightarrow> q \<in> tabs l m pt \<Longrightarrow> page_aligned q"
  by (induction l arbitrary: pt) auto

lemma tabs_child:
  "i < 512 \<Longrightarrow> pte_valid (ent m pt i) \<Longrightarrow> tabs l m (PTE2PA (ent m pt i)) \<subseteq> tabs (Suc l) m pt"
  by auto

lemma ent_frame:
  assumes "page_aligned pt" and "i < 512" and "\<And>a. in_page pt a \<Longrightarrow> m' a = m a"
  shows "ent m' pt i = ent m pt i"
  unfolding ent_def using assms by (intro ld64_slot_frame) auto

lemma ent_st64:
  assumes "page_aligned pt" "page_aligned q" "i < 512" "j < 512"
  shows "ent (st64 m (q + 8 * j) v) pt i = (if q = pt \<and> j = i then v else ent m pt i)"
  unfolding ent_def using ld64_st64_slot [OF assms(2,1,4,3)] by simp

lemma pte_val_0: "pte_val 0 m pt va = ent m pt (PX 0 va)"
  by (simp add: pte_val_def ent_def)

lemma pte_val_Suc:
  "pte_val (Suc l) m pt va =
     (if pte_valid (ent m pt (PX (Suc l) va)) then pte_val l m (PTE2PA (ent m pt (PX (Suc l) va))) va
      else 0)"
  by (simp add: pte_val_def)

lemma find_pte_slot:
  "find_pte l m pt va = Some a \<Longrightarrow> \<exists>q\<in>tabs l m pt. a = q + 8 * PX 0 va"
proof (induction l arbitrary: pt)
  case 0
  then show ?case by simp
next
  case (Suc l)
  let ?c = "PTE2PA (ent m pt (PX (Suc l) va))"
  from Suc.prems have v: "pte_valid (ent m pt (PX (Suc l) va))" "find_pte l m ?c va = Some a"
    by (simp_all split: if_splits)
  from Suc.IH [OF v(2)] obtain q where q: "q \<in> tabs l m ?c" "a = q + 8 * PX 0 va" by blast
  have "tabs l m ?c \<subseteq> tabs (Suc l) m pt" by (rule tabs_child) (simp_all add: v)
  with q show ?case by blast
qed

text \<open>A table depends only on its own pages.\<close>

lemma pt_frame:
  assumes "pt_ok l m pt" and "\<And>p a. p \<in> tabs l m pt \<Longrightarrow> in_page p a \<Longrightarrow> m' a = m a"
  shows "tabs l m' pt = tabs l m pt \<and> pt_ok l m' pt \<and>
    (\<forall>va. find_pte l m' pt va = find_pte l m pt va \<and> pte_val l m' pt va = pte_val l m pt va)"
  using assms
proof (induction l arbitrary: pt)
  case 0
  then show ?case using ent_frame [of pt _ m' m] by (auto simp: pte_val_0)
next
  case (Suc l)
  have e: "ent m' pt i = ent m pt i" if "i < 512" for i
    using Suc.prems that by (intro ent_frame) (auto intro: pt_ok_aligned)
  have sub: "tabs l m' (PTE2PA (ent m pt i)) = tabs l m (PTE2PA (ent m pt i)) \<and>
      pt_ok l m' (PTE2PA (ent m pt i)) \<and>
      (\<forall>va. find_pte l m' (PTE2PA (ent m pt i)) va = find_pte l m (PTE2PA (ent m pt i)) va \<and>
        pte_val l m' (PTE2PA (ent m pt i)) va = pte_val l m (PTE2PA (ent m pt i)) va)"
    if "i < 512" "pte_valid (ent m pt i)" for i
    using Suc.prems that by (intro Suc.IH) auto
  have "tabs (Suc l) m' pt = tabs (Suc l) m pt" using e sub by (simp cong: conj_cong)
  moreover have "pt_ok (Suc l) m' pt" using Suc.prems(1) e sub by simp
  ultimately show ?case using e sub by (simp add: pte_val_Suc)
qed

text \<open>A change confined to the subtree of one entry.\<close>

lemma child_update:
  assumes ok: "pt_ok (Suc l) m pt" and i: "i < 512" and v: "pte_valid (ent m pt i)"
    and c: "c = PTE2PA (ent m pt i)"
    and frame: "\<forall>p\<in>tabs (Suc l) m pt - tabs l m c. \<forall>a. in_page p a \<longrightarrow> m' a = m a"
    and okc: "pt_ok l m' c" and new: "tabs l m' c \<inter> tabs (Suc l) m pt \<subseteq> tabs l m c"
  shows "pt_ok (Suc l) m' pt"
    and "tabs (Suc l) m' pt = (tabs (Suc l) m pt - tabs l m c) \<union> tabs l m' c"
    and "find_pte (Suc l) m' pt va =
           (if PX (Suc l) va = i then find_pte l m' c va else find_pte (Suc l) m pt va)"
    and "pte_val (Suc l) m' pt va =
           (if PX (Suc l) va = i then pte_val l m' c va else pte_val (Suc l) m pt va)"
proof -
  have fr: "m' a = m a" if "p \<in> tabs (Suc l) m pt" "p \<notin> tabs l m c" "in_page p a" for p a
    using frame that by blast
  have pt: "page_aligned pt" "pt \<notin> tabs l m c" using ok i v c by simp_all
  have e: "ent m' pt j = ent m pt j" if "j < 512" for j
    using that pt fr [of pt] by (intro ent_frame) auto
  have disj: "tabs l m (PTE2PA (ent m pt j)) \<inter> tabs l m c = {}"
    if "j < 512" "pte_valid (ent m pt j)" "j \<noteq> i" for j
    using ok that i v c by simp
  have sub: "tabs l m' (PTE2PA (ent m pt j)) = tabs l m (PTE2PA (ent m pt j)) \<and>
      pt_ok l m' (PTE2PA (ent m pt j)) \<and>
      (\<forall>va. find_pte l m' (PTE2PA (ent m pt j)) va = find_pte l m (PTE2PA (ent m pt j)) va \<and>
        pte_val l m' (PTE2PA (ent m pt j)) va = pte_val l m (PTE2PA (ent m pt j)) va)"
    if "j < 512" "pte_valid (ent m pt j)" "j \<noteq> i" for j
  proof (rule pt_frame)
    show "pt_ok l m (PTE2PA (ent m pt j))" using ok that by simp
    fix p a assume "p \<in> tabs l m (PTE2PA (ent m pt j))" and "in_page p a"
    then show "m' a = m a" using fr disj [OF that] tabs_child [OF that(1,2)] by blast
  qed
  have sep: "pt \<notin> tabs l m' c" using new pt by auto
  have sep2: "tabs l m (PTE2PA (ent m pt j)) \<inter> tabs l m' c = {}"
    if "j < 512" "pte_valid (ent m pt j)" "j \<noteq> i" for j
    using new disj [OF that] tabs_child [OF that(1,2), of l] by blast
  show "pt_ok (Suc l) m' pt"
    unfolding pt_ok.simps
  proof (intro conjI allI impI)
    fix j assume j: "j < 512" "pte_valid (ent m' pt j)"
    show "pt_ok l m' (PTE2PA (ent m' pt j))" "pt \<notin> tabs l m' (PTE2PA (ent m' pt j))"
      using j ok okc sep sub c e by (cases "j = i"; simp)+
    fix k assume k: "k < 512" "k \<noteq> j" "pte_valid (ent m' pt k)"
    show "tabs l m' (PTE2PA (ent m' pt j)) \<inter> tabs l m' (PTE2PA (ent m' pt k)) = {}"
      using j k ok sub sep2 c e by (cases "j = i"; cases "k = i") (simp_all add: Int_commute)
  qed (rule pt(1))
  have "tabs (Suc l) m' pt =
      insert pt (tabs l m' c \<union> (\<Union>j\<in>{j. j < 512 \<and> pte_valid (ent m pt j) \<and> j \<noteq> i}. tabs l m (PTE2PA (ent m pt j))))"
    using e sub i v c by (fastforce split: if_splits)
  moreover have "tabs (Suc l) m pt - tabs l m c =
      insert pt (\<Union>j\<in>{j. j < 512 \<and> pte_valid (ent m pt j) \<and> j \<noteq> i}. tabs l m (PTE2PA (ent m pt j)))"
    using disj i v c pt by (auto; blast)
  ultimately show "tabs (Suc l) m' pt = (tabs (Suc l) m pt - tabs l m c) \<union> tabs l m' c" by blast
  show "find_pte (Suc l) m' pt va =
      (if PX (Suc l) va = i then find_pte l m' c va else find_pte (Suc l) m pt va)"
    using e [OF i] e [OF PX_less] sub v c by (cases "PX (Suc l) va = i") simp_all
  show "pte_val (Suc l) m' pt va =
      (if PX (Suc l) va = i then pte_val l m' c va else pte_val (Suc l) m pt va)"
    using e [OF i] e [OF PX_less] sub v c by (cases "PX (Suc l) va = i") (simp_all add: pte_val_Suc)
qed

section \<open>Writing an entry\<close>

definition same_idx :: "nat \<Rightarrow> u64 \<Rightarrow> u64 \<Rightarrow> bool" where
  "same_idx l va va' \<longleftrightarrow> (\<forall>k\<le>l. PX k va = PX k va')"

lemma same_idx_simps:
  "same_idx 0 va va' \<longleftrightarrow> PX 0 va = PX 0 va'"
  "same_idx (Suc l) va va' \<longleftrightarrow> PX (Suc l) va = PX (Suc l) va' \<and> same_idx l va va'"
  by (auto simp: same_idx_def le_Suc_eq)

lemma same_idx_2:
  assumes "page_aligned va" "page_aligned va'" "va < MAXVA" "va' < MAXVA"
  shows "same_idx 2 va va' \<longleftrightarrow> va = va'"
  using PX_inject [OF assms] by (auto simp: same_idx_def)

lemma pte_write:
  assumes "pt_ok l m pt" and "find_pte l m pt va = Some a"
  shows "pt_ok l (st64 m a v) pt \<and> tabs l (st64 m a v) pt = tabs l m pt \<and>
    (\<forall>va'. find_pte l (st64 m a v) pt va' = find_pte l m pt va' \<and>
       pte_val l (st64 m a v) pt va' = (if same_idx l va va' then v else pte_val l m pt va'))"
  using assms
proof (induction l arbitrary: pt)
  case 0
  then show ?case by (auto simp: pte_val_0 ent_st64 same_idx_simps)
next
  case (Suc l)
  let ?m = "st64 m a v" and ?i = "PX (Suc l) va"
  define c where "c = PTE2PA (ent m pt ?i)"
  from Suc.prems have v: "pte_valid (ent m pt ?i)" and f: "find_pte l m c va = Some a"
    by (simp_all add: c_def split: if_splits)
  have okc: "pt_ok l m c" using Suc.prems(1) v by (simp add: c_def)
  note IH = Suc.IH [OF okc f]
  obtain q where q: "q \<in> tabs l m c" "a = q + 8 * PX 0 va" using find_pte_slot [OF f] by blast
  have "?m x = m x" if "p \<in> tabs (Suc l) m pt" "p \<notin> tabs l m c" "in_page p x" for p x
    using that q tabs_aligned [OF okc q(1)] tabs_aligned [OF Suc.prems(1) that(1)]
    by (metis PX_less in_page_unique st64_frame)
  then have fr: "\<forall>p\<in>tabs (Suc l) m pt - tabs l m c. \<forall>x. in_page p x \<longrightarrow> ?m x = m x" by blast
  note U = child_update [OF Suc.prems(1) PX_less v c_def fr]
  have sub: "tabs l m c \<subseteq> tabs (Suc l) m pt" unfolding c_def by (rule tabs_child) (simp_all add: v)
  have "pt_ok (Suc l) ?m pt" "tabs (Suc l) ?m pt = tabs (Suc l) m pt"
    using U(1,2) IH sub by auto
  moreover have "find_pte (Suc l) ?m pt va' = find_pte (Suc l) m pt va'" for va'
    using U(3) [where va = va'] IH v by (auto simp: c_def)
  moreover have "pte_val (Suc l) ?m pt va' =
      (if same_idx (Suc l) va va' then v else pte_val (Suc l) m pt va')" for va'
    using U(4) [where va = va'] IH v by (auto simp: c_def same_idx_simps pte_val_Suc)
  ultimately show ?case by blast
qed

section \<open>Growing a table\<close>

lemma zero_table:
  assumes "page_aligned p" and "\<And>a. in_page p a \<Longrightarrow> m a = 0"
  shows "pt_ok l m p" and "tabs l m p = {p}" and "pte_val l m p va = 0"
proof -
  have "ent m p i = ent (\<lambda>_. 0) p i" if "i < 512" for i
    using assms that by (intro ent_frame) auto
  then have e: "ent m p i = 0" if "i < 512" for i using that by (simp add: ent_def ld64_def)
  then show "pt_ok l m p" "tabs l m p = {p}" "pte_val l m p va = 0"
    using assms(1) by (cases l; auto simp: pte_val_0 pte_val_Suc)+
qed

lemma entry_update:
  assumes ok: "pt_ok (Suc l) m pt" and i: "i < 512" and inv: "\<not> pte_valid (ent m pt i)"
    and p: "page_aligned p" "p \<notin> tabs (Suc l) m pt" "p < 2 ^ 56"
    and z: "\<And>a. in_page p a \<Longrightarrow> m' a = 0"
    and fr: "\<And>q a. q \<in> tabs (Suc l) m pt \<Longrightarrow> q \<noteq> pt \<Longrightarrow> in_page q a \<Longrightarrow> m' a = m a"
    and e: "\<And>j. j < 512 \<Longrightarrow> ent m' pt j = (if j = i then pte_of p 0 else ent m pt j)"
  shows "pt_ok (Suc l) m' pt" and "tabs (Suc l) m' pt = insert p (tabs (Suc l) m pt)"
    and "pte_val (Suc l) m' pt va = pte_val (Suc l) m pt va"
proof -
  note zt = zero_table [OF p(1) z, where l = l]
  have pa: "PTE2PA (pte_of p 0) = p" using p by (intro PTE2PA_pte_of) auto
  have sub: "tabs l m' (PTE2PA (ent m pt j)) = tabs l m (PTE2PA (ent m pt j)) \<and>
      pt_ok l m' (PTE2PA (ent m pt j)) \<and>
      (\<forall>va. find_pte l m' (PTE2PA (ent m pt j)) va = find_pte l m (PTE2PA (ent m pt j)) va \<and>
        pte_val l m' (PTE2PA (ent m pt j)) va = pte_val l m (PTE2PA (ent m pt j)) va)"
    if j: "j < 512" "pte_valid (ent m pt j)" for j
  proof (rule pt_frame)
    show "pt_ok l m (PTE2PA (ent m pt j))" using ok j by simp
    fix q a assume q: "q \<in> tabs l m (PTE2PA (ent m pt j))" and a: "in_page q a"
    have "q \<noteq> pt" using ok j q by auto
    then show "m' a = m a" using fr a q tabs_child [OF j] by blast
  qed
  have other: "p \<notin> tabs l m (PTE2PA (ent m pt j))" if "j < 512" "pte_valid (ent m pt j)" for j
    using p(2) tabs_child [OF that] by blast
  have "p \<noteq> pt" using p(2) by auto
  then show "pt_ok (Suc l) m' pt"
    using ok e inv zt pa sub other by auto
  have "tabs (Suc l) m' pt =
      insert pt (\<Union>j\<in>insert i {j. j < 512 \<and> pte_valid (ent m pt j)}. tabs l m' (PTE2PA (ent m' pt j)))"
    using e inv i by (auto split: if_splits)
  also have "\<dots> = insert p (tabs (Suc l) m pt)"
    using e inv i zt pa sub by (auto split: if_splits)
  finally show "tabs (Suc l) m' pt = insert p (tabs (Suc l) m pt)" .
  show "pte_val (Suc l) m' pt va = pte_val (Suc l) m pt va"
    using e [OF PX_less] inv zt pa sub by (auto simp: pte_val_Suc)
qed

declare tabs.simps(2) [simp del] pt_ok.simps(2) [simp del] find_pte.simps(2) [simp del]

text \<open>
  \<open>pt_inv\<close>: a table whose pages are live. \<open>grow\<close>: the table got new pages, all of them free
  before, no mapping changed and no live page outside the table was written.
\<close>

definition pt_inv :: "nat \<Rightarrow> 'a kmem_st_scheme \<Rightarrow> u64 \<Rightarrow> bool" where
  "pt_inv l s pt \<longleftrightarrow> kmem_inv s \<and> pt_ok l (pmem s) pt \<and> (\<forall>q\<in>tabs l (pmem s) pt. 0 < refcnt s q)"

definition ptgrow :: "nat \<Rightarrow> 'a kmem_st_scheme \<Rightarrow> 'a kmem_st_scheme \<Rightarrow> u64 \<Rightarrow> bool" where
  "ptgrow l s s' pt \<longleftrightarrow> pt_inv l s' pt \<and> kend s' = kend s \<and> kmem_st.more s' = kmem_st.more s \<and>
     tabs l (pmem s) pt \<subseteq> tabs l (pmem s') pt \<and>
     (\<forall>x\<in>tabs l (pmem s') pt - tabs l (pmem s) pt. refcnt s x = 0) \<and>
     (\<forall>x. refcnt s' x = (if x \<in> tabs l (pmem s') pt - tabs l (pmem s) pt then 1 else refcnt s x)) \<and>
     (\<forall>x a. 0 < refcnt s x \<longrightarrow> x \<notin> tabs l (pmem s) pt \<longrightarrow> in_page x a \<longrightarrow> pmem s' a = pmem s a)"

definition grow :: "nat \<Rightarrow> 'a kmem_st_scheme \<Rightarrow> 'a kmem_st_scheme \<Rightarrow> u64 \<Rightarrow> bool" where
  "grow l s s' pt \<longleftrightarrow> ptgrow l s s' pt \<and>
     (\<forall>va. pte_val l (pmem s') pt va = pte_val l (pmem s) pt va)"

lemma ptgrowD:
  assumes "ptgrow l s s' pt"
  shows "pt_inv l s' pt" "kend s' = kend s" "kmem_st.more s' = kmem_st.more s"
    "tabs l (pmem s) pt \<subseteq> tabs l (pmem s') pt"
    "x \<in> tabs l (pmem s') pt \<Longrightarrow> x \<notin> tabs l (pmem s) pt \<Longrightarrow> refcnt s x = 0"
    "x \<in> tabs l (pmem s') pt \<Longrightarrow> x \<notin> tabs l (pmem s) pt \<Longrightarrow> refcnt s' x = 1"
    "x \<notin> tabs l (pmem s') pt - tabs l (pmem s) pt \<Longrightarrow> refcnt s' x = refcnt s x"
    "0 < refcnt s x \<Longrightarrow> x \<notin> tabs l (pmem s) pt \<Longrightarrow> in_page x a \<Longrightarrow> pmem s' a = pmem s a"
proof -
  note g = assms [unfolded ptgrow_def]
  show "0 < refcnt s x \<Longrightarrow> x \<notin> tabs l (pmem s) pt \<Longrightarrow> in_page x a \<Longrightarrow> pmem s' a = pmem s a"
    using g by blast
qed (use assms in \<open>auto simp: ptgrow_def\<close>)

lemma grow_ptgrow: "grow l s s' pt \<Longrightarrow> ptgrow l s s' pt"
  and grow_val: "grow l s s' pt \<Longrightarrow> pte_val l (pmem s') pt va = pte_val l (pmem s) pt va"
  by (simp_all add: grow_def)

lemmas growD = ptgrowD [OF grow_ptgrow] grow_val

lemma ptgrow_live:
  assumes "ptgrow l s s' pt" and "0 < refcnt s x"
  shows "refcnt s' x = refcnt s x" and "x \<notin> tabs l (pmem s) pt \<Longrightarrow> x \<notin> tabs l (pmem s') pt"
  using ptgrowD(5,7) [OF assms(1), of x] assms(2) by auto

lemmas grow_live = ptgrow_live [OF grow_ptgrow]

lemma ptgrow_refl: "pt_inv l s pt \<Longrightarrow> ptgrow l s s pt"
  by (simp add: ptgrow_def)

lemma grow_refl: "pt_inv l s pt \<Longrightarrow> grow l s s pt"
  by (simp add: grow_def ptgrow_refl)

lemma ptgrow_trans:
  assumes g1: "ptgrow l s s1 pt" and g2: "ptgrow l s1 s2 pt"
  shows "ptgrow l s s2 pt"
proof -
  let ?T = "tabs l (pmem s) pt" and ?T1 = "tabs l (pmem s1) pt" and ?T2 = "tabs l (pmem s2) pt"
  have "pmem s2 a = pmem s a" if x: "0 < refcnt s x" "x \<notin> ?T" "in_page x a" for x a
    using ptgrowD(8) [OF g1 x] ptgrowD(8) [OF g2 _ _ x(3)] ptgrow_live [OF g1 x(1)] x by simp
  moreover have "refcnt s2 x = (if x \<in> ?T2 - ?T then 1 else refcnt s x)" for x
    using g1 g2 by (auto simp: ptgrow_def)
  moreover have "\<forall>x\<in>?T2 - ?T. refcnt s x = 0"
  proof
    fix x assume "x \<in> ?T2 - ?T"
    then show "refcnt s x = 0" using g1 g2 by (cases "x \<in> ?T1") (auto simp: ptgrow_def)
  qed
  ultimately show ?thesis using g1 g2 unfolding ptgrow_def by (auto; fail)
qed

lemma grow_trans: "grow l s s1 pt \<Longrightarrow> grow l s1 s2 pt \<Longrightarrow> grow l s s2 pt"
  using ptgrow_trans by (auto simp: grow_def)

lemma pt_inv_child:
  assumes "pt_inv (Suc l) s pt" and "i < 512" and "pte_valid (ent (pmem s) pt i)"
  shows "pt_inv l s (PTE2PA (ent (pmem s) pt i))"
  using assms tabs_child [OF assms(2,3), of l] by (auto simp: pt_inv_def pt_ok.simps(2))

lemma grow_child:
  assumes inv: "pt_inv (Suc l) s pt" and i: "i < 512" and v: "pte_valid (ent (pmem s) pt i)"
    and c: "c = PTE2PA (ent (pmem s) pt i)" and g: "grow l s s' c"
  shows "grow (Suc l) s s' pt"
    and "PX (Suc l) va = i \<Longrightarrow> find_pte (Suc l) (pmem s') pt va = find_pte l (pmem s') c va"
proof -
  let ?m = "pmem s" and ?m' = "pmem s'"
  have ok: "pt_ok (Suc l) ?m pt" and live: "\<forall>q\<in>tabs (Suc l) ?m pt. 0 < refcnt s q"
    using inv by (simp_all add: pt_inv_def)
  have fr: "\<forall>p\<in>tabs (Suc l) ?m pt - tabs l ?m c. \<forall>a. in_page p a \<longrightarrow> ?m' a = ?m a"
    using growD(8) [OF g] live by blast
  have okc: "pt_ok l ?m' c" using growD(1) [OF g] by (simp add: pt_inv_def)
  have new: "tabs l ?m' c \<inter> tabs (Suc l) ?m pt \<subseteq> tabs l ?m c"
    using growD(5) [OF g] live by fastforce
  note U = child_update [OF ok i v c fr okc new]
  have sub: "tabs l ?m c \<subseteq> tabs (Suc l) ?m pt" unfolding c by (rule tabs_child [OF i v])
  have T: "tabs (Suc l) ?m' pt = tabs (Suc l) ?m pt \<union> tabs l ?m' c"
    using U(2) growD(4) [OF g] by blast
  have D: "tabs (Suc l) ?m' pt - tabs (Suc l) ?m pt = tabs l ?m' c - tabs l ?m c"
    using T new sub by blast
  have "pte_val (Suc l) ?m' pt va = pte_val (Suc l) ?m pt va" for va
    using U(4) [where va = va] growD(9) [OF g] v c by (simp add: pte_val_Suc)
  moreover have "0 < refcnt s' q" if "q \<in> tabs (Suc l) ?m' pt" for q
    using that T live growD(1) [OF g] grow_live(1) [OF g, of q] by (auto simp: pt_inv_def)
  then have "pt_inv (Suc l) s' pt" using U(1) growD(1) [OF g] by (simp add: pt_inv_def)
  moreover have "?m' a = ?m a" if "0 < refcnt s x" "x \<notin> tabs (Suc l) ?m pt" "in_page x a" for x a
    using growD(8) [OF g that(1) _ that(3)] that(2) sub by blast
  ultimately show "grow (Suc l) s s' pt"
    unfolding grow_def ptgrow_def D using T growD(2-7) [OF g] by auto
  show "find_pte (Suc l) ?m' pt va = find_pte l ?m' c va" if "PX (Suc l) va = i"
    using U(3) [where va = va] that by simp
qed

lemma grow_insert:
  assumes inv: "pt_inv (Suc l) s pt" and i: "i < 512" and ni: "\<not> pte_valid (ent (pmem s) pt i)"
    and al: "kalloc s = (p, s1)" "p \<noteq> 0"
    and s3: "s3 = s1\<lparr>pmem := st64 (memset (pmem s1) p 0 4096) (pt + 8 * i) (PA2PTE p OR PTE_V)\<rparr>"
  shows "grow (Suc l) s s3 pt" and "ent (pmem s3) pt i = pte_of p 0" and "PTE2PA (pte_of p 0) = p"
proof -
  let ?T = "tabs (Suc l) (pmem s) pt"
  have I: "kmem_inv s" "pt_ok (Suc l) (pmem s) pt" "\<And>q. q \<in> ?T \<Longrightarrow> 0 < refcnt s q"
    using inv by (auto simp: pt_inv_def)
  note I1 = kpages.alloc_inv [OF I(1) al(1)]
  have p: "refcnt s p = 0" "refcnt s1 = (refcnt s)(p := 1)" "page_aligned p"
    using kpages.alloc_some [OF I(1) al] by auto
  have pT: "p \<notin> ?T" using I(3) p(1) by fastforce
  have ptT: "pt \<in> ?T" by simp
  have pt: "page_aligned pt" "p \<noteq> pt" using I(2) pt_ok_aligned pT ptT by auto
  have small: "p < 2 ^ 56"
    using live_page_props(3) [OF I1, of p] p(2) by (simp add: word_less_nat_alt)
  show pa: "PTE2PA (pte_of p 0) = p" using p(3) small by (intro PTE2PA_pte_of) auto
  have fr: "pmem s3 a = pmem s a" if "page_aligned q" "q \<noteq> pt" "q \<noteq> p" "in_page q a" for q a
  proof -
    have "\<not> in_page pt a" "\<not> in_page p a"
      using that in_page_unique [OF that(1) pt(1) that(4)] in_page_unique [OF that(1) p(3) that(4)] by blast+
    then show ?thesis by (simp add: s3 st64_frame [OF pt(1) i] mem_simps kalloc_frame(3) [OF al(1)])
  qed
  have z: "pmem s3 a = 0" if "in_page p a" for a
  proof -
    have "\<not> in_page pt a" using in_page_unique [OF p(3) pt(1) that] pt(2) by blast
    then show ?thesis using that by (simp add: s3 st64_frame [OF pt(1) i] mem_simps)
  qed
  have "ent (memset (pmem s1) p 0 4096) pt j = ent (pmem s) pt j" if "j < 512" for j
    using that pt p(3) kalloc_frame(3) [OF al(1)]
    by (intro ent_frame) (auto simp: mem_simps dest: in_page_unique)
  then have e: "ent (pmem s3) pt j = (if j = i then pte_of p 0 else ent (pmem s) pt j)" if "j < 512" for j
    using that i pt(1) by (simp add: s3 ent_st64 pte_of_def)
  show "ent (pmem s3) pt i = pte_of p 0" using e [OF i] by simp
  have frT: "pmem s3 a = pmem s a" if "q \<in> ?T" "q \<noteq> pt" "in_page q a" for q a
    using fr that pT tabs_aligned [OF I(2) that(1)] by blast
  note E = entry_update [OF I(2) i ni p(3) pT small z frT e]
  have r3: "refcnt s3 = (refcnt s)(p := 1)" using p(2) by (simp add: s3)
  have "kmem_inv s3"
    unfolding s3
  proof (rule kmem_inv_write [OF I1])
    fix x a assume x: "x \<in> managed s1" "refcnt s1 x = 0" "in_page x a"
    then have "x \<noteq> p" "x \<noteq> pt" "page_aligned x" using p(2) I(3) [OF ptT] pt(2)
      by (auto simp: managed_def split: if_splits)
    then have "\<not> in_page pt a" "\<not> in_page p a" using x(3) pt p(3) in_page_unique by blast+
    then show "st64 (memset (pmem s1) p 0 4096) (pt + 8 * i) (PA2PTE p OR PTE_V) a = pmem s1 a"
      by (simp add: st64_frame [OF pt(1) i] mem_simps)
  qed
  moreover have T: "tabs (Suc l) (pmem s3) pt = insert p ?T" and "pt_ok (Suc l) (pmem s3) pt"
    using E(1,2) by auto
  ultimately have "pt_inv (Suc l) s3 pt" using I(3) r3 by (auto simp: pt_inv_def)
  moreover have "pmem s3 a = pmem s a" if "0 < refcnt s x" "x \<notin> ?T" "in_page x a" for x a
  proof -
    have "x \<noteq> pt" "x \<noteq> p" using that(1,2) ptT p(1) by (blast, auto)
    then show ?thesis using fr [OF live_page_props(1) [OF I(1) that(1)] _ _ that(3)] by blast
  qed
  ultimately show "grow (Suc l) s s3 pt"
    unfolding grow_def ptgrow_def T using r3 p(1) pT E(3) kalloc_frame(1,2) [OF al(1)] by (auto simp: s3)
qed

lemma walk_grow:
  assumes "pt_inv l s pt" and "walk_loop l pt va True s = (a, s')"
  shows "grow l s s' pt \<and>
    (if a = 0 then \<forall>pa\<in>managed s'. refcnt s' pa \<noteq> 0 else find_pte l (pmem s') pt va = Some a)"
  using assms
proof (induction l arbitrary: pt s)
  case 0
  let ?a = "pt + 8 * PX 0 va"
  have "0 < refcnt s pt" "kmem_inv s" using 0 by (simp_all add: pt_inv_def)
  from live_page_props [OF this(2,1)] have "page_aligned pt" "KERNBASE \<le> pt" by auto
  then have "unat ?a \<noteq> 0" using unat_slot [of pt "PX 0 va"] by (simp add: word_le_nat_alt)
  then have "?a \<noteq> 0" by (metis unat_0)
  then show ?case using 0 by (auto intro: grow_refl)
next
  case (Suc l)
  let ?i = "PX (Suc l) va"
  have slot: "ld64 (pmem s) (pt + 8 * ?i) = ent (pmem s) pt ?i" by (simp add: ent_def)
  show ?case
  proof (cases "pte_valid (ent (pmem s) pt ?i)")
    case True
    define c where "c = PTE2PA (ent (pmem s) pt ?i)"
    have w: "walk_loop l c va True s = (a, s')" using Suc.prems(2) True slot by (simp add: c_def)
    note IH = Suc.IH [OF pt_inv_child [OF Suc.prems(1) PX_less True] w [unfolded c_def], folded c_def]
    from grow_child [OF Suc.prems(1) PX_less True c_def] IH show ?thesis by auto
  next
    case False
    show ?thesis
    proof (cases "kalloc s")
      case (Pair p s1)
      show ?thesis
      proof (cases "p = 0")
        case True
        then have "a = 0" "s' = s1" "s1 = s"
          using Suc.prems(2) False slot Pair kpages.alloc_none by (auto simp: Let_def)
        moreover have "kmem_inv s" using Suc.prems(1) by (simp add: pt_inv_def)
        ultimately show ?thesis
          using Pair True grow_refl [OF Suc.prems(1)] by (auto elim: kalloc_inv_cases)
      next
        case p0: False
        define s3 where "s3 = s1\<lparr>pmem := st64 (memset (pmem s1) p 0 4096) (pt + 8 * ?i) (PA2PTE p OR PTE_V)\<rparr>"
        note G = grow_insert [OF Suc.prems(1) PX_less False Pair p0 s3_def]
        have w: "walk_loop l p va True s3 = (a, s')"
          using Suc.prems(2) False slot Pair p0 by (simp add: Let_def s3_def)
        have v: "pte_valid (ent (pmem s3) pt ?i)" and c: "p = PTE2PA (ent (pmem s3) pt ?i)"
          using G(2,3) by simp_all
        note inv3 = growD(1) [OF G(1)]
        note IH = Suc.IH [OF pt_inv_child [OF inv3 PX_less v, folded c] w]
        from grow_child [OF inv3 PX_less v c] IH have
          "grow (Suc l) s3 s' pt \<and>
            (if a = 0 then \<forall>pa\<in>managed s'. refcnt s' pa \<noteq> 0 else find_pte (Suc l) (pmem s') pt va = Some a)"
          by auto
        then show ?thesis using grow_trans [OF G(1)] by blast
      qed
    qed
  qed
qed

section \<open>Mapping a range of pages\<close>

lemma walk_eq: "va < MAXVA \<Longrightarrow> walk pt va alloc s = Ok (walk_loop 2 pt va alloc s)"
  by (simp add: walk_def leD)

lemma walk_lookup:
  "walk_loop l pt va False s = ((case find_pte l (pmem s) pt va of None \<Rightarrow> 0 | Some a \<Rightarrow> a), s)"
  by (induction l arbitrary: pt) (auto simp: find_pte.simps(2) ent_def Let_def)

lemma ptgrow_write:
  assumes inv: "pt_inv l s pt" and f: "find_pte l (pmem s) pt va = Some a"
  shows "ptgrow l s (s\<lparr>pmem := st64 (pmem s) a v\<rparr>) pt"
    and "pte_val l (st64 (pmem s) a v) pt va' = (if same_idx l va va' then v else pte_val l (pmem s) pt va')"
proof -
  have ok: "pt_ok l (pmem s) pt" and km: "kmem_inv s" using inv by (simp_all add: pt_inv_def)
  obtain q where q: "q \<in> tabs l (pmem s) pt" "a = q + 8 * PX 0 va" using find_pte_slot [OF f] by blast
  have live: "0 < refcnt s q" and al: "page_aligned q"
    using inv q(1) tabs_aligned [OF ok q(1)] by (auto simp: pt_inv_def)
  have fr: "st64 (pmem s) a v x = pmem s x" if "\<not> in_page q x" for x
    using st64_frame [OF al PX_less that] q(2) by simp
  have "st64 (pmem s) a v b = pmem s b"
    if "0 < refcnt s x" "x \<notin> tabs l (pmem s) pt" "in_page x b" for x b
    using fr in_page_unique [OF live_page_props(1) [OF km that(1)] al that(3)] that(2) q(1) by blast
  then show "ptgrow l s (s\<lparr>pmem := st64 (pmem s) a v\<rparr>) pt"
    using inv pte_write [OF ok f, of v] kmem_inv_write_page [OF km live fr]
    by (auto simp: ptgrow_def pt_inv_def)
  show "pte_val l (st64 (pmem s) a v) pt va' = (if same_idx l va va' then v else pte_val l (pmem s) pt va')"
    using pte_write [OF ok f, of v] by blast
qed

definition in_rng :: "u64 \<Rightarrow> nat \<Rightarrow> u64 \<Rightarrow> bool" where
  "in_rng a n va \<longleftrightarrow> unat a \<le> unat va \<and> unat va < unat a + 4096 * n"

definition full :: "'a kmem_st_scheme \<Rightarrow> bool" where
  "full s \<longleftrightarrow> (\<forall>pa\<in>managed s. refcnt s pa \<noteq> 0)"

lemma map_page:
  assumes inv: "pt_inv 2 s pt" and a: "page_aligned a" "a < MAXVA"
    and w: "walk_loop 2 pt a True s = (pte, s1)" "pte \<noteq> 0"
  shows "ptgrow 2 s (s1\<lparr>pmem := st64 (pmem s1) pte v\<rparr>) pt"
    and "ld64 (pmem s1) pte = pte_val 2 (pmem s) pt a"
    and "page_aligned va \<Longrightarrow> va < MAXVA \<Longrightarrow>
      pte_val 2 (st64 (pmem s1) pte v) pt va = (if va = a then v else pte_val 2 (pmem s) pt va)"
proof -
  have g: "grow 2 s s1 pt" and f: "find_pte 2 (pmem s1) pt a = Some pte"
    using walk_grow [OF inv w(1)] w(2) by auto
  note W = ptgrow_write [OF growD(1) [OF g] f]
  show "ptgrow 2 s (s1\<lparr>pmem := st64 (pmem s1) pte v\<rparr>) pt"
    by (rule ptgrow_trans [OF grow_ptgrow [OF g] W(1)])
  show "ld64 (pmem s1) pte = pte_val 2 (pmem s) pt a"
    using growD(9) [OF g, of a] f by (simp add: pte_val_def)
  show "pte_val 2 (st64 (pmem s1) pte v) pt va = (if va = a then v else pte_val 2 (pmem s) pt va)"
    if "page_aligned va" "va < MAXVA"
    using W(2) [of v va] same_idx_2 [OF a(1) that(1) a(2) that(2)] growD(9) [OF g, of va] by auto
qed

lemma page_step:
  assumes "page_aligned a" and "unat a + 4096 * Suc n \<le> 2 ^ 38" and "0 < n"
  shows "unat (a + 4096) = unat a + 4096" and "page_aligned (a + 4096)" and "a < MAXVA"
    and "page_aligned va \<Longrightarrow> in_rng a (Suc k) va \<longleftrightarrow> va = a \<or> in_rng (a + 4096) k va"
    and "\<not> in_rng (a + 4096) k a"
proof -
  have "unat a + 4096 < 2 ^ 64" using assms by simp
  note nxt = page_next [OF assms(1) this]
  then show u: "unat (a + 4096) = unat a + 4096" and "page_aligned (a + 4096)" by auto
  show "a < MAXVA" using assms by (simp add: word_less_nat_alt)
  show "in_rng a (Suc k) va \<longleftrightarrow> va = a \<or> in_rng (a + 4096) k va" if "page_aligned va"
    using nxt(3) [OF that] u by (auto simp: in_rng_def word_less_nat_alt not_less)
  show "\<not> in_rng (a + 4096) k a" by (simp add: in_rng_def u)
qed

lemma in_rng_1: "page_aligned a \<Longrightarrow> page_aligned va \<Longrightarrow> in_rng a (Suc 0) va \<longleftrightarrow> va = a"
  by (auto simp: in_rng_def page_aligned_dvd word_unat_eq_iff elim!: dvdE)

lemma mappages_n:
  assumes "pt_inv 2 s pt" and "page_aligned a" and "unat a + 4096 * Suc n \<le> 2 ^ 38"
    and "\<And>va. page_aligned va \<Longrightarrow> in_rng a (Suc n) va \<Longrightarrow> \<not> pte_valid (pte_val 2 (pmem s) pt va)"
  shows "\<exists>r s' k. mappages_loop pt a (a + of_nat (4096 * n)) pa perm s = Ok (r, s') \<and>
    ptgrow 2 s s' pt \<and> (r = 0 \<and> k = Suc n \<or> r = - 1 \<and> k \<le> n \<and> full s') \<and>
    (\<forall>va. page_aligned va \<longrightarrow> va < MAXVA \<longrightarrow> pte_val 2 (pmem s') pt va =
       (if in_rng a k va then pte_of (pa + (va - a)) perm else pte_val 2 (pmem s) pt va))"
  using assms
proof (induction n arbitrary: a pa s)
  case 0
  then have a: "a < MAXVA" "in_rng a (Suc 0) a" by (simp_all add: word_less_nat_alt in_rng_def)
  obtain pte s1 where w: "walk_loop 2 pt a True s = (pte, s1)" by fastforce
  show ?case
  proof (cases "pte = 0")
    case True
    then have "mappages_loop pt a a pa perm s = Ok (- 1, s1)"
      using w a by (subst mappages_loop.simps) (simp add: walk_eq)
    then show ?thesis
      using walk_grow [OF 0(1) w] True by (auto simp: grow_def full_def in_rng_def)
  next
    case False
    note M = map_page(1) [OF 0(1,2) a(1) w False, where v = "pte_of pa perm"]
      map_page(2) [OF 0(1,2) a(1) w False] map_page(3) [OF 0(1,2) a(1) w False, where v = "pte_of pa perm"]
    have "\<not> pte_valid (ld64 (pmem s1) pte)" using 0(4) [OF 0(2) a(2)] M(2) by simp
    then have "mappages_loop pt a a pa perm s = Ok (0, s1\<lparr>pmem := st64 (pmem s1) pte (pte_of pa perm)\<rparr>)"
      using w a False by (subst mappages_loop.simps) (simp add: walk_eq pte_of_def)
    then show ?thesis using M in_rng_1 [OF 0(2)] by auto
  qed
next
  case (Suc n)
  note P = page_step [OF Suc.prems(2,3) zero_less_Suc]
  obtain pte s1 where w: "walk_loop 2 pt a True s = (pte, s1)" by fastforce
  have "unat (of_nat (4096 * Suc n) :: u64) = 4096 * Suc n"
    using Suc.prems(3) by (intro unat_of_nat_less) simp
  then have "(of_nat (4096 * Suc n) :: u64) \<noteq> 0" by (metis Zero_not_Suc mult_eq_0_iff unat_0 zero_neq_numeral)
  then have la: "a + of_nat (4096 * Suc n) = (a + 4096) + of_nat (4096 * n)"
    "a \<noteq> a + of_nat (4096 * Suc n)"
    by (simp_all add: algebra_simps)
  show ?case
  proof (cases "pte = 0")
    case True
    then have "mappages_loop pt a (a + of_nat (4096 * Suc n)) pa perm s = Ok (- 1, s1)"
      using w P by (subst mappages_loop.simps) (simp add: walk_eq)
    then show ?thesis
      using walk_grow [OF Suc.prems(1) w] True
      by (intro exI [of _ "-1"] exI [of _ s1] exI [of _ 0]) (auto simp: grow_def full_def in_rng_def)
  next
    case False
    define s2 where "s2 = s1\<lparr>pmem := st64 (pmem s1) pte (pte_of pa perm)\<rparr>"
    note M = map_page(1) [OF Suc.prems(1,2) P(3) w False, where v = "pte_of pa perm", folded s2_def]
      map_page(2) [OF Suc.prems(1,2) P(3) w False]
      map_page(3) [OF Suc.prems(1,2) P(3) w False, where v = "pte_of pa perm"]
    have ina: "in_rng a (Suc (Suc n)) a" by (simp add: in_rng_def)
    have "\<not> pte_valid (ld64 (pmem s1) pte)" using Suc.prems(4) [OF Suc.prems(2) ina] M(2) by simp
    then have step: "mappages_loop pt a (a + of_nat (4096 * Suc n)) pa perm s =
        mappages_loop pt (a + 4096) ((a + 4096) + of_nat (4096 * n)) (pa + 4096) perm s2"
      using w P(3) False la(2) unfolding la(1) [symmetric]
      by (subst mappages_loop.simps) (simp add: walk_eq pte_of_def s2_def)
    have m2: "pte_val 2 (pmem s2) pt va = (if va = a then pte_of pa perm else pte_val 2 (pmem s) pt va)"
      if "page_aligned va" "va < MAXVA" for va
      using M(3) [OF that] by (simp add: s2_def)
    have bnd: "unat (a + 4096) + 4096 * Suc n \<le> 2 ^ 38" using P(1) Suc.prems(3) by simp
    have "\<not> pte_valid (pte_val 2 (pmem s2) pt va)"
      if va: "page_aligned va" "in_rng (a + 4096) (Suc n) va" for va
    proof -
      have "va < MAXVA" using va(2) bnd by (simp add: in_rng_def word_less_nat_alt)
      then show ?thesis
        using m2 [OF va(1)] P(4) [OF va(1), of "Suc n"] P(5) [of "Suc n"] Suc.prems(4) [OF va(1)] va(2) by auto
    qed
    from Suc.IH [OF ptgrowD(1) [OF M(1)] P(2) bnd this, of "pa + 4096"]
    obtain r s' k where IH: "mappages_loop pt (a + 4096) ((a + 4096) + of_nat (4096 * n)) (pa + 4096) perm s2 = Ok (r, s')"
      "ptgrow 2 s2 s' pt" "r = 0 \<and> k = Suc n \<or> r = - 1 \<and> k \<le> n \<and> full s'"
      "\<And>va. page_aligned va \<Longrightarrow> va < MAXVA \<Longrightarrow> pte_val 2 (pmem s') pt va =
         (if in_rng (a + 4096) k va then pte_of (pa + 4096 + (va - (a + 4096))) perm else pte_val 2 (pmem s2) pt va)"
      by auto
    have "pte_val 2 (pmem s') pt va =
        (if in_rng a (Suc k) va then pte_of (pa + (va - a)) perm else pte_val 2 (pmem s) pt va)"
      if "page_aligned va" "va < MAXVA" for va
      using IH(4) [OF that] m2 [OF that] P(4) [OF that(1), of k] P(5) [of k] by (auto simp: algebra_simps)
    then show ?thesis
      using IH(1,3) ptgrow_trans [OF M(1) IH(2)] step
      by (intro exI [of _ r] exI [of _ s'] exI [of _ "Suc k"]) auto
  qed
qed

end
