(* ===== verification/UserSpace.thy ===== *)
theory UserSpace
  imports PageTable
begin

text \<open>
  User memory as the kernel sees it. \<open>upa\<close> translates a user address through the page table,
  \<open>umem\<close> is the byte there. The lemmas show that \<open>copyin\<close> reads and \<open>copyout\<close> writes exactly the
  user bytes of the given range, and what \<open>uvmunmap\<close>, \<open>uvmcopy\<close> and \<open>freewalk\<close> do to the mappings
  and to the reference counts.
\<close>

section \<open>Translation\<close>

definition upte :: "'a kmem_st_scheme \<Rightarrow> u64 \<Rightarrow> u64 \<Rightarrow> u64" where
  "upte s pt va = pte_val 2 (pmem s) pt (PGROUNDDOWN va)"

definition upa :: "'a kmem_st_scheme \<Rightarrow> u64 \<Rightarrow> u64 \<Rightarrow> u64" where
  "upa s pt va = PTE2PA (upte s pt va) + (va - PGROUNDDOWN va)"

definition umem :: "'a kmem_st_scheme \<Rightarrow> u64 \<Rightarrow> u64 \<Rightarrow> u8" where
  "umem s pt va = pmem s (upa s pt va)"

definition umapped :: "'a kmem_st_scheme \<Rightarrow> u64 \<Rightarrow> u64 \<Rightarrow> bool" where
  "umapped s pt va \<longleftrightarrow> va < MAXVA \<and> pte_valid (upte s pt va) \<and> upte s pt va AND PTE_U \<noteq> 0 \<and>
     PTE2PA (upte s pt va) \<noteq> 0"

lemma in_page_PGROUNDDOWN [simp]: "in_page (PGROUNDDOWN a) a"
proof -
  have "a - PGROUNDDOWN a = a mod 4096" by (simp add: PGROUNDDOWN_mod)
  moreover have "unat (a mod 4096) < 4096" by (simp add: unat_mod_distrib)
  ultimately show ?thesis by (simp add: in_page_def word_less_nat_alt)
qed

lemma PGROUNDDOWN_unique: "page_aligned p \<Longrightarrow> in_page p a \<Longrightarrow> PGROUNDDOWN a = p"
  using in_page_unique [of "PGROUNDDOWN a" p a] by simp

lemma PGROUNDDOWN_less_MAXVA: "PGROUNDDOWN va < MAXVA \<longleftrightarrow> va < MAXVA"
proof -
  have "4096 * (unat va div 4096) < 4096 * 67108864 \<longleftrightarrow> unat va < 4096 * 67108864"
    by (simp only: mult_less_cancel1) auto
  then show ?thesis by (simp add: word_less_nat_alt unat_PGROUNDDOWN)
qed

lemma page_off:
  assumes "i < chunk va len"
  shows "PGROUNDDOWN (va + of_nat i) = PGROUNDDOWN va"
    and "va + of_nat i - PGROUNDDOWN va = va - PGROUNDDOWN va + of_nat i"
proof -
  let ?o = "va - PGROUNDDOWN va"
  have o: "unat ?o < 4096" using in_page_PGROUNDDOWN [of va] by (simp add: in_page_def word_less_nat_alt)
  then have "i < 4096 - unat ?o" using assms by (simp add: chunk_def unat_sub word_le_nat_alt)
  with o have "unat (?o + of_nat i) < 4096" by (simp add: unat_word_ariths unat_of_nat_less)
  moreover show eq: "va + of_nat i - PGROUNDDOWN va = ?o + of_nat i" by simp
  ultimately have "in_page (PGROUNDDOWN va) (va + of_nat i)"
    unfolding in_page_def eq by (simp add: word_less_nat_alt)
  then show "PGROUNDDOWN (va + of_nat i) = PGROUNDDOWN va"
    by (intro PGROUNDDOWN_unique) simp_all
qed

lemma page_off_upa:
  assumes "i < chunk va len"
  shows "upa s pt (va + of_nat i) = upa s pt va + of_nat i"
    and "upte s pt (va + of_nat i) = upte s pt va"
  using page_off [OF assms] by (simp_all add: upa_def upte_def)

lemma chunk_next:
  assumes "chunk va len < len"
  shows "PGROUNDDOWN va + 4096 = va + of_nat (chunk va len)"
  using assms by (simp add: chunk_def min_def split: if_splits)

lemma pt_inv_find_nonzero:
  assumes "pt_inv l s pt" and "find_pte l (pmem s) pt va = Some a"
  shows "a \<noteq> 0"
proof -
  obtain q where q: "q \<in> tabs l (pmem s) pt" "a = q + 8 * PX 0 va"
    using find_pte_slot [OF assms(2)] by blast
  have "0 < refcnt s q" "kmem_inv s" using assms(1) q by (auto simp: pt_inv_def)
  from live_page_props [OF this(2,1)] have "page_aligned q" "KERNBASE \<le> q" by auto
  then have "unat a \<noteq> 0" using unat_slot [of q "PX 0 va"] q by (simp add: word_le_nat_alt)
  then show ?thesis by (metis unat_0)
qed

lemma walk_found:
  assumes "pt_inv 2 s pt" and "va < MAXVA"
  obtains (unmapped) "walk pt va False s = Ok (0, s)" "pte_val 2 (pmem s) pt va = 0"
  | (found) pte where "walk pt va False s = Ok (pte, s)" "pte \<noteq> 0"
      "find_pte 2 (pmem s) pt va = Some pte" "ld64 (pmem s) pte = pte_val 2 (pmem s) pt va"
proof (cases "find_pte 2 (pmem s) pt va")
  case None
  then show thesis using assms by (intro unmapped) (auto simp: walk_eq walk_lookup pte_val_def)
next
  case (Some a)
  then show thesis
    using assms pt_inv_find_nonzero [OF assms(1) Some]
    by (intro found [of a]) (auto simp: walk_eq walk_lookup pte_val_def)
qed

lemma walkaddr_upte:
  assumes "pt_inv 2 s pt"
  shows "walkaddr pt (PGROUNDDOWN va) s = Ok (if umapped s pt va then PTE2PA (upte s pt va) else 0)"
proof (cases "va < MAXVA")
  case True
  then have m: "PGROUNDDOWN va < MAXVA" by (simp add: PGROUNDDOWN_less_MAXVA)
  from assms m show ?thesis
  proof (cases rule: walk_found)
    case unmapped
    then show ?thesis using m by (auto simp: walkaddr_def umapped_def upte_def leD)
  next
    case (found pte)
    then show ?thesis using m True by (auto simp: walkaddr_def umapped_def upte_def leD)
  qed
next
  case False
  then show ?thesis using PGROUNDDOWN_less_MAXVA [of va] by (auto simp: walkaddr_def umapped_def)
qed

section \<open>Byte lists in memory\<close>

lemma get_bytes_map: "get_bytes m a n = map (\<lambda>i. m (a + of_nat i)) [0..<n]"
  by (induction n arbitrary: a) (simp_all add: map_upt_Suc algebra_simps del: upt_Suc)

lemma length_get_bytes [simp]: "length (get_bytes m a n) = n"
  by (simp add: get_bytes_map)

lemma put_bytes_apply:
  "length xs \<le> 2 ^ 64 \<Longrightarrow>
   put_bytes m a xs x = (if unat (x - a) < length xs then xs ! unat (x - a) else m x)"
proof (induction xs arbitrary: m a)
  case Nil
  then show ?case by simp
next
  case (Cons y ys)
  show ?case
  proof (cases "x = a")
    case True
    have "unat (a - (a + 1)) = 2 ^ 64 - 1" by (simp add: unsigned_minus_1_eq_mask mask_eq_exp_minus_1)
    then show ?thesis using Cons True by simp
  next
    case False
    then have "x - a \<noteq> 0" by simp
    then have "unat (x - a - 1) = unat (x - a) - 1" "0 < unat (x - a)"
      by (simp_all add: unat_step unat_gt_0)
    then have "unat (x - (a + 1)) = unat (x - a) - 1" by (simp add: algebra_simps)
    with \<open>0 < unat (x - a)\<close> show ?thesis using Cons False by auto
  qed
qed

section \<open>Reading user memory\<close>

lemma umapped_page: "PGROUNDDOWN a = PGROUNDDOWN b \<Longrightarrow> umapped s pt a = umapped s pt b"
  unfolding umapped_def upte_def using PGROUNDDOWN_less_MAXVA [of a] PGROUNDDOWN_less_MAXVA [of b] by simp

text \<open>\<open>m\<close> is the number of leading bytes of a range that are mapped.\<close>

definition mapped_len :: "'a kmem_st_scheme \<Rightarrow> u64 \<Rightarrow> u64 \<Rightarrow> nat \<Rightarrow> nat \<Rightarrow> bool" where
  "mapped_len s pt va len m \<longleftrightarrow> m \<le> len \<and> (\<forall>i<m. umapped s pt (va + of_nat i)) \<and>
     (m < len \<longrightarrow> \<not> umapped s pt (va + of_nat m))"

lemma mapped_len_all: "mapped_len s pt va len len \<longleftrightarrow> (\<forall>i<len. umapped s pt (va + of_nat i))"
  by (simp add: mapped_len_def)

lemma mapped_len_unique: "mapped_len s pt va len m \<Longrightarrow> mapped_len s pt va len k \<Longrightarrow> m = k"
  unfolding mapped_len_def by (metis leD nat_neq_iff order_less_le_trans)

lemma mapped_len_chunk:
  assumes "umapped s pt va" and "0 < len"
    and "mapped_len s pt (PGROUNDDOWN va + 4096) (len - chunk va len) m"
  shows "mapped_len s pt va len (chunk va len + m)"
proof -
  let ?n = "chunk va len"
  have n: "?n \<le> len" by (rule chunk_le)
  have first: "umapped s pt (va + of_nat i)" if "i < ?n" for i
    using umapped_page page_off(1) [OF that] assms(1) by blast
  show ?thesis
  proof (cases "?n < len")
    case True
    note eq = chunk_next [OF True]
    have "umapped s pt (va + of_nat i)" if "i < ?n + m" for i
    proof (cases "i < ?n")
      case False
      then have "i - ?n < m" using that by simp
      then have "umapped s pt (va + of_nat ?n + of_nat (i - ?n))"
        using assms(3) by (simp add: mapped_len_def eq)
      then show ?thesis using False by (simp add: of_nat_diff)
    qed (rule first)
    then show ?thesis using assms(3) True by (auto simp: mapped_len_def eq algebra_simps)
  next
    case False
    then show ?thesis using first assms(3) n by (auto simp: mapped_len_def)
  qed
qed

lemma user_bytes_chunk:
  assumes "umapped s pt va" and "0 < len"
    and "mapped_len s pt (PGROUNDDOWN va + 4096) (len - chunk va len) m"
  shows "map (\<lambda>i. umem s pt (va + of_nat i)) [0..<chunk va len + m] =
    get_bytes (pmem s) (PTE2PA (upte s pt va) + (va - PGROUNDDOWN va)) (chunk va len) @
    map (\<lambda>i. umem s pt (PGROUNDDOWN va + 4096 + of_nat i)) [0..<m]"
proof -
  let ?n = "chunk va len" and ?va' = "PGROUNDDOWN va + 4096"
  have "map (\<lambda>i. umem s pt (?va' + of_nat i)) [0..<m] =
      map (\<lambda>i. umem s pt (va + of_nat i)) [?n..<?n + m]"
  proof (cases "m = 0")
    case False
    then have "?n < len" using assms(3) by (auto simp: mapped_len_def)
    from chunk_next [OF this] show ?thesis
      by (simp add: map_add_upt [of ?n m, symmetric] algebra_simps comp_def del: map_add_upt)
  qed simp
  moreover have "get_bytes (pmem s) (PTE2PA (upte s pt va) + (va - PGROUNDDOWN va)) ?n =
      map (\<lambda>i. umem s pt (va + of_nat i)) [0..<?n]"
    using page_off_upa(1) [of _ va len s pt] by (auto simp: get_bytes_map umem_def simp flip: upa_def)
  ultimately show ?thesis by (simp add: upt_add_eq_append [of 0 ?n m, simplified])
qed

lemma copyin_eq:
  assumes "pt_inv 2 s pt"
  shows "\<exists>m. mapped_len s pt va len m \<and>
    copyin pt va len s = Ok (if m = len then 0 else - 1, map (\<lambda>i. umem s pt (va + of_nat i)) [0..<m])"
proof (induction len arbitrary: va rule: less_induct)
  case (less len)
  consider "len = 0" | "0 < len" "\<not> umapped s pt va" | "0 < len" "umapped s pt va" by blast
  then show ?case
  proof cases
    case 1
    then show ?thesis by (auto simp: copyin.simps mapped_len_def)
  next
    case 2
    then show ?thesis
      using walkaddr_upte [OF assms, of va]
      by (intro exI [of _ 0]) (auto simp: copyin.simps [of _ va] mapped_len_def)
  next
    case 3
    let ?n = "chunk va len" and ?va' = "PGROUNDDOWN va + 4096"
    have "len - ?n < len" using 3 chunk_pos [of len va] by simp
    from less.IH [OF this, of ?va'] obtain m where m: "mapped_len s pt ?va' (len - ?n) m"
      "copyin pt ?va' (len - ?n) s =
         Ok (if m = len - ?n then 0 else - 1, map (\<lambda>i. umem s pt (?va' + of_nat i)) [0..<m])"
      by blast
    have "PTE2PA (upte s pt va) \<noteq> 0" using 3(2) by (simp add: umapped_def)
    then have "copyin pt va len s = Ok (if ?n + m = len then 0 else - 1,
        map (\<lambda>i. umem s pt (va + of_nat i)) [0..<?n + m])"
      using 3 m(2) walkaddr_upte [OF assms, of va] chunk_le [of va len]
      unfolding user_bytes_chunk [OF 3(2,1) m(1)] by (auto simp: copyin.simps [of _ va len] Let_def)
    then show ?thesis using mapped_len_chunk [OF 3(2,1) m(1)] by blast
  qed
qed

lemma scan_null_eq:
  "scan_null m p n =
     (if 0 \<in> set (get_bytes m p n) then (takeWhile (\<lambda>b. b \<noteq> 0) (get_bytes m p n) @ [0], True)
      else (get_bytes m p n, False))"
  by (induction n arbitrary: p) auto

lemma mapped_len_ex: "\<exists>m. mapped_len s pt va len m"
proof (induction len)
  case 0
  then show ?case by (auto simp: mapped_len_def)
next
  case (Suc len)
  then obtain m where m: "mapped_len s pt va len m" by blast
  show ?case
  proof (cases "m = len \<and> umapped s pt (va + of_nat len)")
    case True
    then have "mapped_len s pt va (Suc len) (Suc len)" using m by (auto simp: mapped_len_def less_Suc_eq)
    then show ?thesis by blast
  next
    case False
    then have "mapped_len s pt va (Suc len) m" using m by (auto simp: mapped_len_def le_less)
    then show ?thesis by blast
  qed
qed

lemma copyinstr_eq:
  assumes "pt_inv 2 s pt" and "mapped_len s pt va len m"
  shows "copyinstr pt va len s =
    (let bs = map (\<lambda>i. umem s pt (va + of_nat i)) [0..<m] in
     Ok (if 0 \<in> set bs then (0, takeWhile (\<lambda>b. b \<noteq> 0) bs @ [0]) else (- 1, bs)))"
  using assms(2)
proof (induction len arbitrary: va m rule: less_induct)
  case (less len)
  consider "len = 0" | "0 < len" "\<not> umapped s pt va" | "0 < len" "umapped s pt va" by blast
  then show ?case
  proof cases
    case 1
    then show ?thesis using less.prems by (auto simp: copyinstr.simps mapped_len_def)
  next
    case 2
    then have "m = 0" using less.prems by (cases m) (auto simp: mapped_len_def)
    with 2 show ?thesis
      using walkaddr_upte [OF assms(1), of va] by (auto simp: copyinstr.simps [of _ va])
  next
    case 3
    let ?n = "chunk va len" and ?va' = "PGROUNDDOWN va + 4096"
    let ?first = "get_bytes (pmem s) (PTE2PA (upte s pt va) + (va - PGROUNDDOWN va)) ?n"
    obtain k where k: "mapped_len s pt ?va' (len - ?n) k" using mapped_len_ex by blast
    then have m: "m = ?n + k" using mapped_len_chunk [OF 3(2,1)] less.prems mapped_len_unique by blast
    have "len - ?n < len" using 3 chunk_pos [of len va] by simp
    note IH = less.IH [OF this k]
    have "PTE2PA (upte s pt va) \<noteq> 0" using 3(2) by (simp add: umapped_def)
    then have "copyinstr pt va len s =
        (if 0 \<in> set ?first then Ok (0, takeWhile (\<lambda>b. b \<noteq> 0) ?first @ [0])
         else rbind (copyinstr pt ?va' (len - ?n) s) (\<lambda>(r, cs). Ok (r, ?first @ cs)))"
      using 3 walkaddr_upte [OF assms(1), of va]
      by (simp add: copyinstr.simps [of _ va len] Let_def scan_null_eq)
    also have "\<dots> = (let bs = ?first @ map (\<lambda>i. umem s pt (?va' + of_nat i)) [0..<k] in
        Ok (if 0 \<in> set bs then (0, takeWhile (\<lambda>b. b \<noteq> 0) bs @ [0]) else (- 1, bs)))"
      unfolding IH by (auto simp: Let_def takeWhile_append)
    finally show ?thesis unfolding m user_bytes_chunk [OF 3(2,1) k] .
  qed
qed

section \<open>Writing user memory\<close>

lemma user_write:
  assumes inv: "pt_inv 2 s pt" and q: "q \<notin> tabs 2 (pmem s) pt" "0 < refcnt s q"
    and fr: "\<And>a. \<not> in_page q a \<Longrightarrow> m a = pmem s a"
  shows "pt_inv 2 (s\<lparr>pmem := m\<rparr>) pt" and "tabs 2 m pt = tabs 2 (pmem s) pt"
    and "upte (s\<lparr>pmem := m\<rparr>) pt = upte s pt"
proof -
  have km: "kmem_inv s" and ok: "pt_ok 2 (pmem s) pt" using inv by (simp_all add: pt_inv_def)
  have "m a = pmem s a" if "p \<in> tabs 2 (pmem s) pt" "in_page p a" for p a
    using fr in_page_unique [OF tabs_aligned [OF ok that(1)] live_page_props(1) [OF km q(2)] that(2)]
      that(1) q(1) by blast
  note F = pt_frame [OF ok this]
  then show "tabs 2 m pt = tabs 2 (pmem s) pt" "upte (s\<lparr>pmem := m\<rparr>) pt = upte s pt"
    by (auto simp: upte_def fun_eq_iff)
  then show "pt_inv 2 (s\<lparr>pmem := m\<rparr>) pt"
    using F inv kmem_inv_write_page [OF km q(2) fr] by (auto simp: pt_inv_def)
qed

text \<open>The pages of a user range belong to the user (they hold no page table and are live).\<close>

definition user_pages :: "'a kmem_st_scheme \<Rightarrow> u64 \<Rightarrow> u64 \<Rightarrow> nat \<Rightarrow> bool" where
  "user_pages s pt va len \<longleftrightarrow>
     (\<forall>i<len. umapped s pt (va + of_nat i) \<longrightarrow>
        PTE2PA (upte s pt (va + of_nat i)) \<notin> tabs 2 (pmem s) pt \<and>
        0 < refcnt s (PTE2PA (upte s pt (va + of_nat i))))"

lemma put_chunk:
  assumes "umapped s pt va" and "n = chunk va len" and "length xs = n" and "page_aligned (PTE2PA (upte s pt va))"
  shows "i < n \<Longrightarrow> put_bytes (pmem s) (upa s pt va) xs (upa s pt (va + of_nat i)) = xs ! i"
    and "(\<And>i. i < n \<Longrightarrow> x \<noteq> upa s pt (va + of_nat i)) \<Longrightarrow> put_bytes (pmem s) (upa s pt va) xs x = pmem s x"
    and "\<not> in_page (PTE2PA (upte s pt va)) x \<Longrightarrow> put_bytes (pmem s) (upa s pt va) xs x = pmem s x"
proof -
  let ?o = "va - PGROUNDDOWN va"
  have n: "n \<le> 4096 - unat ?o" "n \<le> 4096" "unat ?o < 4096"
    using in_page_PGROUNDDOWN [of va] assms(2)
    by (auto simp: in_page_def word_less_nat_alt chunk_def unat_sub word_le_nat_alt)
  have put: "put_bytes (pmem s) (upa s pt va) xs x =
      (if unat (x - upa s pt va) < n then xs ! unat (x - upa s pt va) else pmem s x)" for x
    using put_bytes_apply [of xs] n(2) assms(3) by simp
  show "put_bytes (pmem s) (upa s pt va) xs (upa s pt (va + of_nat i)) = xs ! i" if "i < n"
    using that n page_off_upa(1) [of i va len s pt] assms(2) by (simp add: put unat_of_nat_less)
  show "put_bytes (pmem s) (upa s pt va) xs x = pmem s x"
    if "\<And>i. i < n \<Longrightarrow> x \<noteq> upa s pt (va + of_nat i)"
  proof -
    have "\<not> unat (x - upa s pt va) < n"
    proof
      assume l: "unat (x - upa s pt va) < n"
      then have "upa s pt (va + of_nat (unat (x - upa s pt va))) = x"
        using page_off_upa(1) [of "unat (x - upa s pt va)" va len s pt] assms(2) by simp
      with that [OF l] show False by simp
    qed
    then show ?thesis by (simp add: put)
  qed
  show "put_bytes (pmem s) (upa s pt va) xs x = pmem s x" if "\<not> in_page (PTE2PA (upte s pt va)) x"
  proof -
    have "\<not> unat (x - upa s pt va) < n"
    proof
      assume l: "unat (x - upa s pt va) < n"
      have eq: "x - PTE2PA (upte s pt va) = ?o + (x - upa s pt va)" by (simp add: upa_def)
      have "unat (?o + (x - upa s pt va)) = unat ?o + unat (x - upa s pt va)"
        using l n by (simp add: unat_word_ariths)
      then have "unat (x - PTE2PA (upte s pt va)) < 4096" unfolding eq using l n by simp
      with that show False by (simp add: in_page_def word_less_nat_alt)
    qed
    then show ?thesis by (simp add: put)
  qed
qed

definition wrote :: "'a kmem_st_scheme \<Rightarrow> u64 \<Rightarrow> u64 \<Rightarrow> u8 list \<Rightarrow> nat \<Rightarrow> 'a kmem_st_scheme \<Rightarrow> bool" where
  "wrote s pt va src m s' \<longleftrightarrow> s' = s\<lparr>pmem := pmem s'\<rparr> \<and> pt_inv 2 s' pt \<and>
     tabs 2 (pmem s') pt = tabs 2 (pmem s) pt \<and> upte s' pt = upte s pt \<and>
     (\<forall>i<m. pmem s' (upa s pt (va + of_nat i)) = src ! i) \<and>
     (\<forall>x. (\<forall>i<m. x \<noteq> upa s pt (va + of_nat i)) \<longrightarrow> pmem s' x = pmem s x)"

lemma copyout_eq:
  assumes "pt_inv 2 s pt" and "mapped_len s pt va (length src) m" and "user_pages s pt va m"
    and "inj_on (\<lambda>i. upa s pt (va + of_nat i)) {..<m}"
  shows "\<exists>s'. copyout pt va src s = Ok (if m = length src then 0 else - 1, s') \<and> wrote s pt va src m s'"
  using assms
proof (induction "length src" arbitrary: src va m s rule: less_induct)
  case less
  let ?len = "length src"
  consider "?len = 0" | "0 < ?len" "\<not> umapped s pt va" | "0 < ?len" "umapped s pt va" by blast
  then show ?case
  proof cases
    case 1
    then show ?thesis using less.prems by (auto simp: copyout.simps mapped_len_def wrote_def)
  next
    case 2
    then have "m = 0" using less.prems by (cases m) (auto simp: mapped_len_def)
    with 2 show ?thesis
      using less.prems walkaddr_upte [OF less.prems(1), of va]
      by (auto simp: copyout.simps [of _ va] wrote_def)
  next
    case 3
    define n where "n = chunk va ?len"
    let ?va' = "PGROUNDDOWN va + 4096" and ?q = "PTE2PA (upte s pt va)"
    define s1 where "s1 = s\<lparr>pmem := put_bytes (pmem s) (upa s pt va) (take n src)\<rparr>"
    have n: "0 < n" "n \<le> ?len" using 3 chunk_le by (auto simp: n_def)
    obtain k where k: "mapped_len s pt ?va' (?len - n) k" using mapped_len_ex by blast
    have m: "m = n + k"
      using mapped_len_chunk [OF 3(2,1)] k less.prems(2) mapped_len_unique unfolding n_def by blast
    have q: "?q \<notin> tabs 2 (pmem s) pt" "0 < refcnt s ?q" "?q \<noteq> 0"
      using less.prems(3) 3(2) n m by (auto simp: user_pages_def umapped_def dest!: spec [of _ 0])
    have al: "page_aligned ?q" by simp
    have ltk: "length (take n src) = n" using n by simp
    note P = put_chunk [OF 3(2) n_def ltk al]
    note W = user_write [OF less.prems(1) q(1,2) P(3), folded s1_def]
    have eqs: "upte s1 pt = upte s pt" "upa s1 pt = upa s pt" "umapped s1 pt = umapped s pt"
      "tabs 2 (pmem s1) pt = tabs 2 (pmem s) pt" "refcnt s1 = refcnt s"
      using W(2,3) by (auto simp: upa_def umapped_def fun_eq_iff s1_def)
    have va': "?va' + of_nat i = va + of_nat (n + i)" if "i < k" for i
    proof -
      have "n < ?len" using that k by (auto simp: mapped_len_def)
      then show ?thesis using chunk_next [of va ?len] by (simp add: n_def algebra_simps)
    qed
    have "mapped_len s1 pt ?va' (length (drop n src)) k" using k by (simp add: mapped_len_def eqs)
    moreover have "user_pages s1 pt ?va' k"
      unfolding user_pages_def eqs
    proof (intro allI impI)
      fix i assume i: "i < k" "umapped s pt (?va' + of_nat i)"
      have "n + i < m" using i(1) m by simp
      then show "PTE2PA (upte s pt (?va' + of_nat i)) \<notin> tabs 2 (pmem s) pt \<and>
          0 < refcnt s (PTE2PA (upte s pt (?va' + of_nat i)))"
        using less.prems(3) i(2) unfolding user_pages_def va' [OF i(1)] by blast
    qed
    moreover have "inj_on (\<lambda>i. upa s1 pt (?va' + of_nat i)) {..<k}"
    proof (rule inj_onI)
      fix i j assume ij: "i \<in> {..<k}" "j \<in> {..<k}" "upa s1 pt (?va' + of_nat i) = upa s1 pt (?va' + of_nat j)"
      then have "upa s pt (va + of_nat (n + i)) = upa s pt (va + of_nat (n + j))" using va' by (simp add: eqs)
      then have "n + i = n + j" using inj_onD [OF less.prems(4)] ij m by fastforce
      then show "i = j" by simp
    qed
    moreover have "length (drop n src) < ?len" using n 3 by simp
    ultimately obtain s' where s': "copyout pt ?va' (drop n src) s1 = Ok (if k = length (drop n src) then 0 else - 1, s')"
      "wrote s1 pt ?va' (drop n src) k s'"
      using less.hyps [of "drop n src" s1 ?va' k] W(1) by blast
    have run: "copyout pt va src s = Ok (if m = ?len then 0 else - 1, s')"
      using 3 s'(1) q(3) m n walkaddr_upte [OF less.prems(1), of va]
      by (auto simp: copyout.simps [of _ va src] Let_def s1_def upa_def simp flip: n_def)
    have keep: "pmem s' x = pmem s1 x" if "\<And>i. i < k \<Longrightarrow> x \<noteq> upa s pt (va + of_nat (n + i))" for x
      using s'(2) va' that by (simp add: wrote_def eqs)
    have "pmem s' (upa s pt (va + of_nat i)) = src ! i" if "i < m" for i
    proof (cases "i < n")
      case True
      have "upa s pt (va + of_nat i) \<noteq> upa s pt (va + of_nat (n + j))" if "j < k" for j
        using inj_onD [OF less.prems(4), of i "n + j"] \<open>i < m\<close> that m True by auto
      then show ?thesis using keep P(1) [OF True] True by (simp add: s1_def)
    next
      case False
      then have i: "i - n < k" "n + (i - n) = i" using that m by simp_all
      then have "pmem s' (upa s pt (?va' + of_nat (i - n))) = drop n src ! (i - n)"
        using s'(2) unfolding wrote_def eqs by blast
      then show ?thesis unfolding va' [OF i(1)] i(2) using n i by simp
    qed
    moreover have "pmem s' x = pmem s x" if "\<forall>i<m. x \<noteq> upa s pt (va + of_nat i)" for x
    proof -
      have "x \<noteq> upa s pt (va + of_nat (n + i))" if "i < k" for i
        using \<open>\<forall>i<m. x \<noteq> upa s pt (va + of_nat i)\<close> that m by (metis nat_add_left_cancel_less)
      then show ?thesis using keep [of x] P(2) [of x] that m by (simp add: s1_def)
    qed
    moreover have "s1\<lparr>pmem := x\<rparr> = s\<lparr>pmem := x\<rparr>" for x by (simp add: s1_def)
    then have "s' = s\<lparr>pmem := pmem s'\<rparr> \<and> pt_inv 2 s' pt \<and> tabs 2 (pmem s') pt = tabs 2 (pmem s) pt \<and>
        upte s' pt = upte s pt"
      using s'(2) unfolding wrote_def eqs by simp
    ultimately have "wrote s pt va src m s'" unfolding wrote_def by blast
    with run show ?thesis by blast
  qed
qed

section \<open>Unmapping\<close>

text \<open>
  \<open>pstep\<close>: a step that keeps the pages of a table and may lower reference counts; pages that stay
  live keep their contents.
\<close>

definition pstep :: "'a kmem_st_scheme \<Rightarrow> 'a kmem_st_scheme \<Rightarrow> u64 \<Rightarrow> bool" where
  "pstep s s' pt \<longleftrightarrow> pt_inv 2 s' pt \<and> kend s' = kend s \<and> kmem_st.more s' = kmem_st.more s \<and>
     tabs 2 (pmem s') pt = tabs 2 (pmem s) pt \<and> (\<forall>x. refcnt s' x \<le> refcnt s x) \<and>
     (\<forall>x a. 0 < refcnt s' x \<longrightarrow> x \<notin> tabs 2 (pmem s) pt \<longrightarrow> in_page x a \<longrightarrow> pmem s' a = pmem s a)"

lemma pstepD:
  assumes "pstep s s' pt"
  shows "pt_inv 2 s' pt" "kend s' = kend s" "kmem_st.more s' = kmem_st.more s"
    "tabs 2 (pmem s') pt = tabs 2 (pmem s) pt" "refcnt s' x \<le> refcnt s x"
    "0 < refcnt s' x \<Longrightarrow> x \<notin> tabs 2 (pmem s) pt \<Longrightarrow> in_page x a \<Longrightarrow> pmem s' a = pmem s a"
  using assms unfolding pstep_def by blast+

lemma pstep_refl: "pt_inv 2 s pt \<Longrightarrow> pstep s s pt"
  by (simp add: pstep_def)

lemma pstep_trans:
  assumes 1: "pstep s s1 pt" and 2: "pstep s1 s2 pt"
  shows "pstep s s2 pt"
proof -
  have "pmem s2 a = pmem s a" if "0 < refcnt s2 x" "x \<notin> tabs 2 (pmem s) pt" "in_page x a" for x a
    using pstepD(6) [OF 1 _ that(2,3)] pstepD(6) [OF 2 that(1) _ that(3)] pstepD(4) [OF 1]
      pstepD(5) [OF 2, of x] that by simp
  moreover have "refcnt s2 x \<le> refcnt s x" for x
    using pstepD(5) [OF 1, of x] pstepD(5) [OF 2, of x] by simp
  ultimately show ?thesis
    using pstepD(1-4) [OF 1] pstepD(1-4) [OF 2] unfolding pstep_def by auto
qed

lemma kfree_pstep:
  assumes inv: "pt_inv 2 s pt" and p: "0 < refcnt s p" "p \<notin> tabs 2 (pmem s) pt"
  obtains s' where "kfree p s = Ok s'" "pstep s s' pt" "refcnt s' = (refcnt s)(p := refcnt s p - 1)"
    "\<And>va. find_pte 2 (pmem s') pt va = find_pte 2 (pmem s) pt va"
    "\<And>va. pte_val 2 (pmem s') pt va = pte_val 2 (pmem s) pt va"
proof -
  have km: "kmem_inv s" and ok: "pt_ok 2 (pmem s) pt"
    and live: "\<And>q. q \<in> tabs 2 (pmem s) pt \<Longrightarrow> 0 < refcnt s q"
    using inv by (auto simp: pt_inv_def)
  obtain s' where s': "kfree p s = Ok s'" "kmem_inv s'" "refcnt s' = (refcnt s)(p := refcnt s p - 1)"
    using kpages.free_live [OF km p(1)] by blast
  have fr: "pmem s' a = pmem s a" if "0 < refcnt s x" "x \<noteq> p \<or> 1 < refcnt s p" "in_page x a" for x a
    using kpages.free_keeps_live [OF km s'(1) p(1) that] .
  have fr2: "pmem s' a = pmem s a" if "q \<in> tabs 2 (pmem s) pt" "in_page q a" for q a
    using fr [OF live [OF that(1)] _ that(2)] that(1) p(2) by blast
  have F: "tabs 2 (pmem s') pt = tabs 2 (pmem s) pt \<and> pt_ok 2 (pmem s') pt \<and>
      (\<forall>va. find_pte 2 (pmem s') pt va = find_pte 2 (pmem s) pt va \<and>
        pte_val 2 (pmem s') pt va = pte_val 2 (pmem s) pt va)"
    by (rule pt_frame [OF ok]) (rule fr2)
  have "pt_inv 2 s' pt"
    using F s' live p(2) by (auto simp: pt_inv_def)
  moreover have "pmem s' a = pmem s a" if "0 < refcnt s' x" "in_page x a" for x a
    using that s'(3) by (intro fr [of x]) (auto split: if_splits)
  ultimately have "pstep s s' pt"
    using F s'(3) kfree_frame(1,2) [OF s'(1)] unfolding pstep_def by auto
  then show thesis using that s' F by blast
qed

lemma pstep_write:
  assumes "pt_inv 2 s pt" and "find_pte 2 (pmem s) pt va = Some a"
  shows "pstep s (s\<lparr>pmem := st64 (pmem s) a v\<rparr>) pt"
proof -
  have "tabs 2 (st64 (pmem s) a v) pt = tabs 2 (pmem s) pt"
    using pte_write [of 2 "pmem s" pt va a v] assms by (auto simp: pt_inv_def)
  then show ?thesis using ptgrow_write(1) [OF assms, of v] by (auto simp: ptgrow_def pstep_def)
qed

definition frames :: "'a kmem_st_scheme \<Rightarrow> u64 \<Rightarrow> u64 \<Rightarrow> nat \<Rightarrow> u64 list" where
  "frames s pt a n = map (\<lambda>i. PTE2PA (pte_val 2 (pmem s) pt (a + of_nat (4096 * i)))) [0..<n]"

lemma frames_Suc:
  "frames s pt a (Suc n) = PTE2PA (pte_val 2 (pmem s) pt a) # frames s pt (a + 4096) n"
  by (simp add: frames_def map_upt_Suc algebra_simps del: upt_Suc)

definition leaf_pte :: "u64 \<Rightarrow> bool" where
  "leaf_pte e \<longleftrightarrow> pte_valid e \<and> PTE_FLAGS e \<noteq> PTE_V"

lemma unmap_pages:
  assumes "pt_inv 2 s pt" and "page_aligned a" and "unat a + 4096 * n \<le> 2 ^ 38"
    and "\<And>va. page_aligned va \<Longrightarrow> in_rng a n va \<Longrightarrow> leaf_pte (pte_val 2 (pmem s) pt va)"
    and "do_free \<Longrightarrow> set (frames s pt a n) \<inter> tabs 2 (pmem s) pt = {}"
    and "do_free \<Longrightarrow> \<forall>x. count_list (frames s pt a n) x \<le> refcnt s x"
  shows "\<exists>s'. uvmunmap_loop pt a (a + of_nat (4096 * n)) do_free s = Ok s' \<and> pstep s s' pt \<and>
    (\<forall>x. refcnt s' x = refcnt s x - (if do_free then count_list (frames s pt a n) x else 0)) \<and>
    (\<forall>va. page_aligned va \<longrightarrow> va < MAXVA \<longrightarrow>
       pte_val 2 (pmem s') pt va = (if in_rng a n va then 0 else pte_val 2 (pmem s) pt va))"
  using assms
proof (induction n arbitrary: a s)
  case 0
  then show ?case
    by (auto simp: uvmunmap_loop.simps in_rng_def frames_def intro: pstep_refl)
next
  case (Suc n)
  have sm: "unat a + 4096 * Suc n < 2 ^ 64" and a: "a < MAXVA"
    using Suc.prems(3) by (simp_all add: word_less_nat_alt)
  have u: "unat (a + 4096) = unat a + 4096" "page_aligned (a + 4096)"
    using page_next [OF Suc.prems(2)] sm by simp_all
  have rng: "in_rng a (Suc k) va \<longleftrightarrow> va = a \<or> in_rng (a + 4096) k va" if "page_aligned va" for k va
    using page_next(3) [OF Suc.prems(2) _ that] sm u(1)
    by (auto simp: in_rng_def word_less_nat_alt not_less)
  have nr: "\<not> in_rng (a + 4096) k a" for k by (simp add: in_rng_def u)
  have ua: "unat (a + of_nat (4096 * Suc n)) = unat a + 4096 * Suc n"
    using sm by (simp add: unat_word_ariths unat_of_nat_less del: of_nat_mult)
  then have lt: "a < a + of_nat (4096 * Suc n)" by (simp add: word_less_nat_alt)
  let ?e = "pte_val 2 (pmem s) pt a"
  have leaf: "leaf_pte ?e" using Suc.prems(2,4) by (simp add: in_rng_def)
  then have "?e \<noteq> 0" by (auto simp: leaf_pte_def)
  then obtain pte where w: "walk pt a False s = Ok (pte, s)" "pte \<noteq> 0"
    "find_pte 2 (pmem s) pt a = Some pte" "ld64 (pmem s) pte = ?e"
    using walk_found [OF Suc.prems(1) a] by metis
  let ?p = "PTE2PA ?e"
  obtain s1 where s1: "(if do_free then kfree ?p s else Ok s) = Ok s1" "pstep s s1 pt"
    "refcnt s1 = (if do_free then (refcnt s)(?p := refcnt s ?p - 1) else refcnt s)"
    "\<And>va. find_pte 2 (pmem s1) pt va = find_pte 2 (pmem s) pt va"
    "\<And>va. pte_val 2 (pmem s1) pt va = pte_val 2 (pmem s) pt va"
  proof (cases do_free)
    case True
    have "0 < count_list (frames s pt a (Suc n)) ?p" by (simp add: frames_Suc)
    then have "0 < refcnt s ?p" using Suc.prems(6) [OF True] by (meson order_less_le_trans)
    moreover have "?p \<notin> tabs 2 (pmem s) pt" using Suc.prems(5) [OF True] by (simp add: frames_Suc)
    ultimately show thesis using kfree_pstep [OF Suc.prems(1)] that True by (metis (full_types))
  next
    case False
    then show thesis using that [of s] Suc.prems(1) by (simp add: pstep_refl)
  qed
  define s2 where "s2 = s1\<lparr>pmem := st64 (pmem s1) pte 0\<rparr>"
  have f1: "find_pte 2 (pmem s1) pt a = Some pte" using w(3) s1(4) by simp
  note p12 = pstep_write [OF pstepD(1) [OF s1(2)] f1, of 0, folded s2_def]
  have m2: "pte_val 2 (pmem s2) pt va = (if va = a then 0 else pte_val 2 (pmem s) pt va)"
    if "page_aligned va" "va < MAXVA" for va
    using ptgrow_write(2) [OF pstepD(1) [OF s1(2)] f1, of 0 va] s1(5)
      same_idx_2 [OF Suc.prems(2) that(1) a that(2)] by (auto simp: s2_def)
  have r2: "refcnt s2 = refcnt s1" by (simp add: s2_def)
  have fr2: "frames s2 pt (a + 4096) n = frames s pt (a + 4096) n"
    unfolding frames_def
  proof (rule map_cong [OF refl])
    fix i assume i: "i \<in> set [0..<n]"
    let ?v = "a + 4096 + of_nat (4096 * i)"
    have "unat ?v = unat a + 4096 + 4096 * i"
      using i sm u(1) by (simp add: unat_word_ariths unat_of_nat_less del: of_nat_mult)
    then have "page_aligned ?v" "?v < MAXVA" "unat ?v \<noteq> unat a"
      using Suc.prems(2,3) i by (auto simp: page_aligned_dvd word_less_nat_alt)
    moreover from this(3) have "?v \<noteq> a" by metis
    ultimately show "PTE2PA (pte_val 2 (pmem s2) pt ?v) = PTE2PA (pte_val 2 (pmem s) pt ?v)" using m2 by simp
  qed
  note inv2 = pstepD(1) [OF p12]
  have t2: "tabs 2 (pmem s2) pt = tabs 2 (pmem s) pt" using pstepD(4) [OF p12] pstepD(4) [OF s1(2)] by simp
  have "leaf_pte (pte_val 2 (pmem s2) pt va)" if "page_aligned va" "in_rng (a + 4096) n va" for va
  proof -
    have "va < MAXVA" using that(2) u Suc.prems(3) by (simp add: in_rng_def word_less_nat_alt)
    then show ?thesis using m2 [OF that(1)] that nr rng [OF that(1)] Suc.prems(4) [OF that(1)] by auto
  qed
  moreover have "\<forall>x. count_list (frames s2 pt (a + 4096) n) x \<le> refcnt s2 x" if do_free
  proof
    fix x
    have "count_list (frames s pt a (Suc n)) x \<le> refcnt s x" using Suc.prems(6) [OF that] by blast
    then show "count_list (frames s2 pt (a + 4096) n) x \<le> refcnt s2 x"
      using s1(3) that by (auto simp: frames_Suc r2 fr2)
  qed
  moreover have "set (frames s2 pt (a + 4096) n) \<inter> tabs 2 (pmem s2) pt = {}" if do_free
    using Suc.prems(5) [OF that] by (auto simp: frames_Suc fr2 t2)
  moreover have "unat (a + 4096) + 4096 * n \<le> 2 ^ 38" using u Suc.prems(3) by simp
  ultimately obtain s' where s': "uvmunmap_loop pt (a + 4096) (a + 4096 + of_nat (4096 * n)) do_free s2 = Ok s'"
    "pstep s2 s' pt" "\<And>x. refcnt s' x = refcnt s2 x - (if do_free then count_list (frames s2 pt (a + 4096) n) x else 0)"
    "\<And>va. page_aligned va \<Longrightarrow> va < MAXVA \<Longrightarrow>
       pte_val 2 (pmem s') pt va = (if in_rng (a + 4096) n va then 0 else pte_val 2 (pmem s2) pt va)"
    using Suc.IH [OF inv2 u(2)] by metis
  have run: "uvmunmap_loop pt a (a + of_nat (4096 * Suc n)) do_free s = Ok s'"
    using w s1(1) s'(1) leaf lt
    by (subst uvmunmap_loop.simps, cases do_free)
      (simp_all add: Let_def leaf_pte_def s2_def algebra_simps)
  moreover have "pte_val 2 (pmem s') pt va = (if in_rng a (Suc n) va then 0 else pte_val 2 (pmem s) pt va)"
    if "page_aligned va" "va < MAXVA" for va
    using s'(4) [OF that] m2 [OF that] rng [OF that(1)] by auto
  moreover have "refcnt s' x = refcnt s x - (if do_free then count_list (frames s pt a (Suc n)) x else 0)" for x
    using s'(3) [of x] s1(3) by (auto simp: frames_Suc r2 fr2)
  ultimately show ?case
    using pstep_trans [OF pstep_trans [OF s1(2) p12] s'(2)] by blast
qed

section \<open>A concrete address space\<close>

text \<open>
  Six live pages above the kernel: the first three are a page table mapping virtual page 0 to the
  fourth page with all user permissions, the fifth is an empty page table.
\<close>

definition pg :: "u64 \<Rightarrow> u64" where
  "pg i = 0x87FFA000 + 4096 * i"

definition demo_mem :: mem where
  "demo_mem = st64 (st64 (st64 (\<lambda>_. 0) (pg 0 + 8 * 0) (pte_of (pg 1) 0)) (pg 1 + 8 * 0) (pte_of (pg 2) 0))
     (pg 2 + 8 * 0) (pte_of (pg 3) 30)"

definition demo :: kmem_st where
  "demo = \<lparr>pmem = demo_mem, kend = pg 0, freelist = 0, kref = (\<lambda>_. 1)\<rparr>"

lemma pg_aligned: "i < 6 \<Longrightarrow> page_aligned (pg i)"
proof -
  assume "i < 6"
  then have "unat (pg i) = 2281676800 + 4096 * unat i"
    by (simp add: pg_def unat_word_ariths word_less_nat_alt)
  then show ?thesis by (simp add: page_aligned_dvd)
qed

lemma pg_eq: "i < 6 \<Longrightarrow> j < 6 \<Longrightarrow> pg i = pg j \<longleftrightarrow> i = j"
proof -
  assume "i < 6" "j < 6"
  then have "unat (pg i) = 2281676800 + 4096 * unat i" "unat (pg j) = 2281676800 + 4096 * unat j"
    by (simp_all add: pg_def unat_word_ariths word_less_nat_alt)
  then show ?thesis by (auto simp: word_unat_eq_iff)
qed

lemma pg_disjoint: "in_page (pg i) a \<Longrightarrow> i < 6 \<Longrightarrow> j < 6 \<Longrightarrow> i \<noteq> j \<Longrightarrow> \<not> in_page (pg j) a"
  using in_page_unique [OF pg_aligned [of i] pg_aligned [of j], of a] pg_eq [of i j] by blast

lemma demo_managed: "managed demo = pg ` {0, 1, 2, 3, 4, 5}"
proof -
  have "pa \<in> pg ` {0, 1, 2, 3, 4, 5}" if pa: "page_aligned pa" "pg 0 \<le> pa" "pa < PHYSTOP" for pa
  proof -
    obtain j where j: "unat pa = 4096 * j" using pa(1) by (auto simp: page_aligned_dvd elim!: dvdE)
    then have "j \<in> {557050, 557051, 557052, 557053, 557054, 557055}"
      using pa(2,3) by (auto simp: pg_def word_le_nat_alt word_less_nat_alt)
    then have "unat pa \<in> unat ` pg ` {0, 1, 2, 3, 4, 5}" using j by (auto simp: pg_def)
    then show ?thesis by (auto simp: word_unat_eq_iff)
  qed
  moreover have "page_aligned (pg i) \<and> pg 0 \<le> pg i \<and> pg i < PHYSTOP" if "i \<in> {0, 1, 2, 3, 4, 5}" for i
    using that pg_aligned [of i] by (auto simp: pg_def)
  ultimately show ?thesis by (auto simp: managed_def demo_def)
qed

lemma demo_refcnt: "refcnt demo pa = (if pa \<in> pg ` {0, 1, 2, 3, 4, 5} then 1 else 0)"
  by (simp add: refcnt_def demo_managed) (simp add: demo_def)

lemma demo_kmem_inv: "kmem_inv demo"
proof -
  have "kmem_wf demo []"
    unfolding kmem_wf_def demo_managed by (simp add: demo_refcnt) (simp add: demo_def pg_def)
  then show ?thesis by (auto simp: kmem_inv_def)
qed

lemma ent_zero [simp]: "ent (\<lambda>_. 0) p i = 0"
  by (simp add: ent_def ld64_def)

lemma demo_ent:
  assumes "i < 512" and "j < 6"
  shows "ent demo_mem (pg j) i =
    (if i = 0 then if j = 0 then pte_of (pg 1) 0 else if j = 1 then pte_of (pg 2) 0
       else if j = 2 then pte_of (pg 3) 30 else 0 else 0)"
  using assms pg_aligned [of j] pg_aligned [of 0] pg_aligned [of 1] pg_aligned [of 2]
    pg_eq [of 0 j] pg_eq [of 1 j] pg_eq [of 2 j]
  by (auto simp: demo_mem_def ent_st64 simp del: mult_zero_right)

lemma pg_small: "j < 6 \<Longrightarrow> pg j < 2 ^ 56"
proof -
  assume "j < 6"
  then have "unat (pg j) = 2281676800 + 4096 * unat j" "unat j < 6"
    by (simp_all add: pg_def unat_word_ariths word_less_nat_alt)
  then show ?thesis by (simp add: word_less_nat_alt)
qed

lemma demo_child: "PTE2PA (pte_of (pg 1) 0) = pg 1" "PTE2PA (pte_of (pg 2) 0) = pg 2"
  "PTE2PA (pte_of (pg 3) 30) = pg 3"
  using pg_aligned [of 1] pg_aligned [of 2] pg_aligned [of 3] pg_small [of 1] pg_small [of 2] pg_small [of 3]
  by simp_all

lemma demo_pt: "pt_ok 2 demo_mem (pg 0)" "tabs 2 demo_mem (pg 0) = {pg 0, pg 1, pg 2}"
proof -
  have two: "2 = Suc (Suc 0)" by simp
  have e: "ent demo_mem (pg 0) i = (if i = 0 then pte_of (pg 1) 0 else 0)"
    "ent demo_mem (pg 1) i = (if i = 0 then pte_of (pg 2) 0 else 0)" if "i < 512" for i
    using demo_ent [OF that, of 0] demo_ent [OF that, of 1] by simp_all
  have t1: "tabs (Suc 0) demo_mem (pg 1) = {pg 1, pg 2}"
    using e(2) demo_child by (auto simp: tabs.simps(2) split: if_splits)
  show "tabs 2 demo_mem (pg 0) = {pg 0, pg 1, pg 2}"
    unfolding two using e(1) demo_child t1 by (auto simp: tabs.simps(2) [of "Suc 0"] split: if_splits)
  have "pt_ok (Suc 0) demo_mem (pg 1)"
    using e(2) demo_child pg_aligned [of 1] pg_aligned [of 2] pg_eq [of 1 2] by (auto simp: pt_ok.simps(2))
  then show "pt_ok 2 demo_mem (pg 0)"
    unfolding two using e(1) demo_child t1 pg_aligned [of 0] pg_eq [of 0 1] pg_eq [of 0 2]
    by (auto simp: pt_ok.simps(2) [of "Suc 0"])
qed

lemma demo_zero_page:
  assumes "in_page (pg 4) a"
  shows "demo_mem a = 0"
proof -
  have "\<not> in_page (pg 0) a" "\<not> in_page (pg 1) a" "\<not> in_page (pg 2) a"
    using pg_disjoint [OF assms] by simp_all
  then show ?thesis
    unfolding demo_mem_def using pg_aligned [of 0] pg_aligned [of 1] pg_aligned [of 2]
    by (simp add: st64_frame del: mult_zero_right)
qed

lemma demo_pt_inv: "pt_inv 2 demo (pg 0)" "pt_inv 2 demo (pg 4)" "tabs 2 (pmem demo) (pg 0) = {pg 0, pg 1, pg 2}"
  "tabs 2 (pmem demo) (pg 4) = {pg 4}" "pte_val 2 (pmem demo) (pg 4) va = 0"
proof -
  show t: "tabs 2 (pmem demo) (pg 0) = {pg 0, pg 1, pg 2}" by (simp add: demo_def demo_pt)
  show "pt_inv 2 demo (pg 0)"
    using t demo_kmem_inv demo_pt by (auto simp: pt_inv_def demo_refcnt) (simp add: demo_def)
  note Z = zero_table [OF pg_aligned [of 4], of demo_mem 2] demo_zero_page
  show t4: "tabs 2 (pmem demo) (pg 4) = {pg 4}" using Z by (simp add: demo_def)
  show "pte_val 2 (pmem demo) (pg 4) va = 0" using Z by (simp add: demo_def)
  show "pt_inv 2 demo (pg 4)"
    using t4 demo_kmem_inv Z(1) demo_zero_page by (auto simp: pt_inv_def demo_refcnt) (simp add: demo_def)
qed

lemmas pte_val_levels = pte_val_Suc [of 1, unfolded Suc_1] pte_val_Suc [of 0, unfolded One_nat_def [symmetric]] pte_val_0

lemma demo_pte: "pte_val 2 (pmem demo) (pg 0) 0 = pte_of (pg 3) 30"
proof -
  have px: "PX l 0 = 0" for l by (simp add: PX_def)
  have e: "ent demo_mem (pg 0) 0 = pte_of (pg 1) 0" "ent demo_mem (pg 1) 0 = pte_of (pg 2) 0"
    "ent demo_mem (pg 2) 0 = pte_of (pg 3) 30"
    using demo_ent [of 0 0] demo_ent [of 0 1] demo_ent [of 0 2] by simp_all
  show ?thesis by (simp add: pte_val_levels px demo_def e demo_child del: One_nat_def)
qed

lemma demo_user:
  assumes "i < 4096"
  shows "umapped demo (pg 0) (of_nat i)" "PTE2PA (upte demo (pg 0) (of_nat i)) = pg 3"
    "upa demo (pg 0) (of_nat i) = pg 3 + of_nat i"
proof -
  have u: "unat (of_nat i :: u64) = i" using assms by (intro unat_of_nat_less) simp
  then have "in_page 0 (of_nat i :: u64)" using assms by (simp add: in_page_def word_less_nat_alt)
  then have p: "PGROUNDDOWN (of_nat i) = 0" by (intro PGROUNDDOWN_unique) simp_all
  then have e: "upte demo (pg 0) (of_nat i) = pte_of (pg 3) 30" by (simp add: upte_def demo_pte)
  then show q: "PTE2PA (upte demo (pg 0) (of_nat i)) = pg 3" by (simp add: demo_child)
  show "upa demo (pg 0) (of_nat i) = pg 3 + of_nat i" using p q by (simp add: upa_def)
  have "bit (pte_of (pg 3) 30 AND 16) 4" by (simp add: pte_of_def bit_simps bit_numeral_rec)
  then have "pte_of (pg 3) 30 AND 16 \<noteq> 0" by (metis bit_0_eq bot_apply bot_bool_def)
  moreover have "pg 3 \<noteq> 0" by (simp add: pg_def)
  ultimately show "umapped demo (pg 0) (of_nat i)"
    using e q u assms by (simp add: umapped_def word_less_nat_alt)
qed

section \<open>Properties\<close>

text \<open>
  C5: what \<^verbatim>\<open>copyout\<close> writes to user memory, \<^verbatim>\<open>copyin\<close> reads back: when every byte of the range is mapped
  for the user, on pages that belong to the user and with no page mapped twice, \<^verbatim>\<open>copyout\<close> returns 0,
  changes no byte outside the range (so no page table and no other page), and \<^verbatim>\<open>copyin\<close> of the same
  range then returns 0 with exactly the bytes written.
\<close>

theorem copyout_copyin:
  assumes "pt_inv 2 s pt" and "\<forall>i<length src. umapped s pt (va + of_nat i)"
    and "user_pages s pt va (length src)" and "inj_on (\<lambda>i. upa s pt (va + of_nat i)) {..<length src}"
  shows "\<exists>s'. copyout pt va src s = Ok (0, s') \<and> copyin pt va (length src) s' = Ok (0, src) \<and>
    (\<forall>x. (\<forall>i<length src. x \<noteq> upa s pt (va + of_nat i)) \<longrightarrow> pmem s' x = pmem s x)"
proof -
  have m: "mapped_len s pt va (length src) (length src)" using assms(2) by (simp add: mapped_len_all)
  obtain s' where s': "copyout pt va src s = Ok (0, s')" "wrote s pt va src (length src) s'"
    using copyout_eq [OF assms(1) m assms(3,4)] by auto
  then have w: "pt_inv 2 s' pt" "upte s' pt = upte s pt" by (auto simp: wrote_def)
  then have eq: "umapped s' pt = umapped s pt" "upa s' pt = upa s pt"
    by (auto simp: umapped_def upa_def fun_eq_iff)
  have "mapped_len s' pt va (length src) (length src)" using m by (simp add: mapped_len_def eq)
  moreover obtain k where "mapped_len s' pt va (length src) k" "copyin pt va (length src) s' =
      Ok (if k = length src then 0 else - 1, map (\<lambda>i. umem s' pt (va + of_nat i)) [0..<k])"
    using copyin_eq [OF w(1)] by blast
  ultimately have "copyin pt va (length src) s' = Ok (0, map (\<lambda>i. umem s' pt (va + of_nat i)) [0..<length src])"
    using mapped_len_unique by fastforce
  moreover have "map (\<lambda>i. umem s' pt (va + of_nat i)) [0..<length src] = src"
    using s'(2) by (intro nth_equalityI) (auto simp: wrote_def umem_def eq)
  ultimately show ?thesis using s' by (auto simp: wrote_def)
qed

theorem copyout_copyin_witness:
  "\<exists>s'. copyout (pg 0) 0 [7, 8, 9] demo = Ok (0, s') \<and> copyin (pg 0) 0 3 s' = Ok (0, [7, 8, 9])"
proof -
  have inj: "inj_on (\<lambda>i. upa demo (pg 0) (0 + of_nat i)) {..<length [7, 8, 9 :: u8]}"
    using demo_user(3) [of 0] demo_user(3) [of 1] demo_user(3) [of 2]
    by (auto simp: inj_on_def less_Suc_eq)
  have "pg 3 \<noteq> pg 0" "pg 3 \<noteq> pg 1" "pg 3 \<noteq> pg 2" by (simp_all add: pg_eq)
  then have up: "user_pages demo (pg 0) 0 (length [7, 8, 9 :: u8])"
    by (auto simp: user_pages_def demo_user demo_pt_inv demo_refcnt)
  have "\<forall>i<length [7, 8, 9 :: u8]. umapped demo (pg 0) (0 + of_nat i)" by (simp add: demo_user)
  then obtain s' where "copyout (pg 0) 0 [7, 8, 9] demo = Ok (0, s')"
    "copyin (pg 0) 0 (length [7, 8, 9 :: u8]) s' = Ok (0, [7, 8, 9])"
    using copyout_copyin [OF demo_pt_inv(1) _ up inj] by blast
  then show ?thesis by (auto simp: numeral_3_eq_3)
qed

text \<open>
  C14: \<^verbatim>\<open>copyinstr\<close> returns 0 exactly when a NUL lies in the mapped leading part of the range (at most
  \<open>len\<close> bytes); it has then stored the user's string with its terminator. Otherwise it returns -1.
\<close>

theorem copyinstr_correct:
  assumes "pt_inv 2 s pt" and "mapped_len s pt va len m"
  shows "copyinstr pt va len s =
    (let bs = map (\<lambda>i. umem s pt (va + of_nat i)) [0..<m] in
     Ok (if 0 \<in> set bs then (0, takeWhile (\<lambda>b. b \<noteq> 0) bs @ [0]) else (- 1, bs)))"
  using assms by (rule copyinstr_eq)

theorem copyinstr_correct_witness: "copyinstr (pg 0) 0 4 demo = Ok (0, [0])"
proof -
  have mem: "pmem demo (pg 3 + of_nat i) = 0" if "i < 4" for i
  proof -
    have "in_page (pg 3) (pg 3 + of_nat i)"
      using that by (simp add: word_less_nat_alt unat_of_nat_less)
    then have "\<not> in_page (pg 0) (pg 3 + of_nat i)" "\<not> in_page (pg 1) (pg 3 + of_nat i)"
      "\<not> in_page (pg 2) (pg 3 + of_nat i)"
      using pg_disjoint [of 3 "pg 3 + of_nat i"] by simp_all
    then show ?thesis
      unfolding demo_def demo_mem_def using pg_aligned [of 0] pg_aligned [of 1] pg_aligned [of 2]
      by (simp add: st64_frame del: mult_zero_right)
  qed
  have "mapped_len demo (pg 0) 0 4 4" by (simp add: mapped_len_all demo_user)
  from copyinstr_correct [OF demo_pt_inv(1) this] show ?thesis
    using mem [of 0] mem [of 1] mem [of 2] mem [of 3] demo_user(3) [of 0] demo_user(3) [of 1]
      demo_user(3) [of 2] demo_user(3) [of 3]
    by (simp add: umem_def eval_nat_numeral)
qed

text \<open>
  C13: \<^verbatim>\<open>uvmunmap\<close> of \<open>n\<close> pages that are all mapped as leaves returns, clears exactly those entries, keeps
  the table a tree of live pages, and, when asked to free, drops each frame's count once per mapping
  removed; every page that stays live keeps its contents.
\<close>

theorem uvmunmap_correct:
  assumes "pt_inv 2 s pt" and "page_aligned a" and "unat a + 4096 * n \<le> 2 ^ 38"
    and "\<forall>va. page_aligned va \<longrightarrow> in_rng a n va \<longrightarrow> leaf_pte (pte_val 2 (pmem s) pt va)"
    and "set (frames s pt a n) \<inter> tabs 2 (pmem s) pt = {}"
    and "\<forall>x. count_list (frames s pt a n) x \<le> refcnt s x"
  shows "\<exists>s'. uvmunmap pt a (of_nat n) do_free s = Ok s' \<and> pt_inv 2 s' pt \<and>
    (\<forall>x. refcnt s' x = refcnt s x - (if do_free then count_list (frames s pt a n) x else 0)) \<and>
    (\<forall>va. page_aligned va \<longrightarrow> va < MAXVA \<longrightarrow>
       pte_val 2 (pmem s') pt va = (if in_rng a n va then 0 else pte_val 2 (pmem s) pt va)) \<and>
    (\<forall>x b. 0 < refcnt s' x \<longrightarrow> x \<notin> tabs 2 (pmem s) pt \<longrightarrow> in_page x b \<longrightarrow> pmem s' b = pmem s b)"
proof -
  have al: "a mod 4096 = 0" using assms(2) by (simp add: page_aligned_mod)
  have "a + of_nat n * 4096 = a + of_nat (4096 * n)" by simp
  then have "uvmunmap pt a (of_nat n) do_free s = uvmunmap_loop pt a (a + of_nat (4096 * n)) do_free s"
    using al unfolding uvmunmap_def by argo
  moreover obtain s' where "uvmunmap_loop pt a (a + of_nat (4096 * n)) do_free s = Ok s'" "pstep s s' pt"
    "\<forall>x. refcnt s' x = refcnt s x - (if do_free then count_list (frames s pt a n) x else 0)"
    "\<forall>va. page_aligned va \<longrightarrow> va < MAXVA \<longrightarrow>
       pte_val 2 (pmem s') pt va = (if in_rng a n va then 0 else pte_val 2 (pmem s) pt va)"
    using unmap_pages [OF assms(1-3), of do_free] assms(4-6) by blast
  ultimately show ?thesis using pstepD(1,6) by metis
qed

theorem uvmunmap_correct_witness:
  "\<exists>s'. uvmunmap (pg 0) 0 1 True demo = Ok s' \<and> refcnt s' (pg 3) = 0 \<and> pte_val 2 (pmem s') (pg 0) 0 = 0"
proof -
  have f: "frames demo (pg 0) 0 1 = [pg 3]" by (simp add: frames_def demo_pte demo_child)
  have leaf: "leaf_pte (pte_of (pg 3) 30)" by (simp add: leaf_pte_def)
  have z: "va = 0" if "in_rng 0 1 va" "page_aligned va" for va
    using that in_rng_1 [of 0 va] by simp
  have "set (frames demo (pg 0) 0 1) \<inter> tabs 2 (pmem demo) (pg 0) = {}"
    unfolding f demo_pt_inv(3) by (simp add: pg_eq)
  moreover have "\<forall>va. page_aligned va \<longrightarrow> in_rng 0 1 va \<longrightarrow> leaf_pte (pte_val 2 (pmem demo) (pg 0) va)"
    using z leaf demo_pte by metis
  moreover have "\<forall>x. count_list (frames demo (pg 0) 0 1) x \<le> refcnt demo x"
    unfolding f by (auto simp: demo_refcnt)
  ultimately obtain s' where s': "uvmunmap (pg 0) 0 (of_nat 1) True demo = Ok s'"
    "refcnt s' (pg 3) = refcnt demo (pg 3) - count_list (frames demo (pg 0) 0 1) (pg 3)"
    "pte_val 2 (pmem s') (pg 0) 0 = (if in_rng 0 1 0 then 0 else pte_val 2 (pmem demo) (pg 0) 0)"
    using uvmunmap_correct [OF demo_pt_inv(1), of 0 1 True] by auto
  then show ?thesis unfolding f by (simp add: demo_refcnt in_rng_def)
qed

lemma mappages_range:
  assumes "page_aligned a" and "unat a + 4096 * Suc n \<le> 2 ^ 38"
  shows "mappages pt a (of_nat (4096 * Suc n)) pa perm s =
    mappages_loop pt a (a + of_nat (4096 * n)) pa perm s"
proof -
  let ?l = "a + of_nat (4096 * n)"
  have u: "unat (of_nat (4096 * Suc n) :: u64) = 4096 * Suc n" "unat (of_nat (4096 * n) :: u64) = 4096 * n"
    using assms(2) by (intro unat_of_nat_less; simp)+
  have "unat ?l = unat a + 4096 * n"
    using assms(2) u(2) by (simp add: unat_word_ariths del: of_nat_mult)
  then have al: "page_aligned ?l" using assms(1) by (simp add: page_aligned_dvd)
  have "in_page ?l (?l + 4095)" by (simp only: in_page_add) simp
  from PGROUNDDOWN_unique [OF al this] have "PGROUNDDOWN (?l + 4095) = ?l" .
  moreover have "a + of_nat (4096 * Suc n) - 1 = ?l + 4095" by simp
  ultimately have "PGROUNDDOWN (a + of_nat (4096 * Suc n) - 1) = ?l" by metis
  moreover have "(of_nat (4096 * Suc n) :: u64) \<noteq> 0" using u(1) by (metis Zero_not_Suc mult_is_0 unat_0 zero_neq_numeral)
  ultimately show ?thesis using assms(1) by (simp add: mappages_def del: of_nat_mult)
qed

text \<open>
  C4: mapping \<open>n\<close> pages that are not yet mapped never panics. On success \<^verbatim>\<open>mappages\<close> installs exactly the
  requested entries and returns 0. If it returns -1 there is no free page left and a proper prefix of
  the range is mapped. In both cases every other mapping is unchanged, every page live before keeps
  its count and, unless it belongs to the table, its contents.
\<close>

theorem mappages_correct:
  assumes "pt_inv 2 s pt" and "page_aligned a" and "0 < n" and "unat a + 4096 * n \<le> 2 ^ 38"
    and "\<forall>va. page_aligned va \<longrightarrow> in_rng a n va \<longrightarrow> \<not> pte_valid (pte_val 2 (pmem s) pt va)"
  shows "\<exists>r s' k. mappages pt a (of_nat (4096 * n)) pa perm s = Ok (r, s') \<and> pt_inv 2 s' pt \<and>
    (r = 0 \<and> k = n \<or> r = - 1 \<and> k < n \<and> full s') \<and>
    (\<forall>va. page_aligned va \<longrightarrow> va < MAXVA \<longrightarrow> pte_val 2 (pmem s') pt va =
       (if in_rng a k va then pte_of (pa + (va - a)) perm else pte_val 2 (pmem s) pt va)) \<and>
    (\<forall>x. 0 < refcnt s x \<longrightarrow> refcnt s' x = refcnt s x \<and>
       (x \<notin> tabs 2 (pmem s) pt \<longrightarrow> (\<forall>b. in_page x b \<longrightarrow> pmem s' b = pmem s b)))"
proof -
  obtain m where n: "n = Suc m" using assms(3) by (cases n) auto
  have b: "unat a + 4096 * Suc m \<le> 2 ^ 38" using assms(4) n by simp
  obtain r s' k where m: "mappages_loop pt a (a + of_nat (4096 * m)) pa perm s = Ok (r, s')" "ptgrow 2 s s' pt"
    "r = 0 \<and> k = Suc m \<or> r = - 1 \<and> k \<le> m \<and> full s'"
    "\<forall>va. page_aligned va \<longrightarrow> va < MAXVA \<longrightarrow> pte_val 2 (pmem s') pt va =
       (if in_rng a k va then pte_of (pa + (va - a)) perm else pte_val 2 (pmem s) pt va)"
    using mappages_n [OF assms(1,2) b, of pa perm] assms(5) n by blast
  have "\<forall>x. 0 < refcnt s x \<longrightarrow> refcnt s' x = refcnt s x \<and>
       (x \<notin> tabs 2 (pmem s) pt \<longrightarrow> (\<forall>b. in_page x b \<longrightarrow> pmem s' b = pmem s b))"
    using ptgrow_live(1) [OF m(2)] ptgrowD(8) [OF m(2)] by blast
  then show ?thesis
    using m ptgrowD(1) [OF m(2)] mappages_range [OF assms(2) b, of pt pa perm s] unfolding n
    by (intro exI [of _ r] exI [of _ s'] exI [of _ k]) (auto simp: less_Suc_eq_le)
qed

theorem mappages_correct_witness:
  "\<exists>r s'. mappages (pg 0) 4096 (of_nat (4096 * 1)) (pg 5) 6 demo = Ok (r, s') \<and> pt_inv 2 s' (pg 0)"
proof -
  have "\<not> pte_valid (pte_val 2 (pmem demo) (pg 0) va)" if "page_aligned va" "in_rng 4096 1 va" for va
  proof -
    have "va = 4096" using that in_rng_1 [of 4096 va] by (simp add: page_aligned_dvd)
    moreover have "PX 2 4096 = 0" "PX 1 4096 = 0" "PX 0 4096 = 1" by (simp_all add: PX_def)
    moreover have "ent demo_mem (pg 0) 0 = pte_of (pg 1) 0" "ent demo_mem (pg 1) 0 = pte_of (pg 2) 0"
      "ent demo_mem (pg 2) 1 = 0"
      using demo_ent [of 0 0] demo_ent [of 0 1] demo_ent [of 1 2] by simp_all
    ultimately show ?thesis by (simp add: pte_val_levels demo_def demo_child del: One_nat_def)
  qed
  then show ?thesis
    using mappages_correct [OF demo_pt_inv(1), of 4096 1 "pg 5" 6] by (auto simp: page_aligned_dvd)
qed

end
