(* ===== verification/UserBytes.thy ===== *)
theory UserBytes
  imports UserSpace Proc
begin

text \<open>
  Moving single bytes between kernel and the memory of the current process, as pipes and the console do, and a
  machine with one process to evaluate them on.
\<close>

section \<open>Reading\<close>

lemma copyin_byte:
  assumes "pt_inv 2 s pt" "umapped s pt va"
  shows "copyin pt va 1 s = Ok (0, [umem s pt va])"
proof -
  have m: "mapped_len s pt va 1 1" using assms(2) by (simp add: mapped_len_def)
  obtain m where "mapped_len s pt va 1 m"
    "copyin pt va 1 s = Ok (if m = 1 then 0 else - 1, map (\<lambda>i. umem s pt (va + of_nat i)) [0..<m])"
    using copyin_eq [OF assms(1), of va 1] by blast
  then show ?thesis using mapped_len_unique [OF m] by force
qed

lemma copyin_byte_unmapped:
  assumes "pt_inv 2 s pt" "\<not> umapped s pt va"
  shows "\<exists>bs. copyin pt va 1 s = Ok (-1, bs)"
proof -
  have m: "mapped_len s pt va 1 0" using assms(2) by (simp add: mapped_len_def)
  obtain m where "mapped_len s pt va 1 m"
    "copyin pt va 1 s = Ok (if m = 1 then 0 else - 1, map (\<lambda>i. umem s pt (va + of_nat i)) [0..<m])"
    using copyin_eq [OF assms(1), of va 1] by blast
  then show ?thesis using mapped_len_unique [OF m] by force
qed

text \<open>The bytes at user address \<open>addr + i\<close> onwards.\<close>

definition ubytes :: "'a kmem_st_scheme \<Rightarrow> u64 \<Rightarrow> u64 \<Rightarrow> nat \<Rightarrow> nat \<Rightarrow> u8 list" where
  "ubytes s pt addr i m = map (\<lambda>j. umem s pt (addr + of_nat j)) [i..<i + m]"

lemma ubytes_Suc: "ubytes s pt addr i (Suc m) = umem s pt (addr + of_nat i) # ubytes s pt addr (Suc i) m"
  by (simp add: ubytes_def upt_conv_Cons del: upt_Suc)

lemma ubytes_0 [simp]: "ubytes s pt addr i 0 = []"
  by (simp add: ubytes_def)

lemma length_ubytes [simp]: "length (ubytes s pt addr i m) = m"
  by (simp add: ubytes_def)

section \<open>Writing\<close>

lemma copyout_byte:
  assumes "pt_inv 2 s pt" "umapped s pt va" "user_pages s pt va 1"
  shows "\<exists>s'. copyout pt va [c] s = Ok (0, s') \<and> wrote s pt va [c] 1 s'"
  using copyout_eq [OF assms(1) _ assms(3), of "[c]"] assms(2) by (simp add: mapped_len_def lessThan_Suc)

lemma wrote_eqs:
  assumes "wrote s pt va src m s'"
  shows "upa s' pt = upa s pt" "umapped s' pt = umapped s pt" "refcnt s' = refcnt s" "upte s' pt = upte s pt"
    "tabs 2 (pmem s') pt = tabs 2 (pmem s) pt" "pt_inv 2 s' pt"
proof -
  show 1: "upte s' pt = upte s pt" "tabs 2 (pmem s') pt = tabs 2 (pmem s) pt" "pt_inv 2 s' pt"
    using assms by (auto simp: wrote_def)
  then show "upa s' pt = upa s pt" "umapped s' pt = umapped s pt" by (auto simp: upa_def umapped_def fun_eq_iff)
  have "s' = s\<lparr>pmem := pmem s'\<rparr>" using assms by (simp add: wrote_def)
  then have "refcnt s' x = refcnt s x" for x by (metis refcnt_pmem)
  then show "refcnt s' = refcnt s" by blast
qed

text \<open>Memory after the bytes \<open>cs\<close> were stored at user addresses \<open>addr + i\<close> onwards, and nothing else changed.\<close>

definition stored :: "'a kmem_st_scheme \<Rightarrow> u64 \<Rightarrow> u64 \<Rightarrow> nat \<Rightarrow> u8 list \<Rightarrow> 'a kmem_st_scheme \<Rightarrow> bool" where
  "stored s pt addr i cs s' \<longleftrightarrow> s' = s\<lparr>pmem := pmem s'\<rparr> \<and>
     (\<forall>j<length cs. pmem s' (upa s pt (addr + of_nat (i + j))) = cs ! j) \<and>
     (\<forall>x. (\<forall>j<length cs. x \<noteq> upa s pt (addr + of_nat (i + j))) \<longrightarrow> pmem s' x = pmem s x)"

lemma stored_Cons:
  assumes w: "wrote s pt (addr + of_nat i) [c] 1 s1" and s': "stored s1 pt addr (Suc i) cs s'"
    and inj: "inj_on (\<lambda>j. upa s pt (addr + of_nat j)) {i..<Suc i + length cs}"
  shows "stored s pt addr i (c # cs) s'"
proof -
  note e = wrote_eqs [OF w]
  let ?u = "\<lambda>j. upa s pt (addr + of_nat j)"
  have 1: "s1 = s\<lparr>pmem := pmem s1\<rparr>" "pmem s1 (?u i) = c" "\<And>x. x \<noteq> ?u i \<Longrightarrow> pmem s1 x = pmem s x"
    using w by (auto simp: wrote_def)
  have 2: "s' = s1\<lparr>pmem := pmem s'\<rparr>" "\<And>j. j < length cs \<Longrightarrow> pmem s' (?u (Suc i + j)) = cs ! j"
    "\<And>x. (\<And>j. j < length cs \<Longrightarrow> x \<noteq> ?u (Suc i + j)) \<Longrightarrow> pmem s' x = pmem s1 x"
    using s' unfolding stored_def e by blast+
  have "s' = s\<lparr>pmem := pmem s'\<rparr>" by (subst 2(1), subst 1(1)) simp
  moreover have "pmem s' (?u (i + j)) = (c # cs) ! j" if "j < length (c # cs)" for j
  proof (cases j)
    case 0
    have "?u i \<noteq> ?u (Suc i + k)" if "k < length cs" for k
      using inj_onD [OF inj, of i "Suc i + k"] that by auto
    then show ?thesis using 0 1(2) 2(3) [of "?u i"] by simp
  next
    case (Suc k)
    then show ?thesis using 2(2) [of k] that by simp
  qed
  moreover have "pmem s' x = pmem s x" if "\<forall>j<length (c # cs). x \<noteq> ?u (i + j)" for x
  proof -
    have "x \<noteq> ?u (Suc i + j)" if "j < length cs" for j
      using \<open>\<forall>j<length (c # cs). x \<noteq> ?u (i + j)\<close> [rule_format, of "Suc j"] that by simp
    then have "pmem s' x = pmem s1 x" by (rule 2(3))
    moreover have "x \<noteq> ?u i" using that by (metis add_0_right length_Cons zero_less_Suc)
    ultimately show ?thesis using 1(3) by simp
  qed
  ultimately show ?thesis unfolding stored_def by blast
qed

section \<open>A machine with one process\<close>

text \<open>Facts about address spaces depend on the memory part of the state only.\<close>

lemma kmem_same:
  assumes "pmem s' = pmem s" "kend s' = kend s" "freelist s' = freelist s" "kref s' = kref s"
  shows "pt_inv l s' pt = pt_inv l s pt" "upte s' pt = upte s pt" "upa s' pt = upa s pt" "umem s' pt = umem s pt"
    "umapped s' pt = umapped s pt" "user_pages s' pt = user_pages s pt"
proof -
  note r = refcnt_cong [OF assms(2,4)] and m = managed_cong [OF assms(2)]
  show "pt_inv l s' pt = pt_inv l s pt" by (simp add: pt_inv_def kmem_inv_def kmem_wf_def assms r m)
  show u: "upte s' pt = upte s pt" by (simp add: fun_eq_iff upte_def assms)
  show "upa s' pt = upa s pt" "umem s' pt = umem s pt" "umapped s' pt = umapped s pt" "user_pages s' pt = user_pages s pt"
    by (simp_all add: fun_eq_iff upa_def umem_def umapped_def user_pages_def u assms r)
qed

text \<open>A machine whose running process has one page of memory at address 0.\<close>

definition user_machine :: proc_st where
  "user_machine = \<lparr>pmem = pmem demo, kend = kend demo, freelist = freelist demo, kref = kref demo,
     procs = [blank_proc\<lparr>p_state := RUNNING, p_pid := 1, p_pagetable := pg 0\<rparr>], curproc = Some 0,
     nextpid = 9, initproc = None, ticks = 0, intr = False, trampoline = 0x80007000, forkret_pc = 0x80001000\<rparr>"

lemma user_machine_mem:
  "pt_inv 2 user_machine (pg 0)" "upte user_machine = upte demo" "upa user_machine = upa demo" "umem user_machine = umem demo"
  "umapped user_machine = umapped demo" "user_pages user_machine = user_pages demo"
  using kmem_same [of user_machine demo] demo_pt_inv(1) by (simp_all add: fun_eq_iff user_machine_def)

lemma demo_unmapped: "\<not> umapped demo (pg 0) 4096"
proof -
  have px: "PX 2 4096 = 0" "PX 1 4096 = 0" "PX 0 4096 = 1" by (simp_all add: PX_def)
  have e: "ent demo_mem (pg 0) 0 = pte_of (pg 1) 0" "ent demo_mem (pg 1) 0 = pte_of (pg 2) 0" "ent demo_mem (pg 2) 1 = 0"
    using demo_ent [of 0 0] demo_ent [of 0 1] demo_ent [of 1 2] by simp_all
  have "PGROUNDDOWN 4096 = (4096 :: u64)" by (simp add: PGROUNDDOWN_def)
  then have "upte demo (pg 0) 4096 = 0"
    by (simp add: upte_def pte_val_levels px demo_def e demo_child del: One_nat_def)
  then show ?thesis by (simp add: umapped_def)
qed

lemma user_machine_proc: "myproc user_machine = Some 0" "p_pagetable (procs user_machine ! 0) = pg 0" "killed 0 user_machine = 0"
  by (simp_all add: user_machine_def myproc_def killed_def blank_proc_def)

lemma user_machine_bytes:
  assumes "n \<le> 4096"
  shows "\<forall>j<n. umapped user_machine (pg 0) (0 + of_nat j) \<and> user_pages user_machine (pg 0) (0 + of_nat j) 1"
    "inj_on (\<lambda>j. upa user_machine (pg 0) (0 + of_nat j)) {..<n}"
proof -
  have ne: "pg 3 \<noteq> pg 0" "pg 3 \<noteq> pg 1" "pg 3 \<noteq> pg 2" by (simp_all add: pg_eq)
  have "umapped demo (pg 0) (of_nat j) \<and> user_pages demo (pg 0) (of_nat j) 1" if "j < n" for j
    using demo_user(1,2) [of j] that assms ne by (auto simp: user_pages_def demo_pt_inv demo_refcnt)
  then show "\<forall>j<n. umapped user_machine (pg 0) (0 + of_nat j) \<and> user_pages user_machine (pg 0) (0 + of_nat j) 1"
    by (simp add: user_machine_mem)
  show "inj_on (\<lambda>j. upa user_machine (pg 0) (0 + of_nat j)) {..<n}"
  proof (rule inj_onI)
    fix i j assume ij: "i \<in> {..<n}" "j \<in> {..<n}" "upa user_machine (pg 0) (0 + of_nat i) = upa user_machine (pg 0) (0 + of_nat j)"
    then have b: "i < 4096" "j < 4096" using assms by simp_all
    have "pg 3 + of_nat i = pg 3 + of_nat j" using ij(3) unfolding user_machine_mem(3) add_0 demo_user(3) [OF b(1)] demo_user(3) [OF b(2)] .
    then have "unat (of_nat i :: u64) = unat (of_nat j :: u64)" by simp
    moreover have "unat (of_nat i :: u64) = i" "unat (of_nat j :: u64) = j" using b by (intro unat_of_nat_less, simp)+
    ultimately show "i = j" by metis
  qed
qed

end
