(* ===== verification/Pipe.thy ===== *)
theory Pipe
  imports Ring UserBytes
begin

text \<open>
  \<^verbatim>\<open>kernel/pipe.c\<close>. A pipe is a ring buffer of 512 bytes with free-running counters. Reading and writing are
  modelled up to the point where they return or sleep: a writer that finds the pipe full keeps its position
  and continues when woken. The functions get the pipe and the address \<open>a\<close> it lives at, which names its wait
  channels; \<^verbatim>\<open>pipealloc\<close> belongs with the file table.
\<close>

section \<open>The code\<close>

definition PIPESIZE :: nat where "PIPESIZE = 512"

record pipe =
  pi_data :: "u8 list"
  pi_nread :: u32
  pi_nwrite :: u32
  pi_readopen :: i32
  pi_writeopen :: i32

text \<open>\<^verbatim>\<open>pi->data[pi->nwrite++ % PIPESIZE] = ch\<close> and \<^verbatim>\<open>ch = pi->data[pi->nread++ % PIPESIZE]\<close>.\<close>

definition pipe_put :: "u8 \<Rightarrow> pipe \<Rightarrow> pipe" where
  "pipe_put ch pi = pi\<lparr>pi_data := (pi_data pi)[unat (pi_nwrite pi) mod PIPESIZE := ch], pi_nwrite := pi_nwrite pi + 1\<rparr>"

definition pipe_front :: "pipe \<Rightarrow> u8" where
  "pipe_front pi = pi_data pi ! (unat (pi_nread pi) mod PIPESIZE)"

definition pipe_get :: "pipe \<Rightarrow> pipe" where
  "pipe_get pi = pi\<lparr>pi_nread := pi_nread pi + 1\<rparr>"

definition pipe_full :: "pipe \<Rightarrow> bool" where
  "pipe_full pi \<longleftrightarrow> pi_nwrite pi = pi_nread pi + of_nat PIPESIZE"

definition pipe_empty :: "pipe \<Rightarrow> bool" where
  "pipe_empty pi \<longleftrightarrow> pi_nread pi = pi_nwrite pi"

text \<open>\<open>PRet v\<close>: the call returns \<open>v\<close>. \<open>PWait c i\<close>: it sleeps on \<open>c\<close>, having transferred \<open>i\<close> bytes.\<close>

datatype 's pipe_out = PRet int 's | PWait chan nat 's

text \<open>The loop of \<^verbatim>\<open>pipewrite\<close> from position \<open>i\<close>, \<open>k\<close> bytes to go; \<open>pr\<close> is the caller.\<close>

fun pipewrite_loop :: "u64 \<Rightarrow> nat \<Rightarrow> u64 \<Rightarrow> nat \<Rightarrow> nat \<Rightarrow> pipe \<Rightarrow> 'a proc_st_scheme \<Rightarrow> (pipe \<times> 'a proc_st_scheme) pipe_out res" where
  "pipewrite_loop a pr addr 0 i pi s = Ok (PRet (int i) (pi, wakeup (ChPipeR a) s))"
| "pipewrite_loop a pr addr (Suc k) i pi s =
     (if pi_readopen pi = 0 \<or> killed pr s \<noteq> 0 then Ok (PRet (-1) (pi, s))
      else if pipe_full pi then Ok (PWait (ChPipeW a) i (pi, wakeup (ChPipeR a) s))
      else
        rbind (copyin (p_pagetable (procs s ! pr)) (addr + of_nat i) 1 s) (\<lambda>(r, bs).
          if r = -1 then Ok (PRet (int i) (pi, wakeup (ChPipeR a) s))
          else pipewrite_loop a pr addr k (Suc i) (pipe_put (bs ! 0) pi) s))"

definition pipewrite :: "u64 \<Rightarrow> u64 \<Rightarrow> i32 \<Rightarrow> pipe \<Rightarrow> 'a proc_st_scheme \<Rightarrow> (pipe \<times> 'a proc_st_scheme) pipe_out res" where
  "pipewrite a addr n pi s = with_proc s (\<lambda>pr. pipewrite_loop a pr addr (nat (sint n)) 0 pi s)"

fun piperead_loop :: "u64 \<Rightarrow> nat \<Rightarrow> u64 \<Rightarrow> nat \<Rightarrow> nat \<Rightarrow> pipe \<Rightarrow> 'a proc_st_scheme \<Rightarrow> (pipe \<times> 'a proc_st_scheme) pipe_out res" where
  "piperead_loop a pr addr 0 i pi s = Ok (PRet (int i) (pi, wakeup (ChPipeW a) s))"
| "piperead_loop a pr addr (Suc k) i pi s =
     (if pipe_empty pi then Ok (PRet (int i) (pi, wakeup (ChPipeW a) s))
      else
        rbind (copyout (p_pagetable (procs s ! pr)) (addr + of_nat i) [pipe_front pi] s) (\<lambda>(r, s).
          if r = -1 then Ok (PRet (int i) (pipe_get pi, wakeup (ChPipeW a) s))
          else piperead_loop a pr addr k (Suc i) (pipe_get pi) s))"

definition piperead :: "u64 \<Rightarrow> u64 \<Rightarrow> i32 \<Rightarrow> pipe \<Rightarrow> 'a proc_st_scheme \<Rightarrow> (pipe \<times> 'a proc_st_scheme) pipe_out res" where
  "piperead a addr n pi s = with_proc s (\<lambda>pr.
     if pipe_empty pi \<and> pi_writeopen pi \<noteq> 0 then
       if killed pr s \<noteq> 0 then Ok (PRet (-1) (pi, s)) else Ok (PWait (ChPipeR a) 0 (pi, s))
     else piperead_loop a pr addr (nat (sint n)) 0 pi s)"

text \<open>\<^verbatim>\<open>pipeclose\<close>: the last close gives the page back.\<close>

definition pipeclose :: "u64 \<Rightarrow> bool \<Rightarrow> pipe \<Rightarrow> 'a proc_st_scheme \<Rightarrow> (pipe \<times> 'a proc_st_scheme) res" where
  "pipeclose a writable pi s =
     (let (pi, s) = (if writable then (pi\<lparr>pi_writeopen := 0\<rparr>, wakeup (ChPipeR a) s)
                     else (pi\<lparr>pi_readopen := 0\<rparr>, wakeup (ChPipeW a) s)) in
      if pi_readopen pi = 0 \<and> pi_writeopen pi = 0 then rbind (kfree a s) (\<lambda>s. Ok (pi, s)) else Ok (pi, s))"

section \<open>A pipe is a queue\<close>

definition pipe_items :: "pipe \<Rightarrow> u8 list" where
  "pipe_items pi = ring_items (pi_data pi) (pi_nread pi) (pi_nwrite pi)"

definition pipe_inv :: "pipe \<Rightarrow> bool" where
  "pipe_inv pi \<longleftrightarrow> length (pi_data pi) = PIPESIZE \<and> length (pipe_items pi) \<le> PIPESIZE"

lemma pipe_full_iff: "pipe_inv pi \<Longrightarrow> pipe_full pi \<longleftrightarrow> length (pipe_items pi) = PIPESIZE"
proof -
  have "pi_nwrite pi = pi_nread pi + of_nat PIPESIZE \<longleftrightarrow> pi_nwrite pi - pi_nread pi = of_nat PIPESIZE"
    by (auto simp: algebra_simps)
  also have "\<dots> \<longleftrightarrow> unat (pi_nwrite pi - pi_nread pi) = unat (of_nat PIPESIZE :: u32)" by (simp add: word_unat_eq_iff)
  also have "unat (of_nat PIPESIZE :: u32) = PIPESIZE" by (rule unat_of_nat_less) (simp add: PIPESIZE_def)
  finally show ?thesis by (simp add: pipe_full_def pipe_items_def)
qed

interpretation pq: bounded_queue pipe_inv pipe_items PIPESIZE pipe_full pipe_empty pipe_put pipe_front pipe_get
proof (unfold_locales, goal_cases)
  case (1 q)
  then show ?case by (rule pipe_full_iff)
next
  case (2 q)
  then show ?case by (simp add: pipe_empty_def pipe_items_def ring_empty)
next
  case (3 q)
  then show ?case by (simp add: pipe_inv_def)
next
  case (4 q x)
  then have l: "length (pi_data q) = PIPESIZE" "unat (pi_nwrite q - pi_nread q) < PIPESIZE"
    using pipe_full_iff [of q] by (auto simp: pipe_inv_def pipe_items_def)
  then have "pipe_items (pipe_put x q) = pipe_items q @ [x]"
    using ring_push [of "pi_data q" "pi_nwrite q" "pi_nread q" x]
    by (simp add: pipe_items_def pipe_put_def PIPESIZE_def)
  then show ?case using l by (simp add: pipe_inv_def) (simp add: pipe_put_def pipe_items_def)
next
  case (5 q)
  then have "pipe_items q = pipe_front q # pipe_items (pipe_get q)"
    using ring_pop [of "pi_nread q" "pi_nwrite q" "pi_data q"]
    by (simp add: pipe_items_def pipe_empty_def pipe_front_def pipe_get_def pipe_inv_def)
  then show ?case using 5 by (simp add: pipe_inv_def) (simp add: pipe_get_def)
qed

section \<open>Writing\<close>

text \<open>
  \<open>m\<close> is the number of bytes readable in a row: the loop stops at the first byte that cannot be read, at the end, or
  when the pipe is full, whichever comes first.
\<close>

lemma pipewrite_loop_spec:
  assumes "pipe_inv pi" "pi_readopen pi \<noteq> 0" "killed pr s = 0" "pt_inv 2 s (p_pagetable (procs s ! pr))"
    and "m \<le> k" "\<forall>j. i \<le> j \<and> j < i + m \<longrightarrow> umapped s (p_pagetable (procs s ! pr)) (addr + of_nat j)"
    and "m < k \<longrightarrow> \<not> umapped s (p_pagetable (procs s ! pr)) (addr + of_nat (i + m))"
  shows "\<exists>pi'. pipe_inv pi' \<and>
    (if m < PIPESIZE - length (pipe_items pi) \<or> k = m \<and> m = PIPESIZE - length (pipe_items pi)
     then pipewrite_loop a pr addr k i pi s = Ok (PRet (int (i + m)) (pi', wakeup (ChPipeR a) s)) \<and>
       pipe_items pi' = pipe_items pi @ ubytes s (p_pagetable (procs s ! pr)) addr i m
     else pipewrite_loop a pr addr k i pi s =
         Ok (PWait (ChPipeW a) (i + (PIPESIZE - length (pipe_items pi))) (pi', wakeup (ChPipeR a) s)) \<and>
       pipe_items pi' = pipe_items pi @ ubytes s (p_pagetable (procs s ! pr)) addr i (PIPESIZE - length (pipe_items pi)))"
  using assms
proof (induction k arbitrary: i m pi)
  case 0
  then show ?case by (intro exI [of _ pi]) auto
next
  case (Suc k)
  let ?pt = "p_pagetable (procs s ! pr)"
  consider "pipe_full pi" | "\<not> pipe_full pi" "m = 0" | l where "\<not> pipe_full pi" "m = Suc l" by (cases m) auto
  then show ?case
  proof cases
    case 1
    then have "length (pipe_items pi) = PIPESIZE" using pipe_full_iff [OF Suc.prems(1)] by simp
    then show ?thesis using 1 Suc.prems by (intro exI [of _ pi]) simp
  next
    case 2
    then obtain bs where "copyin ?pt (addr + of_nat i) 1 s = Ok (-1, bs)"
      using copyin_byte_unmapped [OF Suc.prems(4), of "addr + of_nat i"] Suc.prems(7) by auto
    moreover have "length (pipe_items pi) < PIPESIZE"
      using 2(1) pipe_full_iff [OF Suc.prems(1)] pq.bound_law [OF Suc.prems(1)] by simp
    ultimately show ?thesis using 2 Suc.prems(1-3) by (intro exI [of _ pi]) simp
  next
    case 3
    let ?c = "umem s ?pt (addr + of_nat i)"
    have "umapped s ?pt (addr + of_nat i)" using Suc.prems(6) 3(2) by simp
    then have ci: "copyin ?pt (addr + of_nat i) 1 s = Ok (0, [?c])" by (rule copyin_byte [OF Suc.prems(4)])
    have run: "pipewrite_loop a pr addr (Suc k) i pi s = pipewrite_loop a pr addr k (Suc i) (pipe_put ?c pi) s"
      using 3(1) Suc.prems(2,3) ci by simp
    have P: "pipe_inv (pipe_put ?c pi)" "pipe_items (pipe_put ?c pi) = pipe_items pi @ [?c]"
      using pq.put_law [OF Suc.prems(1) 3(1)] by blast+
    have o: "pi_readopen (pipe_put ?c pi) \<noteq> 0" using Suc.prems(2) by (simp add: pipe_put_def)
    have len: "PIPESIZE - length (pipe_items pi) = Suc (PIPESIZE - length (pipe_items (pipe_put ?c pi)))"
      using 3(1) pipe_full_iff [OF Suc.prems(1)] pq.bound_law [OF Suc.prems(1)] P(2) by simp
    have h: "l \<le> k" "\<forall>j. Suc i \<le> j \<and> j < Suc i + l \<longrightarrow> umapped s ?pt (addr + of_nat j)"
      "l < k \<longrightarrow> \<not> umapped s ?pt (addr + of_nat (Suc i + l))"
      using Suc.prems(5-7) unfolding 3(2) by simp_all
    from Suc.IH [OF P(1) o Suc.prems(3,4) h] show ?thesis
      unfolding run len 3(2) by (auto simp: P(2) ubytes_Suc split: if_splits)
  qed
qed

section \<open>Reading\<close>

lemma piperead_loop_spec:
  assumes "pipe_inv pi" "pt_inv 2 s pt" "p_pagetable (procs s ! pr) = pt"
    and "\<forall>j. i \<le> j \<and> j < i + k \<longrightarrow> umapped s pt (addr + of_nat j) \<and> user_pages s pt (addr + of_nat j) 1"
    and "inj_on (\<lambda>j. upa s pt (addr + of_nat j)) {i..<i + k}"
  shows "\<exists>pi' s'. piperead_loop a pr addr k i pi s =
      Ok (PRet (int (i + min k (length (pipe_items pi)))) (pi', wakeup (ChPipeW a) s')) \<and>
    pipe_inv pi' \<and> pipe_items pi' = drop k (pipe_items pi) \<and> stored s pt addr i (take k (pipe_items pi)) s'"
  using assms
proof (induction k arbitrary: i pi s)
  case 0
  then show ?case by (intro exI [of _ pi] exI [of _ s]) (simp add: stored_def)
next
  case (Suc k)
  show ?case
  proof (cases "pipe_empty pi")
    case True
    then have "pipe_items pi = []" using pq.empty_law Suc.prems(1) by blast
    then show ?thesis using True Suc.prems by (intro exI [of _ pi] exI [of _ s]) (simp add: stored_def)
  next
    case False
    let ?c = "pipe_front pi"
    have G: "pipe_inv (pipe_get pi)" "pipe_items pi = ?c # pipe_items (pipe_get pi)"
      using pq.get_law [OF Suc.prems(1) False] by blast+
    have m: "umapped s pt (addr + of_nat i)" "user_pages s pt (addr + of_nat i) 1" using Suc.prems(4) by simp_all
    obtain s1 where 1: "copyout pt (addr + of_nat i) [?c] s = Ok (0, s1)" "wrote s pt (addr + of_nat i) [?c] 1 s1"
      using copyout_byte [OF Suc.prems(2) m] by blast
    note e = wrote_eqs [OF 1(2)]
    have s1: "s1 = s\<lparr>pmem := pmem s1\<rparr>" using 1(2) by (simp add: wrote_def)
    have p1: "p_pagetable (procs s1 ! pr) = pt" by (subst s1) (simp add: Suc.prems(3))
    have "\<forall>j. Suc i \<le> j \<and> j < Suc i + k \<longrightarrow> umapped s1 pt (addr + of_nat j) \<and> user_pages s1 pt (addr + of_nat j) 1"
      using Suc.prems(4) by (simp add: user_pages_def e)
    moreover have "inj_on (\<lambda>j. upa s1 pt (addr + of_nat j)) {Suc i..<Suc i + k}"
      unfolding e by (rule inj_on_subset [OF Suc.prems(5)]) auto
    ultimately obtain pi' s' where 2: "piperead_loop a pr addr k (Suc i) (pipe_get pi) s1 =
        Ok (PRet (int (Suc i + min k (length (pipe_items (pipe_get pi))))) (pi', wakeup (ChPipeW a) s'))"
      "pipe_inv pi'" "pipe_items pi' = drop k (pipe_items (pipe_get pi))"
      "stored s1 pt addr (Suc i) (take k (pipe_items (pipe_get pi))) s'"
      using Suc.IH [OF G(1) e(6) p1] by blast
    have "stored s pt addr i (?c # take k (pipe_items (pipe_get pi))) s'"
      by (rule stored_Cons [OF 1(2) 2(4)]) (rule inj_on_subset [OF Suc.prems(5)], auto)
    then show ?thesis using False 1(1) 2 G(2) Suc.prems(3)
      by (intro exI [of _ pi'] exI [of _ s']) simp
  qed
qed

section \<open>Properties\<close>

definition empty_pipe :: pipe where
  "empty_pipe = \<lparr>pi_data = replicate 512 0, pi_nread = 0, pi_nwrite = 0, pi_readopen = 1, pi_writeopen = 1\<rparr>"

lemma empty_pipe: "pipe_inv empty_pipe" "pipe_items empty_pipe = []"
  by (simp_all add: empty_pipe_def pipe_inv_def pipe_items_def ring_items_def PIPESIZE_def)

text \<open>
  C21: every exit of \<^verbatim>\<open>pipewrite\<close>, for a writer with a well-formed page table. Writing nothing (or a negative count)
  returns 0 and wakes readers. With the read end closed, or for a killed writer, it returns -1 and changes
  nothing. Otherwise let \<open>m\<close> be the number of the caller's bytes readable in a row. If they fit before the pipe is
  full, exactly these \<open>m\<close> bytes are appended in order and \<open>m\<close> is returned, also when byte \<open>m\<close> could not be read; if
  not, the pipe is filled completely and the writer sleeps on \<^verbatim>\<open>&pi->nwrite\<close>, remembering how far it got. In these cases
  readers are woken. This holds for all counter values, also when the 32-bit counters wrap around.
\<close>

theorem pipewrite_correct:
  assumes "pipe_inv pi" "myproc s = Some pr" "p_pagetable (procs s ! pr) = pt" "pt_inv 2 s pt"
    and "mapped_len s pt addr (nat (sint n)) m"
  shows "if nat (sint n) = 0 then pipewrite a addr n pi s = Ok (PRet 0 (pi, wakeup (ChPipeR a) s))
    else if pi_readopen pi = 0 \<or> killed pr s \<noteq> 0 then pipewrite a addr n pi s = Ok (PRet (-1) (pi, s))
    else \<exists>pi'. pipe_inv pi' \<and>
      (if m < PIPESIZE - length (pipe_items pi) \<or> nat (sint n) = m \<and> m = PIPESIZE - length (pipe_items pi)
       then pipewrite a addr n pi s = Ok (PRet (int m) (pi', wakeup (ChPipeR a) s)) \<and>
         pipe_items pi' = pipe_items pi @ ubytes s pt addr 0 m
       else pipewrite a addr n pi s =
           Ok (PWait (ChPipeW a) (PIPESIZE - length (pipe_items pi)) (pi', wakeup (ChPipeR a) s)) \<and>
         pipe_items pi' = pipe_items pi @ ubytes s pt addr 0 (PIPESIZE - length (pipe_items pi)))"
proof -
  have run: "pipewrite a addr n pi s = pipewrite_loop a pr addr (nat (sint n)) 0 pi s"
    using assms(2) by (simp add: pipewrite_def with_proc_def)
  have m: "m \<le> nat (sint n)" "\<forall>j. 0 \<le> j \<and> j < 0 + m \<longrightarrow> umapped s (p_pagetable (procs s ! pr)) (addr + of_nat j)"
    "m < nat (sint n) \<longrightarrow> \<not> umapped s (p_pagetable (procs s ! pr)) (addr + of_nat (0 + m))"
    using assms(3,5) by (auto simp: mapped_len_def)
  show ?thesis
  proof (cases "nat (sint n) = 0 \<or> pi_readopen pi = 0 \<or> killed pr s \<noteq> 0")
    case True
    then show ?thesis unfolding run by (cases "nat (sint n)") auto
  next
    case False
    then have f: "pi_readopen pi \<noteq> 0" "killed pr s = 0" "nat (sint n) \<noteq> 0" by auto
    have pt: "pt_inv 2 s (p_pagetable (procs s ! pr))" using assms(3,4) by simp
    from pipewrite_loop_spec [OF assms(1) f(1,2) pt m, of a] show ?thesis unfolding run assms(3) add_0 using f by simp
  qed
qed

theorem pipewrite_correct_witness:
  "(\<exists>pi'. pipewrite 0x80000000 4094 5 empty_pipe user_machine = Ok (PRet 2 (pi', wakeup (ChPipeR 0x80000000) user_machine)) \<and>
     pipe_items pi' = ubytes user_machine (pg 0) 4094 0 2) \<and>
   pipewrite 0x80000000 4094 5 (empty_pipe\<lparr>pi_readopen := 0\<rparr>) user_machine = Ok (PRet (-1) (empty_pipe\<lparr>pi_readopen := 0\<rparr>, user_machine))"
proof -
  have five: "nat (sint (5 :: i32)) = 5" by simp
  have "umapped user_machine (pg 0) (4094 + of_nat j)" if "j < 2" for j
    using demo_user(1) [of "4094 + j"] that by (simp add: user_machine_mem)
  moreover have "\<not> umapped user_machine (pg 0) (4094 + of_nat 2)" using demo_unmapped by (simp add: user_machine_mem)
  ultimately have m: "mapped_len user_machine (pg 0) 4094 (nat (sint (5 :: i32))) 2" unfolding five by (simp add: mapped_len_def)
  have i: "pipe_inv (empty_pipe\<lparr>pi_readopen := 0\<rparr>)" using empty_pipe(1) by (simp add: pipe_inv_def pipe_items_def)
  note c = pipewrite_correct [OF _ user_machine_proc(1,2) user_machine_mem(1) m, of _ "0x80000000"]
  have "0 < PIPESIZE" "2 < PIPESIZE" by (simp_all add: PIPESIZE_def)
  then show ?thesis using c [OF empty_pipe(1)] c [OF i] empty_pipe(2) user_machine_proc(3) by (auto simp: empty_pipe_def)
qed

text \<open>
  C22: \<^verbatim>\<open>piperead\<close> into mapped memory, when the pipe holds data or has no writer left, returns at once: it delivers the
  oldest bytes in order, as many as fit, stores them at consecutive user addresses and nothing elsewhere,
  removes exactly them from the pipe, and wakes writers.
\<close>

theorem piperead_correct:
  assumes "pipe_inv pi" "pipe_items pi \<noteq> [] \<or> pi_writeopen pi = 0" "myproc s = Some pr" "p_pagetable (procs s ! pr) = pt" "pt_inv 2 s pt"
    and "\<forall>j<nat (sint n). umapped s pt (addr + of_nat j) \<and> user_pages s pt (addr + of_nat j) 1"
    and "inj_on (\<lambda>j. upa s pt (addr + of_nat j)) {..<nat (sint n)}"
  shows "\<exists>pi' s'. piperead a addr n pi s =
      Ok (PRet (int (min (nat (sint n)) (length (pipe_items pi)))) (pi', wakeup (ChPipeW a) s')) \<and>
    pipe_inv pi' \<and> pipe_items pi' = drop (nat (sint n)) (pipe_items pi) \<and> stored s pt addr 0 (take (nat (sint n)) (pipe_items pi)) s'"
proof -
  have "\<not> (pipe_empty pi \<and> pi_writeopen pi \<noteq> 0)" using assms(2) pq.empty_law [OF assms(1)] by blast
  then have "piperead a addr n pi s = piperead_loop a pr addr (nat (sint n)) 0 pi s"
    using assms(3) by (auto simp: piperead_def with_proc_def)
  moreover have "inj_on (\<lambda>j. upa s pt (addr + of_nat j)) {0..<0 + nat (sint n)}" using assms(7) by (simp add: lessThan_atLeast0)
  ultimately show ?thesis using piperead_loop_spec [OF assms(1,5,4), where i = 0 and k = "nat (sint n)" and addr = addr and a = a] assms(6) by simp
qed

theorem piperead_correct_witness:
  "\<exists>pi' s'. piperead 0x80000000 0 2 (pipe_put 9 empty_pipe) user_machine = Ok (PRet 1 (pi', wakeup (ChPipeW 0x80000000) s')) \<and>
     pipe_items pi' = [] \<and> stored user_machine (pg 0) 0 0 [9] s'"
proof -
  have p: "pipe_inv (pipe_put 9 empty_pipe)" "pipe_items (pipe_put 9 empty_pipe) = [9]"
    using pq.put_law [OF empty_pipe(1), of 9] empty_pipe pq.full_law [OF empty_pipe(1)] by (simp_all add: PIPESIZE_def)
  have two: "nat (sint (2 :: i32)) = 2" by simp
  have inj: "inj_on (\<lambda>i. upa user_machine (pg 0) (0 + of_nat i)) {..<nat (sint (2::i32))}"
    unfolding two by (rule user_machine_bytes(2)) simp
  have "\<forall>j<nat (sint (2::i32)). umapped user_machine (pg 0) (0 + of_nat j) \<and> user_pages user_machine (pg 0) (0 + of_nat j) 1"
    unfolding two by (rule user_machine_bytes(1)) simp
  then show ?thesis
    using piperead_correct [OF p(1) _ _ _ user_machine_mem(1) _ inj, where pr = 0 and a = "0x80000000"] p(2)
    by (auto simp: myproc_def user_machine_def)
qed

end
