(* ===== verification/File.thy ===== *)
theory File
  imports Fs Pipe
begin

text \<open>
  \<^verbatim>\<open>kernel/file.c\<close> and \<^verbatim>\<open>pipealloc\<close>: the table of open files, on top of pipes and inodes. A file pointer is an index into the
  table; a pipe is named by the page it lives in. The table \<^verbatim>\<open>devsw\<close> of device functions is an argument of the functions
  that use it. A call that waits for a pipe ends in the state it sleeps in.
\<close>

section \<open>State\<close>

datatype ftype = FD_NONE | FD_PIPE | FD_INODE | FD_DEVICE

record file_t =
  f_type :: ftype
  f_ref :: int
  f_readable :: u8
  f_writable :: u8
  f_pipe :: u64
  f_ip :: nat
  f_off :: u32
  f_major :: i16

record file_st = fs_st +
  ftable :: "file_t list"
  pipes :: "u64 \<Rightarrow> pipe"

definition NFILE :: nat where "NFILE = 100"
definition NOFILE :: nat where "NOFILE = 16"
definition NDEV :: int where "NDEV = 10"

abbreviation fil :: "'a file_st_scheme \<Rightarrow> nat \<Rightarrow> file_t" where
  "fil s f \<equiv> ftable s ! f"

definition upd_file :: "nat \<Rightarrow> (file_t \<Rightarrow> file_t) \<Rightarrow> 'a file_st_scheme \<Rightarrow> 'a file_st_scheme" where
  "upd_file f g s = s\<lparr>ftable := (ftable s)[f := g (fil s f)]\<rparr>"

text \<open>\<^verbatim>\<open>struct devsw\<close>: a read and a write function, or null.\<close>

record 's devsw =
  dev_read :: "(kdst \<Rightarrow> i32 \<Rightarrow> 's \<Rightarrow> 's pipe_out res) option"
  dev_write :: "(ksrc \<Rightarrow> i32 \<Rightarrow> 's \<Rightarrow> 's pipe_out res) option"

section \<open>References\<close>

definition filealloc :: "'a file_st_scheme \<Rightarrow> nat option \<times> 'a file_st_scheme" where
  "filealloc s =
     (case first_idx (\<lambda>f. f_ref f = 0) (ftable s) of
        Some f \<Rightarrow> (Some f, upd_file f (\<lambda>x. x\<lparr>f_ref := 1\<rparr>) s)
      | None \<Rightarrow> (None, s))"

definition filedup :: "nat \<Rightarrow> 'a file_st_scheme \<Rightarrow> (nat \<times> 'a file_st_scheme) res" where
  "filedup f s =
     (if f_ref (fil s f) < 1 then Panic ''filedup'' else Ok (f, upd_file f (\<lambda>x. x\<lparr>f_ref := f_ref x + 1\<rparr>) s))"

definition fileclose :: "nat \<Rightarrow> 'a file_st_scheme \<Rightarrow> 'a file_st_scheme res" where
  "fileclose f s =
     (if f_ref (fil s f) < 1 then Panic ''fileclose''
      else
        let s = upd_file f (\<lambda>x. x\<lparr>f_ref := f_ref x - 1\<rparr>) s in
        if f_ref (fil s f) > 0 then Ok s
        else
          let ff = fil s f; s = upd_file f (\<lambda>x. x\<lparr>f_ref := 0, f_type := FD_NONE\<rparr>) s in
          case f_type ff of
            FD_PIPE \<Rightarrow>
              rbind (pipeclose (f_pipe ff) (f_writable ff \<noteq> 0) (pipes s (f_pipe ff)) s) (\<lambda>(pi, s).
              Ok (s\<lparr>pipes := (pipes s)(f_pipe ff := pi)\<rparr>))
          | FD_NONE \<Rightarrow> Ok s
          | _ \<Rightarrow>
              rbind (begin_op s) (\<lambda>s.
              rbind (iput (f_ip ff) s) (\<lambda>s.
              end_op s)))"

section \<open>Input and output\<close>

text \<open>
  \<^verbatim>\<open>struct stat\<close> as bytes. The four bytes of padding before \<^verbatim>\<open>size\<close> are whatever the kernel stack held: \<open>pad\<close>.
\<close>

definition stat_bytes :: "u8 list \<Rightarrow> stat \<Rightarrow> u8 list" where
  "stat_bytes pad st = int_bytes (st_dev st) @ int_bytes (st_ino st) @ short_bytes (st_type st) @ short_bytes (st_nlink st) @
     take 4 pad @ int_bytes (ucast (st_size st)) @ int_bytes (ucast (drop_bit 32 (st_size st)))"

definition filestat :: "u8 list \<Rightarrow> nat \<Rightarrow> u64 \<Rightarrow> 'a file_st_scheme \<Rightarrow> (int \<times> 'a file_st_scheme) res" where
  "filestat pad f addr s =
     (if f_type (fil s f) = FD_INODE \<or> f_type (fil s f) = FD_DEVICE then
        let ip = f_ip (fil s f) in
        rbind (ilock ip s) (\<lambda>s.
        let st = stati ip s in
        rbind (iunlock ip s) (\<lambda>s.
        with_proc s (\<lambda>i.
        rbind (copyout (p_pagetable (procs s ! i)) addr (stat_bytes pad st) s) (\<lambda>(r, s).
        Ok (if r < 0 then -1 else 0, s)))))
      else Ok (-1, s))"

fun pipe_back :: "u64 \<Rightarrow> (pipe \<times> 'a file_st_scheme) pipe_out \<Rightarrow> 'a file_st_scheme pipe_out" where
  "pipe_back a (PRet r (pi, s)) = PRet r (s\<lparr>pipes := (pipes s)(a := pi)\<rparr>)"
| "pipe_back a (PWait c i (pi, s)) = PWait c i (s\<lparr>pipes := (pipes s)(a := pi)\<rparr>)"

text \<open>The device of an open file, if its number is in range.\<close>

definition the_dev :: "(i16 \<Rightarrow> 's devsw) \<Rightarrow> i16 \<Rightarrow> 's devsw option" where
  "the_dev devsw m = (if sint m < 0 \<or> sint m \<ge> NDEV then None else Some (devsw m))"

definition fileread :: "(i16 \<Rightarrow> ('a file_st_scheme) devsw) \<Rightarrow> nat \<Rightarrow> u64 \<Rightarrow> i32 \<Rightarrow> 'a file_st_scheme \<Rightarrow> ('a file_st_scheme) pipe_out res" where
  "fileread devsw f addr n s =
     (if f_readable (fil s f) = 0 then Ok (PRet (-1) s)
      else
        (case f_type (fil s f) of
           FD_PIPE \<Rightarrow>
             let a = f_pipe (fil s f) in
             rbind (piperead a addr n (pipes s a) s) (\<lambda>out. Ok (pipe_back a out))
         | FD_DEVICE \<Rightarrow>
             (case Option.bind (the_dev devsw (f_major (fil s f))) dev_read of
                None \<Rightarrow> Ok (PRet (-1) s)
              | Some rd \<Rightarrow> rd (UDst addr) n s)
         | FD_INODE \<Rightarrow>
             let ip = f_ip (fil s f) in
             rbind (ilock ip s) (\<lambda>s.
             rbind (readi ip (UDst addr) (f_off (fil s f)) n s) (\<lambda>(r, _, s).
             let s = (if r > 0 then upd_file f (\<lambda>x. x\<lparr>f_off := f_off x + of_int r\<rparr>) s else s) in
             rbind (iunlock ip s) (\<lambda>s. Ok (PRet r s))))
         | FD_NONE \<Rightarrow> Panic ''fileread''))"

text \<open>One transaction writes at most \<^verbatim>\<open>max\<close> bytes: three blocks.\<close>

definition FILEWRITE_MAX :: nat where
  "FILEWRITE_MAX = ((MAXOPBLOCKS - 1 - 1 - 2) div 2) * BSIZE"

text \<open>The loop of \<^verbatim>\<open>filewrite\<close>, \<open>i\<close> bytes are written.\<close>

function filewrite_loop :: "nat \<Rightarrow> u64 \<Rightarrow> nat \<Rightarrow> nat \<Rightarrow> 'a file_st_scheme \<Rightarrow> (nat \<times> 'a file_st_scheme) res" where
  "filewrite_loop f addr n i s =
     (if i < n then
        let n1 = min (n - i) FILEWRITE_MAX; ip = f_ip (fil s f) in
        rbind (begin_op s) (\<lambda>s.
        rbind (ilock ip s) (\<lambda>s.
        rbind (writei ip (USrc (addr + of_nat i)) (f_off (fil s f)) (of_nat n1) s) (\<lambda>(r, s).
        let s = (if r > 0 then upd_file f (\<lambda>x. x\<lparr>f_off := f_off x + of_int r\<rparr>) s else s) in
        rbind (iunlock ip s) (\<lambda>s.
        rbind (end_op s) (\<lambda>s.
        if r \<noteq> int n1 then Ok (i, s) else filewrite_loop f addr n (i + n1) s)))))
      else Ok (i, s))"
  by pat_completeness auto
termination
  by (relation "measure (\<lambda>(f, addr, n, i, s). n - i)") (auto simp: FILEWRITE_MAX_def MAXOPBLOCKS_def BSIZE_def)

declare filewrite_loop.simps [simp del]

definition filewrite :: "(i16 \<Rightarrow> ('a file_st_scheme) devsw) \<Rightarrow> nat \<Rightarrow> u64 \<Rightarrow> i32 \<Rightarrow> 'a file_st_scheme \<Rightarrow> ('a file_st_scheme) pipe_out res" where
  "filewrite devsw f addr n s =
     (if f_writable (fil s f) = 0 then Ok (PRet (-1) s)
      else
        (case f_type (fil s f) of
           FD_PIPE \<Rightarrow>
             let a = f_pipe (fil s f) in
             rbind (pipewrite a addr n (pipes s a) s) (\<lambda>out. Ok (pipe_back a out))
         | FD_DEVICE \<Rightarrow>
             (case Option.bind (the_dev devsw (f_major (fil s f))) dev_write of
                None \<Rightarrow> Ok (PRet (-1) s)
              | Some wr \<Rightarrow> wr (USrc addr) n s)
         | FD_INODE \<Rightarrow>
             rbind (filewrite_loop f addr (nat (sint n)) 0 s) (\<lambda>(i, s).
             Ok (PRet (if int i = sint n then sint n else -1) s))
         | FD_NONE \<Rightarrow> Panic ''filewrite''))"

section \<open>Pipes\<close>

text \<open>A new pipe; the buffer holds what the page held, from byte 24 on.\<close>

definition new_pipe :: "mem \<Rightarrow> u64 \<Rightarrow> pipe" where
  "new_pipe m a = \<lparr>pi_data = map (\<lambda>i. m (a + 24 + of_nat i)) [0..<PIPESIZE], pi_nread = 0, pi_nwrite = 0, pi_readopen = 1, pi_writeopen = 1\<rparr>"

definition pipe_file :: "bool \<Rightarrow> u64 \<Rightarrow> file_t \<Rightarrow> file_t" where
  "pipe_file wr a f = f\<lparr>f_type := FD_PIPE, f_readable := (if wr then 0 else 1), f_writable := (if wr then 1 else 0), f_pipe := a\<rparr>"

definition pipealloc :: "'a file_st_scheme \<Rightarrow> ((nat \<times> nat) option \<times> 'a file_st_scheme) res" where
  "pipealloc s =
     (let (f0, s) = filealloc s in
      case f0 of
        None \<Rightarrow> Ok (None, s)
      | Some f0 \<Rightarrow>
          let (f1, s) = filealloc s in
          (case f1 of
             None \<Rightarrow> rbind (fileclose f0 s) (\<lambda>s. Ok (None, s))
           | Some f1 \<Rightarrow>
               let (pi, s) = kalloc s in
               if pi = 0 then rbind (fileclose f0 s) (\<lambda>s. rbind (fileclose f1 s) (\<lambda>s. Ok (None, s)))
               else
                 let s = s\<lparr>pipes := (pipes s)(pi := new_pipe (pmem s) pi)\<rparr>;
                     s = upd_file f1 (pipe_file True pi) (upd_file f0 (pipe_file False pi) s) in
                 Ok (Some (f0, f1), s)))"

section \<open>Opening and closing a pipe\<close>

text \<open>The well-formedness of the table: a free entry has no type left over from its last use.\<close>

definition ftable_ok :: "'a file_st_scheme \<Rightarrow> bool" where
  "ftable_ok s \<longleftrightarrow> (\<forall>f\<in>set (ftable s). 0 \<le> f_ref f \<and> (f_ref f = 0 \<longrightarrow> f_type f = FD_NONE))"

lemma kmem_inv_cong:
  assumes "pmem s' = pmem s" "kend s' = kend s" "kref s' = kref s" "freelist s' = freelist s"
  shows "kmem_inv s' = kmem_inv s"
  using assms managed_cong [OF assms(2)] refcnt_cong [OF assms(2,3)] by (simp add: kmem_inv_def kmem_wf_def)

lemma upd_file_simps [simp]:
  "pmem (upd_file f g s) = pmem s" "kend (upd_file f g s) = kend s" "kref (upd_file f g s) = kref s" "freelist (upd_file f g s) = freelist s"
  "ftable (upd_file f g s) = (ftable s)[f := g (fil s f)]" "pipes (upd_file f g s) = pipes s" "procs (upd_file f g s) = procs s"
  by (simp_all add: upd_file_def)

lemma kalloc_files: "kalloc s = (r, s') \<Longrightarrow> ftable s' = ftable s \<and> pipes s' = pipes s"
  by (auto simp: kalloc_def Let_def split: if_splits)

lemma kfree_files: "kfree a s = Ok s' \<Longrightarrow> ftable s' = ftable s \<and> pipes s' = pipes s"
  by (auto simp: kfree_def Let_def split: if_splits)

lemma wakeup_mem [simp]:
  "pmem (wakeup c s) = pmem s" "kend (wakeup c s) = kend s" "kref (wakeup c s) = kref s" "freelist (wakeup c s) = freelist s"
  "ftable (wakeup c t) = ftable t" "pipes (wakeup c t) = pipes t"
  by (simp_all add: wakeup_def)

text \<open>Giving back a fresh entry.\<close>

lemma fileclose_fresh:
  assumes "f < length (ftable s)" "f_ref (fil s f) = 0" "f_type (fil s f) = FD_NONE"
  shows "fileclose f (upd_file f (\<lambda>x. x\<lparr>f_ref := 1\<rparr>) s) = Ok s"
proof -
  obtain x where x: "fil s f = x" by blast
  have e: "x\<lparr>f_ref := 0, f_type := FD_NONE\<rparr> = x" using assms(2,3) unfolding x by (cases x) simp
  have u: "(ftable s)[f := x] = ftable s" using x list_update_id [of "ftable s" f] by simp
  have "fileclose f (upd_file f (\<lambda>x. x\<lparr>f_ref := 1\<rparr>) s) = Ok (s\<lparr>ftable := (ftable s)[f := x\<lparr>f_ref := 0, f_type := FD_NONE\<rparr>]\<rparr>)"
    using assms unfolding fileclose_def upd_file_def Let_def x by simp
  then show ?thesis unfolding e u by simp
qed

lemma upd_file_swap: "f \<noteq> g \<Longrightarrow> upd_file f h (upd_file g k s) = upd_file g k (upd_file f h s)"
  by (simp add: upd_file_def list_update_swap)

text \<open>Closing one end while the other is open, and closing the last end.\<close>

lemma fileclose_pipe_one:
  assumes "f < length (ftable s)" "f_ref (fil s f) = 1" "f_type (fil s f) = FD_PIPE" "f_writable (fil s f) = 0" "pi_writeopen (pipes s (f_pipe (fil s f))) \<noteq> 0"
  shows "\<exists>s'. fileclose f s = Ok s' \<and> ftable s' = (ftable s)[f := (fil s f)\<lparr>f_ref := 0, f_type := FD_NONE\<rparr>] \<and>
    pipes s' = (pipes s)(f_pipe (fil s f) := (pipes s (f_pipe (fil s f)))\<lparr>pi_readopen := 0\<rparr>) \<and>
    pmem s' = pmem s \<and> kend s' = kend s \<and> kref s' = kref s \<and> freelist s' = freelist s"
  using assms by (simp add: fileclose_def Let_def pipeclose_def)

lemma fileclose_pipe_last:
  assumes "f < length (ftable s)" "f_ref (fil s f) = 1" "f_type (fil s f) = FD_PIPE" "f_writable (fil s f) \<noteq> 0" "pi_readopen (pipes s (f_pipe (fil s f))) = 0"
    and "kmem_inv s" "0 < refcnt s (f_pipe (fil s f))"
  shows "\<exists>s'. fileclose f s = Ok s' \<and> ftable s' = (ftable s)[f := (fil s f)\<lparr>f_ref := 0, f_type := FD_NONE\<rparr>] \<and>
    kmem_inv s' \<and> refcnt s' = (refcnt s)(f_pipe (fil s f) := refcnt s (f_pipe (fil s f)) - 1)"
proof -
  let ?a = "f_pipe (fil s f)" let ?t = "wakeup (ChPipeR ?a) (upd_file f (\<lambda>x. x\<lparr>f_ref := 0, f_type := FD_NONE\<rparr>) (upd_file f (\<lambda>x. x\<lparr>f_ref := f_ref x - 1\<rparr>) s))"
  have t: "kmem_inv ?t" "refcnt ?t = refcnt s" using assms(6) by (simp_all add: kmem_inv_cong [of ?t s] refcnt_cong [of ?t s])
  obtain s' where s': "kfree ?a ?t = Ok s'" "kmem_inv s'" "refcnt s' = (refcnt ?t)(?a := refcnt ?t ?a - 1)"
    using kpages.free_live [OF t(1), of ?a] assms(7) t(2) by auto
  let ?u = "s'\<lparr>pipes := (pipes s')(?a := (pipes s ?a)\<lparr>pi_writeopen := 0\<rparr>)\<rparr>"
  have "fileclose f s = Ok ?u" using assms(1-5) s'(1) by (simp add: fileclose_def Let_def pipeclose_def)
  moreover have "kmem_inv ?u" "refcnt ?u = refcnt s'" using s'(2) by (simp_all add: kmem_inv_cong [of ?u s'] refcnt_cong [of ?u s'])
  moreover have "ftable ?u = (ftable s)[f := (fil s f)\<lparr>f_ref := 0, f_type := FD_NONE\<rparr>]" using kfree_files [OF s'(1)] assms(1) by simp
  ultimately show ?thesis using s'(3) t(2) by simp
qed

lemma filealloc_cases:
  obtains "filealloc s = (None, s)" "\<And>i. i < length (ftable s) \<Longrightarrow> f_ref (fil s i) \<noteq> 0"
  | f where "filealloc s = (Some f, upd_file f (\<lambda>x. x\<lparr>f_ref := 1\<rparr>) s)" "f < length (ftable s)" "f_ref (fil s f) = 0"
proof (cases "first_idx (\<lambda>f. f_ref f = 0) (ftable s)")
  case None
  then have "\<And>i. i < length (ftable s) \<Longrightarrow> f_ref (fil s i) \<noteq> 0" by (simp add: first_idx_None)
  then show ?thesis using None that(1) by (simp add: filealloc_def)
next
  case (Some f)
  then show ?thesis using that(2) [of f] by (simp add: filealloc_def first_idx_less first_idx_holds [OF Some])
qed

lemma new_pipe_items: "pipe_inv (new_pipe m a)" "pipe_items (new_pipe m a) = []"
  by (simp_all add: pipe_inv_def pipe_items_def new_pipe_def ring_items_def)

definition pipe_end :: "bool \<Rightarrow> u64 \<Rightarrow> file_t \<Rightarrow> bool" where
  "pipe_end wr a f \<longleftrightarrow> f_type f = FD_PIPE \<and> f_ref f = 1 \<and> f_pipe f = a \<and> (f_writable f \<noteq> 0 \<longleftrightarrow> wr) \<and> (f_readable f \<noteq> 0 \<longleftrightarrow> \<not> wr)"

text \<open>The three ways \<^verbatim>\<open>pipealloc\<close> ends.\<close>

lemma pipealloc_cases:
  assumes "ftable_ok s" "kmem_inv s"
  obtains "pipealloc s = Ok (None, s)" "(\<exists>g. \<forall>i<length (ftable s). i \<noteq> g \<longrightarrow> f_ref (fil s i) \<noteq> 0) \<or> (\<forall>pa\<in>managed s. refcnt s pa \<noteq> 0)"
  | f g a s' where "pipealloc s = Ok (Some (f, g), s')" "f \<noteq> g" "f < length (ftable s)" "g < length (ftable s)"
      "f_ref (fil s f) = 0" "f_ref (fil s g) = 0" "a \<noteq> 0" "refcnt s a = 0" "a \<in> managed s" "kmem_inv s'" "refcnt s' = (refcnt s)(a := 1)"
      "ftable s' = (ftable s)[f := pipe_file False a ((fil s f)\<lparr>f_ref := 1\<rparr>), g := pipe_file True a ((fil s g)\<lparr>f_ref := 1\<rparr>)]"
      "pipes s' a = new_pipe (pmem s') a"
proof (cases rule: filealloc_cases [of s])
  case 1
  then show ?thesis using that(1) by (simp add: pipealloc_def)
next
  case (2 f)
  note f = 2
  let ?inc = "\<lambda>x. x\<lparr>f_ref := 1\<rparr>" let ?s1 = "upd_file f ?inc s"
  have free: "f_type (fil s i) = FD_NONE" if "i < length (ftable s)" "f_ref (fil s i) = 0" for i
    using assms(1) that by (simp add: ftable_ok_def)
  show ?thesis
  proof (cases rule: filealloc_cases [of ?s1])
    case 1
    have "pipealloc s = Ok (None, s)" using f 1(1) fileclose_fresh [OF f(2,3) free [OF f(2,3)]] by (simp add: pipealloc_def)
    moreover have "\<forall>i<length (ftable s). i \<noteq> f \<longrightarrow> f_ref (fil s i) \<noteq> 0" using 1(2) by fastforce
    ultimately show ?thesis using that(1) by blast
  next
    case (2 g)
    have g: "g < length (ftable s)" "f \<noteq> g" "f_ref (fil s g) = 0" using 2(2,3) f(2) by (auto simp: nth_list_update split: if_splits)
    let ?s2 = "upd_file g ?inc ?s1"
    have k2: "kmem_inv ?s2" "refcnt ?s2 = refcnt s" "managed ?s2 = managed s"
      using assms(2) by (simp_all add: kmem_inv_cong [of ?s2 s] refcnt_cong [of ?s2 s] managed_cong [of ?s2 s])
    obtain a s3 where k: "kalloc ?s2 = (a, s3)" by fastforce
    show ?thesis
      using k2(1) k
    proof (cases rule: kalloc_inv_cases)
      case none
      have c: "fileclose f ?s2 = Ok (upd_file g ?inc s)"
        using fileclose_fresh [of f "upd_file g ?inc s"] g(2) f(2,3) free [OF f(2,3)] by (simp add: upd_file_swap [of g f])
      have "pipealloc s = Ok (None, s)"
        using f(1) 2(1) k none(1,2) c fileclose_fresh [OF g(1,3) free [OF g(1,3)]] by (simp add: pipealloc_def)
      then show ?thesis using that(1) none(3) k2 by simp
    next
      case some
      let ?s4 = "s3\<lparr>pipes := (pipes s3)(a := new_pipe (pmem s3) a)\<rparr>"
      let ?s5 = "upd_file g (pipe_file True a) (upd_file f (pipe_file False a) ?s4)"
      have ft: "ftable s3 = (ftable s)[f := ?inc (fil s f), g := ?inc (fil s g)]" using kalloc_files [OF k] g(2) by simp
      have "pipealloc s = Ok (Some (f, g), ?s5)" using f(1) 2(1) k some(1) by (simp add: pipealloc_def)
      moreover have "kmem_inv ?s5" "refcnt ?s5 = (refcnt s)(a := 1)"
        using some(4,5) k2(2) by (simp_all add: kmem_inv_cong [of ?s5 s3] refcnt_cong [of ?s5 s3])
      moreover have "ftable ?s5 = (ftable s)[f := pipe_file False a (?inc (fil s f)), g := pipe_file True a (?inc (fil s g))]"
        using g f(2) ft by (auto simp: nth_list_update intro!: nth_equalityI)
      moreover have "pipes ?s5 a = new_pipe (pmem ?s5) a" by simp
      ultimately show ?thesis using f g some(1,2,3) k2 that(2) [of f g ?s5 a] by simp
    qed
  qed
qed

text \<open>
  C23: \<^verbatim>\<open>pipealloc\<close> never panics. When it fails, fewer than two table entries or no page are free and the state is as before.
  When it succeeds, two different free entries are the read end and the write end of one empty pipe in a page that was
  free, with one reference each, and closing the two ends gives back the entries and the page.
\<close>

theorem pipealloc_correct:
  assumes "ftable_ok s" "kmem_inv s"
  shows "(pipealloc s = Ok (None, s) \<and>
      ((\<exists>g. \<forall>i<length (ftable s). i \<noteq> g \<longrightarrow> f_ref (fil s i) \<noteq> 0) \<or> (\<forall>pa\<in>managed s. refcnt s pa \<noteq> 0))) \<or>
    (\<exists>f g a s'. pipealloc s = Ok (Some (f, g), s') \<and> f \<noteq> g \<and> f_ref (fil s f) = 0 \<and> f_ref (fil s g) = 0 \<and>
       pipe_end False a (fil s' f) \<and> pipe_end True a (fil s' g) \<and> (\<forall>i. i \<noteq> f \<longrightarrow> i \<noteq> g \<longrightarrow> fil s' i = fil s i) \<and>
       refcnt s a = 0 \<and> refcnt s' = (refcnt s)(a := 1) \<and> pipe_inv (pipes s' a) \<and> pipe_items (pipes s' a) = [] \<and> ftable_ok s' \<and> kmem_inv s' \<and>
       (\<exists>s1 s2. fileclose f s' = Ok s1 \<and> fileclose g s1 = Ok s2 \<and> ftable_ok s2 \<and> map f_ref (ftable s2) = map f_ref (ftable s) \<and>
          refcnt s2 = refcnt s \<and> kmem_inv s2))"
  using assms
proof (cases rule: pipealloc_cases)
  case 1
  then show ?thesis by blast
next
  case (2 f g a s')
  have l: "f < length (ftable s')" "g < length (ftable s')" using 2(3,4,12) by simp_all
  have fg: "fil s' f = pipe_file False a ((fil s f)\<lparr>f_ref := 1\<rparr>)" "fil s' g = pipe_file True a ((fil s g)\<lparr>f_ref := 1\<rparr>)"
    using 2(2-4,12) by simp_all
  have ends: "pipe_end False a (fil s' f)" "pipe_end True a (fil s' g)" unfolding fg by (simp_all add: pipe_end_def pipe_file_def)
  have np: "pi_readopen (pipes s' a) = 1" "pi_writeopen (pipes s' a) = 1" using 2(13) by (simp_all add: new_pipe_def)
  have ok: "ftable_ok s'" using assms(1) 2(2-4,12) by (auto simp: ftable_ok_def pipe_file_def dest!: set_update_subset_insert [THEN subsetD])
  obtain s1 where s1: "fileclose f s' = Ok s1" "ftable s1 = (ftable s')[f := (fil s' f)\<lparr>f_ref := 0, f_type := FD_NONE\<rparr>]"
    "pipes s1 = (pipes s')(a := (pipes s' a)\<lparr>pi_readopen := 0\<rparr>)" "pmem s1 = pmem s'" "kend s1 = kend s'" "kref s1 = kref s'" "freelist s1 = freelist s'"
    using fileclose_pipe_one [of f s'] l ends(1) np(2) by (auto simp: pipe_end_def)
  have g1: "fil s1 g = fil s' g" using s1(2) 2(2) by simp
  have k1: "kmem_inv s1" "refcnt s1 = refcnt s'" using 2(10) kmem_inv_cong [OF s1(4-7)] refcnt_cong [OF s1(5,6)] by simp_all
  obtain s2 where s2: "fileclose g s1 = Ok s2" "ftable s2 = (ftable s1)[g := (fil s1 g)\<lparr>f_ref := 0, f_type := FD_NONE\<rparr>]"
    "kmem_inv s2" "refcnt s2 = (refcnt s1)(a := refcnt s1 a - 1)"
    using fileclose_pipe_last [of g s1] k1 s1(2,3) l(2) g1 ends(2) 2(11) by (auto simp: pipe_end_def)
  have t2: "ftable s2 = (ftable s)[f := (fil s' f)\<lparr>f_ref := 0, f_type := FD_NONE\<rparr>, g := (fil s' g)\<lparr>f_ref := 0, f_type := FD_NONE\<rparr>]"
    unfolding s2(2) g1 s1(2) 2(12) using 2(2-4) by (auto simp: nth_list_update fg intro!: nth_equalityI)
  have "map f_ref (ftable s2) = map f_ref (ftable s)"
    unfolding t2 using 2(2-6) by (auto simp: nth_list_update intro!: nth_equalityI)
  moreover have "ftable_ok s2" using assms(1) unfolding ftable_ok_def t2 by (auto dest!: set_update_subset_insert [THEN subsetD])
  moreover have "refcnt s2 = refcnt s" using s2(4) k1(2) 2(8,11) by (simp add: fun_eq_iff)
  ultimately have "\<exists>s1 s2. fileclose f s' = Ok s1 \<and> fileclose g s1 = Ok s2 \<and> ftable_ok s2 \<and> map f_ref (ftable s2) = map f_ref (ftable s) \<and>
      refcnt s2 = refcnt s \<and> kmem_inv s2" using s1(1) s2(1,3) by blast
  moreover have "\<forall>i. i \<noteq> f \<longrightarrow> i \<noteq> g \<longrightarrow> fil s' i = fil s i" using 2(12) by simp
  moreover have "pipe_inv (pipes s' a)" "pipe_items (pipes s' a) = []" using 2(13) new_pipe_items by simp_all
  ultimately show ?thesis using 2(1,2,5,6,8,10,11) ends ok by blast
qed

definition file_machine :: "kmem_st \<Rightarrow> file_t list \<Rightarrow> file_st" where
  "file_machine k ft = \<lparr>pmem = pmem k, kend = kend k, freelist = freelist k, kref = kref k, procs = [], curproc = None,
     nextpid = 1, initproc = None, ticks = 0, intr = False, trampoline = 0x80007000, forkret_pc = 0x80001000,
     bufs = [], lru = [], disk = (\<lambda>_. []), dwrites = [],
     lg_start = 2, lg_size = 30, lg_outstanding = 0, lg_committing = 0, lg_dev = 1, lh_n = 0, lh_block = [],
     fs_sb = \<lparr>sb_magic = FSMAGIC, sb_size = 2000, sb_nblocks = 1954, sb_ninodes = 200, sb_nlog = 30, sb_logstart = 2, sb_inodestart = 32, sb_bmapstart = 45\<rparr>, inodes = [], ftable = ft, pipes = (\<lambda>_. new_pipe (\<lambda>_. 0) 0)\<rparr>"

definition blank_file :: file_t where
  "blank_file = \<lparr>f_type = FD_NONE, f_ref = 0, f_readable = 0, f_writable = 0, f_pipe = 0, f_ip = 0, f_off = 0, f_major = 0\<rparr>"

lemma file_machine_fields:
  "pmem (file_machine k ft) = pmem k" "kend (file_machine k ft) = kend k" "kref (file_machine k ft) = kref k"
  "freelist (file_machine k ft) = freelist k" "ftable (file_machine k ft) = ft"
  by (simp_all add: file_machine_def)

theorem pipealloc_correct_witness:
  "\<exists>f g s' s1 s2. pipealloc (file_machine (one_page 0x87FFF000 0) [blank_file, blank_file]) = Ok (Some (f, g), s') \<and>
     fileclose f s' = Ok s1 \<and> fileclose g s1 = Ok s2 \<and> refcnt s2 0x87FFF000 = 0"
proof -
  let ?k = "one_page 0x87FFF000 0" let ?s = "file_machine ?k [blank_file, blank_file]"
  have k: "kmem_inv ?s" "refcnt ?s = refcnt ?k" "managed ?s = managed ?k"
    using kmem_inv_one_page(1) kmem_inv_cong [OF file_machine_fields(1-4)] refcnt_cong [OF file_machine_fields(2,3)]
      managed_cong [OF file_machine_fields(2)] by auto
  note ft = file_machine_fields(5) [of ?k "[blank_file, blank_file]"]
  have ok: "ftable_ok ?s" unfolding ftable_ok_def ft by (simp add: blank_file_def)
  have "\<not> ((\<exists>g. \<forall>i<length (ftable ?s). i \<noteq> g \<longrightarrow> f_ref (fil ?s i) \<noteq> 0) \<or> (\<forall>pa\<in>managed ?s. refcnt ?s pa \<noteq> 0))"
    unfolding ft k by (auto simp: managed_one_page refcnt_one_page blank_file_def less_Suc_eq)
  moreover have "refcnt ?s 0x87FFF000 = 0" unfolding k by (simp add: refcnt_one_page)
  ultimately show ?thesis using pipealloc_correct [OF ok k(1)] by metis
qed

end
