(* ===== verification/Exec.thy ===== *)
theory Exec
  imports Fs
begin

text \<open>
  \<^verbatim>\<open>kernel/exec.c\<close>: loading a program. The ELF headers are read into byte lists and their fields taken at their offsets.
  The argument strings come as byte lists.
\<close>

section \<open>ELF headers\<close>

definition get_long :: "u8 list \<Rightarrow> nat \<Rightarrow> u64" where
  "get_long d off = ucast (get_int d off) OR push_bit 32 (ucast (get_int d (off + 4)))"

definition ELF_MAGIC :: u32 where "ELF_MAGIC = 0x464C457F"
definition ELF_PROG_LOAD :: u32 where "ELF_PROG_LOAD = 1"

record elfhdr =
  elf_magic :: u32
  elf_entry :: u64
  elf_phoff :: u64
  elf_phnum :: u16

definition get_elfhdr :: "u8 list \<Rightarrow> elfhdr" where
  "get_elfhdr d = \<lparr>elf_magic = get_int d 0, elf_entry = get_long d 24, elf_phoff = get_long d 32, elf_phnum = get_short d 56\<rparr>"

record proghdr =
  ph_type :: u32
  ph_flags :: u32
  ph_off :: u64
  ph_vaddr :: u64
  ph_filesz :: u64
  ph_memsz :: u64

definition get_proghdr :: "u8 list \<Rightarrow> proghdr" where
  "get_proghdr d = \<lparr>ph_type = get_int d 0, ph_flags = get_int d 4, ph_off = get_long d 8, ph_vaddr = get_long d 16,
     ph_filesz = get_long d 32, ph_memsz = get_long d 40\<rparr>"

definition flags2perm :: "u32 \<Rightarrow> u64" where
  "flags2perm flags = (if flags AND 1 \<noteq> 0 then PTE_X else 0) OR (if flags AND 2 \<noteq> 0 then PTE_W else 0)"

section \<open>Loading\<close>

text \<open>
  The loop of \<^verbatim>\<open>loadseg\<close> from offset \<open>i\<close>. The C counter is 32 bits wide; no file is long enough for it to wrap.
\<close>

function loadseg_loop :: "u64 \<Rightarrow> u64 \<Rightarrow> nat \<Rightarrow> u32 \<Rightarrow> nat \<Rightarrow> nat \<Rightarrow> 'a fs_st_scheme \<Rightarrow> (int \<times> 'a fs_st_scheme) res" where
  "loadseg_loop pagetable va ip offset sz i s =
     (if i < sz then
        rbind (walkaddr pagetable (va + of_nat i) s) (\<lambda>pa.
        if pa = 0 then Panic ''loadseg: address should exist''
        else
          let n = min (sz - i) 4096 in
          rbind (readi ip (KDst pa) (offset + of_nat i) (of_nat n) s) (\<lambda>(r, _, s).
          if r \<noteq> int n then Ok (-1, s) else loadseg_loop pagetable va ip offset sz (i + 4096) s))
      else Ok (0, s))"
  by pat_completeness auto
termination
  by (relation "measure (\<lambda>(pt, va, ip, offset, sz, i, s). sz - i)") auto

declare loadseg_loop.simps [simp del]

definition loadseg :: "u64 \<Rightarrow> u64 \<Rightarrow> nat \<Rightarrow> u32 \<Rightarrow> u32 \<Rightarrow> 'a fs_st_scheme \<Rightarrow> (int \<times> 'a fs_st_scheme) res" where
  "loadseg pagetable va ip offset sz s = loadseg_loop pagetable va ip offset (unat sz) 0 s"

text \<open>
  The loop over the program headers: \<open>k\<close> are left, the next at \<open>off\<close>, \<open>sz\<close> is the size so far. The result is whether
  all went well, and the size.
\<close>

fun exec_segs :: "nat \<Rightarrow> u64 \<Rightarrow> nat \<Rightarrow> u32 \<Rightarrow> u64 \<Rightarrow> 'a fs_st_scheme \<Rightarrow> (bool \<times> u64 \<times> 'a fs_st_scheme) res" where
  "exec_segs ip pagetable 0 off sz s = Ok (True, sz, s)"
| "exec_segs ip pagetable (Suc k) off sz s =
     rbind (readi ip KBuf off 56 s) (\<lambda>(r, d, s).
     let ph = get_proghdr d in
     if r \<noteq> 56 then Ok (False, sz, s)
     else if ph_type ph \<noteq> ELF_PROG_LOAD then exec_segs ip pagetable k (off + 56) sz s
     else if ph_memsz ph < ph_filesz ph then Ok (False, sz, s)
     else if ph_vaddr ph + ph_memsz ph < ph_vaddr ph then Ok (False, sz, s)
     else if ph_vaddr ph mod PGSIZE \<noteq> 0 then Ok (False, sz, s)
     else
       rbind (uvmalloc pagetable sz (ph_vaddr ph + ph_memsz ph) (flags2perm (ph_flags ph)) s) (\<lambda>(sz1, s).
       if sz1 = 0 then Ok (False, sz, s)
       else
         rbind (loadseg pagetable (ph_vaddr ph) ip (ucast (ph_off ph)) (ucast (ph_filesz ph)) s) (\<lambda>(r, s).
         if r < 0 then Ok (False, sz1, s) else exec_segs ip pagetable k (off + 56) sz1 s)))"

section \<open>The stack\<close>

definition MAXARG :: nat where "MAXARG = 32"

text \<open>\<^verbatim>\<open>sp -= n; sp -= sp % 16\<close>\<close>

definition push_sp :: "u64 \<Rightarrow> nat \<Rightarrow> u64" where
  "push_sp sp n = (let sp = sp - of_nat n in sp - sp mod 16)"

text \<open>
  Pushing the argument strings; \<open>ustack\<close> holds the addresses so far. The result is whether all went well, the
  stack pointer and the addresses.
\<close>

fun push_args :: "u64 \<Rightarrow> u64 \<Rightarrow> u8 list list \<Rightarrow> u64 \<Rightarrow> u64 list \<Rightarrow> 'a fs_st_scheme \<Rightarrow> (bool \<times> u64 \<times> u64 list \<times> 'a fs_st_scheme) res" where
  "push_args pagetable stackbase [] sp ustack s = Ok (True, sp, ustack, s)"
| "push_args pagetable stackbase (arg # argv) sp ustack s =
     (if length ustack \<ge> MAXARG then Ok (False, sp, ustack, s)
      else
        let sp = push_sp sp (strlen arg + 1) in
        if sp < stackbase then Ok (False, sp, ustack, s)
        else
          rbind (copyout pagetable sp (cstr arg @ [0]) s) (\<lambda>(r, s).
          if r < 0 then Ok (False, sp, ustack, s)
          else push_args pagetable stackbase argv sp (ustack @ [sp]) s))"

text \<open>The part of a path after its last slash.\<close>

fun path_last :: "u8 list \<Rightarrow> u8 list \<Rightarrow> u8 list" where
  "path_last lst [] = lst"
| "path_last lst (c # p) = (if c = 0 then lst else path_last (if c = slash then p else lst) p)"

section \<open>exec\<close>

definition exec_bad :: "u64 \<Rightarrow> u64 \<Rightarrow> nat option \<Rightarrow> 'a fs_st_scheme \<Rightarrow> (int \<times> 'a fs_st_scheme) res" where
  "exec_bad pagetable sz ip s =
     rbind (if pagetable \<noteq> 0 then proc_freepagetable pagetable sz s else Ok s) (\<lambda>s.
     rbind (case ip of None \<Rightarrow> Ok s | Some ip \<Rightarrow> rbind (iunlockput ip s) end_op) (\<lambda>s.
     Ok (-1, s)))"

text \<open>From the allocation of the stack on: the inode is closed, \<open>sz\<close> bytes are loaded.\<close>

definition exec_commit :: "u8 list \<Rightarrow> u8 list list \<Rightarrow> elfhdr \<Rightarrow> u64 \<Rightarrow> u64 \<Rightarrow> nat \<Rightarrow> 'a fs_st_scheme \<Rightarrow> (int \<times> 'a fs_st_scheme) res" where
  "exec_commit path argv elf pagetable sz i s =
     (let oldsz = p_sz (procs s ! i); sz = PGROUNDUP sz in
      rbind (uvmalloc pagetable sz (sz + 2 * PGSIZE) PTE_W s) (\<lambda>(sz1, s).
      if sz1 = 0 then exec_bad pagetable sz None s
      else
        let sz = sz1 in
        rbind (uvmclear pagetable (sz - 2 * PGSIZE) s) (\<lambda>s.
        let stackbase = sz - PGSIZE in
        rbind (push_args pagetable stackbase argv sz [] s) (\<lambda>(ok, sp, ustack, s).
        let argc = length ustack; sp1 = push_sp sp ((argc + 1) * 8) in
        if \<not> ok then exec_bad pagetable sz None s
        else if sp1 < stackbase then exec_bad pagetable sz None s
        else
          rbind (copyout pagetable sp1 (concat (map long_bytes (ustack @ [0]))) s) (\<lambda>(r, s).
          if r < 0 then exec_bad pagetable sz None s
          else
            let s = tf_set i TF_a1 sp1 s;
                s = upd_proc i (\<lambda>p. p\<lparr>p_name := safestrcpy (p_name p) (path_last path path) 16\<rparr>) s;
                oldpagetable = p_pagetable (procs s ! i);
                s = upd_proc i (\<lambda>p. p\<lparr>p_pagetable := pagetable, p_sz := sz\<rparr>) s;
                s = tf_set i TF_epc (elf_entry elf) s;
                s = tf_set i TF_sp sp1 s in
            rbind (proc_freepagetable oldpagetable oldsz s) (\<lambda>s.
            Ok (int argc, s)))))))"

definition exec :: "u8 list \<Rightarrow> u8 list list \<Rightarrow> 'a fs_st_scheme \<Rightarrow> (int \<times> 'a fs_st_scheme) res" where
  "exec path argv s = with_proc s (\<lambda>i.
     rbind (begin_op s) (\<lambda>s.
     rbind (namei path s) (\<lambda>(ip, s).
     case ip of
       None \<Rightarrow> rbind (end_op s) (\<lambda>s. Ok (-1, s))
     | Some ip \<Rightarrow>
         rbind (ilock ip s) (\<lambda>s.
         rbind (readi ip KBuf 0 64 s) (\<lambda>(r, d, s).
         let elf = get_elfhdr d in
         if r \<noteq> 64 then exec_bad 0 0 (Some ip) s
         else if elf_magic elf \<noteq> ELF_MAGIC then exec_bad 0 0 (Some ip) s
         else
           rbind (proc_pagetable i s) (\<lambda>(pagetable, s).
           if pagetable = 0 then exec_bad 0 0 (Some ip) s
           else
             rbind (exec_segs ip pagetable (unat (elf_phnum elf)) (ucast (elf_phoff elf)) 0 s) (\<lambda>(ok, sz, s).
             if \<not> ok then exec_bad pagetable sz (Some ip) s
             else
               rbind (iunlockput ip s) (\<lambda>s.
               rbind (end_op s) (\<lambda>s.
               exec_commit path argv elf pagetable sz i s)))))))))"

end
