(* ===== verification/Sysfile.thy ===== *)
theory Sysfile
  imports File Exec
begin

text \<open>
  \<^verbatim>\<open>kernel/sysfile.c\<close> and the argument fetching of \<^verbatim>\<open>kernel/syscall.c\<close>. A system call takes the state and gives the value
  it returns, or the place where it waits; its arguments are in the trapframe of the current process. Strings
  fetched from the user are byte lists. Where a call fails between \<^verbatim>\<open>begin_op\<close> and \<^verbatim>\<open>end_op\<close>, the model closes the
  transaction as the code does.
\<close>

section \<open>Arguments\<close>

definition MAXPATH :: nat where "MAXPATH = 128"

definition fetchaddr :: "u64 \<Rightarrow> 'a proc_st_scheme \<Rightarrow> (int \<times> u64) res" where
  "fetchaddr addr s = with_proc s (\<lambda>i.
     let sz = p_sz (procs s ! i) in
     if addr \<ge> sz \<or> addr + 8 > sz then Ok (-1, 0)
     else rbind (copyin (p_pagetable (procs s ! i)) addr 8 s) (\<lambda>(r, bs).
       if r \<noteq> 0 then Ok (-1, 0) else Ok (0, get_long bs 0)))"

definition fetchstr :: "u64 \<Rightarrow> nat \<Rightarrow> 'a proc_st_scheme \<Rightarrow> (int \<times> u8 list) res" where
  "fetchstr addr mx s = with_proc s (\<lambda>i.
     rbind (copyinstr (p_pagetable (procs s ! i)) addr mx s) (\<lambda>(r, buf).
     if r < 0 then Ok (-1, buf) else Ok (int (strlen buf), buf)))"

definition argraw :: "nat \<Rightarrow> 'a proc_st_scheme \<Rightarrow> u64 res" where
  "argraw n s = with_proc s (\<lambda>i. if n \<le> 5 then Ok (tf_get s i (TF_a0 + 8 * of_nat n)) else Panic ''argraw'')"

definition argint :: "nat \<Rightarrow> 'a proc_st_scheme \<Rightarrow> i32 res" where
  "argint n s = rbind (argraw n s) (\<lambda>v. Ok (ucast v))"

definition argaddr :: "nat \<Rightarrow> 'a proc_st_scheme \<Rightarrow> u64 res" where
  "argaddr n s = argraw n s"

definition argstr :: "nat \<Rightarrow> nat \<Rightarrow> 'a proc_st_scheme \<Rightarrow> (int \<times> u8 list) res" where
  "argstr n mx s = rbind (argaddr n s) (\<lambda>addr. fetchstr addr mx s)"

section \<open>Descriptors\<close>

definition ofile :: "'a proc_st_scheme \<Rightarrow> nat \<Rightarrow> nat option list" where
  "ofile s i = p_ofile (procs s ! i)"

definition set_ofile :: "nat \<Rightarrow> nat \<Rightarrow> nat option \<Rightarrow> 'a proc_st_scheme \<Rightarrow> 'a proc_st_scheme" where
  "set_ofile i fd f s = upd_proc i (\<lambda>p. p\<lparr>p_ofile := (p_ofile p)[fd := f]\<rparr>) s"

definition argfd :: "nat \<Rightarrow> 'a proc_st_scheme \<Rightarrow> (nat \<times> nat) option res" where
  "argfd n s = rbind (argint n s) (\<lambda>fd. with_proc s (\<lambda>i.
     Ok (if sint fd < 0 \<or> sint fd \<ge> int NOFILE then None
         else map_option (\<lambda>f. (nat (sint fd), f)) (ofile s i ! nat (sint fd)))))"

definition fdalloc :: "nat \<Rightarrow> 'a proc_st_scheme \<Rightarrow> (nat option \<times> 'a proc_st_scheme) res" where
  "fdalloc f s = with_proc s (\<lambda>i.
     case first_idx (\<lambda>x. x = None) (ofile s i) of
       None \<Rightarrow> Ok (None, s)
     | Some fd \<Rightarrow> Ok (Some fd, set_ofile i fd (Some f) s))"

abbreviation sret :: "int \<Rightarrow> 's \<Rightarrow> 's pipe_out res" where
  "sret r s \<equiv> Ok (PRet r s)"

definition sys_dup :: "'a file_st_scheme \<Rightarrow> 'a file_st_scheme pipe_out res" where
  "sys_dup s =
     rbind (argfd 0 s) (\<lambda>x. case x of None \<Rightarrow> sret (-1) s | Some (_, f) \<Rightarrow>
     rbind (fdalloc f s) (\<lambda>(fd, s). case fd of None \<Rightarrow> sret (-1) s | Some fd \<Rightarrow>
     rbind (filedup f s) (\<lambda>(_, s). sret (int fd) s)))"

definition sys_read :: "(i16 \<Rightarrow> ('a file_st_scheme) devsw) \<Rightarrow> 'a file_st_scheme \<Rightarrow> 'a file_st_scheme pipe_out res" where
  "sys_read devsw s =
     rbind (argaddr 1 s) (\<lambda>p.
     rbind (argint 2 s) (\<lambda>n.
     rbind (argfd 0 s) (\<lambda>x. case x of None \<Rightarrow> sret (-1) s | Some (_, f) \<Rightarrow> fileread devsw f p n s)))"

definition sys_write :: "(i16 \<Rightarrow> ('a file_st_scheme) devsw) \<Rightarrow> 'a file_st_scheme \<Rightarrow> 'a file_st_scheme pipe_out res" where
  "sys_write devsw s =
     rbind (argaddr 1 s) (\<lambda>p.
     rbind (argint 2 s) (\<lambda>n.
     rbind (argfd 0 s) (\<lambda>x. case x of None \<Rightarrow> sret (-1) s | Some (_, f) \<Rightarrow> filewrite devsw f p n s)))"

definition sys_close :: "'a file_st_scheme \<Rightarrow> 'a file_st_scheme pipe_out res" where
  "sys_close s =
     rbind (argfd 0 s) (\<lambda>x. case x of None \<Rightarrow> sret (-1) s | Some (fd, f) \<Rightarrow>
     with_proc s (\<lambda>i.
     rbind (fileclose f (set_ofile i fd None s)) (\<lambda>s. sret 0 s)))"

definition sys_fstat :: "u8 list \<Rightarrow> 'a file_st_scheme \<Rightarrow> 'a file_st_scheme pipe_out res" where
  "sys_fstat pad s =
     rbind (argaddr 1 s) (\<lambda>st.
     rbind (argfd 0 s) (\<lambda>x. case x of None \<Rightarrow> sret (-1) s | Some (_, f) \<Rightarrow>
     rbind (filestat pad f st s) (\<lambda>(r, s). sret r s)))"

section \<open>Links and directories\<close>

text \<open>\<^verbatim>\<open>end_op(); return r\<close>\<close>

definition end_ret :: "int \<Rightarrow> 'a file_st_scheme \<Rightarrow> 'a file_st_scheme pipe_out res" where
  "end_ret r s = rbind (end_op s) (\<lambda>s. sret r s)"

definition add_nlink :: "i16 \<Rightarrow> nat \<Rightarrow> 'a fs_st_scheme \<Rightarrow> 'a fs_st_scheme" where
  "add_nlink d ip s = upd_inode ip (\<lambda>p. p\<lparr>i_nlink := i_nlink p + d\<rparr>) s"

definition link_bad :: "nat \<Rightarrow> 'a file_st_scheme \<Rightarrow> 'a file_st_scheme pipe_out res" where
  "link_bad ip s =
     rbind (ilock ip s) (\<lambda>s.
     rbind (iupdate ip (add_nlink (-1) ip s)) (\<lambda>s.
     rbind (iunlockput ip s) (\<lambda>s. end_ret (-1) s)))"

definition sys_link :: "'a file_st_scheme \<Rightarrow> 'a file_st_scheme pipe_out res" where
  "sys_link s =
     rbind (argstr 0 MAXPATH s) (\<lambda>(n, old). if n < 0 then sret (-1) s else
     rbind (argstr 1 MAXPATH s) (\<lambda>(n, new). if n < 0 then sret (-1) s else
     rbind (begin_op s) (\<lambda>s.
     rbind (namei old s) (\<lambda>(ip, s). case ip of None \<Rightarrow> end_ret (-1) s | Some ip \<Rightarrow>
     rbind (ilock ip s) (\<lambda>s.
     if i_type (ino s ip) = T_DIR then rbind (iunlockput ip s) (\<lambda>s. end_ret (-1) s)
     else
       rbind (iupdate ip (add_nlink 1 ip s)) (\<lambda>s.
       rbind (iunlock ip s) (\<lambda>s.
       rbind (nameiparent new (replicate DIRSIZ 0) s) (\<lambda>(dp, name, s). case dp of None \<Rightarrow> link_bad ip s | Some dp \<Rightarrow>
       rbind (ilock dp s) (\<lambda>s.
       rbind (if i_dev (ino s dp) \<noteq> i_dev (ino s ip) then Ok (-1, s) else dirlink dp name (i_inum (ino s ip)) s) (\<lambda>(r, s).
       if r < 0 then rbind (iunlockput dp s) (\<lambda>s. link_bad ip s)
       else
         rbind (iunlockput dp s) (\<lambda>s.
         rbind (iput ip s) (\<lambda>s. end_ret 0 s))))))))))))"

text \<open>The scan of \<^verbatim>\<open>isdirempty\<close> from \<open>off\<close>; \<open>sz\<close> is the size of the directory.\<close>

function isdirempty_loop :: "nat \<Rightarrow> nat \<Rightarrow> nat \<Rightarrow> 'a fs_st_scheme \<Rightarrow> (bool \<times> 'a fs_st_scheme) res" where
  "isdirempty_loop dp sz off s =
     (if off < sz then
        rbind (readi dp KBuf (of_nat off) 16 s) (\<lambda>(r, de, s).
        if r \<noteq> 16 then Panic ''isdirempty: readi''
        else if de_inum de \<noteq> 0 then Ok (False, s)
        else isdirempty_loop dp sz (off + 16) s)
      else Ok (True, s))"
  by pat_completeness auto
termination
  by (relation "measure (\<lambda>(dp, sz, off, s). sz - off)") auto

declare isdirempty_loop.simps [simp del]

definition isdirempty :: "nat \<Rightarrow> 'a fs_st_scheme \<Rightarrow> (bool \<times> 'a fs_st_scheme) res" where
  "isdirempty dp s = isdirempty_loop dp (unat (i_size (ino s dp))) 32 s"

definition unlink_bad :: "nat \<Rightarrow> 'a file_st_scheme \<Rightarrow> 'a file_st_scheme pipe_out res" where
  "unlink_bad dp s = rbind (iunlockput dp s) (\<lambda>s. end_ret (-1) s)"

definition sys_unlink :: "'a file_st_scheme \<Rightarrow> 'a file_st_scheme pipe_out res" where
  "sys_unlink s =
     rbind (argstr 0 MAXPATH s) (\<lambda>(n, path). if n < 0 then sret (-1) s else
     rbind (begin_op s) (\<lambda>s.
     rbind (nameiparent path (replicate DIRSIZ 0) s) (\<lambda>(dp, name, s). case dp of None \<Rightarrow> end_ret (-1) s | Some dp \<Rightarrow>
     rbind (ilock dp s) (\<lambda>s.
     if namecmp name (bytes_of ''.'') = 0 \<or> namecmp name (bytes_of ''..'') = 0 then unlink_bad dp s
     else
       rbind (dirlookup dp name s) (\<lambda>(found, s). case found of None \<Rightarrow> unlink_bad dp s | Some (ip, off) \<Rightarrow>
       rbind (ilock ip s) (\<lambda>s.
       if sint (i_nlink (ino s ip)) < 1 then Panic ''unlink: nlink < 1''
       else
         rbind (if i_type (ino s ip) = T_DIR then isdirempty ip s else Ok (True, s)) (\<lambda>(empty, s).
         if \<not> empty then rbind (iunlockput ip s) (\<lambda>s. unlink_bad dp s)
         else
           rbind (writei dp (KSrc (replicate 16 0)) (of_nat off) 16 s) (\<lambda>(r, s).
           if r \<noteq> 16 then Panic ''unlink: writei''
           else
             rbind (if i_type (ino s ip) = T_DIR then iupdate dp (add_nlink (-1) dp s) else Ok s) (\<lambda>s.
             rbind (iunlockput dp s) (\<lambda>s.
             rbind (iupdate ip (add_nlink (-1) ip s)) (\<lambda>s.
             rbind (iunlockput ip s) (\<lambda>s. end_ret 0 s))))))))))))"

definition create_fail :: "nat \<Rightarrow> nat \<Rightarrow> 'a fs_st_scheme \<Rightarrow> (nat option \<times> 'a fs_st_scheme) res" where
  "create_fail ip dp s =
     rbind (iupdate ip (upd_inode ip (\<lambda>p. p\<lparr>i_nlink := 0\<rparr>) s)) (\<lambda>s.
     rbind (iunlockput ip s) (\<lambda>s.
     rbind (iunlockput dp s) (\<lambda>s. Ok (None, s))))"

text \<open>The entries \<^verbatim>\<open>.\<close> and \<^verbatim>\<open>..\<close> of a new directory.\<close>

definition dot_entries :: "nat \<Rightarrow> nat \<Rightarrow> 'a fs_st_scheme \<Rightarrow> (int \<times> 'a fs_st_scheme) res" where
  "dot_entries ip dp s =
     rbind (dirlink ip (bytes_of ''.'') (i_inum (ino s ip)) s) (\<lambda>(r, s).
     if r < 0 then Ok (r, s) else dirlink ip (bytes_of ''..'') (i_inum (ino s dp)) s)"

definition create :: "u8 list \<Rightarrow> i16 \<Rightarrow> i16 \<Rightarrow> i16 \<Rightarrow> 'a fs_st_scheme \<Rightarrow> (nat option \<times> 'a fs_st_scheme) res" where
  "create path ty major minor s =
     rbind (nameiparent path (replicate DIRSIZ 0) s) (\<lambda>(dp, name, s). case dp of None \<Rightarrow> Ok (None, s) | Some dp \<Rightarrow>
     rbind (ilock dp s) (\<lambda>s.
     rbind (dirlookup dp name s) (\<lambda>(found, s). case found of
       Some (ip, _) \<Rightarrow>
         rbind (iunlockput dp s) (\<lambda>s.
         rbind (ilock ip s) (\<lambda>s.
         if ty = T_FILE \<and> (i_type (ino s ip) = T_FILE \<or> i_type (ino s ip) = T_DEVICE) then Ok (Some ip, s)
         else rbind (iunlockput ip s) (\<lambda>s. Ok (None, s))))
     | None \<Rightarrow>
         rbind (ialloc (i_dev (ino s dp)) ty s) (\<lambda>(ip, s). case ip of
           None \<Rightarrow> rbind (iunlockput dp s) (\<lambda>s. Ok (None, s))
         | Some ip \<Rightarrow>
             rbind (ilock ip s) (\<lambda>s.
             rbind (iupdate ip (upd_inode ip (\<lambda>p. p\<lparr>i_major := major, i_minor := minor, i_nlink := 1\<rparr>) s)) (\<lambda>s.
             rbind (if ty = T_DIR then dot_entries ip dp s else Ok (0, s)) (\<lambda>(r, s).
             if r < 0 then create_fail ip dp s
             else
               rbind (dirlink dp name (i_inum (ino s ip)) s) (\<lambda>(r, s).
               if r < 0 then create_fail ip dp s
               else
                 rbind (if ty = T_DIR then iupdate dp (add_nlink 1 dp s) else Ok s) (\<lambda>s.
                 rbind (iunlockput dp s) (\<lambda>s. Ok (Some ip, s))))))))))) "

section \<open>Opening\<close>

definition O_RDONLY :: i32 where "O_RDONLY = 0"
definition O_WRONLY :: i32 where "O_WRONLY = 1"
definition O_RDWR :: i32 where "O_RDWR = 2"
definition O_CREATE :: i32 where "O_CREATE = 0x200"
definition O_TRUNC :: i32 where "O_TRUNC = 0x400"

text \<open>The inode to open, locked.\<close>

definition open_inode :: "u8 list \<Rightarrow> i32 \<Rightarrow> 'a fs_st_scheme \<Rightarrow> (nat option \<times> 'a fs_st_scheme) res" where
  "open_inode path omode s =
     (if omode AND O_CREATE \<noteq> 0 then create path T_FILE 0 0 s
      else
        rbind (namei path s) (\<lambda>(ip, s). case ip of None \<Rightarrow> Ok (None, s) | Some ip \<Rightarrow>
        rbind (ilock ip s) (\<lambda>s.
        if i_type (ino s ip) = T_DIR \<and> omode \<noteq> O_RDONLY then rbind (iunlockput ip s) (\<lambda>s. Ok (None, s))
        else Ok (Some ip, s))))"

definition open_file :: "i32 \<Rightarrow> nat \<Rightarrow> inode \<Rightarrow> file_t \<Rightarrow> file_t" where
  "open_file omode ip p f =
     (if i_type p = T_DEVICE then f\<lparr>f_type := FD_DEVICE, f_major := i_major p\<rparr> else f\<lparr>f_type := FD_INODE, f_off := 0\<rparr>)
       \<lparr>f_ip := ip, f_readable := (if omode AND O_WRONLY = 0 then 1 else 0),
        f_writable := (if omode AND O_WRONLY \<noteq> 0 \<or> omode AND O_RDWR \<noteq> 0 then 1 else 0)\<rparr>"

definition sys_open :: "'a file_st_scheme \<Rightarrow> 'a file_st_scheme pipe_out res" where
  "sys_open s =
     rbind (argint 1 s) (\<lambda>omode.
     rbind (argstr 0 MAXPATH s) (\<lambda>(n, path). if n < 0 then sret (-1) s else
     rbind (begin_op s) (\<lambda>s.
     rbind (open_inode path omode s) (\<lambda>(ip, s). case ip of None \<Rightarrow> end_ret (-1) s | Some ip \<Rightarrow>
     if i_type (ino s ip) = T_DEVICE \<and> (sint (i_major (ino s ip)) < 0 \<or> sint (i_major (ino s ip)) \<ge> NDEV)
     then rbind (iunlockput ip s) (\<lambda>s. end_ret (-1) s)
     else
       let (f, s) = filealloc s in
       (case f of
          None \<Rightarrow> rbind (iunlockput ip s) (\<lambda>s. end_ret (-1) s)
        | Some f \<Rightarrow>
            rbind (fdalloc f s) (\<lambda>(fd, s). case fd of
              None \<Rightarrow> rbind (fileclose f s) (\<lambda>s. rbind (iunlockput ip s) (\<lambda>s. end_ret (-1) s))
            | Some fd \<Rightarrow>
                let s = upd_file f (open_file omode ip (ino s ip)) s in
                rbind (if omode AND O_TRUNC \<noteq> 0 \<and> i_type (ino s ip) = T_FILE then itrunc ip s else Ok s) (\<lambda>s.
                rbind (iunlock ip s) (\<lambda>s. end_ret (int fd) s))))))))"

definition sys_mkdir :: "'a file_st_scheme \<Rightarrow> 'a file_st_scheme pipe_out res" where
  "sys_mkdir s =
     rbind (begin_op s) (\<lambda>s.
     rbind (argstr 0 MAXPATH s) (\<lambda>(n, path). if n < 0 then end_ret (-1) s else
     rbind (create path T_DIR 0 0 s) (\<lambda>(ip, s). case ip of None \<Rightarrow> end_ret (-1) s | Some ip \<Rightarrow>
     rbind (iunlockput ip s) (\<lambda>s. end_ret 0 s))))"

definition sys_mknod :: "'a file_st_scheme \<Rightarrow> 'a file_st_scheme pipe_out res" where
  "sys_mknod s =
     rbind (begin_op s) (\<lambda>s.
     rbind (argint 1 s) (\<lambda>major.
     rbind (argint 2 s) (\<lambda>minor.
     rbind (argstr 0 MAXPATH s) (\<lambda>(n, path). if n < 0 then end_ret (-1) s else
     rbind (create path T_DEVICE (ucast major) (ucast minor) s) (\<lambda>(ip, s). case ip of None \<Rightarrow> end_ret (-1) s | Some ip \<Rightarrow>
     rbind (iunlockput ip s) (\<lambda>s. end_ret 0 s))))))"

definition sys_chdir :: "'a file_st_scheme \<Rightarrow> 'a file_st_scheme pipe_out res" where
  "sys_chdir s = with_proc s (\<lambda>i.
     rbind (begin_op s) (\<lambda>s.
     rbind (argstr 0 MAXPATH s) (\<lambda>(n, path). if n < 0 then end_ret (-1) s else
     rbind (namei path s) (\<lambda>(ip, s). case ip of None \<Rightarrow> end_ret (-1) s | Some ip \<Rightarrow>
     rbind (ilock ip s) (\<lambda>s.
     if i_type (ino s ip) \<noteq> T_DIR then rbind (iunlockput ip s) (\<lambda>s. end_ret (-1) s)
     else
       rbind (iunlock ip s) (\<lambda>s.
       rbind (case p_cwd (procs s ! i) of None \<Rightarrow> Panic ''kerneltrap'' | Some cwd \<Rightarrow> iput cwd s) (\<lambda>s.
       rbind (end_op s) (\<lambda>s. sret 0 (upd_proc i (\<lambda>p. p\<lparr>p_cwd := Some ip\<rparr>) s)))))))))"

section \<open>exec and pipe\<close>

text \<open>
  The loop of \<^verbatim>\<open>sys_exec\<close> that fetches the argument strings into fresh pages; \<open>pages\<close> are the pages taken so far, \<open>argv\<close> the
  strings. \<open>k\<close> slots of \<^verbatim>\<open>argv\<close> are left.
\<close>

fun fetch_argv :: "u64 \<Rightarrow> nat \<Rightarrow> u64 list \<Rightarrow> u8 list list \<Rightarrow> 'a proc_st_scheme \<Rightarrow> (bool \<times> u64 list \<times> u8 list list \<times> 'a proc_st_scheme) res" where
  "fetch_argv uargv 0 pages argv s = Ok (False, pages, argv, s)"
| "fetch_argv uargv (Suc k) pages argv s =
     rbind (fetchaddr (uargv + 8 * of_nat (length pages)) s) (\<lambda>(r, uarg).
     if r < 0 then Ok (False, pages, argv, s)
     else if uarg = 0 then Ok (True, pages, argv, s)
     else
       let (pg, s) = kalloc s in
       if pg = 0 then Ok (False, pages, argv, s)
       else
         rbind (fetchstr uarg 4096 s) (\<lambda>(n, arg).
         let s = s\<lparr>pmem := put_bytes (pmem s) pg arg\<rparr> in
         if n < 0 then Ok (False, pages @ [pg], argv, s)
         else fetch_argv uargv k (pages @ [pg]) (argv @ [arg]) s))"

fun kfree_all :: "u64 list \<Rightarrow> 'a kmem_st_scheme \<Rightarrow> 'a kmem_st_scheme res" where
  "kfree_all [] s = Ok s"
| "kfree_all (p # ps) s = rbind (kfree p s) (kfree_all ps)"

definition sys_exec :: "'a file_st_scheme \<Rightarrow> 'a file_st_scheme pipe_out res" where
  "sys_exec s =
     rbind (argaddr 1 s) (\<lambda>uargv.
     rbind (argstr 0 MAXPATH s) (\<lambda>(n, path). if n < 0 then sret (-1) s else
     rbind (fetch_argv uargv MAXARG [] [] s) (\<lambda>(ok, pages, argv, s).
     rbind (if ok then exec path argv s else Ok (-1, s)) (\<lambda>(ret, s).
     rbind (kfree_all pages s) (\<lambda>s. sret ret s)))))"

definition pipe_undo :: "nat \<Rightarrow> nat list \<Rightarrow> nat \<Rightarrow> nat \<Rightarrow> 'a file_st_scheme \<Rightarrow> 'a file_st_scheme pipe_out res" where
  "pipe_undo i fds rdf wrf s =
     rbind (fileclose rdf (fold (\<lambda>fd. set_ofile i fd None) fds s)) (\<lambda>s.
     rbind (fileclose wrf s) (\<lambda>s. sret (-1) s))"

definition sys_pipe :: "'a file_st_scheme \<Rightarrow> 'a file_st_scheme pipe_out res" where
  "sys_pipe s = with_proc s (\<lambda>i.
     rbind (argaddr 0 s) (\<lambda>fdarray.
     rbind (pipealloc s) (\<lambda>(x, s). case x of None \<Rightarrow> sret (-1) s | Some (rdf, wrf) \<Rightarrow>
     rbind (fdalloc rdf s) (\<lambda>(fd0, s). case fd0 of None \<Rightarrow> pipe_undo i [] rdf wrf s | Some fd0 \<Rightarrow>
     rbind (fdalloc wrf s) (\<lambda>(fd1, s). case fd1 of None \<Rightarrow> pipe_undo i [fd0] rdf wrf s | Some fd1 \<Rightarrow>
     rbind (copyout (p_pagetable (procs s ! i)) fdarray (int_bytes (of_nat fd0)) s) (\<lambda>(r, s).
     if r < 0 then pipe_undo i [fd0, fd1] rdf wrf s
     else
       rbind (copyout (p_pagetable (procs s ! i)) (fdarray + 4) (int_bytes (of_nat fd1)) s) (\<lambda>(r, s).
       if r < 0 then pipe_undo i [fd0, fd1] rdf wrf s else sret 0 s)))))))"

end
