(* ===== verification/Fork.thy ===== *)
theory Fork
  imports Sysfile
begin

text \<open>
  The parts of \<^verbatim>\<open>kernel/proc.c\<close> that use files: \<^verbatim>\<open>userinit\<close>, \<^verbatim>\<open>fork\<close>, \<^verbatim>\<open>exit\<close> and \<^verbatim>\<open>forkret\<close>.
\<close>

section \<open>The first process\<close>

definition initcode :: "u8 list" where
  "initcode =
    [0x17, 0x05, 0x00, 0x00, 0x13, 0x05, 0x45, 0x02,
     0x97, 0x05, 0x00, 0x00, 0x93, 0x85, 0x35, 0x02,
     0x93, 0x08, 0x70, 0x00, 0x73, 0x00, 0x00, 0x00,
     0x93, 0x08, 0x20, 0x00, 0x73, 0x00, 0x00, 0x00,
     0xef, 0xf0, 0x9f, 0xff, 0x2f, 0x69, 0x6e, 0x69,
     0x74, 0x00, 0x00, 0x24, 0x00, 0x00, 0x00, 0x00,
     0x00, 0x00, 0x00, 0x00]"

text \<open>\<^verbatim>\<open>userinit\<close> follows a null result of \<^verbatim>\<open>allocproc\<close>.\<close>

definition userinit :: "'a fs_st_scheme \<Rightarrow> 'a fs_st_scheme res" where
  "userinit s =
     rbind (allocproc s) (\<lambda>(p, s).
     let s = s\<lparr>initproc := p\<rparr> in
     case p of
       None \<Rightarrow> Panic ''kerneltrap''
     | Some p \<Rightarrow>
         rbind (uvmfirst (p_pagetable (procs s ! p)) initcode s) (\<lambda>s.
         let s = upd_proc p (\<lambda>q. q\<lparr>p_sz := PGSIZE\<rparr>) s;
             s = tf_set p TF_sp PGSIZE (tf_set p TF_epc 0 s);
             s = upd_proc p (\<lambda>q. q\<lparr>p_name := safestrcpy (p_name q) (bytes_of ''initcode'') 16\<rparr>) s in
         rbind (namei (bytes_of ''/'') s) (\<lambda>(ip, s).
         Ok (upd_proc p (\<lambda>q. q\<lparr>p_cwd := ip, p_state := RUNNABLE\<rparr>) s))))"

section \<open>fork\<close>

text \<open>The size of \<^verbatim>\<open>struct trapframe\<close>.\<close>

definition TRAPFRAME_SIZE :: nat where "TRAPFRAME_SIZE = 288"

text \<open>The loop over the descriptors, from \<open>fd\<close> on, \<open>k\<close> to go.\<close>

fun dup_files :: "nat \<Rightarrow> nat \<Rightarrow> nat \<Rightarrow> nat \<Rightarrow> 'a file_st_scheme \<Rightarrow> 'a file_st_scheme res" where
  "dup_files p np fd 0 s = Ok s"
| "dup_files p np fd (Suc k) s =
     (case ofile s p ! fd of
        None \<Rightarrow> dup_files p np (Suc fd) k s
      | Some f \<Rightarrow>
          rbind (filedup f s) (\<lambda>(f, s). dup_files p np (Suc fd) k (set_ofile np fd (Some f) s)))"

text \<open>\<^verbatim>\<open>*(np->trapframe) = *(p->trapframe)\<close>\<close>

definition copy_trapframe :: "nat \<Rightarrow> nat \<Rightarrow> 'a proc_st_scheme \<Rightarrow> 'a proc_st_scheme" where
  "copy_trapframe p np s = s\<lparr>pmem := put_bytes (pmem s) (p_trapframe (procs s ! np))
     (get_bytes (pmem s) (p_trapframe (procs s ! p)) TRAPFRAME_SIZE)\<rparr>"

definition fork :: "'a file_st_scheme \<Rightarrow> (i32 \<times> 'a file_st_scheme) res" where
  "fork s = with_proc s (\<lambda>p.
     rbind (allocproc s) (\<lambda>(np, s). case np of None \<Rightarrow> Ok (-1, s) | Some np \<Rightarrow>
     rbind (uvmcopy (p_pagetable (procs s ! p)) (p_pagetable (procs s ! np)) (p_sz (procs s ! p)) s) (\<lambda>(r, s).
     if r < 0 then rbind (freeproc np s) (\<lambda>s. Ok (-1, s))
     else
       let s = upd_proc np (\<lambda>q. q\<lparr>p_sz := p_sz (procs s ! p)\<rparr>) s;
           s = copy_trapframe p np s;
           s = tf_set np TF_a0 0 s in
       rbind (dup_files p np 0 NOFILE s) (\<lambda>s.
       case p_cwd (procs s ! p) of
         None \<Rightarrow> Panic ''kerneltrap''
       | Some cwd \<Rightarrow>
           let (ip, s) = idup cwd s;
               s = upd_proc np (\<lambda>q. q\<lparr>p_cwd := Some ip\<rparr>) s;
               s = upd_proc np (\<lambda>q. q\<lparr>p_name := safestrcpy (p_name q) (p_name (procs s ! p)) 16\<rparr>) s;
               pid = p_pid (procs s ! np);
               s = upd_proc np (\<lambda>q. q\<lparr>p_parent := Some p\<rparr>) s;
               s = upd_proc np (\<lambda>q. q\<lparr>p_state := RUNNABLE\<rparr>) s;
               s = upd_proc np (\<lambda>q. q\<lparr>p_startingTick := ticks s\<rparr>) s in
           Ok (pid, s)))))"

section \<open>exit\<close>

fun close_files :: "nat \<Rightarrow> nat \<Rightarrow> nat \<Rightarrow> 'a file_st_scheme \<Rightarrow> 'a file_st_scheme res" where
  "close_files p fd 0 s = Ok s"
| "close_files p fd (Suc k) s =
     (case ofile s p ! fd of
        None \<Rightarrow> close_files p (Suc fd) k s
      | Some f \<Rightarrow> rbind (fileclose f s) (\<lambda>s. close_files p (Suc fd) k (set_ofile p fd None s)))"

text \<open>
  \<^verbatim>\<open>exit\<close> up to its call of \<^verbatim>\<open>sched()\<close>, from which it does not come back. No process sleeps on a null parent.
\<close>

definition exit :: "i32 \<Rightarrow> 'a file_st_scheme \<Rightarrow> 'a file_st_scheme res" where
  "exit status s = with_proc s (\<lambda>p.
     if initproc s = Some p then Panic ''init exiting''
     else
       rbind (close_files p 0 NOFILE s) (\<lambda>s.
       rbind (begin_op s) (\<lambda>s.
       rbind (case p_cwd (procs s ! p) of None \<Rightarrow> Panic ''kerneltrap'' | Some cwd \<Rightarrow> iput cwd s) (\<lambda>s.
       rbind (end_op s) (\<lambda>s.
       let s = upd_proc p (\<lambda>q. q\<lparr>p_cwd := None\<rparr>) s in
       rbind (reparent p s) (\<lambda>s.
       let s = (case p_parent (procs s ! p) of None \<Rightarrow> s | Some pp \<Rightarrow> wakeup (ChProc pp) s) in
       Ok (exit_zombie p status s)))))))"

section \<open>forkret\<close>

text \<open>\<^verbatim>\<open>forkret\<close> up to \<^verbatim>\<open>usertrapret\<close>; \<open>first\<close> is its static variable.\<close>

definition forkret :: "bool \<Rightarrow> 'a fs_st_scheme \<Rightarrow> (bool \<times> 'a fs_st_scheme) res" where
  "forkret first s = (if first then rbind (fsinit ROOTDEV s) (\<lambda>s. Ok (False, s)) else Ok (False, s))"

end
