(* ===== verification/Uart.thy ===== *)
theory Uart
  imports Ring Proc
begin

text \<open>
  \<^verbatim>\<open>kernel/uart.c\<close>: the serial port driver with its 32-byte transmit queue. The device is a parameter: \<open>lsr t\<close> is what
  the \<open>t\<close>-th read of the line status register returns and \<open>rhr t\<close> what a read of the receive register returns
  then. Writes to device registers are recorded in order. \<open>None\<close> stands for a loop that never ends.
\<close>

section \<open>The code\<close>

definition THR :: nat where "THR = 0"
definition IER :: nat where "IER = 1"
definition FCR :: nat where "FCR = 2"
definition LCR :: nat where "LCR = 3"

definition UART_TX_BUF_SIZE :: nat where "UART_TX_BUF_SIZE = 32"

record uart =
  uart_tx_buf :: "u8 list"
  uart_tx_w :: u64
  uart_tx_r :: u64
  panicked :: i32
  dev_reads :: nat                   \<comment> \<open>reads of \<^verbatim>\<open>LSR\<close> so far\<close>
  dev_writes :: "(nat \<times> u8) list"    \<comment> \<open>register and value of every write so far\<close>

definition WriteReg :: "nat \<Rightarrow> u8 \<Rightarrow> uart \<Rightarrow> uart" where
  "WriteReg reg v u = u\<lparr>dev_writes := dev_writes u @ [(reg, v)]\<rparr>"

definition uartinit :: "uart \<Rightarrow> uart" where
  "uartinit u =
     (let u = WriteReg IER 0x00 u;
          u = WriteReg LCR (push_bit 7 1) u;
          u = WriteReg 0 0x03 u;
          u = WriteReg 1 0x00 u;
          u = WriteReg LCR 3 u;
          u = WriteReg FCR (1 OR push_bit 1 3) u
      in WriteReg IER (push_bit 1 1 OR 1) u)"

definition tx_idle :: "u8 \<Rightarrow> bool" where
  "tx_idle v \<longleftrightarrow> v AND push_bit 5 1 \<noteq> 0"

definition uart_put :: "u8 \<Rightarrow> uart \<Rightarrow> uart" where
  "uart_put c u = u\<lparr>uart_tx_buf := (uart_tx_buf u)[unat (uart_tx_w u) mod UART_TX_BUF_SIZE := c], uart_tx_w := uart_tx_w u + 1\<rparr>"

definition uart_front :: "uart \<Rightarrow> u8" where
  "uart_front u = uart_tx_buf u ! (unat (uart_tx_r u) mod UART_TX_BUF_SIZE)"

definition uart_get :: "uart \<Rightarrow> uart" where
  "uart_get u = u\<lparr>uart_tx_r := uart_tx_r u + 1\<rparr>"

definition uart_full :: "uart \<Rightarrow> bool" where
  "uart_full u \<longleftrightarrow> uart_tx_w u = uart_tx_r u + of_nat UART_TX_BUF_SIZE"

definition uart_empty :: "uart \<Rightarrow> bool" where
  "uart_empty u \<longleftrightarrow> uart_tx_w u = uart_tx_r u"

text \<open>Each turn removes an element, so the loop ends.\<close>

function uartstart :: "(nat \<Rightarrow> u8) \<Rightarrow> uart \<Rightarrow> 'a proc_st_scheme \<Rightarrow> uart \<times> 'a proc_st_scheme" where
  "uartstart lsr u s =
     (if uart_empty u then (u, s)
      else if \<not> tx_idle (lsr (dev_reads u)) then (u\<lparr>dev_reads := Suc (dev_reads u)\<rparr>, s)
      else uartstart lsr (WriteReg THR (uart_front u) (uart_get (u\<lparr>dev_reads := Suc (dev_reads u)\<rparr>))) (wakeup ChUart s))"
  by pat_completeness auto
termination
proof (relation "measure (\<lambda>(lsr, u, s). unat (uart_tx_w u - uart_tx_r u))", goal_cases)
  case (2 lsr u s)
  then have "uart_tx_w u - uart_tx_r u \<noteq> 0" by (simp add: uart_empty_def)
  then show ?case by (simp add: WriteReg_def uart_get_def diff_diff_eq [symmetric] unat_minus_one unat_gt_0)
qed simp

declare uartstart.simps [simp del]

text \<open>\<^verbatim>\<open>uartputc\<close> returns, sleeps until there is space, or, after a panic elsewhere, spins for ever.\<close>

datatype 'a uart_out = Sent 'a | Waits | Frozen

definition uartputc :: "(nat \<Rightarrow> u8) \<Rightarrow> u8 \<Rightarrow> uart \<Rightarrow> 'a proc_st_scheme \<Rightarrow> (uart \<times> 'a proc_st_scheme) uart_out" where
  "uartputc lsr c u s =
     (if panicked u \<noteq> 0 then Frozen
      else if uart_full u then Waits
      else Sent (uartstart lsr (uart_put c u) s))"

text \<open>The wait for an empty transmit register: the number of the read that saw it empty.\<close>

partial_function (option) tx_spin :: "(nat \<Rightarrow> u8) \<Rightarrow> nat \<Rightarrow> nat option" where
  [code]: "tx_spin lsr t = (if tx_idle (lsr t) then Some t else tx_spin lsr (Suc t))"

definition uartputc_sync :: "(nat \<Rightarrow> u8) \<Rightarrow> u8 \<Rightarrow> uart \<Rightarrow> uart option" where
  "uartputc_sync lsr c u =
     (if panicked u \<noteq> 0 then None
      else map_option (\<lambda>t. WriteReg THR c (u\<lparr>dev_reads := Suc t\<rparr>)) (tx_spin lsr (dev_reads u)))"

definition uartgetc :: "(nat \<Rightarrow> u8) \<Rightarrow> (nat \<Rightarrow> u8) \<Rightarrow> uart \<Rightarrow> int \<times> uart" where
  "uartgetc lsr rhr u =
     (let t = dev_reads u; u = u\<lparr>dev_reads := Suc t\<rparr> in if lsr t AND 1 \<noteq> 0 then (uint (rhr t), u) else (-1, u))"

text \<open>
  \<^verbatim>\<open>uartintr\<close> hands every waiting character to the console's handler \<open>con\<close>, then sends what is queued. The handler
  may itself write to the port, and may never return.
\<close>

partial_function (option) rx_loop ::
    "(nat \<Rightarrow> u8) \<Rightarrow> (nat \<Rightarrow> u8) \<Rightarrow> (int \<Rightarrow> uart \<Rightarrow> 's \<Rightarrow> (uart \<times> 's) option) \<Rightarrow> uart \<Rightarrow> 's \<Rightarrow> (uart \<times> 's) option" where
  [code]: "rx_loop lsr rhr con u s =
     (case uartgetc lsr rhr u of (c, u) \<Rightarrow>
        if c = -1 then Some (u, s)
        else Option.bind (con c u s) (\<lambda>(u, s). rx_loop lsr rhr con u s))"

definition uartintr ::
    "(nat \<Rightarrow> u8) \<Rightarrow> (nat \<Rightarrow> u8) \<Rightarrow> (int \<Rightarrow> uart \<Rightarrow> 'a proc_st_scheme \<Rightarrow> (uart \<times> 'a proc_st_scheme) option) \<Rightarrow>
     uart \<Rightarrow> 'a proc_st_scheme \<Rightarrow> (uart \<times> 'a proc_st_scheme) option" where
  "uartintr lsr rhr con u s = map_option (\<lambda>(u, s). uartstart lsr u s) (rx_loop lsr rhr con u s)"

section \<open>The transmit queue\<close>

definition uart_items :: "uart \<Rightarrow> u8 list" where
  "uart_items u = ring_items (uart_tx_buf u) (uart_tx_r u) (uart_tx_w u)"

definition uart_inv :: "uart \<Rightarrow> bool" where
  "uart_inv u \<longleftrightarrow> length (uart_tx_buf u) = UART_TX_BUF_SIZE \<and> length (uart_items u) \<le> UART_TX_BUF_SIZE"

lemma uart_full_iff: "uart_inv u \<Longrightarrow> uart_full u \<longleftrightarrow> length (uart_items u) = UART_TX_BUF_SIZE"
proof -
  have "uart_tx_w u = uart_tx_r u + of_nat UART_TX_BUF_SIZE \<longleftrightarrow> uart_tx_w u - uart_tx_r u = of_nat UART_TX_BUF_SIZE"
    by (auto simp: algebra_simps)
  also have "\<dots> \<longleftrightarrow> unat (uart_tx_w u - uart_tx_r u) = unat (of_nat UART_TX_BUF_SIZE :: u64)" by (simp add: word_unat_eq_iff)
  also have "unat (of_nat UART_TX_BUF_SIZE :: u64) = UART_TX_BUF_SIZE" by (rule unat_of_nat_less) (simp add: UART_TX_BUF_SIZE_def)
  finally show ?thesis by (simp add: uart_full_def uart_items_def)
qed

interpretation uq: bounded_queue uart_inv uart_items UART_TX_BUF_SIZE uart_full uart_empty uart_put uart_front uart_get
proof (unfold_locales, goal_cases)
  case (1 q)
  then show ?case by (rule uart_full_iff)
next
  case (2 q)
  then show ?case by (auto simp: uart_empty_def uart_items_def ring_empty)
next
  case (3 q)
  then show ?case by (simp add: uart_inv_def)
next
  case (4 q x)
  then have l: "length (uart_tx_buf q) = UART_TX_BUF_SIZE" "unat (uart_tx_w q - uart_tx_r q) < UART_TX_BUF_SIZE"
    using uart_full_iff [of q] by (auto simp: uart_inv_def uart_items_def)
  then have "uart_items (uart_put x q) = uart_items q @ [x]"
    using ring_push [of "uart_tx_buf q" "uart_tx_w q" "uart_tx_r q" x]
    by (simp add: uart_items_def uart_put_def UART_TX_BUF_SIZE_def)
  then show ?case using l by (simp add: uart_inv_def) (simp add: uart_put_def uart_items_def)
next
  case (5 q)
  then have "uart_items q = uart_front q # uart_items (uart_get q)"
    using ring_pop [of "uart_tx_r q" "uart_tx_w q" "uart_tx_buf q"]
    by (simp add: uart_items_def uart_empty_def uart_front_def uart_get_def uart_inv_def)
  then show ?case using 5 by (simp add: uart_inv_def) (simp add: uart_get_def)
qed

lemma uart_other [simp]:
  "uart_items (u\<lparr>dev_reads := t\<rparr>) = uart_items u" "uart_inv (u\<lparr>dev_reads := t\<rparr>) = uart_inv u"
  "uart_front (u\<lparr>dev_reads := t\<rparr>) = uart_front u" "uart_items (WriteReg r c u) = uart_items u"
  "uart_inv (WriteReg r c u) = uart_inv u" "uart_empty (u\<lparr>dev_reads := t\<rparr>) = uart_empty u"
  "dev_writes (WriteReg r c u) = dev_writes u @ [(r, c)]" "dev_reads (WriteReg r c u) = dev_reads u"
  "dev_writes (uart_get u) = dev_writes u" "dev_reads (uart_get u) = dev_reads u"
  "dev_writes (uart_put c u) = dev_writes u" "dev_reads (uart_put c u) = dev_reads u"
  "panicked (uart_put c u) = panicked u" "panicked (uart_get u) = panicked u" "panicked (WriteReg r c u) = panicked u"
  by (simp_all add: uart_items_def uart_inv_def uart_front_def WriteReg_def uart_empty_def uart_get_def uart_put_def)

text \<open>\<^verbatim>\<open>uartstart\<close> sends a prefix of the queue and stops early only when the device was busy.\<close>

lemma uartstart_spec:
  assumes "uart_inv u" "uartstart lsr u s = (u', s')"
  shows "uart_inv u' \<and> panicked u' = panicked u \<and>
    (\<exists>k\<le>length (uart_items u). dev_writes u' = dev_writes u @ map (Pair THR) (take k (uart_items u)) \<and>
       uart_items u' = drop k (uart_items u) \<and>
       (k < length (uart_items u) \<longrightarrow> \<not> tx_idle (lsr (dev_reads u + k))))"
  using assms
proof (induction lsr u s rule: uartstart.induct)
  case (1 lsr u s)
  let ?u = "u\<lparr>dev_reads := Suc (dev_reads u)\<rparr>"
  show ?case
  proof (cases "uart_empty u \<or> \<not> tx_idle (lsr (dev_reads u))")
    case True
    then show ?thesis using 1(2,3) uq.empty_law [OF 1(2)] by (auto simp: uartstart.simps split: if_splits)
  next
    case False
    then have get: "uart_inv (uart_get ?u)" "uart_items u = uart_front u # uart_items (uart_get ?u)"
      using uq.get_law [of ?u] 1(2) by simp_all
    let ?v = "WriteReg THR (uart_front u) (uart_get ?u)"
    have "uartstart lsr ?v (wakeup ChUart s) = (u', s')" using 1(3) False by (subst (asm) uartstart.simps) simp
    then obtain k where k: "uart_inv u'" "panicked u' = panicked u" "k \<le> length (uart_items ?v)"
        "dev_writes u' = dev_writes ?v @ map (Pair THR) (take k (uart_items ?v))" "uart_items u' = drop k (uart_items ?v)"
        "k < length (uart_items ?v) \<longrightarrow> \<not> tx_idle (lsr (dev_reads ?v + k))"
      using 1(1) False get(1) by fastforce
    then show ?thesis using get(2) by (intro conjI exI [of _ "Suc k"]) auto
  qed
qed

section \<open>Busy waiting\<close>

lemma tx_spin_idle: "tx_idle (lsr (t + n)) \<Longrightarrow> \<exists>k\<le>n. tx_spin lsr t = Some (t + k)"
proof (induction n arbitrary: t)
  case (Suc n)
  show ?case
  proof (cases "tx_idle (lsr t)")
    case False
    obtain k where "k \<le> n" "tx_spin lsr (Suc t) = Some (Suc t + k)" using Suc.IH [of "Suc t"] Suc.prems by auto
    then show ?thesis using False by (intro exI [of _ "Suc k"]) (simp add: tx_spin.simps [of lsr t])
  qed (auto simp: tx_spin.simps [of lsr t] intro: exI [of _ 0])
qed (subst tx_spin.simps, simp)

lemma tx_spin_Some: "tx_spin lsr t = Some t' \<Longrightarrow> t \<le> t' \<and> tx_idle (lsr t')"
  by (rule tx_spin.raw_induct [of "\<lambda>lsr t t'. t \<le> t' \<and> tx_idle (lsr t')"])
    (auto split: if_splits dest: Suc_leD)

text \<open>A device that is always ready again at some later time.\<close>

definition fair :: "(nat \<Rightarrow> u8) \<Rightarrow> bool" where
  "fair lsr \<longleftrightarrow> (\<forall>t. \<exists>n. tx_idle (lsr (t + n)))"

lemma uartputc_sync_fair:
  assumes "fair lsr" "panicked u = 0"
  shows "\<exists>t. uartputc_sync lsr c u = Some (WriteReg THR c (u\<lparr>dev_reads := t\<rparr>))"
  using tx_spin_idle [of lsr "dev_reads u"] assms by (fastforce simp: fair_def uartputc_sync_def)

section \<open>Runs of the driver\<close>

lemma shuffles_snoc: "w \<in> shuffles xs ys \<Longrightarrow> w @ [c] \<in> shuffles (xs @ [c]) ys"
proof (induction xs ys arbitrary: w rule: shuffles.induct)
  case (1 ys)
  have "ys @ [c] \<in> shuffles [c] ys" by (induction ys) auto
  then show ?case using 1 by simp
qed auto

lemma shuffles_append: "w \<in> shuffles xs ys \<Longrightarrow> w @ zs \<in> shuffles (xs @ zs) ys"
proof (induction zs rule: rev_induct)
  case (snoc z zs)
  then show ?case using shuffles_snoc [of "w @ zs" "xs @ zs" ys z] by simp
qed simp

lemma shuffles_snoc_right: "w \<in> shuffles xs ys \<Longrightarrow> w @ [c] \<in> shuffles xs (ys @ [c])"
  using shuffles_snoc [of w ys xs c] by (simp add: shuffles_commutes)

text \<open>
  The driver's calls in any order: characters accepted by \<^verbatim>\<open>uartputc\<close> (the list \<open>bs\<close>), characters written past the
  queue by \<^verbatim>\<open>uartputc_sync\<close>, as kernel messages and the console's echo are (the list \<open>es\<close>), and the two halves of
  \<^verbatim>\<open>uartintr\<close>, reading a character and sending what is queued. In between the rest of the kernel runs (\<open>other\<close>) and may
  set \<^verbatim>\<open>panicked\<close>.
\<close>

inductive uart_run :: "(nat \<Rightarrow> u8) \<Rightarrow> (nat \<Rightarrow> u8) \<Rightarrow> uart \<Rightarrow> 'a proc_st_scheme \<Rightarrow> u8 list \<Rightarrow> u8 list \<Rightarrow> uart \<Rightarrow> 'a proc_st_scheme \<Rightarrow> bool"
  for lsr rhr u0 s0 where
  start: "uart_run lsr rhr u0 s0 [] [] u0 s0"
| accept: "uart_run lsr rhr u0 s0 bs es u s \<Longrightarrow> uartputc lsr c u s = Sent (u', s') \<Longrightarrow> uart_run lsr rhr u0 s0 (bs @ [c]) es u' s'"
| sync: "uart_run lsr rhr u0 s0 bs es u s \<Longrightarrow> uartputc_sync lsr c u = Some u' \<Longrightarrow> uart_run lsr rhr u0 s0 bs (es @ [c]) u' s"
| receive: "uart_run lsr rhr u0 s0 bs es u s \<Longrightarrow> uartgetc lsr rhr u = (c, u') \<Longrightarrow> uart_run lsr rhr u0 s0 bs es u' s"
| send: "uart_run lsr rhr u0 s0 bs es u s \<Longrightarrow> uartstart lsr u s = (u', s') \<Longrightarrow> uart_run lsr rhr u0 s0 bs es u' s'"
| other: "uart_run lsr rhr u0 s0 bs es u s \<Longrightarrow> uart_run lsr rhr u0 s0 bs es (u\<lparr>panicked := v\<rparr>) s'"

definition uart_progress :: "uart \<Rightarrow> u8 list \<Rightarrow> u8 list \<Rightarrow> uart \<Rightarrow> bool" where
  "uart_progress u0 bs es u \<longleftrightarrow> uart_inv u \<and>
     (\<exists>k w. k \<le> length bs \<and> w \<in> shuffles (take k bs) es \<and> dev_writes u = dev_writes u0 @ map (Pair THR) w \<and>
        uart_items u = drop k bs)"

lemma uart_progress_start:
  assumes "uart_progress u0 bs es u" "uartstart lsr u s = (u', s')"
  shows "uart_progress u0 bs es u'"
proof -
  obtain k w where k: "uart_inv u" "k \<le> length bs" "w \<in> shuffles (take k bs) es"
      "dev_writes u = dev_writes u0 @ map (Pair THR) w" "uart_items u = drop k bs"
    using assms(1) by (auto simp: uart_progress_def)
  obtain j where j: "uart_inv u'" "j \<le> length (uart_items u)"
      "dev_writes u' = dev_writes u @ map (Pair THR) (take j (uart_items u))" "uart_items u' = drop j (uart_items u)"
    using uartstart_spec [OF k(1) assms(2)] by blast
  have "w @ take j (drop k bs) \<in> shuffles (take (k + j) bs) es" using shuffles_append [OF k(3)] by (simp add: take_add)
  then show ?thesis using k j unfolding uart_progress_def
    by (intro conjI exI [of _ "k + j"] exI [of _ "w @ take j (drop k bs)"]) (simp_all add: add.commute)
qed

lemma uart_progress_put:
  assumes "uart_progress u0 bs es u" "\<not> uart_full u"
  shows "uart_progress u0 (bs @ [c]) es (uart_put c u)"
proof -
  obtain k w where "uart_inv u" "k \<le> length bs" "w \<in> shuffles (take k bs) es"
      "dev_writes u = dev_writes u0 @ map (Pair THR) w" "uart_items u = drop k bs"
    using assms(1) by (auto simp: uart_progress_def)
  then show ?thesis using assms(2) uq.put_law [of u c] unfolding uart_progress_def
    by (intro conjI exI [of _ k] exI [of _ w]) simp_all
qed

lemma uart_progress_sync:
  assumes "uart_progress u0 bs es u" "uartputc_sync lsr c u = Some u'"
  shows "uart_progress u0 bs (es @ [c]) u'"
proof -
  obtain k w where k: "uart_inv u" "k \<le> length bs" "w \<in> shuffles (take k bs) es"
      "dev_writes u = dev_writes u0 @ map (Pair THR) w" "uart_items u = drop k bs"
    using assms(1) by (auto simp: uart_progress_def)
  obtain t where "u' = WriteReg THR c (u\<lparr>dev_reads := t\<rparr>)" using assms(2) by (auto simp: uartputc_sync_def split: if_splits)
  then show ?thesis using k shuffles_snoc_right [OF k(3)] unfolding uart_progress_def
    by (intro conjI exI [of _ k] exI [of _ "w @ [c]"]) simp_all
qed

lemma uart_run_progress:
  "uart_run lsr rhr u0 s0 bs es u s \<Longrightarrow> uart_inv u0 \<Longrightarrow> uart_empty u0 \<Longrightarrow> uart_progress u0 bs es u"
proof (induction rule: uart_run.induct)
  case start
  then show ?case using uq.empty_law by (auto simp: uart_progress_def)
next
  case (accept bs es u s c u' s')
  then have "\<not> uart_full u" "uartstart lsr (uart_put c u) s = (u', s')" by (auto simp: uartputc_def split: if_splits)
  then show ?case using accept uart_progress_put uart_progress_start by blast
next
  case (sync bs es u s c u')
  then show ?case using uart_progress_sync by blast
next
  case (receive bs es u s c u')
  then have "u' = u\<lparr>dev_reads := Suc (dev_reads u)\<rparr>" by (auto simp: uartgetc_def Let_def split: if_splits)
  then show ?case using receive by (simp add: uart_progress_def)
next
  case (send bs es u s u' s')
  then show ?case using uart_progress_start by blast
next
  case (other bs es u s v s')
  then show ?case by (simp add: uart_progress_def uart_inv_def uart_items_def)
qed

text \<open>A whole \<^verbatim>\<open>uartintr\<close> is a sequence of these steps when each call of the console's handler is.\<close>

definition handler_runs ::
    "(nat \<Rightarrow> u8) \<Rightarrow> (nat \<Rightarrow> u8) \<Rightarrow> uart \<Rightarrow> 'a proc_st_scheme \<Rightarrow> u8 list \<Rightarrow>
     (int \<Rightarrow> uart \<Rightarrow> 'a proc_st_scheme \<Rightarrow> (uart \<times> 'a proc_st_scheme) option) \<Rightarrow> bool" where
  "handler_runs lsr rhr u0 s0 bs con \<longleftrightarrow> (\<forall>c es u s u' s'. uart_run lsr rhr u0 s0 bs es u s \<longrightarrow> con c u s = Some (u', s') \<longrightarrow>
     (\<exists>es'. uart_run lsr rhr u0 s0 bs (es @ es') u' s'))"

lemma rx_loop_run:
  assumes "rx_loop lsr rhr con u s = Some r"
    and "handler_runs lsr rhr u0 s0 bs con" "uart_run lsr rhr u0 s0 bs es u s"
  shows "\<exists>es'. uart_run lsr rhr u0 s0 bs (es @ es') (fst r) (snd r)"
  using assms(2,3)
proof (induction arbitrary: es rule: rx_loop.raw_induct [OF _ assms(1), consumes 0, case_names step])
  case (step rec lsr rhr con u s r)
  obtain c v where g: "uartgetc lsr rhr u = (c, v)" by fastforce
  then have v: "uart_run lsr rhr u0 s0 bs es v s" using uart_run.receive step.prems(2) by blast
  show ?case
  proof (cases "c = -1")
    case True
    then show ?thesis using step.hyps g v by (auto intro: exI [of _ "[]"])
  next
    case False
    then obtain v' t' where c: "con c v s = Some (v', t')" "rec lsr rhr con v' t' = Some r"
      using step.hyps g by (auto simp: bind_eq_Some_conv)
    obtain es' where e: "uart_run lsr rhr u0 s0 bs (es @ es') v' t'"
      using step.prems(1) v c(1) unfolding handler_runs_def by blast
    show ?thesis using step.IH [OF c(2) step.prems(1) e] by (metis append.assoc)
  qed
qed

lemma uartintr_run:
  assumes "uartintr lsr rhr con u s = Some (u', s')" "handler_runs lsr rhr u0 s0 bs con" "uart_run lsr rhr u0 s0 bs es u s"
  shows "\<exists>es'. uart_run lsr rhr u0 s0 bs (es @ es') u' s'"
proof -
  obtain r where v: "rx_loop lsr rhr con u s = Some r" "uartstart lsr (fst r) (snd r) = (u', s')" using assms(1) by (auto simp: uartintr_def)
  show ?thesis using rx_loop_run [OF v(1) assms(2,3)] uart_run.send [OF _ v(2)] by blast
qed

definition uart_boot :: uart where
  "uart_boot = uartinit \<lparr>uart_tx_buf = replicate 32 0, uart_tx_w = 0, uart_tx_r = 0, panicked = 0, dev_reads = 0, dev_writes = []\<rparr>"

lemma uart_boot: "uart_inv uart_boot" "uart_empty uart_boot" "panicked uart_boot = 0"
  by (simp_all add: uart_boot_def uartinit_def WriteReg_def uart_inv_def uart_items_def uart_empty_def ring_items_def
      UART_TX_BUF_SIZE_def)

section \<open>Properties\<close>

text \<open>
  C28: in every run of the driver's calls, whatever the device reports, from an empty queue: what is written to the
  transmit register is an interleaving of the characters written by \<^verbatim>\<open>uartputc_sync\<close> with a prefix of those
  accepted by \<^verbatim>\<open>uartputc\<close>. Each of the two streams keeps its order, without loss or duplication, and the
  rest of the accepted characters is exactly what is queued, at most 32 bytes. The serial interrupt with the console's handler is such a run
  (\<open>external_intr_runs\<close> in \<open>Trap\<close>). Calls run one after another here: that
  \<^verbatim>\<open>uartputc_sync\<close>, which takes no lock, may interrupt another hart's \<^verbatim>\<open>uartstart\<close> is outside the model.
\<close>

theorem uart_fifo:
  assumes "uart_run lsr rhr u0 s0 bs es u s" "uart_inv u0" "uart_empty u0"
  shows "\<exists>k w. k \<le> length bs \<and> w \<in> shuffles (take k bs) es \<and> dev_writes u = dev_writes u0 @ map (Pair THR) w \<and>
    uart_items u = drop k bs \<and> length bs - k \<le> UART_TX_BUF_SIZE"
proof -
  obtain k w where k: "uart_inv u" "k \<le> length bs" "w \<in> shuffles (take k bs) es"
      "dev_writes u = dev_writes u0 @ map (Pair THR) w" "uart_items u = drop k bs"
    using uart_run_progress [OF assms] by (auto simp: uart_progress_def)
  then show ?thesis using uq.bound_law [OF k(1)] by (intro exI [of _ k] exI [of _ w]) simp
qed

theorem uart_fifo_witness:
  "\<forall>s0 :: proc_st. \<exists>u s. uart_run (\<lambda>_. 32) (\<lambda>_. 0) uart_boot s0 [65] [66] u s \<and>
    (\<exists>k w. k \<le> 1 \<and> w \<in> shuffles (take k [65]) [66] \<and> dev_writes u = dev_writes uart_boot @ map (Pair THR) w \<and>
      uart_items u = drop k [65] \<and> 1 - k \<le> UART_TX_BUF_SIZE)"
proof
  fix s0 :: proc_st
  obtain u s where us: "uartstart (\<lambda>_. 32) (uart_put 65 uart_boot) s0 = (u, s)" by fastforce
  have "\<not> uart_full uart_boot" using uq.full_law [OF uart_boot(1)] uq.empty_law [OF uart_boot(1)] uart_boot(2)
    by (simp add: UART_TX_BUF_SIZE_def)
  then have 1: "uart_run (\<lambda>_. 32) (\<lambda>_. 0) uart_boot s0 ([] @ [65]) [] u s"
    using us uart_boot(3) by (intro uart_run.accept [OF uart_run.start]) (simp add: uartputc_def)
  have "uart_inv (uart_put 65 uart_boot)" using uq.put_law [OF uart_boot(1)] \<open>\<not> uart_full uart_boot\<close> by blast
  then have "panicked u = 0" using uartstart_spec [OF _ us] uart_boot(3) by simp
  then obtain t where "uartputc_sync (\<lambda>_. 32) 66 u = Some (WriteReg THR 66 (u\<lparr>dev_reads := t\<rparr>))"
    using uartputc_sync_fair [of "\<lambda>_. 32" u 66] by (auto simp: fair_def tx_idle_def)
  then obtain u' where "uart_run (\<lambda>_. 32) (\<lambda>_. 0) uart_boot s0 [65] [66] u' s" using uart_run.sync [OF 1] by fastforce
  then show "\<exists>u s. uart_run (\<lambda>_. 32) (\<lambda>_. 0) uart_boot s0 [65] [66] u s \<and>
    (\<exists>k w. k \<le> 1 \<and> w \<in> shuffles (take k [65]) [66] \<and> dev_writes u = dev_writes uart_boot @ map (Pair THR) w \<and>
      uart_items u = drop k [65] \<and> 1 - k \<le> UART_TX_BUF_SIZE)"
    using uart_fifo [of "\<lambda>_. 32" "\<lambda>_. 0" uart_boot s0 "[65]" "[66]" u' s] uart_boot by auto
qed

text \<open>
  C29: the busy-waiting \<^verbatim>\<open>uartputc_sync\<close> returns exactly when no panic froze the port and the device becomes ready at
  some later read; it then writes the one character, after a read that saw the device ready.
\<close>

theorem uartputc_sync_returns:
  "(uartputc_sync lsr c u = None \<longleftrightarrow> panicked u \<noteq> 0 \<or> (\<forall>n. \<not> tx_idle (lsr (dev_reads u + n)))) \<and>
   (uartputc_sync lsr c u = Some u' \<longrightarrow>
      dev_writes u' = dev_writes u @ [(THR, c)] \<and> uart_items u' = uart_items u \<and> tx_idle (lsr (dev_reads u' - 1)))"
proof (intro conjI impI)
  have "tx_spin lsr (dev_reads u) = None \<longleftrightarrow> (\<forall>n. \<not> tx_idle (lsr (dev_reads u + n)))"
    using tx_spin_idle [of lsr "dev_reads u"] tx_spin_Some [of lsr "dev_reads u"]
    by (metis le_Suc_ex not_None_eq option.distinct(1))
  then show "uartputc_sync lsr c u = None \<longleftrightarrow> panicked u \<noteq> 0 \<or> (\<forall>n. \<not> tx_idle (lsr (dev_reads u + n)))"
    by (simp add: uartputc_sync_def)
qed (auto simp: uartputc_sync_def dest: tx_spin_Some split: if_splits)

theorem uartputc_sync_returns_witness:
  "uartputc_sync (\<lambda>t. if t < 3 then 0 else 32) 65 uart_boot \<noteq> None"
proof -
  have "tx_idle (if dev_reads uart_boot + 3 < 3 then 0 else 32)" by (simp add: tx_idle_def)
  then show ?thesis
    using uartputc_sync_returns [of "\<lambda>t. if t < 3 then 0 else 32" 65 uart_boot] uart_boot(3) by blast
qed

end
