(* ===== verification/Ulib.thy ===== *)
theory Ulib
  imports CStr
begin

text \<open>
  \<^verbatim>\<open>user/ulib.c\<close>: the C library of user programs. Functions that share their name with one of
  \<^verbatim>\<open>kernel/string.c\<close> carry the prefix \<open>u_\<close>. \<^verbatim>\<open>gets\<close> reads through a parameter that stands for the system call
  \<^verbatim>\<open>read(0, &c, 1)\<close>.
\<close>

section \<open>Strings\<close>

text \<open>\<open>u_strcpy\<close> gives the bytes stored, the terminator included.\<close>

fun u_strcpy :: "u8 list \<Rightarrow> u8 list" where
  "u_strcpy [] = [0]"
| "u_strcpy (c # t) = (if c \<noteq> 0 then c # u_strcpy t else [0])"

fun u_strcmp :: "u8 list \<Rightarrow> u8 list \<Rightarrow> int" where
  "u_strcmp [] q = 0 - uint (chr0 q)"
| "u_strcmp (c # p) q = (if c \<noteq> 0 \<and> c = chr0 q then u_strcmp p (tl q) else uint c - uint (chr0 q))"

fun u_strlen :: "u8 list \<Rightarrow> nat" where
  "u_strlen [] = 0"
| "u_strlen (c # s) = (if c \<noteq> 0 then Suc (u_strlen s) else 0)"

text \<open>\<open>strchr\<close> returns the rest of the string from the character on.\<close>

fun strchr :: "u8 list \<Rightarrow> u8 \<Rightarrow> u8 list option" where
  "strchr [] c = None"
| "strchr (x # s) c = (if x = 0 then None else if x = c then Some (x # s) else strchr s c)"

fun gets_loop :: "('s \<Rightarrow> int \<times> u8 \<times> 's) \<Rightarrow> nat \<Rightarrow> u8 list \<Rightarrow> 's \<Rightarrow> u8 list \<times> 's" where
  "gets_loop rd 0 acc s = (acc, s)"
| "gets_loop rd (Suc k) acc s =
     (case rd s of (cc, c, s) \<Rightarrow>
        if cc < 1 then (acc, s)
        else if c = 10 \<or> c = 13 then (acc @ [c], s)
        else gets_loop rd k (acc @ [c]) s)"

definition gets :: "('s \<Rightarrow> int \<times> u8 \<times> 's) \<Rightarrow> int \<Rightarrow> 's \<Rightarrow> u8 list \<times> 's" where
  "gets rd mx s = (case gets_loop rd (nat (mx - 1)) [] s of (b, s) \<Rightarrow> (b @ [0], s))"

fun atoi_loop :: "32 word \<Rightarrow> u8 list \<Rightarrow> 32 word" where
  "atoi_loop n [] = n"
| "atoi_loop n (c # s) = (if 48 \<le> c \<and> c \<le> 57 then atoi_loop (n * 10 + ucast c - 48) s else n)"

definition atoi :: "u8 list \<Rightarrow> 32 word" where
  "atoi s = atoi_loop 0 s"

section \<open>Memory\<close>

definition u_memset :: "mem \<Rightarrow> u64 \<Rightarrow> u32 \<Rightarrow> nat \<Rightarrow> mem" where
  "u_memset m dst c n = memset_loop m dst (ucast c) n"

text \<open>\<open>n\<close> is the signed count clipped at 0. Copying up when the source is above, down otherwise.\<close>

definition u_memmove :: "mem \<Rightarrow> u64 \<Rightarrow> u64 \<Rightarrow> nat \<Rightarrow> mem" where
  "u_memmove m dst src n =
     (if src > dst then copy_up m dst src n else copy_down m (dst + of_nat n) (src + of_nat n) n)"

fun u_memcmp :: "mem \<Rightarrow> u64 \<Rightarrow> u64 \<Rightarrow> nat \<Rightarrow> int" where
  "u_memcmp m p1 p2 0 = 0"
| "u_memcmp m p1 p2 (Suc n) =
     (if m p1 \<noteq> m p2 then uint (m p1) - uint (m p2) else u_memcmp m (p1 + 1) (p2 + 1) n)"

definition u_memcpy :: "mem \<Rightarrow> u64 \<Rightarrow> u64 \<Rightarrow> nat \<Rightarrow> mem" where
  "u_memcpy m dst src n = u_memmove m dst src n"

section \<open>Correctness\<close>

lemma u_strcpy_cstr: "u_strcpy t = cstr t @ [0]"
  by (induction t) auto

lemma u_strlen_cstr: "u_strlen s = length (cstr s)"
  by (induction s) auto

lemma u_strcmp_eq_0: "u_strcmp p q = 0 \<longleftrightarrow> cstr p = cstr q"
proof (induction p arbitrary: q)
  case Nil
  then show ?case by (cases q) (auto simp: word_uint_eq_iff)
next
  case (Cons c p)
  then show ?case by (cases q) (auto simp: word_uint_eq_iff)
qed

lemma gets_loop_props:
  "gets_loop rd k acc s = (b, s') \<Longrightarrow>
     \<exists>d. b = acc @ d \<and> length d \<le> k \<and> (\<forall>x\<in>set (butlast d). x \<noteq> 10 \<and> x \<noteq> 13)"
proof (induction k arbitrary: acc s)
  case (Suc k)
  obtain cc c t where r: "rd s = (cc, c, t)" by (cases "rd s")
  show ?case
  proof (cases "cc < 1 \<or> c = 10 \<or> c = 13")
    case True
    then show ?thesis using Suc.prems r by (auto split: if_splits)
  next
    case False
    then have "gets_loop rd k (acc @ [c]) t = (b, s')" using Suc.prems r by simp
    from Suc.IH [OF this] obtain d where "b = acc @ c # d" "length d \<le> k" "\<forall>x\<in>set (butlast d). x \<noteq> 10 \<and> x \<noteq> 13" by auto
    then show ?thesis using False by (intro exI [of _ "c # d"]) auto
  qed
qed simp

lemma window_reverse:
  fixes dst x :: u64
  assumes "unat (of_nat n :: u64) = n" "0 < n"
  shows "unat (dst + of_nat n - 1 - x) < n \<longleftrightarrow> unat (x - dst) < n"
proof -
  let ?z = "dst + of_nat n - 1 - x" and ?y = "x - dst"
  have z: "?z = of_nat n - 1 - ?y" and y: "?y = of_nat n - 1 - ?z" by simp_all
  have n1: "unat (of_nat n - 1 :: u64) = n - 1"
    using unat_step [of "of_nat n"] assms by (metis unat_0 less_numeral_extra(3))
  have "unat (of_nat n - 1 - w) < n" if "unat w < n" for w :: u64
    using that n1 by (simp add: unat_sub word_le_nat_alt)
  then show ?thesis using z y by metis
qed

lemma u_memmove_apply:
  assumes "unat src + n < 2 ^ 64" and "unat dst + n < 2 ^ 64"
  shows "u_memmove m dst src n x = (if unat (x - dst) < n then m (src + (x - dst)) else m x)"
proof (cases "src > dst")
  case True
  then have "n \<le> unat (dst - src)" using assms by (auto simp: unat_sub_if_size word_size word_less_nat_alt)
  then show ?thesis using True copy_up_apply [of n dst src m x] assms by (simp add: u_memmove_def)
next
  case False
  have n: "unat (of_nat n :: u64) = n" using assms(1) by (simp add: unat_of_nat)
  show ?thesis
  proof (cases "n = 0")
    case True
    then show ?thesis using False by (simp add: u_memmove_def)
  next
    case n0: False
    have "dst = src \<or> n \<le> unat (src - dst)"
      using False assms by (auto simp: unat_sub_if_size word_size word_less_nat_alt word_unat_eq_iff)
    then have "dst + of_nat n = src + of_nat n \<or> n \<le> unat (src + of_nat n - (dst + of_nat n))" by auto
    then have "u_memmove m dst src n x =
        (if unat (dst + of_nat n - 1 - x) < n then m (src + of_nat n - 1 - (dst + of_nat n - 1 - x)) else m x)"
      using False copy_down_apply [of n "dst + of_nat n" "src + of_nat n" m x] assms by (simp add: u_memmove_def)
    moreover have "src + of_nat n - 1 - (dst + of_nat n - 1 - x) = src + (x - dst)" by simp
    ultimately show ?thesis using window_reverse [OF n, of dst x] n0 by simp
  qed
qed

text \<open>
  The user library's \<^verbatim>\<open>memmove\<close>, which chooses the direction by comparing the addresses only, computes the same
  memory as the kernel's, which also tests for overlap, on all regions that do not wrap around.
\<close>

lemma u_memmove_equiv:
  assumes "unat src + n < 2 ^ 64" and "unat dst + n < 2 ^ 64"
  shows "u_memmove m dst src n = memmove m dst src n"
  using u_memmove_apply [OF assms] memmove_apply [OF assms] by (auto simp: fun_eq_iff)

end
