(* ===== verification/Printf.thy ===== *)
theory Printf
  imports Ulib
begin

text \<open>
  Formatted output: \<^verbatim>\<open>kernel/printf.c\<close> and \<^verbatim>\<open>user/printf.c\<close>, as the bytes they emit. A variadic argument is a machine
  word or a pointer given by the string it points to; taking an argument that was not passed, or a string where
  a number is expected, is undefined and gives \<open>None\<close>.
\<close>

section \<open>The code\<close>

definition digits :: "u8 list" where "digits = bytes_of ''0123456789abcdef''"

definition u_digits :: "u8 list" where "u_digits = bytes_of ''0123456789ABCDEF''"

definition minus_sign :: u8 where "minus_sign = byte_of CHR ''-''"

definition percent :: u8 where "percent = byte_of CHR ''%''"

text \<open>
  The conversion loop, the least significant digit first, as it fills \<^verbatim>\<open>buf\<close>. Both printers pass base 10 or 16.
\<close>

function digit_loop :: "u8 list \<Rightarrow> u32 \<Rightarrow> u32 \<Rightarrow> u8 list" where
  "digit_loop ds base x =
     ds ! unat (x mod base) # (if x div base \<noteq> 0 \<and> 1 < base then digit_loop ds base (x div base) else [])"
  by pat_completeness auto
termination
proof (relation "measure (\<lambda>(ds, base, x). unat x)", goal_cases)
  case (2 ds base x)
  then have "0 < x" using word_neq_0_conv by fastforce
  with 2 show ?case by (simp add: unat_div word_less_nat_alt)
qed simp

declare digit_loop.simps [simp del]

text \<open>\<open>printint_buf\<close> is the contents of \<^verbatim>\<open>buf[16]\<close>, \<open>printint\<close> what is printed. \<^verbatim>\<open>-xx\<close> wraps at the least integer.\<close>

definition printint_buf :: "u32 \<Rightarrow> u32 \<Rightarrow> bool \<Rightarrow> u8 list" where
  "printint_buf xx base sign =
     (let neg = (sign \<and> sint xx < 0); x = (if neg then - xx else xx) in
      digit_loop digits base x @ (if neg then [minus_sign] else []))"

definition printint :: "u32 \<Rightarrow> u32 \<Rightarrow> bool \<Rightarrow> u8 list" where
  "printint xx base sign = rev (printint_buf xx base sign)"

definition u_printint :: "u32 \<Rightarrow> u32 \<Rightarrow> bool \<Rightarrow> u8 list" where
  "u_printint xx base sg =
     (let (neg, x) = (if sg \<and> sint xx < 0 then (True, - xx) else (False, xx)) in
      rev (digit_loop u_digits base x @ (if neg then [minus_sign] else [])))"

fun ptr_loop :: "u8 list \<Rightarrow> nat \<Rightarrow> u64 \<Rightarrow> u8 list" where
  "ptr_loop ds 0 x = []"
| "ptr_loop ds (Suc k) x = ds ! unat (drop_bit 60 x) # ptr_loop ds k (push_bit 4 x)"

definition printptr :: "u64 \<Rightarrow> u8 list" where
  "printptr x = bytes_of ''0x'' @ ptr_loop digits 16 x"

definition u_printptr :: "u64 \<Rightarrow> u8 list" where
  "u_printptr x = bytes_of ''0x'' @ ptr_loop u_digits 16 x"

datatype va = Word u64 | Str "u8 list"

fun va_word :: "va list \<Rightarrow> (u64 \<times> va list) option" where
  "va_word (Word x # ap) = Some (x, ap)"
| "va_word ap = None"

fun va_str :: "va list \<Rightarrow> (u8 list \<times> va list) option" where
  "va_str (Str s # ap) = Some (cstr s, ap)"
| "va_str (Word x # ap) = (if x = 0 then Some (bytes_of ''(null)'', ap) else None)"
| "va_str [] = None"

definition emit :: "u8 list \<Rightarrow> u8 list option \<Rightarrow> u8 list option" where
  "emit out r = map_option (\<lambda>rest. out @ rest) r"

text \<open>The conversions of the kernel's \<^verbatim>\<open>printf\<close>: the character after \<^verbatim>\<open>%\<close>, the output, the arguments left.\<close>

definition conv :: "u8 \<Rightarrow> va list \<Rightarrow> (u8 list \<times> va list) option" where
  "conv c ap =
     (if c = byte_of CHR ''d'' then map_option (\<lambda>(x, ap). (printint (ucast x) 10 True, ap)) (va_word ap)
      else if c = byte_of CHR ''x'' then map_option (\<lambda>(x, ap). (printint (ucast x) 16 True, ap)) (va_word ap)
      else if c = byte_of CHR ''p'' then map_option (\<lambda>(x, ap). (printptr x, ap)) (va_word ap)
      else if c = byte_of CHR ''s'' then va_str ap
      else if c = percent then Some ([percent], ap)
      else Some ([percent, c], ap))"

fun printf_loop :: "u8 list \<Rightarrow> va list \<Rightarrow> u8 list option" where
  "printf_loop [] ap = Some []"
| "printf_loop [c] ap = (if c = 0 \<or> c = percent then Some [] else Some [c])"
| "printf_loop (c # d # fmt) ap =
     (if c = 0 then Some []
      else if c \<noteq> percent then emit [c] (printf_loop (d # fmt) ap)
      else if d = 0 then Some []
      else (case conv d ap of None \<Rightarrow> None | Some (out, ap) \<Rightarrow> emit out (printf_loop fmt ap)))"

definition printf :: "u8 list option \<Rightarrow> va list \<Rightarrow> u8 list option res" where
  "printf fmt ap = (case fmt of None \<Rightarrow> Panic ''null fmt'' | Some fmt \<Rightarrow> Ok (printf_loop fmt ap))"

text \<open>What \<^verbatim>\<open>panic\<close> prints before it stops the machine.\<close>

definition panic_output :: "u8 list \<Rightarrow> u8 list option" where
  "panic_output s =
     (case (printf_loop (bytes_of ''panic: '') [], printf_loop s [], printf_loop [10] []) of
        (Some a, Some b, Some c) \<Rightarrow> Some (a @ b @ c) | _ \<Rightarrow> None)"

text \<open>The user's \<^verbatim>\<open>vprintf\<close> is a two-state machine.\<close>

definition u_conv :: "u8 \<Rightarrow> va list \<Rightarrow> (u8 list \<times> va list) option" where
  "u_conv c ap =
     (if c = byte_of CHR ''d'' then map_option (\<lambda>(x, ap). (u_printint (ucast x) 10 True, ap)) (va_word ap)
      else if c = byte_of CHR ''l'' then map_option (\<lambda>(x, ap). (u_printint (ucast x) 10 False, ap)) (va_word ap)
      else if c = byte_of CHR ''x'' then map_option (\<lambda>(x, ap). (u_printint (ucast x) 16 False, ap)) (va_word ap)
      else if c = byte_of CHR ''p'' then map_option (\<lambda>(x, ap). (u_printptr x, ap)) (va_word ap)
      else if c = byte_of CHR ''s'' then va_str ap
      else if c = byte_of CHR ''c'' then map_option (\<lambda>(x, ap). ([ucast x], ap)) (va_word ap)
      else if c = percent then Some ([c], ap)
      else Some ([percent, c], ap))"

fun vprintf :: "bool \<Rightarrow> u8 list \<Rightarrow> va list \<Rightarrow> u8 list option" where
  "vprintf state [] ap = Some []"
| "vprintf state (c # fmt) ap =
     (if c = 0 then Some []
      else if \<not> state then (if c = percent then vprintf True fmt ap else emit [c] (vprintf False fmt ap))
      else (case u_conv c ap of None \<Rightarrow> None | Some (out, ap) \<Rightarrow> emit out (vprintf False fmt ap)))"

definition u_printf :: "u8 list \<Rightarrow> va list \<Rightarrow> u8 list option" where
  "u_printf fmt ap = vprintf False fmt ap"

section \<open>Positional notation\<close>

fun radix :: "nat \<Rightarrow> nat \<Rightarrow> nat list" where
  "radix b n = (if n < b \<or> b < 2 then [n] else radix b (n div b) @ [n mod b])"

declare radix.simps [simp del]

definition radix_value :: "nat \<Rightarrow> nat list \<Rightarrow> nat" where
  "radix_value b ds = foldl (\<lambda>a d. a * b + d) 0 ds"

lemma radix_value_radix: "radix_value b (radix b n) = n"
  unfolding radix_value_def
  by (induction b n rule: radix.induct) (subst radix.simps, simp add: radix.simps)

lemma radix_digits: "2 \<le> b \<Longrightarrow> d \<in> set (radix b n) \<Longrightarrow> d < b"
  by (induction b n rule: radix.induct) (subst (asm) (2) radix.simps, auto split: if_splits)

lemma radix_hd: "2 \<le> b \<Longrightarrow> 0 < n \<Longrightarrow> hd (radix b n) \<noteq> 0 \<and> radix b n \<noteq> []"
proof (induction b n rule: radix.induct)
  case (1 b n)
  show ?case
  proof (cases "n < b")
    case True
    then show ?thesis using 1 by (simp add: radix.simps)
  next
    case False
    then have "hd (radix b (n div b)) \<noteq> 0 \<and> radix b (n div b) \<noteq> []" using 1 by (simp add: div_greater_zero_iff)
    then show ?thesis using False 1(2) by (subst (1 2) radix.simps) simp
  qed
qed

lemma length_radix: "2 \<le> b \<Longrightarrow> n < b ^ Suc k \<Longrightarrow> length (radix b n) \<le> Suc k"
proof (induction k arbitrary: n)
  case (Suc k)
  have "n div b < b ^ Suc k" using Suc.prems by (simp add: less_mult_imp_div_less mult.commute)
  then show ?case using Suc by (subst radix.simps) auto
qed (simp add: radix.simps)

lemma digit_loop_radix: "1 < base \<Longrightarrow> rev (digit_loop ds base x) = map (nth ds) (radix (unat base) (unat x))"
proof (induction ds base x rule: digit_loop.induct)
  case (1 ds base x)
  have b: "2 \<le> unat base" using 1(2) by (simp add: word_less_nat_alt)
  show ?case
  proof (cases "x div base = 0")
    case True
    then have lt: "unat x < unat base"
      using b by (metis div_eq_0_iff not_numeral_le_zero unat_0 unat_div)
    have "unat (x mod base) = unat x" using lt by (simp add: unat_mod)
    then show ?thesis using True lt by (simp add: digit_loop.simps radix.simps)
  next
    case False
    then have "\<not> unat x < unat base" by (metis div_less unat_div unat_eq_0)
    then have "radix (unat base) (unat x) = radix (unat base) (unat x div unat base) @ [unat x mod unat base]"
      using b by (subst radix.simps) simp
    then show ?thesis using 1 False by (subst digit_loop.simps) (simp add: unat_div unat_mod)
  qed
qed

text \<open>The magnitude printed: \<^verbatim>\<open>-xx\<close> is right even for the least integer.\<close>

lemma uint_small_int: "0 \<le> k \<Longrightarrow> k < 2 ^ 32 \<Longrightarrow> uint (word_of_int k :: u32) = k"
  by (subst uint_word_of_int_eq) (rule take_bit_int_eq_self, simp_all)

lemma unat_magnitude: "unat (if sint (xx :: u32) < 0 then - xx else xx) = nat \<bar>sint xx\<bar>"
proof -
  have "- 2147483648 \<le> sint xx" "sint xx < 2147483648" using sint_greater_eq [of xx] sint_less [of xx] by simp_all
  then have "uint (word_of_int \<bar>sint xx\<bar> :: u32) = \<bar>sint xx\<bar>" by (intro uint_small_int) simp_all
  moreover have "(word_of_int \<bar>sint xx\<bar> :: u32) = (if sint xx < 0 then - xx else xx)" by (simp add: abs_if)
  ultimately show ?thesis by (simp flip: nat_uint_eq)
qed

lemma digit_loop_length:
  assumes "10 \<le> base"
  shows "length (digit_loop ds base x) \<le> 10"
proof -
  have b: "10 \<le> unat base" using assms by (simp add: word_le_nat_alt)
  have "unat x < 2 ^ 32" using unsigned_less [of x] by simp
  also have "(2::nat) ^ 32 \<le> 10 ^ Suc 9" by simp
  also have "(10::nat) ^ Suc 9 \<le> unat base ^ Suc 9" using b by (rule power_mono) simp
  finally have "length (radix (unat base) (unat x)) \<le> Suc 9" using b by (intro length_radix) simp_all
  moreover have "1 < base" using b by (simp add: word_less_nat_alt)
  ultimately show ?thesis using arg_cong [OF digit_loop_radix [of base ds x], of length] by simp
qed

text \<open>The digit characters are read back by \<^verbatim>\<open>atoi\<close>.\<close>

lemma digit_char: "d < 10 \<Longrightarrow> digits ! d = of_nat (48 + d) \<and> u_digits ! d = of_nat (48 + d)"
proof -
  assume "d < 10"
  then have "d \<in> set [0..<10]" by simp
  then show ?thesis
    by (simp add: upt_conv_Cons digits_def u_digits_def byte_of_def) (elim disjE; simp)
qed

lemma atoi_digits:
  "\<forall>d\<in>set ds. d < 10 \<Longrightarrow>
   atoi_loop (of_nat a) (map (nth digits) ds @ (c # s)) =
     of_nat (foldl (\<lambda>a d. a * 10 + d) a ds)" if "\<not> (48 \<le> c \<and> c \<le> 57)"
proof (induction ds arbitrary: a)
  case (Cons d ds)
  then have d: "d < 10" by simp
  have w: "(of_nat (48 + d) :: u8) \<ge> 48" "(of_nat (48 + d) :: u8) \<le> 57"
    using d by (simp_all add: word_le_nat_alt unat_of_nat_less del: of_nat_add)
  have "(ucast (of_nat (48 + d) :: u8) :: u32) = of_nat (48 + d)"
    using d by (intro word_unat_eq_iff [THEN iffD2]) (simp add: unsigned_ucast_eq unat_of_nat_less take_bit_nat_eq_self del: of_nat_add)
  then have "of_nat a * 10 + ucast (of_nat (48 + d) :: u8) - 48 = (of_nat (a * 10 + d) :: u32)" by simp
  then have "atoi_loop (of_nat a) (map (nth digits) (d # ds) @ (c # s)) = atoi_loop (of_nat (a * 10 + d)) (map (nth digits) ds @ (c # s))"
    using w digit_char [OF d] by (simp only: list.map append_Cons atoi_loop.simps if_True simp_thms)
  also have "\<dots> = of_nat (foldl (\<lambda>a d. a * 10 + d) (a * 10 + d) ds)" using Cons by (simp del: of_nat_add)
  finally show ?case by simp
qed (use that in auto)

text \<open>A number in the kernel's digits.\<close>

definition numeral_str :: "u32 \<Rightarrow> nat \<Rightarrow> u8 list" where
  "numeral_str base n = map (nth digits) (radix (unat base) n)"

lemma printint_cases:
  "1 < base \<Longrightarrow> printint xx base True = (if sint xx < 0 then [minus_sign] else []) @ numeral_str base (nat \<bar>sint xx\<bar>)"
  "1 < base \<Longrightarrow> printint xx base False = numeral_str base (unat xx)"
  using unat_magnitude [of xx]
  by (auto simp: printint_def printint_buf_def Let_def digit_loop_radix numeral_str_def split: if_splits)

lemma radix_map_digits: "map (nth u_digits) (radix 10 n) = map (nth digits) (radix 10 n)"
  using radix_digits [of 10 _ n] digit_char by simp

lemma u_printint_decimal: "u_printint xx 10 sg = printint xx 10 sg"
  using radix_map_digits
  by (auto simp: u_printint_def printint_def printint_buf_def Let_def digit_loop_radix)

definition portable :: "u8 list \<Rightarrow> bool" where
  "portable fmt \<longleftrightarrow> (\<forall>u c v. fmt = u @ percent # c # v \<longrightarrow> c \<notin> set (bytes_of ''lxpc''))"

lemma portable_Cons: "portable (c # fmt) \<Longrightarrow> portable fmt"
  unfolding portable_def by (metis append_Cons)

lemma portable_conv: "portable (percent # c # fmt) \<Longrightarrow> conv c ap = u_conv c ap"
proof -
  assume "portable (percent # c # fmt)"
  then have "c \<notin> set (bytes_of ''lxpc'')" unfolding portable_def by (metis append_Nil)
  then show ?thesis by (simp add: conv_def u_conv_def u_printint_decimal)
qed

lemma vprintf_printf: "portable fmt \<Longrightarrow> vprintf False fmt ap = printf_loop fmt ap"
proof (induction fmt ap rule: printf_loop.induct)
  case (3 c d fmt ap)
  have p: "portable (d # fmt)" "portable fmt" using 3(3) portable_Cons by blast+
  show ?case
  proof (cases "c = percent")
    case True
    then have "conv d ap = u_conv d ap" using 3(3) portable_conv by blast
    then show ?thesis using 3(2) p True by (auto simp: percent_def byte_of_def split: option.splits)
  next
    case False
    then show ?thesis using 3(1) p by simp
  qed
qed (auto simp: emit_def percent_def byte_of_def)

section \<open>Properties\<close>

text \<open>
  C26: the kernel's \<^verbatim>\<open>printint\<close> never overruns its 16-byte buffer and prints the number in positional notation, with a
  sign where asked for; this includes the least 32-bit integer, whose negation wraps. The notation has the right
  value, and no leading zero.
\<close>

theorem printint_correct:
  assumes "base = 10 \<or> base = 16"
  shows "length (printint_buf xx base sign) \<le> 16 \<and>
    (\<exists>ds. printint xx base sign = (if sign \<and> sint xx < 0 then [minus_sign] else []) @ map (nth digits) ds \<and>
       radix_value (unat base) ds = (if sign then nat \<bar>sint xx\<bar> else unat xx) \<and>
       list_all (\<lambda>d. d < unat base) ds \<and> (ds = [0] \<or> hd ds \<noteq> 0))"
proof (intro conjI exI)
  have b: "10 \<le> base" "1 < base" "2 \<le> unat base" using assms by auto
  define ds where "ds = radix (unat base) (if sign then nat \<bar>sint xx\<bar> else unat xx)"
  show "length (printint_buf xx base sign) \<le> 16"
    using digit_loop_length [OF b(1), of digits xx] digit_loop_length [OF b(1), of digits "- xx"]
    by (simp add: printint_buf_def Let_def)
  show "printint xx base sign = (if sign \<and> sint xx < 0 then [minus_sign] else []) @ map (nth digits) ds"
    using printint_cases [OF b(2), of xx] by (cases sign) (simp_all add: numeral_str_def ds_def)
  show "radix_value (unat base) ds = (if sign then nat \<bar>sint xx\<bar> else unat xx)" by (simp add: ds_def radix_value_radix)
  show "list_all (\<lambda>d. d < unat base) ds" using radix_digits [OF b(3)] by (auto simp: ds_def list_all_iff)
  show "ds = [0] \<or> hd ds \<noteq> 0"
    using radix_hd [OF b(3)] radix.simps [of "unat base" 0] b(3) unfolding ds_def by (metis gr0I not_numeral_le_zero)
qed

theorem printint_correct_witness:
  "length (printint_buf 0x80000000 10 True) \<le> 16 \<and> (\<exists>ds. printint 0x80000000 10 True = minus_sign # map (nth digits) ds \<and> radix_value 10 ds = 2147483648)"
  using printint_correct [of 10 "0x80000000" True] by auto

text \<open>
  C27: \<^verbatim>\<open>atoi\<close> reads back every non-negative number that either \<^verbatim>\<open>printint\<close> wrote in decimal.
\<close>

theorem printint_atoi:
  assumes "0 \<le> sint xx"
  shows "atoi (printint xx 10 sign @ [0]) = xx \<and> atoi (u_printint xx 10 sign @ [0]) = xx"
proof -
  have m: "nat \<bar>sint xx\<bar> = unat xx" using unat_magnitude [of xx] assms by (simp split: if_splits)
  have p: "printint xx 10 sign = map (nth digits) (radix 10 (unat xx))"
    using printint_cases [of 10 xx] assms m by (cases sign) (simp_all add: numeral_str_def)
  have "\<forall>d\<in>set (radix 10 (unat xx)). d < 10" using radix_digits [of 10] by simp
  then have "atoi (printint xx 10 sign @ [0]) = of_nat (radix_value 10 (radix 10 (unat xx)))"
    using atoi_digits [of 0 "radix 10 (unat xx)" 0 "[]"] by (simp add: atoi_def p radix_value_def)
  then show ?thesis by (simp add: radix_value_radix u_printint_decimal)
qed

theorem printint_atoi_witness: "atoi (printint 4096 10 True @ [0]) = 4096 \<and> atoi (u_printint 4096 10 True @ [0]) = 4096"
  using printint_atoi [of 4096 True] by simp

text \<open>
  The kernel's \<^verbatim>\<open>printf\<close> and the user library's agree on every format whose conversions are not \<^verbatim>\<open>%l\<close>, \<^verbatim>\<open>%x\<close>, \<^verbatim>\<open>%p\<close>
  or \<^verbatim>\<open>%c\<close>: same bytes, and undefined for the same arguments.
\<close>

lemma printf_agree:
  assumes "portable fmt"
  shows "printf (Some fmt) ap = Ok (u_printf fmt ap)"
  using vprintf_printf [OF assms] by (simp add: printf_def u_printf_def)

end
