(* ===== verification/Console.thy ===== *)
theory Console
  imports Uart UserBytes Printf "HOL-Library.Monad_Syntax" "HOL-Library.Signed_Division"
begin

text \<open>
  \<^verbatim>\<open>kernel/console.c\<close>: line editing, the command history, and the console device's read and write functions. The state
  is the record \<open>cons\<close> beside the serial port of \<open>Uart\<close> and the processes. Functions that echo return \<open>None\<close> when they
  never return. \<^verbatim>\<open>procdump\<close> of \<^verbatim>\<open>kernel/proc.c\<close>, which the handler calls, is here as well.
\<close>

section \<open>Data\<close>

definition INPUT_BUF :: nat where "INPUT_BUF = 128"
definition MAX_HISTORY :: nat where "MAX_HISTORY = 16"
definition BACKSPACE :: int where "BACKSPACE = 0x100"
definition UP_ARROW :: int where "UP_ARROW = 65"
definition DOWN_ARROW :: int where "DOWN_ARROW = 66"

text \<open>\<^verbatim>\<open>C('D')\<close>, \<^verbatim>\<open>C('H')\<close>, \<^verbatim>\<open>C('P')\<close>, \<^verbatim>\<open>C('U')\<close>.\<close>

definition ctrl :: "char \<Rightarrow> int" where "ctrl x = of_char x - 64"

record cons =
  c_buf :: "u8 list"
  c_r :: u32
  c_w :: u32
  c_e :: u32
  firstSave :: bool
  oldcmd :: bool
  bufferArr :: "u8 list list"
  lengthsArr :: "u32 list"
  lastCommandIndex :: u32
  numOfCommmandsInMem :: int
  currentHistory :: int

definition buf_at :: "cons \<Rightarrow> u32 \<Rightarrow> u8" where
  "buf_at cs i = c_buf cs ! (unat i mod INPUT_BUF)"

definition buf_set :: "u32 \<Rightarrow> u8 \<Rightarrow> cons \<Rightarrow> cons" where
  "buf_set i c cs = cs\<lparr>c_buf := (c_buf cs)[unat i mod INPUT_BUF := c]\<rparr>"

section \<open>Echoing\<close>

definition consputc :: "(nat \<Rightarrow> u8) \<Rightarrow> int \<Rightarrow> uart \<Rightarrow> uart option" where
  "consputc lsr c u =
     (if c = BACKSPACE then do {
        u \<leftarrow> uartputc_sync lsr 8 u;
        u \<leftarrow> uartputc_sync lsr (byte_of CHR '' '') u;
        uartputc_sync lsr 8 u
      } else uartputc_sync lsr (word_of_int c) u)"

fun consputs :: "(nat \<Rightarrow> u8) \<Rightarrow> int list \<Rightarrow> uart \<Rightarrow> uart option" where
  "consputs lsr [] u = Some u"
| "consputs lsr (c # cs) u = do { u \<leftarrow> consputc lsr c u; consputs lsr cs u }"

fun state_name :: "procstate \<Rightarrow> string" where
  "state_name UNUSED = ''unused''"
| "state_name USED = ''used''"
| "state_name SLEEPING = ''sleep ''"
| "state_name RUNNABLE = ''runble''"
| "state_name RUNNING = ''run   ''"
| "state_name ZOMBIE = ''zombie''"

fun procdump_loop :: "proc list \<Rightarrow> u8 list option" where
  "procdump_loop [] = Some []"
| "procdump_loop (p # ps) =
     (if p_state p = UNUSED then procdump_loop ps
      else do {
        a \<leftarrow> printf_loop (bytes_of ''%d %s %s'') [Word (ucast (p_pid p)), Str (bytes_of (state_name (p_state p))), Str (p_name p)];
        b \<leftarrow> printf_loop [10] [];
        c \<leftarrow> procdump_loop ps;
        Some (a @ b @ c)
      })"

definition procdump :: "'a proc_st_scheme \<Rightarrow> u8 list option" where
  "procdump s = do { a \<leftarrow> printf_loop [10] []; b \<leftarrow> procdump_loop (procs s); Some (a @ b) }"

section \<open>History\<close>

text \<open>The loop counts \<^verbatim>\<open>length\<close> down to 1; with \<^verbatim>\<open>e = r\<close> its body does nothing.\<close>

partial_function (option) erase_loop :: "(nat \<Rightarrow> u8) \<Rightarrow> u32 \<Rightarrow> u32 \<Rightarrow> i32 \<Rightarrow> uart \<Rightarrow> uart option" where
  [code]: "erase_loop lsr e r len u =
     (if len = 1 then Some u
      else if e \<noteq> r then Option.bind (consputc lsr BACKSPACE u) (\<lambda>u. erase_loop lsr e r (len - 1) u)
      else erase_loop lsr e r len u)"

definition eraseCurrentLineOnScreen :: "(nat \<Rightarrow> u8) \<Rightarrow> cons \<Rightarrow> uart \<Rightarrow> (cons \<times> uart) option" where
  "eraseCurrentLineOnScreen lsr cs u =
     map_option (\<lambda>u. (cs\<lparr>c_e := c_r cs\<rparr>, u)) (erase_loop lsr (c_e cs) (c_r cs) (c_e cs - c_r cs - 1) u)"

fun copy_loop :: "(nat \<Rightarrow> u8) \<Rightarrow> u8 list \<Rightarrow> nat \<Rightarrow> nat \<Rightarrow> cons \<Rightarrow> uart \<Rightarrow> (cons \<times> uart) option" where
  "copy_loop lsr b 0 i cs u = Some (cs, u)"
| "copy_loop lsr b (Suc k) i cs u = do {
     u \<leftarrow> consputc lsr (uint (b ! i)) u;
     copy_loop lsr b k (Suc i) (buf_set (c_r cs + of_nat i) (b ! i) cs) u
   }"

definition copyBufferToScreen :: "(nat \<Rightarrow> u8) \<Rightarrow> u8 list \<Rightarrow> u32 \<Rightarrow> cons \<Rightarrow> uart \<Rightarrow> (cons \<times> uart) option" where
  "copyBufferToScreen lsr b len cs u = do {
     (cs, u) \<leftarrow> copy_loop lsr b (unat len) 0 cs u;
     Some (cs\<lparr>c_e := c_r cs + len\<rparr>, u)
   }"

definition isHistory :: "cons \<Rightarrow> bool" where
  "isHistory cs = list_all (\<lambda>i. buf_at cs (c_r cs + of_nat i) = bytes_of ''history'' ! i) [0..<7]"

definition save_row :: "cons \<Rightarrow> nat \<Rightarrow> u8 list \<Rightarrow> u8 list" where
  "save_row cs len row = map (\<lambda>i. buf_at cs (c_r cs + of_nat i)) [0..<len] @ drop len row"

definition savecommandtohistory :: "cons \<Rightarrow> cons" where
  "savecommandtohistory cs =
     (if isHistory cs then cs
      else
        let len = c_e cs - c_r cs - 1 in
        if len = 0 then cs
        else
          let cs = (if numOfCommmandsInMem cs < int MAX_HISTORY then cs\<lparr>numOfCommmandsInMem := numOfCommmandsInMem cs + 1\<rparr> else cs);
              cs = (if \<not> firstSave cs then cs\<lparr>lastCommandIndex := (lastCommandIndex cs + 1) mod of_nat MAX_HISTORY\<rparr> else cs\<lparr>firstSave := False\<rparr>);
              k = unat (lastCommandIndex cs)
          in cs\<lparr>lengthsArr := (lengthsArr cs)[k := len],
                bufferArr := (bufferArr cs)[k := save_row cs (unat len) (bufferArr cs ! k)],
                currentHistory := sint (lastCommandIndex cs)\<rparr>)"

text \<open>\<^verbatim>\<open>history\<close>: the return value and what it prints.\<close>

definition print_row :: "cons \<Rightarrow> string \<Rightarrow> nat \<Rightarrow> u8 list option" where
  "print_row cs fmt i = printf_loop (bytes_of fmt @ [10]) [Str (bufferArr cs ! i)]"

fun history_loop :: "cons \<Rightarrow> nat \<Rightarrow> nat \<Rightarrow> u8 list option" where
  "history_loop cs 0 i = Some []"
| "history_loop cs (Suc k) i = do { a \<leftarrow> print_row cs ''%s'' i; b \<leftarrow> history_loop cs k (Suc i); Some (a @ b) }"

definition history :: "i32 \<Rightarrow> cons \<Rightarrow> int \<times> u8 list option" where
  "history historyId cs =
     (if sint historyId < 0 \<or> sint historyId > int MAX_HISTORY - 1 then (2, Some [])
      else if sint historyId \<ge> numOfCommmandsInMem cs then (1, Some [])
      else (0, do {
        a \<leftarrow> history_loop cs (nat (numOfCommmandsInMem cs)) 0;
        b \<leftarrow> print_row cs ''requested command: %s'' (nat (sint historyId));
        Some (a @ b)
      }))"

section \<open>The interrupt handler\<close>

text \<open>Kill line: back to the start of the line being edited.\<close>

function kill_loop :: "(nat \<Rightarrow> u8) \<Rightarrow> cons \<Rightarrow> uart \<Rightarrow> (cons \<times> uart) option" where
  "kill_loop lsr cs u =
     (if c_e cs \<noteq> c_w cs \<and> buf_at cs (c_e cs - 1) \<noteq> 10 then do {
        u \<leftarrow> consputc lsr BACKSPACE u;
        kill_loop lsr (cs\<lparr>c_e := c_e cs - 1\<rparr>) u
      } else Some (cs, u))"
  by pat_completeness auto
termination
proof (relation "measure (\<lambda>(lsr, cs, u). unat (c_e cs - c_w cs))", goal_cases)
  case (2 lsr cs u u')
  then have ne: "c_e cs - c_w cs \<noteq> 0" by simp
  have "c_e cs - 1 - c_w cs = c_e cs - c_w cs - 1" by simp
  then have "unat (c_e cs - 1 - c_w cs) = unat (c_e cs - c_w cs) - 1" using unat_minus_one [OF ne] by (simp only:)
  then show ?case using ne by (simp add: unat_gt_0)
qed simp

declare kill_loop.simps [simp del]

text \<open>The bookkeeping of the two arrows after the entry was shown.\<close>

definition history_back :: "cons \<Rightarrow> cons" where
  "history_back cs =
     (let cs = (if word_of_int (currentHistory cs) = lastCommandIndex cs then cs\<lparr>oldcmd := True\<rparr> else cs);
          cs = (if currentHistory cs = 0 then cs\<lparr>currentHistory := sint (lastCommandIndex cs)\<rparr> else cs);
          cs = cs\<lparr>currentHistory := currentHistory cs - 1\<rparr>
      in cs\<lparr>currentHistory := currentHistory cs smod int MAX_HISTORY\<rparr>)"

definition history_forward :: "cons \<Rightarrow> cons" where
  "history_forward cs =
     (if word_of_int (currentHistory cs) = lastCommandIndex cs then cs\<lparr>oldcmd := True, currentHistory := 0\<rparr>
      else cs\<lparr>currentHistory := (currentHistory cs + 1) smod int MAX_HISTORY\<rparr>)"

definition show_entry :: "(nat \<Rightarrow> u8) \<Rightarrow> cons \<Rightarrow> uart \<Rightarrow> (cons \<times> uart) option" where
  "show_entry lsr cs u =
     (let tempIndex = unat (word_of_int (currentHistory cs smod int MAX_HISTORY) :: u32)
      in copyBufferToScreen lsr (bufferArr cs ! tempIndex) (lengthsArr cs ! tempIndex) cs u)"

definition up_arrow :: "(nat \<Rightarrow> u8) \<Rightarrow> cons \<Rightarrow> uart \<Rightarrow> (cons \<times> uart) option" where
  "up_arrow lsr cs u =
     (if currentHistory cs \<ge> 0 then do {
        (cs, u) \<leftarrow> eraseCurrentLineOnScreen lsr cs u;
        (cs, u) \<leftarrow> show_entry lsr cs u;
        Some (history_back cs, u)
      } else Some (cs, u))"

definition down_arrow :: "(nat \<Rightarrow> u8) \<Rightarrow> cons \<Rightarrow> uart \<Rightarrow> (cons \<times> uart) option" where
  "down_arrow lsr cs u =
     (if currentHistory cs \<noteq> -1 then do {
        (cs, u) \<leftarrow> eraseCurrentLineOnScreen lsr cs u;
        (cs, u) \<leftarrow> show_entry lsr cs u;
        Some (history_forward cs, u)
      } else Some (cs, u))"

text \<open>The default case: echo, store, and hand the line over when it is complete or the buffer is full.\<close>

definition default_char :: "(nat \<Rightarrow> u8) \<Rightarrow> int \<Rightarrow> cons \<Rightarrow> uart \<Rightarrow> 'a proc_st_scheme \<Rightarrow> (cons \<times> uart \<times> 'a proc_st_scheme) option" where
  "default_char lsr c cs u s =
     (if c \<noteq> 0 \<and> c_e cs - c_r cs < of_nat INPUT_BUF then do {
        let c = (if c = 13 then 10 else c);
        u \<leftarrow> consputc lsr c u;
        let cs = (buf_set (c_e cs) (word_of_int c) cs)\<lparr>c_e := c_e cs + 1\<rparr>;
        Some (if c = 10 \<or> c = ctrl CHR ''D'' \<or> c_e cs - c_r cs = of_nat INPUT_BUF then
                let cs = (if oldcmd cs then cs else savecommandtohistory cs)
                in (cs\<lparr>c_w := c_e cs, oldcmd := False\<rparr>, u, wakeup ChCons s)
              else (cs, u, s))
      } else Some (cs, u, s))"

definition consoleintr :: "(nat \<Rightarrow> u8) \<Rightarrow> int \<Rightarrow> cons \<Rightarrow> uart \<Rightarrow> 'a proc_st_scheme \<Rightarrow> (cons \<times> uart \<times> 'a proc_st_scheme) option" where
  "consoleintr lsr c cs u s =
     (if c = ctrl CHR ''P'' then do { out \<leftarrow> procdump s; u \<leftarrow> consputs lsr (map uint out) u; Some (cs, u, s) }
      else if c = ctrl CHR ''U'' then map_option (\<lambda>(cs, u). (cs, u, s)) (kill_loop lsr cs u)
      else if c = ctrl CHR ''H'' \<or> c = 0x7f then
        (if c_e cs \<noteq> c_w cs
         then map_option (\<lambda>u. (cs\<lparr>c_e := c_e cs - 1\<rparr>, u, s)) (consputc lsr BACKSPACE u)
         else Some (cs, u, s))
      else if c = UP_ARROW then map_option (\<lambda>(cs, u). (cs, u, s)) (up_arrow lsr cs u)
      else if c = DOWN_ARROW then map_option (\<lambda>(cs, u). (cs, u, s)) (down_arrow lsr cs u)
      else default_char lsr c cs u s)"

section \<open>The device's read and write\<close>

text \<open>\<open>CRet v\<close>: the call returns \<open>v\<close>. \<open>CWait c k\<close>: it sleeps on \<open>c\<close>, with \<open>k\<close> bytes still to go. \<open>CFrozen\<close>: it spins after a panic.\<close>

datatype 's con_out = CRet int 's | CWait chan nat 's | CFrozen

text \<open>\<open>target\<close> is the number asked for, the second argument \<^verbatim>\<open>n\<close>, the number still to go.\<close>

fun consoleread_loop :: "nat \<Rightarrow> nat \<Rightarrow> kdst \<Rightarrow> cons \<Rightarrow> 'a proc_st_scheme \<Rightarrow> (cons \<times> 'a proc_st_scheme) con_out res" where
  "consoleread_loop target 0 dst cs s = Ok (CRet (int target) (cs, s))"
| "consoleread_loop target (Suc k) dst cs s =
     (if c_r cs = c_w cs then
        with_proc s (\<lambda>pr. if killed pr s \<noteq> 0 then Ok (CRet (-1) (cs, s)) else Ok (CWait ChCons (Suc k) (cs, s)))
      else
        let c = buf_at cs (c_r cs); cs = cs\<lparr>c_r := c_r cs + 1\<rparr> in
        if uint c = ctrl CHR ''D'' then
          Ok (CRet (int target - int (Suc k)) (if Suc k < target then cs\<lparr>c_r := c_r cs - 1\<rparr> else cs, s))
        else
          rbind (either_copyout dst [c] s) (\<lambda>(r, s).
            if r = -1 then Ok (CRet (int target - int (Suc k)) (cs, s))
            else if c = 10 then Ok (CRet (int target - int k) (cs, s))
            else consoleread_loop target k (dst_add dst 1) cs s))"

text \<open>A count that is not positive skips the loop.\<close>

definition consoleread :: "kdst \<Rightarrow> i32 \<Rightarrow> cons \<Rightarrow> 'a proc_st_scheme \<Rightarrow> (cons \<times> 'a proc_st_scheme) con_out res" where
  "consoleread dst n cs s = consoleread_loop (nat (sint n)) (nat (sint n)) dst cs s"

fun consolewrite_loop :: "(nat \<Rightarrow> u8) \<Rightarrow> nat \<Rightarrow> nat \<Rightarrow> ksrc \<Rightarrow> uart \<Rightarrow> 'a proc_st_scheme \<Rightarrow> (uart \<times> 'a proc_st_scheme) con_out res" where
  "consolewrite_loop lsr 0 i src u s = Ok (CRet (int i) (u, s))"
| "consolewrite_loop lsr (Suc k) i src u s =
     rbind (either_copyin (src_add src i) 1 s) (\<lambda>(r, bs).
       if r = -1 then Ok (CRet (int i) (u, s))
       else (case uartputc lsr (bs ! 0) u s of
               Sent (u, s) \<Rightarrow> consolewrite_loop lsr k (Suc i) src u s
             | Waits \<Rightarrow> Ok (CWait ChUart (Suc k) (u, s))
             | Frozen \<Rightarrow> Ok CFrozen))"

definition consolewrite :: "(nat \<Rightarrow> u8) \<Rightarrow> ksrc \<Rightarrow> i32 \<Rightarrow> uart \<Rightarrow> 'a proc_st_scheme \<Rightarrow> (uart \<times> 'a proc_st_scheme) con_out res" where
  "consolewrite lsr src n u s = consolewrite_loop lsr (nat (sint n)) 0 src u s"

section \<open>Echoing always succeeds on a fair device\<close>

definition echo :: "int \<Rightarrow> u8 list" where
  "echo c = (if c = BACKSPACE then [8, 32, 8] else [word_of_int c])"

text \<open>\<open>u'\<close> is \<open>u\<close> after writing \<open>bs\<close> to the device.\<close>

definition echoed :: "uart \<Rightarrow> u8 list \<Rightarrow> uart \<Rightarrow> bool" where
  "echoed u bs u' \<longleftrightarrow> (\<exists>t. u' = u\<lparr>dev_reads := t, dev_writes := dev_writes u @ map (Pair THR) bs\<rparr>)"

lemma echoed_refl [simp]: "echoed u [] u"
  unfolding echoed_def by (rule exI [of _ "dev_reads u"]) simp

lemma echoed_trans: "echoed u bs u' \<Longrightarrow> echoed u' bs' u'' \<Longrightarrow> echoed u (bs @ bs') u''"
  unfolding echoed_def by auto

lemma echoed_fields: "echoed u bs u' \<Longrightarrow> panicked u' = panicked u \<and> uart_items u' = uart_items u \<and> uart_inv u' = uart_inv u"
  unfolding echoed_def by (auto simp: uart_items_def uart_inv_def)

lemma sync_echoed: "fair lsr \<Longrightarrow> panicked u = 0 \<Longrightarrow> \<exists>u'. uartputc_sync lsr c u = Some u' \<and> echoed u [c] u'"
  using uartputc_sync_fair [of lsr u c] by (auto simp: echoed_def WriteReg_def)

lemma consputc_echoed:
  assumes "fair lsr" "panicked u = 0"
  shows "\<exists>u'. consputc lsr c u = Some u' \<and> echoed u (echo c) u'"
proof (cases "c = BACKSPACE")
  case True
  obtain u1 where 1: "uartputc_sync lsr 8 u = Some u1" "echoed u [8] u1" using sync_echoed [OF assms] by blast
  then have p1: "panicked u1 = 0" using echoed_fields assms(2) by metis
  obtain u2 where 2: "uartputc_sync lsr 32 u1 = Some u2" "echoed u1 [32] u2" using sync_echoed [OF assms(1) p1] by blast
  then have p2: "panicked u2 = 0" using echoed_fields p1 by metis
  obtain u3 where 3: "uartputc_sync lsr 8 u2 = Some u3" "echoed u2 [8] u3" using sync_echoed [OF assms(1) p2] by blast
  have "echoed u [8, 32, 8] u3" using echoed_trans [OF echoed_trans [OF 1(2) 2(2)] 3(2)] by simp
  then show ?thesis using True 1(1) 2(1) 3(1) by (simp add: consputc_def echo_def byte_of_def)
next
  case False
  then show ?thesis using sync_echoed [OF assms] by (simp add: consputc_def echo_def)
qed

lemma consputs_echoed:
  assumes "fair lsr" "panicked u = 0"
  shows "\<exists>u'. consputs lsr cs u = Some u' \<and> echoed u (concat (map echo cs)) u'"
  using assms(2)
proof (induction cs arbitrary: u)
  case (Cons c cs)
  obtain u1 where 1: "consputc lsr c u = Some u1" "echoed u (echo c) u1" using consputc_echoed [OF assms(1) Cons.prems] by blast
  then have "panicked u1 = 0" using echoed_fields Cons.prems by metis
  then obtain u2 where 2: "consputs lsr cs u1 = Some u2" "echoed u1 (concat (map echo cs)) u2" using Cons.IH by blast
  then show ?case using 1 echoed_trans [OF 1(2) 2(2)] by simp
qed simp

section \<open>The handler writes through \<^verbatim>\<open>uartputc_sync\<close> only\<close>

fun putc_syncs :: "(nat \<Rightarrow> u8) \<Rightarrow> u8 list \<Rightarrow> uart \<Rightarrow> uart option" where
  "putc_syncs lsr [] u = Some u"
| "putc_syncs lsr (c # cs) u = do { u \<leftarrow> uartputc_sync lsr c u; putc_syncs lsr cs u }"

definition echoes :: "(nat \<Rightarrow> u8) \<Rightarrow> uart \<Rightarrow> uart \<Rightarrow> bool" where
  "echoes lsr u u' \<longleftrightarrow> (\<exists>cs. putc_syncs lsr cs u = Some u')"

lemma putc_syncs_append: "putc_syncs lsr (cs @ ds) u = do { u \<leftarrow> putc_syncs lsr cs u; putc_syncs lsr ds u }"
  by (induction cs arbitrary: u) (simp_all cong: Option.bind_cong)

lemma echoes_refl: "echoes lsr u u"
  unfolding echoes_def by (intro exI [of _ "[]"]) simp

lemma echoes_trans: "echoes lsr u v \<Longrightarrow> echoes lsr v w \<Longrightarrow> echoes lsr u w"
proof -
  assume "echoes lsr u v" "echoes lsr v w"
  then obtain cs ds where "putc_syncs lsr cs u = Some v" "putc_syncs lsr ds v = Some w" by (auto simp: echoes_def)
  then show ?thesis unfolding echoes_def by (intro exI [of _ "cs @ ds"]) (simp add: putc_syncs_append)
qed

lemma sync_step: "uartputc_sync lsr c u = Some v \<Longrightarrow> echoes lsr v w \<Longrightarrow> echoes lsr u w"
  by (rule echoes_trans [of _ _ v]) (simp_all add: echoes_def exI [of _ "[c]"])

lemma consputc_echoes: "consputc lsr c u = Some u' \<Longrightarrow> echoes lsr u u'"
  by (auto simp: consputc_def bind_eq_Some_conv split: if_splits; blast intro: sync_step echoes_refl)

lemma consputc_step: "consputc lsr c u = Some v \<Longrightarrow> echoes lsr v w \<Longrightarrow> echoes lsr u w"
  by (rule echoes_trans [OF consputc_echoes])

lemma consputs_echoes: "consputs lsr cs u = Some u' \<Longrightarrow> echoes lsr u u'"
  by (induction cs arbitrary: u) (auto simp: bind_eq_Some_conv intro: echoes_refl consputc_step)

lemma erase_loop_echoes: "erase_loop lsr e r len u = Some u' \<Longrightarrow> echoes lsr u u'"
  by (rule erase_loop.raw_induct [of "\<lambda>lsr e r len u u'. echoes lsr u u'"])
    (auto simp: bind_eq_Some_conv split: if_splits intro: echoes_refl consputc_step)

lemma copy_loop_echoes: "copy_loop lsr b k i cs u = Some (cs', u') \<Longrightarrow> echoes lsr u u'"
  by (induction k arbitrary: i cs u) (auto simp: bind_eq_Some_conv intro: echoes_refl consputc_step)

lemma kill_loop_echoes: "kill_loop lsr cs u = Some (cs', u') \<Longrightarrow> echoes lsr u u'"
proof (induction lsr cs u rule: kill_loop.induct)
  case (1 lsr cs u)
  from 1(2) show ?case
    by (subst (asm) kill_loop.simps) (auto simp: bind_eq_Some_conv split: if_splits intro: echoes_refl consputc_step 1(1))
qed

lemma arrow_echoes: "up_arrow lsr cs u = Some (cs', u') \<Longrightarrow> echoes lsr u u'" "down_arrow lsr cs u = Some (cs', u') \<Longrightarrow> echoes lsr u u'"
  by (auto simp: up_arrow_def down_arrow_def eraseCurrentLineOnScreen_def show_entry_def copyBufferToScreen_def Let_def bind_eq_Some_conv
      split: if_splits intro: echoes_refl dest: erase_loop_echoes copy_loop_echoes echoes_trans)

lemma consoleintr_echoes: "consoleintr lsr c cs u s = Some (cs', u', s') \<Longrightarrow> echoes lsr u u'"
  by (auto simp: consoleintr_def default_char_def Let_def bind_eq_Some_conv
      split: if_splits option.splits intro: echoes_refl dest: consputc_echoes consputs_echoes kill_loop_echoes arrow_echoes)

lemma uart_run_echoes: "uart_run lsr rhr u0 s0 bs es u s \<Longrightarrow> echoes lsr u u' \<Longrightarrow> \<exists>es'. uart_run lsr rhr u0 s0 bs (es @ es') u' s"
proof -
  assume "uart_run lsr rhr u0 s0 bs es u s" "echoes lsr u u'"
  then obtain cs where "putc_syncs lsr cs u = Some u'" "uart_run lsr rhr u0 s0 bs es u s" by (auto simp: echoes_def)
  then have "uart_run lsr rhr u0 s0 bs (es @ cs) u' s"
  proof (induction cs arbitrary: u es)
    case (Cons c cs)
    then obtain v where v: "uartputc_sync lsr c u = Some v" "putc_syncs lsr cs v = Some u'" by (auto simp: bind_eq_Some_conv)
    show ?case using Cons.IH [OF v(2) uart_run.sync [OF Cons.prems(2) v(1)]] by simp
  qed simp
  then show ?thesis by blast
qed

section \<open>Erasing the line\<close>

lemma erase_loop_stuck: "len \<noteq> 1 \<Longrightarrow> erase_loop lsr r r len u = None"
proof -
  have "erase_loop lsr e r' len u = Some u' \<longrightarrow> e = r' \<longrightarrow> len = 1" for e r' u'
  proof (rule impI)
    assume "erase_loop lsr e r' len u = Some u'"
    then show "e = r' \<longrightarrow> len = 1"
      by (rule erase_loop.raw_induct [where P = "\<lambda>lsr e r len u u'. e = r \<longrightarrow> len = 1", rotated]) (auto split: if_splits)
  qed
  then show "len \<noteq> 1 \<Longrightarrow> ?thesis" by (metis not_None_eq)
qed

lemma erase_loop_counts:
  assumes "fair lsr" "panicked u = 0" "e \<noteq> r"
  shows "\<exists>u'. erase_loop lsr e r len u = Some u' \<and> echoed u (concat (replicate (unat (len - 1)) (echo BACKSPACE))) u'"
  using assms(2)
proof (induction "unat (len - 1)" arbitrary: len u)
  case 0
  then have "len = 1" by (simp add: unat_eq_0)
  then show ?case by (subst erase_loop.simps) simp
next
  case (Suc n)
  then have ne: "len - 1 \<noteq> 0" by auto
  obtain u1 where 1: "consputc lsr BACKSPACE u = Some u1" "echoed u (echo BACKSPACE) u1"
    using consputc_echoed [OF assms(1) Suc.prems] by blast
  have n: "n = unat (len - 1 - 1)" using Suc.hyps(2) unat_minus_one [OF ne] by simp
  have "panicked u1 = 0" using echoed_fields [OF 1(2)] Suc.prems by simp
  then obtain u2 where 2: "erase_loop lsr e r (len - 1) u1 = Some u2" "echoed u1 (concat (replicate n (echo BACKSPACE))) u2"
    using Suc.hyps(1) [OF n] n by blast
  have "echoed u (concat (replicate (Suc n) (echo BACKSPACE))) u2" using echoed_trans [OF 1(2) 2(2)] by simp
  moreover have "erase_loop lsr e r len u = Some u2"
    using 1(1) 2(1) ne assms(3) by (subst erase_loop.simps) auto
  ultimately show ?case using Suc.hyps(2) by metis
qed

section \<open>The line editor\<close>

text \<open>
  What the line discipline promises: a pair of the characters that readers may take and the line being edited.
\<close>

type_synonym line_state = "u8 list \<times> u8 list"

definition edit :: "int \<Rightarrow> line_state \<Rightarrow> line_state" where
  "edit c = (\<lambda>(av, pe).
     if c = ctrl CHR ''U'' then (av, rev (dropWhile (\<lambda>x. x \<noteq> 10) (rev pe)))
     else if c = ctrl CHR ''H'' \<or> c = 0x7f then (av, butlast pe)
     else if c \<noteq> 0 \<and> length av + length pe < INPUT_BUF then
       let x = (if c = 13 then 10 else c) in
       if x = 10 \<or> x = ctrl CHR ''D'' \<or> Suc (length av + length pe) = INPUT_BUF
       then (av @ pe @ [word_of_int x], []) else (av, pe @ [word_of_int x])
     else (av, pe))"

definition cons_all :: "cons \<Rightarrow> u8 list" where
  "cons_all cs = ring_items (c_buf cs) (c_r cs) (c_e cs)"

definition cons_abs :: "cons \<Rightarrow> line_state" where
  "cons_abs cs = (take (unat (c_w cs - c_r cs)) (cons_all cs), drop (unat (c_w cs - c_r cs)) (cons_all cs))"

definition hist_inv :: "cons \<Rightarrow> bool" where
  "hist_inv cs \<longleftrightarrow> length (bufferArr cs) = MAX_HISTORY \<and> (\<forall>row\<in>set (bufferArr cs). length row = INPUT_BUF) \<and>
     length (lengthsArr cs) = MAX_HISTORY \<and> (\<forall>l\<in>set (lengthsArr cs). unat l < INPUT_BUF) \<and>
     unat (lastCommandIndex cs) < MAX_HISTORY \<and> - 1 \<le> currentHistory cs \<and> currentHistory cs < int MAX_HISTORY \<and>
     0 \<le> numOfCommmandsInMem cs \<and> numOfCommmandsInMem cs \<le> int MAX_HISTORY"

definition cons_inv :: "cons \<Rightarrow> bool" where
  "cons_inv cs \<longleftrightarrow> length (c_buf cs) = INPUT_BUF \<and> unat (c_e cs - c_r cs) \<le> INPUT_BUF \<and>
     unat (c_w cs - c_r cs) \<le> unat (c_e cs - c_r cs) \<and> hist_inv cs"

lemma hist_inv_other [simp]:
  "hist_inv (cs\<lparr>c_e := e\<rparr>) = hist_inv cs" "hist_inv (cs\<lparr>c_w := e\<rparr>) = hist_inv cs" "hist_inv (cs\<lparr>c_r := e\<rparr>) = hist_inv cs"
  "hist_inv (cs\<lparr>c_buf := b\<rparr>) = hist_inv cs" "hist_inv (cs\<lparr>oldcmd := x\<rparr>) = hist_inv cs" "hist_inv (buf_set i c cs) = hist_inv cs"
  by (simp_all add: hist_inv_def buf_set_def)

lemma length_cons_all [simp]: "length (cons_all cs) = unat (c_e cs - c_r cs)"
  by (simp add: cons_all_def)

lemma pend_empty: "cons_inv cs \<Longrightarrow> c_e cs = c_w cs \<longleftrightarrow> snd (cons_abs cs) = []"
proof -
  assume "cons_inv cs"
  then have "unat (c_e cs - c_r cs) \<le> unat (c_w cs - c_r cs) \<longleftrightarrow> c_e cs - c_r cs = c_w cs - c_r cs"
    unfolding cons_inv_def word_unat_eq_iff by linarith
  then show ?thesis by (simp add: cons_abs_def)
qed

text \<open>Taking back the last character of the line.\<close>

lemma cons_back:
  assumes inv: "cons_inv cs" and ne: "c_e cs \<noteq> c_w cs"
  defines "cs' \<equiv> cs\<lparr>c_e := c_e cs - 1\<rparr>"
  shows "cons_inv cs'" "cons_abs cs' = (fst (cons_abs cs), butlast (snd (cons_abs cs)))"
    "snd (cons_abs cs) \<noteq> []" "buf_at cs (c_e cs - 1) = last (snd (cons_abs cs))"
proof -
  show pe: "snd (cons_abs cs) \<noteq> []" using pend_empty [OF inv] ne by simp
  then have lt: "unat (c_w cs - c_r cs) < unat (c_e cs - c_r cs)" by (simp add: cons_abs_def)
  then have er: "c_r cs \<noteq> c_e cs" by auto
  note b = ring_back [OF er]
  show "cons_inv cs'" using inv lt b(1) by (auto simp: cons_inv_def cs'_def)
  have l: "length (c_buf cs) = INPUT_BUF" using inv by (simp add: cons_inv_def)
  have all: "cons_all cs = cons_all cs' @ [buf_at cs (c_e cs - 1)]"
    using b(3) [of "c_buf cs"] by (simp add: cons_all_def cs'_def buf_at_def l)
  have len: "unat (c_w cs - c_r cs) \<le> length (cons_all cs')" using lt b(1) by (simp add: cs'_def)
  then show "cons_abs cs' = (fst (cons_abs cs), butlast (snd (cons_abs cs)))"
    unfolding cons_abs_def all by (simp add: cs'_def butlast_append)
  show "buf_at cs (c_e cs - 1) = last (snd (cons_abs cs))" using len unfolding cons_abs_def all by simp
qed

lemma kill_loop_spec:
  assumes "fair lsr" "panicked u = 0" "cons_inv cs"
  shows "\<exists>cs' u'. kill_loop lsr cs u = Some (cs', u') \<and> cons_inv cs' \<and>
    cons_abs cs' = (fst (cons_abs cs), rev (dropWhile (\<lambda>x. x \<noteq> 10) (rev (snd (cons_abs cs))))) \<and>
    echoed u (concat (replicate (length (snd (cons_abs cs)) - length (snd (cons_abs cs'))) [8, 32, 8])) u'"
  using assms(2,3)
proof (induction "length (snd (cons_abs cs))" arbitrary: cs u)
  case 0
  then have "c_e cs = c_w cs" using pend_empty by auto
  then show ?case using 0 by (subst kill_loop.simps) (simp add: prod_eq_iff)
next
  case (Suc n)
  then have ne: "c_e cs \<noteq> c_w cs" using pend_empty by auto
  note b = cons_back [OF Suc.prems(2) ne]
  define pe where "pe = snd (cons_abs cs)"
  have pe: "pe = butlast pe @ [last pe]" "length pe = Suc n" using b(3) Suc.hyps(2) by (simp_all add: pe_def)
  show ?case
  proof (cases "last pe = 10")
    case True
    then have "rev (dropWhile (\<lambda>x. x \<noteq> 10) (rev pe)) = pe" by (subst pe(1), subst (2) pe(1)) simp
    moreover have "kill_loop lsr cs u = Some (cs, u)" using True b(4) by (subst kill_loop.simps) (simp add: pe_def)
    ultimately show ?thesis using Suc.prems by (simp add: prod_eq_iff pe_def)
  next
    case False
    let ?cs = "cs\<lparr>c_e := c_e cs - 1\<rparr>"
    obtain u1 where 1: "consputc lsr BACKSPACE u = Some u1" "echoed u [8, 32, 8] u1"
      using consputc_echoed [OF assms(1) Suc.prems(1), of BACKSPACE] by (auto simp: echo_def)
    have "n = length (snd (cons_abs ?cs))" using b(2) pe(2) by (simp add: pe_def)
    moreover have "panicked u1 = 0" using echoed_fields [OF 1(2)] Suc.prems by simp
    ultimately obtain cs' u' where 2: "kill_loop lsr ?cs u1 = Some (cs', u')" "cons_inv cs'"
        "cons_abs cs' = (fst (cons_abs ?cs), rev (dropWhile (\<lambda>x. x \<noteq> 10) (rev (snd (cons_abs ?cs)))))"
        "echoed u1 (concat (replicate (length (snd (cons_abs ?cs)) - length (snd (cons_abs cs'))) [8, 32, 8])) u'"
      using Suc.hyps(1) b(1) by blast
    have dw: "dropWhile (\<lambda>x. x \<noteq> 10) (rev pe) = dropWhile (\<lambda>x. x \<noteq> 10) (rev (butlast pe))"
      using False by (subst pe(1)) simp
    have le: "length (snd (cons_abs cs')) \<le> n"
      using length_dropWhile_le [of "\<lambda>x. x \<noteq> 10" "rev (butlast pe)"] 2(3) b(2) pe(2) by (simp add: pe_def)
    have "kill_loop lsr cs u = Some (cs', u')" using 1(1) 2(1) ne False b(4) by (subst kill_loop.simps) (simp add: pe_def)
    moreover have "length pe - length (snd (cons_abs cs')) = Suc (length (snd (cons_abs ?cs)) - length (snd (cons_abs cs')))"
      using b(2) pe(2) le by (simp add: pe_def)
    ultimately show ?thesis using 2 echoed_trans [OF 1(2) 2(4)] b(2) dw
      by (intro exI [of _ cs'] exI [of _ u']) (simp add: pe_def)
  qed
qed

text \<open>Saving a command concerns the history only.\<close>

lemma save_other [simp]:
  "c_buf (savecommandtohistory cs) = c_buf cs" "c_r (savecommandtohistory cs) = c_r cs"
  "c_w (savecommandtohistory cs) = c_w cs" "c_e (savecommandtohistory cs) = c_e cs"
  by (simp_all add: savecommandtohistory_def Let_def)

lemma save_hist:
  assumes "hist_inv cs" "0 < unat (c_e cs - c_r cs)" "unat (c_e cs - c_r cs) \<le> INPUT_BUF"
  shows "hist_inv (savecommandtohistory cs)"
proof (cases "isHistory cs \<or> c_e cs - c_r cs - 1 = 0")
  case True
  then show ?thesis using assms(1) by (auto simp: savecommandtohistory_def Let_def)
next
  case False
  have "c_e cs - c_r cs \<noteq> 0" using assms(2) by auto
  from unat_minus_one [OF this] have len: "unat (c_e cs - c_r cs - 1) < INPUT_BUF" using assms(2,3) by simp
  have m: "unat ((lastCommandIndex cs + 1) mod 16) < 16" by (simp add: unat_mod)
  have sm: "- 1 \<le> sint w \<and> sint w < 16" if "unat w < 16" for w :: u32
  proof -
    have "sint w = int (unat w)" by (rule sint_small) (use that in simp)
    then show ?thesis using that by linarith
  qed
  show ?thesis
    using False assms(1) len m sm unfolding savecommandtohistory_def hist_inv_def
    by (auto simp: Let_def MAX_HISTORY_def save_row_def INPUT_BUF_def dest!: set_update_subset_insert [THEN subsetD])
qed

lemma default_char_spec:
  assumes "fair lsr" "panicked u = 0" "cons_inv cs" "c \<noteq> 0" "c < 256" "unat (c_e cs - c_r cs) < INPUT_BUF"
  defines "x \<equiv> (if c = 13 then 10 else c)" and "n \<equiv> unat (c_e cs - c_r cs)"
  shows "\<exists>cs' u'. echoed u [word_of_int x] u' \<and> cons_inv cs' \<and>
    default_char lsr c cs u s = Some (cs', u', if x = 10 \<or> x = ctrl CHR ''D'' \<or> Suc n = INPUT_BUF then wakeup ChCons s else s) \<and>
    cons_abs cs' = (if x = 10 \<or> x = ctrl CHR ''D'' \<or> Suc n = INPUT_BUF
      then (fst (cons_abs cs) @ snd (cons_abs cs) @ [word_of_int x], [])
      else (fst (cons_abs cs), snd (cons_abs cs) @ [word_of_int x]))"
proof -
  have l: "length (c_buf cs) = INPUT_BUF" and w: "unat (c_w cs - c_r cs) \<le> n" and h: "hist_inv cs"
    using assms(3) by (simp_all add: cons_inv_def n_def)
  obtain u' where u': "consputc lsr x u = Some u'" "echoed u [word_of_int x] u'"
    using consputc_echoed [OF assms(1,2), of x] assms(5) by (auto simp: echo_def BACKSPACE_def x_def split: if_splits)
  define c1 where "c1 = (buf_set (c_e cs) (word_of_int x) cs)\<lparr>c_e := c_e cs + 1\<rparr>"
  have f: "c_r c1 = c_r cs" "c_w c1 = c_w cs" "c_e c1 = c_e cs + 1" "length (c_buf c1) = INPUT_BUF" "hist_inv c1"
    by (simp_all add: c1_def buf_set_def l h)
  have st: "unat (c_e c1 - c_r c1) = Suc n"
    using ring_step [of "c_e cs" "c_r cs" INPUT_BUF] assms(6) by (simp add: f n_def INPUT_BUF_def)
  have all: "cons_all c1 = cons_all cs @ [word_of_int x]"
    using ring_push [of "c_buf cs" "c_e cs" "c_r cs"] assms(6) l
    by (simp add: cons_all_def c1_def buf_set_def INPUT_BUF_def)
  have inv1: "cons_inv c1" using f st w assms(6) by (simp add: cons_inv_def n_def)
  have full: "c_e c1 - c_r c1 = of_nat INPUT_BUF \<longleftrightarrow> Suc n = INPUT_BUF"
    unfolding word_unat_eq_iff st by (simp add: INPUT_BUF_def)
  have full': "c_e cs + 1 - c_r (buf_set (c_e cs) (word_of_int x) cs) = of_nat INPUT_BUF \<longleftrightarrow> Suc n = INPUT_BUF"
    using full by (simp add: c1_def)
  have room: "c_e cs - c_r cs < of_nat INPUT_BUF" using assms(6) by (simp add: word_less_nat_alt INPUT_BUF_def)
  show ?thesis
  proof (cases "x = 10 \<or> x = ctrl CHR ''D'' \<or> Suc n = INPUT_BUF")
    case True
    define c2 where "c2 = (if oldcmd c1 then c1 else savecommandtohistory c1)\<lparr>c_w := c_e c1, oldcmd := False\<rparr>"
    have "hist_inv c2" using save_hist [of c1] f(5) st assms(6) by (simp add: c2_def n_def)
    then have "cons_inv c2" using f st assms(6) by (simp add: cons_inv_def c2_def n_def)
    moreover have "cons_abs c2 = (cons_all c1, [])" by (simp add: cons_abs_def c2_def cons_all_def f)
    moreover have "default_char lsr c cs u s = Some (c2, u', wakeup ChCons s)"
      using True full' room u'(1) assms(4) by (simp add: default_char_def Let_def c2_def flip: x_def c1_def)
    ultimately show ?thesis using True u'(2) by (intro exI [of _ c2] exI [of _ u']) (simp add: all, simp add: cons_abs_def)
  next
    case False
    have "default_char lsr c cs u s = Some (c1, u', s)"
      using False full' room u'(1) assms(4) by (simp add: default_char_def Let_def flip: x_def c1_def)
    moreover have "cons_abs c1 = (fst (cons_abs cs), snd (cons_abs cs) @ [word_of_int x])"
      using w by (simp add: cons_abs_def all f n_def)
    ultimately show ?thesis using False u'(2) inv1 by (intro exI [of _ c1] exI [of _ u']) simp
  qed
qed

section \<open>Recalling a command\<close>

lemma copy_loop_spec:
  assumes "fair lsr" "panicked u = 0" "length (c_buf cs) = INPUT_BUF" "i + k \<le> INPUT_BUF" "i + k \<le> length b"
  shows "\<exists>d u'. copy_loop lsr b k i cs u = Some (cs\<lparr>c_buf := d\<rparr>, u') \<and> length d = INPUT_BUF \<and>
    echoed u (take k (drop i b)) u' \<and>
    (\<forall>j<i + k. d ! ((unat (c_r cs) + j) mod INPUT_BUF) = (if j < i then c_buf cs ! ((unat (c_r cs) + j) mod INPUT_BUF) else b ! j))"
  using assms(2-5)
proof (induction k arbitrary: i cs u)
  case 0
  then show ?case by (intro exI [of _ "c_buf cs"] exI [of _ u]) simp
next
  case (Suc k)
  define c1 where "c1 = buf_set (c_r cs + of_nat i) (b ! i) cs"
  have ix: "unat (c_r cs + of_nat i) mod INPUT_BUF = (unat (c_r cs) + i) mod INPUT_BUF"
    by (rule ring_index) (simp add: INPUT_BUF_def)
  have c1: "c_r c1 = c_r cs" "c_buf c1 = (c_buf cs)[(unat (c_r cs) + i) mod INPUT_BUF := b ! i]"
    by (simp_all add: c1_def buf_set_def ix)
  have "uint (b ! i) < 256" using uint_bounded [of "b ! i"] by simp
  then obtain u1 where 1: "consputc lsr (uint (b ! i)) u = Some u1" "echoed u [b ! i] u1"
    using consputc_echoed [OF assms(1) Suc.prems(1), of "uint (b ! i)"] by (auto simp: echo_def BACKSPACE_def)
  have p1: "panicked u1 = 0" using echoed_fields [OF 1(2)] Suc.prems(1) by simp
  obtain d u' where 2: "copy_loop lsr b k (Suc i) c1 u1 = Some (c1\<lparr>c_buf := d\<rparr>, u')" "length d = INPUT_BUF"
      "echoed u1 (take k (drop (Suc i) b)) u'"
      "\<forall>j<Suc i + k. d ! ((unat (c_r c1) + j) mod INPUT_BUF) = (if j < Suc i then c_buf c1 ! ((unat (c_r c1) + j) mod INPUT_BUF) else b ! j)"
    using Suc.IH [of u1 c1 "Suc i", OF p1] Suc.prems c1(2) by auto
  have "take (Suc k) (drop i b) = b ! i # take k (drop (Suc i) b)" using Suc.prems(4) by (simp flip: Cons_nth_drop_Suc)
  then have "echoed u (take (Suc k) (drop i b)) u'" using echoed_trans [OF 1(2) 2(3)] by simp
  moreover have "c1\<lparr>c_buf := d\<rparr> = cs\<lparr>c_buf := d\<rparr>" by (simp add: c1_def buf_set_def)
  moreover have "d ! ((unat (c_r cs) + j) mod INPUT_BUF) = (if j < i then c_buf cs ! ((unat (c_r cs) + j) mod INPUT_BUF) else b ! j)"
    if j: "j < i + Suc k" for j
  proof -
    have "(unat (c_r cs) + j) mod INPUT_BUF \<noteq> (unat (c_r cs) + i) mod INPUT_BUF" if "j < i"
      using mod_distinct [OF that, of INPUT_BUF "unat (c_r cs)"] Suc.prems(3) by simp
    moreover have "(unat (c_r cs) + i) mod INPUT_BUF < length (c_buf cs)" using Suc.prems(2) by (simp add: INPUT_BUF_def)
    ultimately show ?thesis using 2(4) [rule_format, of j] j unfolding c1 by (auto simp: less_Suc_eq)
  qed
  ultimately show ?case using 1(1) 2(1,2) by (intro exI [of _ d] exI [of _ u']) (simp add: c1_def)
qed

lemma copyBuffer_spec:
  assumes "fair lsr" "panicked u = 0" "length (c_buf cs) = INPUT_BUF" "unat len \<le> INPUT_BUF" "unat len \<le> length b"
  shows "\<exists>d u'. copyBufferToScreen lsr b len cs u = Some (cs\<lparr>c_buf := d, c_e := c_r cs + len\<rparr>, u') \<and> length d = INPUT_BUF \<and>
    echoed u (take (unat len) b) u' \<and> ring_items d (c_r cs) (c_r cs + len) = take (unat len) b"
proof -
  obtain d u' where 1: "copy_loop lsr b (unat len) 0 cs u = Some (cs\<lparr>c_buf := d\<rparr>, u')" "length d = INPUT_BUF"
      "echoed u (take (unat len) b) u'" "\<forall>j<unat len. d ! ((unat (c_r cs) + j) mod INPUT_BUF) = b ! j"
    using copy_loop_spec [of lsr u cs 0 "unat len" b] assms by auto
  have ix: "unat (c_r cs + of_nat j) mod length d = (unat (c_r cs) + j) mod INPUT_BUF" for j
    unfolding 1(2) by (rule ring_index) (simp add: INPUT_BUF_def)
  have "ring_items d (c_r cs) (c_r cs + len) = take (unat len) b"
    using 1(4) assms(5) by (intro nth_equalityI) (simp_all add: ring_items_def ix)
  then show ?thesis using 1 by (intro exI [of _ d] exI [of _ u']) (simp add: copyBufferToScreen_def)
qed

lemma smod_small: "- 16 < k \<Longrightarrow> k < 16 \<Longrightarrow> (k :: int) smod 16 = k"
  by (auto simp: signed_modulo_int_def signed_divide_int_def sgn_if)

lemma erase_spec:
  assumes "fair lsr" "panicked u = 0" "2 \<le> unat (c_e cs - c_r cs)"
  shows "\<exists>u'. eraseCurrentLineOnScreen lsr cs u = Some (cs\<lparr>c_e := c_r cs\<rparr>, u') \<and>
    echoed u (concat (replicate (unat (c_e cs - c_r cs) - 2) [8, 32, 8])) u'"
proof -
  have ne: "c_e cs \<noteq> c_r cs" "c_e cs - c_r cs \<noteq> 0" using assms(3) by auto
  have u1: "unat (c_e cs - c_r cs - 1) = unat (c_e cs - c_r cs) - 1" by (rule unat_minus_one [OF ne(2)])
  then have "unat (c_e cs - c_r cs - 1) \<noteq> unat (0 :: u32)" using assms(3) by simp
  then have "c_e cs - c_r cs - 1 \<noteq> 0" by (metis)
  from unat_minus_one [OF this] have "unat (c_e cs - c_r cs - 1 - 1) = unat (c_e cs - c_r cs) - 2" using u1 by simp
  then show ?thesis using erase_loop_counts [OF assms(1,2) ne(1), of "c_e cs - c_r cs - 1"]
    by (auto simp: eraseCurrentLineOnScreen_def echo_def)
qed

lemma recall_spec:
  assumes "fair lsr" "panicked u = 0" "cons_inv cs" "2 \<le> unat (c_e cs - c_r cs)" "k < MAX_HISTORY"
  shows "\<exists>u1 u' d. eraseCurrentLineOnScreen lsr cs u = Some (cs\<lparr>c_e := c_r cs\<rparr>, u1) \<and> length d = INPUT_BUF \<and>
    copyBufferToScreen lsr (bufferArr cs ! k) (lengthsArr cs ! k) (cs\<lparr>c_e := c_r cs\<rparr>) u1 =
      Some (cs\<lparr>c_buf := d, c_e := c_r cs + lengthsArr cs ! k\<rparr>, u') \<and>
    ring_items d (c_r cs) (c_r cs + lengthsArr cs ! k) = take (unat (lengthsArr cs ! k)) (bufferArr cs ! k) \<and>
    echoed u (concat (replicate (unat (c_e cs - c_r cs) - 2) [8, 32, 8]) @ take (unat (lengthsArr cs ! k)) (bufferArr cs ! k)) u'"
proof -
  have l: "length (c_buf cs) = INPUT_BUF" "unat (lengthsArr cs ! k) \<le> INPUT_BUF" "length (bufferArr cs ! k) = INPUT_BUF"
    using assms(3,5) by (auto simp: cons_inv_def hist_inv_def intro: less_imp_le)
  obtain u1 where 1: "eraseCurrentLineOnScreen lsr cs u = Some (cs\<lparr>c_e := c_r cs\<rparr>, u1)"
      "echoed u (concat (replicate (unat (c_e cs - c_r cs) - 2) [8, 32, 8])) u1"
    using erase_spec [OF assms(1,2,4)] by blast
  have "panicked u1 = 0" using echoed_fields [OF 1(2)] assms(2) by simp
  from copyBuffer_spec [OF assms(1) this, of "cs\<lparr>c_e := c_r cs\<rparr>" "lengthsArr cs ! k" "bufferArr cs ! k"]
  obtain d u' where 2: "copyBufferToScreen lsr (bufferArr cs ! k) (lengthsArr cs ! k) (cs\<lparr>c_e := c_r cs\<rparr>) u1 =
      Some (cs\<lparr>c_buf := d, c_e := c_r cs + lengthsArr cs ! k\<rparr>, u')" "length d = INPUT_BUF"
    "echoed u1 (take (unat (lengthsArr cs ! k)) (bufferArr cs ! k)) u'"
    "ring_items d (c_r cs) (c_r cs + lengthsArr cs ! k) = take (unat (lengthsArr cs ! k)) (bufferArr cs ! k)"
    using l by auto
  show ?thesis using 1(1) 2 echoed_trans [OF 1(2) 2(3)] by blast
qed

section \<open>Reading a line\<close>

lemma cons_pop:
  assumes inv: "cons_inv cs" and ne: "c_r cs \<noteq> c_w cs"
  defines "cs' \<equiv> cs\<lparr>c_r := c_r cs + 1\<rparr>"
  shows "cons_inv cs'" "cons_abs cs = (buf_at cs (c_r cs) # fst (cons_abs cs'), snd (cons_abs cs'))"
proof -
  have nz: "c_w cs - c_r cs \<noteq> 0" using ne by simp
  have "0 < unat (c_w cs - c_r cs)" using nz by (simp add: unat_gt_0)
  then have ez: "c_e cs - c_r cs \<noteq> 0" using inv by (auto simp: cons_inv_def)
  have e: "unat (c_e cs - (c_r cs + 1)) = unat (c_e cs - c_r cs) - 1" "unat (c_w cs - (c_r cs + 1)) = unat (c_w cs - c_r cs) - 1"
    using unat_minus_one [OF ez] unat_minus_one [OF nz] by (simp_all add: diff_diff_eq)
  show "cons_inv cs'" using inv e by (auto simp: cons_inv_def cs'_def)
  have "c_r cs \<noteq> c_e cs" using ez by auto
  from ring_pop [OF this, of "c_buf cs"] have all: "cons_all cs = buf_at cs (c_r cs) # cons_all cs'"
    using inv by (simp add: cons_all_def cs'_def buf_at_def cons_inv_def)
  have w: "unat (c_w cs - c_r cs) = Suc (unat (c_w cs' - c_r cs'))"
    using e(2) \<open>0 < unat (c_w cs - c_r cs)\<close> by (simp add: cs'_def)
  show "cons_abs cs = (buf_at cs (c_r cs) # fst (cons_abs cs'), snd (cons_abs cs'))"
    unfolding cons_abs_def w all by simp
qed

lemma consoleread_loop_spec:
  assumes "cons_inv cs" "fst (cons_abs cs) = l @ 10 # rest" "10 \<notin> set l" "4 \<notin> set l"
    and "pt_inv 2 s pt" "myproc s = Some pr" "p_pagetable (procs s ! pr) = pt"
    and "\<forall>j. i \<le> j \<and> j < i + k \<longrightarrow> umapped s pt (addr + of_nat j) \<and> user_pages s pt (addr + of_nat j) 1"
    and "inj_on (\<lambda>j. upa s pt (addr + of_nat j)) {i..<i + k}"
  shows "\<exists>cs' s'. consoleread_loop (i + k) k (UDst (addr + of_nat i)) cs s = Ok (CRet (int (i + min k (Suc (length l)))) (cs', s')) \<and>
    cons_inv cs' \<and> cons_abs cs' = (drop k (l @ [10]) @ rest, snd (cons_abs cs)) \<and> stored s pt addr i (take k (l @ [10])) s'"
  using assms
proof (induction k arbitrary: i l cs s)
  case 0
  then show ?case by (intro exI [of _ cs] exI [of _ s]) (simp add: stored_def prod_eq_iff)
next
  case (Suc k)
  let ?c = "buf_at cs (c_r cs)" and ?cs = "cs\<lparr>c_r := c_r cs + 1\<rparr>"
  have "fst (cons_abs cs) \<noteq> []" using Suc.prems(2) by simp
  then have ne: "c_r cs \<noteq> c_w cs" by (auto simp: cons_abs_def)
  note p = cons_pop [OF Suc.prems(1) ne]
  have hd: "?c # fst (cons_abs ?cs) = l @ 10 # rest" using p(2) Suc.prems(2) by simp
  then have c4: "uint ?c \<noteq> ctrl CHR ''D''" using Suc.prems(4)
    by (cases l) (auto simp: ctrl_def word_uint_eq_iff)
  have m: "umapped s pt (addr + of_nat i)" "user_pages s pt (addr + of_nat i) 1" using Suc.prems(8) by simp_all
  obtain s1 where 1: "copyout pt (addr + of_nat i) [?c] s = Ok (0, s1)" "wrote s pt (addr + of_nat i) [?c] 1 s1"
    using copyout_byte [OF Suc.prems(5) m] by blast
  note e = wrote_eqs [OF 1(2)]
  have s1: "s1 = s\<lparr>pmem := pmem s1\<rparr>" using 1(2) by (simp add: wrote_def)
  have p1: "myproc s1 = Some pr" "p_pagetable (procs s1 ! pr) = pt"
    using Suc.prems(6,7) by (subst s1, simp add: myproc_def)+
  have ec: "either_copyout (UDst (addr + of_nat i)) [?c] s = Ok (0, s1)"
    using Suc.prems(6,7) 1(1) by (simp add: either_copyout_def with_proc_def)
  show ?case
  proof (cases l)
    case Nil
    then have "?c = 10" "fst (cons_abs ?cs) = rest" using hd by simp_all
    moreover have "stored s pt addr i [?c] s1"
      using stored_Cons [OF 1(2), of "[]" s1] by (simp add: stored_def)
    ultimately show ?thesis using Nil p ne c4 ec Suc.prems(1)
      by (intro exI [of _ ?cs] exI [of _ s1]) (simp add: Let_def prod_eq_iff)
  next
    case (Cons x l')
    then have x: "?c = x" "fst (cons_abs ?cs) = l' @ 10 # rest" using hd by simp_all
    have l': "10 \<notin> set l'" "4 \<notin> set l'" using Suc.prems(3,4) Cons by simp_all
    have "\<forall>j. Suc i \<le> j \<and> j < Suc i + k \<longrightarrow> umapped s1 pt (addr + of_nat j) \<and> user_pages s1 pt (addr + of_nat j) 1"
      using Suc.prems(8) by (simp add: user_pages_def e)
    moreover have "inj_on (\<lambda>j. upa s1 pt (addr + of_nat j)) {Suc i..<Suc i + k}"
      unfolding e by (rule inj_on_subset [OF Suc.prems(9)]) auto
    ultimately obtain cs' s' where 2:
      "consoleread_loop (Suc i + k) k (UDst (addr + of_nat (Suc i))) ?cs s1 = Ok (CRet (int (Suc i + min k (Suc (length l')))) (cs', s'))"
      "cons_inv cs'" "cons_abs cs' = (drop k (l' @ [10]) @ rest, snd (cons_abs ?cs))" "stored s1 pt addr (Suc i) (take k (l' @ [10])) s'"
      using Suc.IH [OF p(1) x(2) l' e(6) p1] by blast
    have "stored s pt addr i (x # take k (l' @ [10])) s'"
      using stored_Cons [OF 1(2) 2(4)] inj_on_subset [OF Suc.prems(9)] x(1) by simp
    moreover have "x \<noteq> 10" using Suc.prems(3) Cons by auto
    ultimately show ?thesis using 2 Cons ne c4 ec x(1) p(2)
      by (intro exI [of _ cs'] exI [of _ s']) (simp add: Let_def ac_simps)
  qed
qed

section \<open>Properties\<close>

text \<open>
  C30: the interrupt handler implements the line editor. For every character other than the two arrows and
  control-P, on a device that keeps becoming ready, \<^verbatim>\<open>consoleintr\<close> returns, keeps the bounds of its buffer and of the
  history, changes the readable characters and the line being edited as \<open>edit\<close> says, and wakes readers exactly
  when a line, an end of file or a full buffer is handed over.
\<close>

theorem console_refines:
  assumes "fair lsr" "panicked u = 0" "cons_inv cs" "c < 256"
    and "c \<noteq> ctrl CHR ''P''" "c \<noteq> UP_ARROW" "c \<noteq> DOWN_ARROW"
  shows "\<exists>cs' u'. cons_inv cs' \<and> cons_abs cs' = edit c (cons_abs cs) \<and> panicked u' = 0 \<and> uart_items u' = uart_items u \<and>
    consoleintr lsr c cs u s = Some (cs', u', if fst (cons_abs cs') = fst (cons_abs cs) then s else wakeup ChCons s)"
proof -
  consider "c = ctrl CHR ''U''" | "c = ctrl CHR ''H'' \<or> c = 0x7f" "c \<noteq> ctrl CHR ''U''"
    | "c \<notin> {ctrl CHR ''U'', ctrl CHR ''H'', 0x7f}" by blast
  then show ?thesis
  proof cases
    case 1
    obtain cs' u' where k: "kill_loop lsr cs u = Some (cs', u')" "cons_inv cs'"
        "cons_abs cs' = (fst (cons_abs cs), rev (dropWhile (\<lambda>x. x \<noteq> 10) (rev (snd (cons_abs cs)))))"
        "panicked u' = panicked u \<and> uart_items u' = uart_items u"
      using kill_loop_spec [OF assms(1,2,3)] echoed_fields by blast
    have "edit c (cons_abs cs) = cons_abs cs'" using 1 k(3) by (simp add: edit_def case_prod_beta)
    moreover have "consoleintr lsr c cs u s = Some (cs', u', s)" using 1 k(1) assms(5) by (simp add: consoleintr_def)
    ultimately show ?thesis using k assms(2) by (intro exI [of _ cs'] exI [of _ u']) simp
  next
    case 2
    obtain u' where u': "consputc lsr BACKSPACE u = Some u'" "echoed u (echo BACKSPACE) u'"
      using consputc_echoed [OF assms(1,2)] by blast
    show ?thesis
    proof (cases "c_e cs = c_w cs")
      case True
      then show ?thesis using 2 pend_empty [OF assms(3)] assms(2,3) \<open>c \<noteq> ctrl CHR ''P''\<close>
        by (intro exI [of _ cs] exI [of _ u]) (auto simp: consoleintr_def edit_def case_prod_beta prod_eq_iff)
    next
      case False
      note b = cons_back [OF assms(3) False]
      show ?thesis using 2 False b u' echoed_fields [OF u'(2)] assms(2) \<open>c \<noteq> ctrl CHR ''P''\<close>
        by (intro exI [of _ "cs\<lparr>c_e := c_e cs - 1\<rparr>"] exI [of _ u']) (auto simp: consoleintr_def edit_def case_prod_beta)
    qed
  next
    case 3
    then have run: "consoleintr lsr c cs u s = default_char lsr c cs u s"
      using assms(5-7) by (simp add: consoleintr_def)
    have len: "length (fst (cons_abs cs)) + length (snd (cons_abs cs)) = unat (c_e cs - c_r cs)"
      using assms(3) by (simp add: cons_abs_def cons_inv_def)
    show ?thesis
    proof (cases "c \<noteq> 0 \<and> unat (c_e cs - c_r cs) < INPUT_BUF")
      case True
      let ?x = "if c = 13 then 10 else c" and ?n = "unat (c_e cs - c_r cs)"
      let ?full = "?x = 10 \<or> ?x = ctrl CHR ''D'' \<or> Suc ?n = INPUT_BUF"
      obtain cs' u' where d: "echoed u [word_of_int ?x] u'" "cons_inv cs'"
          "default_char lsr c cs u s = Some (cs', u', if ?full then wakeup ChCons s else s)"
          "cons_abs cs' = (if ?full then (fst (cons_abs cs) @ snd (cons_abs cs) @ [word_of_int ?x], [])
            else (fst (cons_abs cs), snd (cons_abs cs) @ [word_of_int ?x]))"
        using default_char_spec [OF assms(1,2,3) _ assms(4), of s] True by blast
      have "edit c (cons_abs cs) = cons_abs cs'"
        unfolding d(4) edit_def case_prod_beta len using True 3 by (simp add: Let_def)
      moreover have "fst (cons_abs cs') = fst (cons_abs cs) \<longleftrightarrow> \<not> ?full" unfolding d(4) by simp
      ultimately show ?thesis using d(2,3) echoed_fields [OF d(1)] assms(2) unfolding run
        by (intro exI [of _ cs'] exI [of _ u']) simp
    next
      case False
      then have "\<not> (c \<noteq> 0 \<and> c_e cs - c_r cs < of_nat INPUT_BUF)" by (auto simp: word_less_nat_alt INPUT_BUF_def)
      then have "default_char lsr c cs u s = Some (cs, u, s)" unfolding default_char_def by (rule if_not_P)
      then show ?thesis using False 3 len assms(2,3) unfolding run by (intro exI [of _ cs] exI [of _ u]) (auto simp: edit_def case_prod_beta)
    qed
  qed
qed

text \<open>The console at boot, as the zeroed globals have it, on a device that is always ready.\<close>

definition cons_boot :: cons where
  "cons_boot = \<lparr>c_buf = replicate 128 0, c_r = 0, c_w = 0, c_e = 0, firstSave = True, oldcmd = False,
     bufferArr = replicate 16 (replicate 128 0), lengthsArr = replicate 16 0, lastCommandIndex = 0,
     numOfCommmandsInMem = 0, currentHistory = 0\<rparr>"

definition ready :: "nat \<Rightarrow> u8" where "ready t = 32"

lemma fair_ready: "fair ready"
  by (simp add: fair_def ready_def tx_idle_def)

lemma cons_boot_inv: "cons_inv cons_boot"
  by (simp add: cons_inv_def hist_inv_def cons_boot_def INPUT_BUF_def MAX_HISTORY_def)

text \<open>A console with two characters typed on the line.\<close>

definition cons_two :: cons where
  "cons_two = cons_boot\<lparr>c_e := 2\<rparr>"

lemma cons_two_inv: "cons_inv cons_two"
  by (simp add: cons_two_def cons_inv_def hist_inv_def cons_boot_def INPUT_BUF_def MAX_HISTORY_def)

theorem console_refines_witness:
  "\<forall>s :: proc_st. \<exists>cs' u'. cons_inv cs' \<and> cons_abs cs' = ([104, 10], []) \<and> consoleintr ready 13 (cons_boot\<lparr>c_buf := (c_buf cons_boot)[0 := 104], c_e := 1\<rparr>) uart_boot s = Some (cs', u', wakeup ChCons s)"
proof
  fix s :: proc_st
  let ?c = "cons_boot\<lparr>c_buf := (c_buf cons_boot)[0 := 104], c_e := 1\<rparr>"
  have "cons_inv ?c" using cons_boot_inv by (simp add: cons_inv_def) (simp add: cons_boot_def INPUT_BUF_def)
  moreover have a: "cons_abs ?c = ([], [104])" by (simp add: cons_abs_def cons_all_def ring_items_def cons_boot_def)
  ultimately show "\<exists>cs' u'. cons_inv cs' \<and> cons_abs cs' = ([104, 10], []) \<and> consoleintr ready 13 ?c uart_boot s = Some (cs', u', wakeup ChCons s)"
    using console_refines [OF fair_ready uart_boot(3), of ?c 13 s]
    by (auto simp: ctrl_def UP_ARROW_def DOWN_ARROW_def edit_def INPUT_BUF_def)
qed

text \<open>
  C31: what the interrupt handler does with the codes 65 and 66 (\<^verbatim>\<open>UP_ARROW\<close> and \<^verbatim>\<open>DOWN_ARROW\<close>, the letters A and B) while
  the input buffer is empty, \<^verbatim>\<open>e == r\<close>. If \<^verbatim>\<open>currentHistory\<close> is not negative (for 66: is not -1) it never
  returns: the loop of \<^verbatim>\<open>eraseCurrentLineOnScreen\<close> waits for a length that its body does not change, and since the
  console's lock is held nobody else changes \<^verbatim>\<open>e\<close> or \<^verbatim>\<open>r\<close>. Otherwise it returns with nothing changed. At boot
  \<^verbatim>\<open>currentHistory\<close> is 0, so typing A as the first character hangs; the arrow key of a terminal sends ESC and [ first, which
  makes the line non-empty.
\<close>

theorem arrow_hangs:
  assumes "c_e cs = c_r cs" "c = UP_ARROW \<or> c = DOWN_ARROW"
  shows "consoleintr lsr c cs u s =
    (if c = UP_ARROW \<and> 0 \<le> currentHistory cs \<or> c = DOWN_ARROW \<and> currentHistory cs \<noteq> - 1 then None else Some (cs, u, s))"
proof -
  have "(- 1 :: u32) \<noteq> 1" by simp
  then have "eraseCurrentLineOnScreen lsr cs u = None"
    using erase_loop_stuck [of "- 1" lsr "c_r cs" u] assms(1) by (simp add: eraseCurrentLineOnScreen_def)
  then show ?thesis using assms(2)
    by (auto simp: consoleintr_def up_arrow_def down_arrow_def UP_ARROW_def DOWN_ARROW_def ctrl_def)
qed

theorem arrow_hangs_witness:
  "\<forall>s :: proc_st. consoleintr ready (of_char CHR ''A'') cons_boot uart_boot s = None \<and>
     consoleintr ready (of_char CHR ''B'') (cons_boot\<lparr>currentHistory := - 1\<rparr>) uart_boot s = Some (cons_boot\<lparr>currentHistory := - 1\<rparr>, uart_boot, s)"
proof
  fix s :: proc_st
  have "consoleintr ready UP_ARROW cons_boot uart_boot s = None" by (subst arrow_hangs) (simp_all add: cons_boot_def)
  moreover have "consoleintr ready DOWN_ARROW (cons_boot\<lparr>currentHistory := - 1\<rparr>) uart_boot s = Some (cons_boot\<lparr>currentHistory := - 1\<rparr>, uart_boot, s)"
    by (subst arrow_hangs) (simp_all add: cons_boot_def UP_ARROW_def DOWN_ARROW_def)
  ultimately show "consoleintr ready (of_char CHR ''A'') cons_boot uart_boot s = None \<and>
     consoleintr ready (of_char CHR ''B'') (cons_boot\<lparr>currentHistory := - 1\<rparr>) uart_boot s = Some (cons_boot\<lparr>currentHistory := - 1\<rparr>, uart_boot, s)"
    by (simp add: UP_ARROW_def DOWN_ARROW_def)
qed

text \<open>
  C32: when at least two characters were typed (as the escape sequence of a real arrow key does) and no input
  is waiting to be read, the up arrow returns and replaces the line being edited by the current entry of the
  history, echoes that entry, and steps back in the history. It erases all but two of the characters typed.
\<close>

theorem up_arrow_recalls:
  assumes "fair lsr" "panicked u = 0" "cons_inv cs" "c_w cs = c_r cs" "2 \<le> unat (c_e cs - c_r cs)" "0 \<le> currentHistory cs"
  defines "k \<equiv> nat (currentHistory cs)"
  shows "\<exists>cs' u'. consoleintr lsr UP_ARROW cs u s = Some (cs', u', s) \<and> cons_inv cs' \<and>
    cons_abs cs' = ([], take (unat (lengthsArr cs ! k)) (bufferArr cs ! k)) \<and>
    dev_writes u' = dev_writes u @ map (Pair THR)
      (concat (replicate (unat (c_e cs - c_r cs) - 2) [8, 32, 8]) @ take (unat (lengthsArr cs ! k)) (bufferArr cs ! k)) \<and>
    currentHistory cs' = (if k = 0 then sint (lastCommandIndex cs) else currentHistory cs) - 1"
proof -
  have h: "hist_inv cs" using assms(3) by (simp add: cons_inv_def)
  then have k: "k < MAX_HISTORY" "currentHistory cs = int k" using assms(6) by (auto simp: hist_inv_def k_def)
  have last: "unat (lastCommandIndex cs) < 16" using h by (simp add: hist_inv_def MAX_HISTORY_def)
  then have last': "sint (lastCommandIndex cs) = int (unat (lastCommandIndex cs))" by (intro sint_small) simp
  have t: "int k smod 16 = int k" "unat (of_nat k :: u32) = k"
    using k(1) smod_small [of "int k"] by (simp_all add: MAX_HISTORY_def unat_of_nat_less)
  then have ix: "unat (word_of_int (currentHistory cs smod int MAX_HISTORY) :: u32) = k" by (simp add: k(2) MAX_HISTORY_def)
  have kz: "k = 0 \<longleftrightarrow> currentHistory cs = 0" using k(2) by simp
  obtain u1 u' d where r: "eraseCurrentLineOnScreen lsr cs u = Some (cs\<lparr>c_e := c_r cs\<rparr>, u1)" "length d = INPUT_BUF"
      "copyBufferToScreen lsr (bufferArr cs ! k) (lengthsArr cs ! k) (cs\<lparr>c_e := c_r cs\<rparr>) u1 =
        Some (cs\<lparr>c_buf := d, c_e := c_r cs + lengthsArr cs ! k\<rparr>, u')"
      "ring_items d (c_r cs) (c_r cs + lengthsArr cs ! k) = take (unat (lengthsArr cs ! k)) (bufferArr cs ! k)"
      "echoed u (concat (replicate (unat (c_e cs - c_r cs) - 2) [8, 32, 8]) @ take (unat (lengthsArr cs ! k)) (bufferArr cs ! k)) u'"
    using recall_spec [OF assms(1,2,3,5) k(1)] by blast
  define h' where "h' = (if k = 0 then sint (lastCommandIndex cs) else currentHistory cs) - 1"
  have "0 \<le> sint (lastCommandIndex cs)" "sint (lastCommandIndex cs) < 16" using last last' by linarith+
  then have h': "- 1 \<le> h'" "h' < 16" using k by (auto simp: h'_def MAX_HISTORY_def)
  then have hm: "h' smod 16 = h'" by (intro smod_small) simp_all
  define cs' where "cs' = cs\<lparr>c_buf := d, c_e := c_r cs + lengthsArr cs ! k,
    oldcmd := (word_of_int (currentHistory cs) = lastCommandIndex cs \<or> oldcmd cs), currentHistory := h'\<rparr>"
  have "show_entry lsr (cs\<lparr>c_e := c_r cs\<rparr>) u1 = Some (cs\<lparr>c_buf := d, c_e := c_r cs + lengthsArr cs ! k\<rparr>, u')"
    using r(3) by (simp add: show_entry_def ix)
  moreover have "history_back (cs\<lparr>c_buf := d, c_e := c_r cs + lengthsArr cs ! k\<rparr>) = cs'"
    using hm kz by (auto simp: history_back_def cs'_def h'_def Let_def MAX_HISTORY_def)
  ultimately have "up_arrow lsr cs u = Some (cs', u')" using r(1) assms(6) by (simp add: up_arrow_def)
  then have "consoleintr lsr UP_ARROW cs u s = Some (cs', u', s)" by (simp add: consoleintr_def ctrl_def UP_ARROW_def)
  moreover have "unat (lengthsArr cs ! k) < INPUT_BUF" using h k(1) by (auto simp: hist_inv_def)
  then have "cons_inv cs'" using h h' r(2) assms(4) by (simp add: cons_inv_def hist_inv_def cs'_def MAX_HISTORY_def)
  moreover have "cons_abs cs' = ([], take (unat (lengthsArr cs ! k)) (bufferArr cs ! k))"
    using r(4) assms(4) by (simp add: cons_abs_def cons_all_def cs'_def)
  ultimately show ?thesis using r(5) by (intro exI [of _ cs'] exI [of _ u']) (auto simp: echoed_def cs'_def h'_def)
qed

theorem up_arrow_recalls_witness:
  "\<forall>s :: proc_st. \<exists>cs' u'. consoleintr ready UP_ARROW cons_two uart_boot s = Some (cs', u', s) \<and> cons_inv cs' \<and> cons_abs cs' = ([], [])"
proof
  fix s :: proc_st
  show "\<exists>cs' u'. consoleintr ready UP_ARROW cons_two uart_boot s = Some (cs', u', s) \<and> cons_inv cs' \<and> cons_abs cs' = ([], [])"
    using up_arrow_recalls [OF fair_ready uart_boot(3) cons_two_inv, of s] by (auto simp: cons_two_def cons_boot_def)
qed

text \<open>
  C33: when a whole line waits in the buffer, \<^verbatim>\<open>consoleread\<close> into mapped user memory returns at once with as much of
  that line as was asked for, newline included, and never more than one line; it stores exactly those bytes in
  user memory, takes exactly them from the buffer, and leaves the line being edited alone.
\<close>

theorem consoleread_line:
  assumes "cons_inv cs" "fst (cons_abs cs) = l @ 10 # rest" "10 \<notin> set l" "4 \<notin> set l"
    and "pt_inv 2 s (p_pagetable (procs s ! pr))" "myproc s = Some pr"
    and "\<forall>j<nat (sint n). umapped s (p_pagetable (procs s ! pr)) (addr + of_nat j) \<and>
      user_pages s (p_pagetable (procs s ! pr)) (addr + of_nat j) 1"
    and "inj_on (\<lambda>j. upa s (p_pagetable (procs s ! pr)) (addr + of_nat j)) {..<nat (sint n)}"
  shows "\<exists>cs' s'. consoleread (UDst addr) n cs s = Ok (CRet (int (min (nat (sint n)) (Suc (length l)))) (cs', s')) \<and>
    cons_inv cs' \<and> cons_abs cs' = (drop (nat (sint n)) (l @ [10]) @ rest, snd (cons_abs cs)) \<and>
    stored s (p_pagetable (procs s ! pr)) addr 0 (take (nat (sint n)) (l @ [10])) s'"
  using consoleread_loop_spec [OF assms(1-6) refl, where i = 0 and k = "nat (sint n)" and addr = addr] assms(7,8)
  by (simp add: consoleread_def lessThan_atLeast0)

definition cons_line :: cons where
  "cons_line = cons_boot\<lparr>c_buf := [104, 10] @ replicate 126 0, c_w := 2, c_e := 2\<rparr>"

theorem consoleread_line_witness:
  "\<exists>cs' s'. consoleread (UDst 0) 5 cons_line user_machine = Ok (CRet 2 (cs', s')) \<and> cons_abs cs' = ([], [])"
proof -
  have a: "cons_inv cons_line" "cons_abs cons_line = ([104, 10], [])"
    by (simp_all add: cons_line_def cons_inv_def hist_inv_def cons_boot_def INPUT_BUF_def MAX_HISTORY_def
        cons_abs_def cons_all_def ring_items_def upt_conv_Cons)
  have n: "nat (sint (5 :: i32)) = 5" by simp
  have "\<exists>cs' s'. consoleread (UDst 0) 5 cons_line user_machine = Ok (CRet (int (min (nat (sint (5 :: i32))) (Suc (length [104 :: u8])))) (cs', s')) \<and>
    cons_inv cs' \<and> cons_abs cs' = (drop (nat (sint (5 :: i32))) ([104] @ [10]) @ [], snd (cons_abs cons_line)) \<and>
    stored user_machine (p_pagetable (procs user_machine ! 0)) 0 0 (take (nat (sint (5 :: i32))) ([104] @ [10])) s'"
    by (rule consoleread_line [OF a(1)])
      (use a(2) user_machine_mem(1) user_machine_bytes [of 5] in \<open>simp_all only: user_machine_proc n, simp_all\<close>)
  then show ?thesis using a(2) by auto
qed

end
