(* ===== verification/Virtio.thy ===== *)
theory Virtio
  imports Ring Proc Diskfmt
begin

text \<open>
  \<^verbatim>\<open>kernel/virtio_disk.c\<close>: the disk driver. The descriptor table and the two rings live in memory that is shared with the
  device; the model keeps them as fields. Addresses in descriptors name the object they point to, and buffers are
  named by their index in the cache. Register reads are arguments, register writes are recorded. \<^verbatim>\<open>virtio_disk_rw\<close> is cut at
  its two waits: \<open>rw_submit\<close> up to the wait for the device, \<open>rw_finish\<close> after it.
\<close>

section \<open>State\<close>

datatype daddr = ANull | AOps nat | AData nat | AStatus nat

record virtq_desc =
  vd_addr :: daddr
  vd_len :: u32
  vd_flags :: u16
  vd_next :: u16

record virtio_blk_req =
  vr_type :: u32
  vr_reserved :: u32
  vr_sector :: u64

record vdisk =
  vk_desc :: "nat \<Rightarrow> virtq_desc"
  vk_avail_idx :: u16
  vk_avail_ring :: "nat list"
  vk_used_idx :: u16             \<comment> \<open>\<^verbatim>\<open>disk.used->idx\<close>, written by the device\<close>
  vk_used_ring :: "nat list"     \<comment> \<open>the \<^verbatim>\<open>id\<close> fields, written by the device\<close>
  vk_free :: "nat \<Rightarrow> bool"
  vk_seen :: u16                 \<comment> \<open>\<^verbatim>\<open>disk.used_idx\<close>\<close>
  vk_info_b :: "nat \<Rightarrow> nat option"
  vk_status :: "nat \<Rightarrow> u8"
  vk_ops :: "nat \<Rightarrow> virtio_blk_req"
  vk_bdisk :: "nat \<Rightarrow> i32"       \<comment> \<open>\<^verbatim>\<open>b->disk\<close> of each buffer\<close>
  vk_regs :: "(u32 \<times> u32) list"  \<comment> \<open>writes to device registers\<close>

definition no_desc :: virtq_desc where
  "no_desc = \<lparr>vd_addr = ANull, vd_len = 0, vd_flags = 0, vd_next = 0\<rparr>"

definition NUM :: nat where "NUM = 8"
definition VRING_DESC_F_NEXT :: u16 where "VRING_DESC_F_NEXT = 1"
definition VRING_DESC_F_WRITE :: u16 where "VRING_DESC_F_WRITE = 2"
definition VIRTIO_BLK_T_IN :: u32 where "VIRTIO_BLK_T_IN = 0"
definition VIRTIO_BLK_T_OUT :: u32 where "VIRTIO_BLK_T_OUT = 1"

definition wreg :: "u32 \<Rightarrow> u32 \<Rightarrow> vdisk \<Rightarrow> vdisk" where
  "wreg r v d = d\<lparr>vk_regs := vk_regs d @ [(r, v)]\<rparr>"

section \<open>Initialisation\<close>

text \<open>The features the driver clears.\<close>

definition feature_mask :: "u64" where
  "feature_mask = NOT (push_bit 5 1 OR push_bit 7 1 OR push_bit 11 1 OR push_bit 12 1 OR push_bit 27 1 OR push_bit 29 1 OR push_bit 28 1)"

text \<open>
  \<open>rd r\<close> is what reading register \<open>r\<close> gives; \<open>rd2\<close> is the status after feature negotiation. The queue pages come from the
  allocator and are zeroed.
\<close>

definition virtio_disk_init :: "(u32 \<Rightarrow> u32) \<Rightarrow> u32 \<Rightarrow> vdisk \<Rightarrow> 'a kmem_st_scheme \<Rightarrow> (vdisk \<times> 'a kmem_st_scheme) res" where
  "virtio_disk_init rd rd2 d s =
     (if rd 0x000 \<noteq> 0x74726976 \<or> rd 0x004 \<noteq> 2 \<or> rd 0x008 \<noteq> 2 \<or> rd 0x00c \<noteq> 0x554d4551 then Panic ''could not find virtio disk''
      else
        let d = wreg 0x070 0 d;
            d = wreg 0x070 1 d;
            d = wreg 0x070 3 d;
            d = wreg 0x020 (ucast ((ucast (rd 0x010) :: u64) AND feature_mask)) d;
            d = wreg 0x070 11 d in
        if rd2 AND 8 = 0 then Panic ''virtio disk FEATURES_OK unset''
        else
          let d = wreg 0x030 0 d in
          if rd 0x044 \<noteq> 0 then Panic ''virtio disk should not be ready''
          else if rd 0x034 = 0 then Panic ''virtio disk has no queue 0''
          else if rd 0x034 < of_nat NUM then Panic ''virtio disk max queue too short''
          else
            let (desc, s) = kalloc s; (avail, s) = kalloc s; (used, s) = kalloc s in
            if desc = 0 \<or> avail = 0 \<or> used = 0 then Panic ''virtio disk kalloc''
            else
              let s = s\<lparr>pmem := memset (memset (memset (pmem s) desc 0 4096) avail 0 4096) used 0 4096\<rparr>;
                  d = d\<lparr>vk_desc := (\<lambda>_. no_desc), vk_avail_idx := 0,
                        vk_avail_ring := replicate NUM 0, vk_used_idx := 0, vk_used_ring := replicate NUM 0\<rparr>;
                  d = wreg 0x038 (of_nat NUM) d;
                  d = wreg 0x084 (ucast (drop_bit 32 desc)) (wreg 0x080 (ucast desc) d);
                  d = wreg 0x094 (ucast (drop_bit 32 avail)) (wreg 0x090 (ucast avail) d);
                  d = wreg 0x0a4 (ucast (drop_bit 32 used)) (wreg 0x0a0 (ucast used) d);
                  d = wreg 0x044 1 d;
                  d = d\<lparr>vk_free := (\<lambda>i. i < NUM \<or> vk_free d i)\<rparr>;
                  d = wreg 0x070 (rd2 OR 4) d in
              Ok (d, s))"

section \<open>Descriptors\<close>

definition alloc_desc :: "vdisk \<Rightarrow> nat option \<times> vdisk" where
  "alloc_desc d =
     (case find (vk_free d) [0..<NUM] of
        Some i \<Rightarrow> (Some i, d\<lparr>vk_free := (vk_free d)(i := False)\<rparr>)
      | None \<Rightarrow> (None, d))"

definition free_desc :: "nat \<Rightarrow> vdisk \<Rightarrow> 'a proc_st_scheme \<Rightarrow> (vdisk \<times> 'a proc_st_scheme) res" where
  "free_desc i d s =
     (if i \<ge> NUM then Panic ''free_desc 1''
      else if vk_free d i then Panic ''free_desc 2''
      else Ok (d\<lparr>vk_desc := (vk_desc d)(i := no_desc),
                 vk_free := (vk_free d)(i := True)\<rparr>, wakeup ChDiskFree s))"

definition taken :: "vdisk \<Rightarrow> nat list" where
  "taken d = filter (\<lambda>i. \<not> vk_free d i) [0..<NUM]"

lemma free_desc_shrinks: "free_desc i d s = Ok (d', s') \<Longrightarrow> length (taken d') < length (taken d)"
proof -
  assume f: "free_desc i d s = Ok (d', s')"
  then have i: "i < NUM" "\<not> vk_free d i" "vk_free d' = (vk_free d)(i := True)" by (auto simp: free_desc_def split: if_splits)
  then have "taken d' = filter (\<lambda>j. j \<noteq> i) (taken d)" "i \<in> set (taken d)" by (auto simp: taken_def filter_filter intro: filter_cong)
  then show ?thesis using length_filter_less [of i "taken d" "\<lambda>j. j \<noteq> i"] by simp
qed

text \<open>Freeing ends, since every round frees a descriptor that was taken.\<close>

function free_chain :: "nat \<Rightarrow> vdisk \<Rightarrow> 'a proc_st_scheme \<Rightarrow> (vdisk \<times> 'a proc_st_scheme) res" where
  "free_chain i d s =
     (let flag = vd_flags (vk_desc d i); nxt = unat (vd_next (vk_desc d i)) in
      rbind (free_desc i d s) (\<lambda>(d, s).
      if flag AND VRING_DESC_F_NEXT \<noteq> 0 then free_chain nxt d s else Ok (d, s)))"
  by pat_completeness auto
termination
  by (relation "measure (\<lambda>(i, d, s). length (taken d))") (auto dest: free_desc_shrinks)

declare free_chain.simps [simp del]

fun free_descs :: "nat list \<Rightarrow> vdisk \<Rightarrow> 'a proc_st_scheme \<Rightarrow> (vdisk \<times> 'a proc_st_scheme) res" where
  "free_descs [] d s = Ok (d, s)"
| "free_descs (i # is) d s = rbind (free_desc i d s) (\<lambda>(d, s). free_descs is d s)"

text \<open>The loop of \<^verbatim>\<open>alloc3_desc\<close>, \<open>k\<close> descriptors to go.\<close>

fun alloc_descs :: "nat \<Rightarrow> nat list \<Rightarrow> vdisk \<Rightarrow> 'a proc_st_scheme \<Rightarrow> (nat list option \<times> vdisk \<times> 'a proc_st_scheme) res" where
  "alloc_descs 0 idx d s = Ok (Some idx, d, s)"
| "alloc_descs (Suc k) idx d s =
     (let (x, d) = alloc_desc d in
      case x of
        None \<Rightarrow> rbind (free_descs idx d s) (\<lambda>(d, s). Ok (None, d, s))
      | Some i \<Rightarrow> alloc_descs k (idx @ [i]) d s)"

definition alloc3_desc :: "vdisk \<Rightarrow> 'a proc_st_scheme \<Rightarrow> (nat list option \<times> vdisk \<times> 'a proc_st_scheme) res" where
  "alloc3_desc d s = alloc_descs 3 [] d s"

section \<open>Requests\<close>

text \<open>The request for block \<open>blockno\<close> of buffer \<open>b\<close> in the descriptors \<open>i\<close>, \<open>j\<close>, \<open>k\<close>, and its hand-over to the device.\<close>

definition format_request :: "nat \<Rightarrow> u32 \<Rightarrow> bool \<Rightarrow> nat \<Rightarrow> nat \<Rightarrow> nat \<Rightarrow> vdisk \<Rightarrow> vdisk" where
  "format_request b blockno write i j k d =
     d\<lparr>vk_ops := (vk_ops d)(i := \<lparr>vr_type = (if write then VIRTIO_BLK_T_OUT else VIRTIO_BLK_T_IN), vr_reserved = 0,
          vr_sector = ucast (blockno * of_nat (BSIZE div 512))\<rparr>),
       vk_desc := (vk_desc d)
         (i := \<lparr>vd_addr = AOps i, vd_len = 16, vd_flags = VRING_DESC_F_NEXT, vd_next = of_nat j\<rparr>,
          j := \<lparr>vd_addr = AData b, vd_len = of_nat BSIZE, vd_flags = (if write then 0 else VRING_DESC_F_WRITE) OR VRING_DESC_F_NEXT, vd_next = of_nat k\<rparr>,
          k := \<lparr>vd_addr = AStatus i, vd_len = 1, vd_flags = VRING_DESC_F_WRITE, vd_next = 0\<rparr>),
       vk_status := (vk_status d)(i := 0xff),
       vk_bdisk := (vk_bdisk d)(b := 1),
       vk_info_b := (vk_info_b d)(i := Some b)\<rparr>"

definition notify :: "nat \<Rightarrow> vdisk \<Rightarrow> vdisk" where
  "notify i d =
     (let d = d\<lparr>vk_avail_ring := (vk_avail_ring d)[unat (vk_avail_idx d) mod NUM := i]\<rparr>;
          d = d\<lparr>vk_avail_idx := vk_avail_idx d + 1\<rparr>
      in wreg 0x050 0 d)"

text \<open>\<open>RwFull\<close>: no descriptors, the caller sleeps on \<^verbatim>\<open>&disk.free[0]\<close> and tries again. \<open>RwSent idx\<close>: the request is on its way.\<close>

datatype 's rw_out = RwFull 's | RwSent "nat list" 's

definition rw_submit :: "nat \<Rightarrow> u32 \<Rightarrow> bool \<Rightarrow> vdisk \<Rightarrow> 'a proc_st_scheme \<Rightarrow> (vdisk \<times> 'a proc_st_scheme) rw_out res" where
  "rw_submit b blockno write d s =
     rbind (alloc3_desc d s) (\<lambda>(idx, d, s).
     case idx of
       None \<Rightarrow> Ok (RwFull (d, s))
     | Some idx \<Rightarrow> Ok (RwSent idx (notify (idx ! 0) (format_request b blockno write (idx ! 0) (idx ! 1) (idx ! 2) d), s)))"

text \<open>\<open>Sleep\<close>: the device is not done.\<close>

definition rw_finish :: "nat \<Rightarrow> nat \<Rightarrow> vdisk \<Rightarrow> 'a proc_st_scheme \<Rightarrow> (vdisk \<times> 'a proc_st_scheme) res" where
  "rw_finish b idx0 d s =
     (if vk_bdisk d b = 1 then Sleep (ChDiskBuf b)
      else free_chain idx0 (d\<lparr>vk_info_b := (vk_info_b d)(idx0 := None)\<rparr>) s)"

section \<open>Completion\<close>

function intr_loop :: "vdisk \<Rightarrow> 'a proc_st_scheme \<Rightarrow> (vdisk \<times> 'a proc_st_scheme) res" where
  "intr_loop d s =
     (if vk_seen d \<noteq> vk_used_idx d then
        let id = vk_used_ring d ! (unat (vk_seen d) mod NUM) in
        if vk_status d id \<noteq> 0 then Panic ''virtio_disk_intr status''
        else (case vk_info_b d id of
                None \<Rightarrow> Panic ''kerneltrap''
              | Some b \<Rightarrow>
                  intr_loop (d\<lparr>vk_bdisk := (vk_bdisk d)(b := 0), vk_seen := vk_seen d + 1\<rparr>) (wakeup (ChDiskBuf b) s))
      else Ok (d, s))"
  by pat_completeness auto
termination
proof (relation "measure (\<lambda>(d, s). unat (vk_used_idx d - vk_seen d))")
  fix d :: vdisk and s :: "'a proc_st_scheme" and id b
  assume "vk_seen d \<noteq> vk_used_idx d"
  then have ne: "vk_used_idx d - vk_seen d \<noteq> 0" by simp
  have "vk_used_idx d - (vk_seen d + 1) = vk_used_idx d - vk_seen d - 1" by simp
  then have "unat (vk_used_idx d - (vk_seen d + 1)) = unat (vk_used_idx d - vk_seen d) - 1" using unat_minus_one [OF ne] by (simp only:)
  then show "((d\<lparr>vk_bdisk := (vk_bdisk d)(b := 0), vk_seen := vk_seen d + 1\<rparr>, wakeup (ChDiskBuf b) s), d, s)
      \<in> measure (\<lambda>(d, s). unat (vk_used_idx d - vk_seen d))"
    using ne by (simp add: unat_gt_0)
qed simp

declare intr_loop.simps [simp del]

definition virtio_disk_intr :: "u32 \<Rightarrow> vdisk \<Rightarrow> 'a proc_st_scheme \<Rightarrow> (vdisk \<times> 'a proc_st_scheme) res" where
  "virtio_disk_intr status d s = intr_loop (wreg 0x064 (status AND 3) d) s"

section \<open>The driver and the device\<close>

text \<open>
  Requests in flight, as pairs of buffer and descriptors, with the driver's state and what the device has fetched from the
  available ring and not completed yet. A buffer is locked by the process that transfers it, so it has one request at a
  time. The device may complete what it fetched in any order; it then writes a status byte, 0 for success, and a used entry.
\<close>

record vsys =
  y_disk :: vdisk
  y_flight :: "(nat \<times> nat list) list"
  y_fetched :: u16
  y_pending :: "nat list"

definition dev_done :: "nat \<Rightarrow> u8 \<Rightarrow> vdisk \<Rightarrow> vdisk" where
  "dev_done h status d = d\<lparr>vk_status := (vk_status d)(h := status),
     vk_used_ring := (vk_used_ring d)[unat (vk_used_idx d) mod NUM := h], vk_used_idx := vk_used_idx d + 1\<rparr>"

inductive vstep :: "vsys \<Rightarrow> vsys \<Rightarrow> bool" where
  vs_submit: "b \<notin> fst ` set (y_flight y) \<Longrightarrow> rw_submit b n w (y_disk y) (s :: proc_st) = Ok (RwSent idx (d', s')) \<Longrightarrow>
    vstep y (y\<lparr>y_disk := d', y_flight := (b, idx) # y_flight y\<rparr>)"
| vs_full: "rw_submit b n w (y_disk y) (s :: proc_st) = Ok (RwFull (d', s')) \<Longrightarrow> vstep y (y\<lparr>y_disk := d'\<rparr>)"
| vs_finish: "(b, idx) \<in> set (y_flight y) \<Longrightarrow> rw_finish b (idx ! 0) (y_disk y) (s :: proc_st) = Ok (d', s') \<Longrightarrow>
    vstep y (y\<lparr>y_disk := d', y_flight := remove1 (b, idx) (y_flight y)\<rparr>)"
| vs_intr: "virtio_disk_intr st (y_disk y) (s :: proc_st) = Ok (d', s') \<Longrightarrow> vstep y (y\<lparr>y_disk := d'\<rparr>)"
| vs_fetch: "y_fetched y \<noteq> vk_avail_idx (y_disk y) \<Longrightarrow>
    vstep y (y\<lparr>y_pending := y_pending y @ [vk_avail_ring (y_disk y) ! (unat (y_fetched y) mod NUM)], y_fetched := y_fetched y + 1\<rparr>)"
| vs_done: "h \<in> set (y_pending y) \<Longrightarrow> vstep y (y\<lparr>y_disk := dev_done h status (y_disk y), y_pending := remove1 h (y_pending y)\<rparr>)"

text \<open>The start: \<^verbatim>\<open>virtio_disk_init\<close> is through.\<close>

definition vstart :: "vsys \<Rightarrow> bool" where
  "vstart y \<longleftrightarrow> y_flight y = [] \<and> y_pending y = [] \<and> y_fetched y = 0 \<and> vk_avail_idx (y_disk y) = 0 \<and> vk_used_idx (y_disk y) = 0 \<and>
     vk_seen (y_disk y) = 0 \<and> length (vk_avail_ring (y_disk y)) = NUM \<and> length (vk_used_ring (y_disk y)) = NUM \<and> (\<forall>i<NUM. vk_free (y_disk y) i)"

text \<open>The chain of a request.\<close>

definition chain_ok :: "vdisk \<Rightarrow> nat \<times> nat list \<Rightarrow> bool" where
  "chain_ok d r \<longleftrightarrow> (case snd r of [i, j, k] \<Rightarrow>
     vd_flags (vk_desc d i) AND VRING_DESC_F_NEXT \<noteq> 0 \<and> vd_next (vk_desc d i) = of_nat j \<and>
     vd_flags (vk_desc d j) AND VRING_DESC_F_NEXT \<noteq> 0 \<and> vd_next (vk_desc d j) = of_nat k \<and>
     vd_flags (vk_desc d k) AND VRING_DESC_F_NEXT = 0 \<and> vk_info_b d i = Some (fst r) | _ \<Rightarrow> False)"

definition owned :: "(nat \<times> nat list) list \<Rightarrow> nat list" where
  "owned fl = concat (map snd fl)"

text \<open>The heads of requests that the driver waits for, by where they are.\<close>

definition queued :: "vsys \<Rightarrow> nat list" where
  "queued y = ring_items (vk_avail_ring (y_disk y)) (y_fetched y) (vk_avail_idx (y_disk y)) @ y_pending y"

definition completed :: "vdisk \<Rightarrow> nat list" where
  "completed d = ring_items (vk_used_ring d) (vk_seen d) (vk_used_idx d)"

definition vinv :: "vsys \<Rightarrow> bool" where
  "vinv y \<longleftrightarrow> (let d = y_disk y; fl = y_flight y in
     distinct (map fst fl) \<and> (\<forall>r\<in>set fl. chain_ok d r) \<and> distinct (owned fl) \<and> (\<forall>i\<in>set (owned fl). i < NUM) \<and>
     (\<forall>i<NUM. vk_free d i \<longleftrightarrow> i \<notin> set (owned fl)) \<and>
     distinct (queued y @ completed d) \<and> set (queued y @ completed d) = {idx ! 0 | b idx. (b, idx) \<in> set fl \<and> vk_bdisk d b = 1} \<and>
     length (vk_avail_ring d) = NUM \<and> length (vk_used_ring d) = NUM)"

lemma find_upt_Some: "find P [0..<n] = Some i \<Longrightarrow> i < n \<and> P i"
  by (auto simp: find_Some_iff)

lemma alloc_desc_Some:
  assumes "alloc_desc d = (Some i, d')"
  shows "i < NUM" "vk_free d i" "d' = d\<lparr>vk_free := (vk_free d)(i := False)\<rparr>"
  using assms find_upt_Some [of "vk_free d" NUM] by (auto simp: alloc_desc_def split: option.splits)

lemma free_descs_ok:
  assumes "distinct is" "\<And>i. i \<in> set is \<Longrightarrow> i < NUM \<and> \<not> vk_free d i"
  shows "\<exists>s'. free_descs is d s = Ok (d\<lparr>vk_free := (\<lambda>i. i \<in> set is \<or> vk_free d i),
     vk_desc := (\<lambda>i. if i \<in> set is then no_desc else vk_desc d i)\<rparr>, s')"
  using assms
proof (induction "is" arbitrary: d s)
  case (Cons i "is")
  let ?d = "d\<lparr>vk_desc := (vk_desc d)(i := no_desc), vk_free := (vk_free d)(i := True)\<rparr>"
  have "i < NUM" "\<not> vk_free d i" using Cons.prems(2) [of i] by auto
  then have f: "free_desc i d s = Ok (?d, wakeup ChDiskFree s)" by (simp add: free_desc_def)
  have pre: "distinct is" "\<And>j. j \<in> set is \<Longrightarrow> j < NUM \<and> \<not> vk_free ?d j" using Cons.prems by auto
  obtain s' where s': "free_descs is ?d (wakeup ChDiskFree s) = Ok (?d\<lparr>vk_free := (\<lambda>j. j \<in> set is \<or> vk_free ?d j),
     vk_desc := (\<lambda>j. if j \<in> set is then no_desc else vk_desc ?d j)\<rparr>, s')"
    using Cons.IH [OF pre] by blast
  have "(\<lambda>j. j \<in> set is \<or> vk_free ?d j) = (\<lambda>j. j \<in> set (i # is) \<or> vk_free d j)"
    "(\<lambda>j. if j \<in> set is then no_desc else vk_desc ?d j) = (\<lambda>j. if j \<in> set (i # is) then no_desc else vk_desc d j)"
    by (auto simp: fun_eq_iff)
  then show ?case using f s' by simp
qed auto

text \<open>Either three free descriptors are taken, or none.\<close>

lemma alloc_descs_spec:
  assumes "distinct idx" "\<And>i. i \<in> set idx \<Longrightarrow> i < NUM \<and> \<not> vk_free d i"
  shows "\<exists>r d' s'. alloc_descs n idx d s = Ok (r, d', s') \<and>
    (case r of
       Some is \<Rightarrow> (\<exists>new. is = idx @ new \<and> length new = n \<and> distinct new \<and> (\<forall>i\<in>set new. i < NUM \<and> vk_free d i) \<and>
         d' = d\<lparr>vk_free := (\<lambda>i. i \<notin> set new \<and> vk_free d i)\<rparr>)
     | None \<Rightarrow> d' = d\<lparr>vk_free := vk_free d', vk_desc := vk_desc d'\<rparr> \<and> (\<forall>i. vk_free d' i \<longleftrightarrow> i \<in> set idx \<or> vk_free d i) \<and>
         (\<forall>i. \<not> vk_free d' i \<longrightarrow> vk_desc d' i = vk_desc d i))"
  using assms
proof (induction n arbitrary: idx d)
  case 0
  then show ?case by (auto intro!: exI [of _ "[]"])
next
  case (Suc n)
  show ?case
  proof (cases "find (vk_free d) [0..<NUM]")
    case None
    then have "alloc_desc d = (None, d)" by (simp add: alloc_desc_def)
    then show ?thesis using free_descs_ok [OF Suc.prems, of s] by auto
  next
    case (Some i)
    let ?d = "d\<lparr>vk_free := (vk_free d)(i := False)\<rparr>"
    have a: "alloc_desc d = (Some i, ?d)" using Some by (simp add: alloc_desc_def)
    note i = alloc_desc_Some [OF a]
    have ni: "i \<notin> set idx" using Suc.prems(2) i(2) by auto
    have pre: "distinct (idx @ [i])" "\<And>j. j \<in> set (idx @ [i]) \<Longrightarrow> j < NUM \<and> \<not> vk_free ?d j" using Suc.prems i(1) ni by auto
    obtain r d' s' where r: "alloc_descs n (idx @ [i]) ?d s = Ok (r, d', s')"
      "case r of Some is \<Rightarrow> (\<exists>new. is = (idx @ [i]) @ new \<and> length new = n \<and> distinct new \<and> (\<forall>j\<in>set new. j < NUM \<and> vk_free ?d j) \<and>
         d' = ?d\<lparr>vk_free := (\<lambda>j. j \<notin> set new \<and> vk_free ?d j)\<rparr>)
       | None \<Rightarrow> d' = ?d\<lparr>vk_free := vk_free d', vk_desc := vk_desc d'\<rparr> \<and> (\<forall>j. vk_free d' j \<longleftrightarrow> j \<in> set (idx @ [i]) \<or> vk_free ?d j) \<and>
         (\<forall>j. \<not> vk_free d' j \<longrightarrow> vk_desc d' j = vk_desc ?d j)"
      using Suc.IH [OF pre] by blast
    have e: "alloc_descs (Suc n) idx d s = Ok (r, d', s')" using a r(1) by simp
    show ?thesis
    proof (cases r)
      case None
      then show ?thesis using e r(2) i(2) by (auto simp: fun_eq_iff)
    next
      case (Some "is")
      then obtain new where new: "is = (idx @ [i]) @ new" "length new = n" "distinct new" "\<forall>j\<in>set new. j < NUM \<and> vk_free ?d j"
        "d' = ?d\<lparr>vk_free := (\<lambda>j. j \<notin> set new \<and> vk_free ?d j)\<rparr>" using r(2) by auto
      have "d' = d\<lparr>vk_free := (\<lambda>j. j \<notin> set (i # new) \<and> vk_free d j)\<rparr>" unfolding new(5) by (auto intro!: arg_cong [where f = "\<lambda>f. d\<lparr>vk_free := f\<rparr>"])
      moreover have "distinct (i # new)" "\<forall>j\<in>set (i # new). j < NUM \<and> vk_free d j" using new(3,4) i(1,2) by (auto split: if_splits)
      ultimately show ?thesis using e Some new(1,2) by (intro exI [of _ r] exI [of _ d'] exI [of _ s']) (auto intro!: exI [of _ "i # new"])
    qed
  qed
qed

section \<open>The invariant\<close>

lemma vinvI:
  assumes "distinct (map fst (y_flight y))" "\<And>r. r \<in> set (y_flight y) \<Longrightarrow> chain_ok (y_disk y) r" "distinct (owned (y_flight y))"
    "\<And>i. i \<in> set (owned (y_flight y)) \<Longrightarrow> i < NUM" "\<And>i. i < NUM \<Longrightarrow> vk_free (y_disk y) i \<longleftrightarrow> i \<notin> set (owned (y_flight y))"
    "distinct (queued y @ completed (y_disk y))"
    "set (queued y @ completed (y_disk y)) = {idx ! 0 | b idx. (b, idx) \<in> set (y_flight y) \<and> vk_bdisk (y_disk y) b = 1}"
    "length (vk_avail_ring (y_disk y)) = NUM" "length (vk_used_ring (y_disk y)) = NUM"
  shows "vinv y"
  using assms unfolding vinv_def Let_def by blast

lemma vinvD:
  assumes "vinv y"
  shows "distinct (map fst (y_flight y))" "r \<in> set (y_flight y) \<Longrightarrow> chain_ok (y_disk y) r" "distinct (owned (y_flight y))"
    "i \<in> set (owned (y_flight y)) \<Longrightarrow> i < NUM" "i < NUM \<Longrightarrow> vk_free (y_disk y) i \<longleftrightarrow> i \<notin> set (owned (y_flight y))"
    "distinct (queued y @ completed (y_disk y))"
    "set (queued y @ completed (y_disk y)) = {idx ! 0 | b idx. (b, idx) \<in> set (y_flight y) \<and> vk_bdisk (y_disk y) b = 1}"
    "length (vk_avail_ring (y_disk y)) = NUM" "length (vk_used_ring (y_disk y)) = NUM"
  using assms unfolding vinv_def Let_def by blast+

lemma owned_set: "set (owned fl) = (\<Union>r\<in>set fl. set (snd r))"
  by (simp add: owned_def)

lemma owned_length: "(\<And>r. r \<in> set fl \<Longrightarrow> length (snd r) = 3) \<Longrightarrow> length (owned fl) = 3 * length fl"
  by (induction fl) (simp_all add: owned_def)

lemma owned_unique:
  "distinct (owned fl) \<Longrightarrow> r \<in> set fl \<Longrightarrow> q \<in> set fl \<Longrightarrow> i \<in> set (snd r) \<Longrightarrow> i \<in> set (snd q) \<Longrightarrow> r = q"
  by (induction fl) (auto simp: owned_def)

lemma chain_cong:
  "(\<And>i. i \<in> set (snd r) \<Longrightarrow> vk_desc d' i = vk_desc d i \<and> vk_info_b d' i = vk_info_b d i) \<Longrightarrow> chain_ok d r \<Longrightarrow> chain_ok d' r"
  by (auto simp: chain_ok_def split: list.splits)

lemma chain_three:
  assumes "chain_ok d (b, idx)"
  obtains i j k where "idx = [i, j, k]" "vd_flags (vk_desc d i) AND VRING_DESC_F_NEXT \<noteq> 0" "vd_next (vk_desc d i) = of_nat j"
    "vd_flags (vk_desc d j) AND VRING_DESC_F_NEXT \<noteq> 0" "vd_next (vk_desc d j) = of_nat k" "vd_flags (vk_desc d k) AND VRING_DESC_F_NEXT = 0"
    "vk_info_b d i = Some b"
  using assms by (auto simp: chain_ok_def split: list.splits)

text \<open>At most two requests are in flight, so the rings never fill up.\<close>

lemma few_in_flight:
  assumes "vinv y"
  shows "length (y_flight y) \<le> 2" "length (queued y) + length (completed (y_disk y)) \<le> 2"
proof -
  note V = vinvD [OF assms]
  have "length (snd r) = 3" if "r \<in> set (y_flight y)" for r
    using V(2) [OF that] by (cases r) (auto elim: chain_three)
  then have "length (owned (y_flight y)) = 3 * length (y_flight y)" by (rule owned_length)
  moreover have "card (set (owned (y_flight y))) \<le> card {..<NUM}" using V(4) by (intro card_mono) auto
  ultimately show f: "length (y_flight y) \<le> 2" using distinct_card [OF V(3)] by (simp add: NUM_def)
  have "set (queued y @ completed (y_disk y)) \<subseteq> (\<lambda>r. snd r ! 0) ` set (y_flight y)" unfolding V(7) by force
  then have "card (set (queued y @ completed (y_disk y))) \<le> length (y_flight y)"
    by (meson card_image_le card_length card_mono finite_imageI finite_set le_trans)
  then show "length (queued y) + length (completed (y_disk y)) \<le> 2" using f distinct_card [OF V(6)] by simp
qed

lemma vinv_start: "vstart y \<Longrightarrow> vinv y"
  by (rule vinvI) (auto simp: vstart_def owned_def queued_def completed_def ring_items_def)

lemma vinv_fetch:
  assumes "vinv y" "y_fetched y \<noteq> vk_avail_idx (y_disk y)"
  shows "vinv (y\<lparr>y_pending := y_pending y @ [vk_avail_ring (y_disk y) ! (unat (y_fetched y) mod NUM)], y_fetched := y_fetched y + 1\<rparr>)"
    (is "vinv ?y")
proof -
  note V = vinvD [OF assms(1)]
  let ?h = "vk_avail_ring (y_disk y) ! (unat (y_fetched y) mod NUM)"
  have "ring_items (vk_avail_ring (y_disk y)) (y_fetched y) (vk_avail_idx (y_disk y)) =
      ?h # ring_items (vk_avail_ring (y_disk y)) (y_fetched y + 1) (vk_avail_idx (y_disk y))"
    using ring_pop [OF assms(2)] V(8) by metis
  then have q: "set (queued ?y) = set (queued y)" "distinct (queued ?y @ completed (y_disk y)) = distinct (queued y @ completed (y_disk y))"
    by (auto simp: queued_def)
  show ?thesis by (rule vinvI) (use V q in auto)
qed

lemma vinv_done:
  assumes "vinv y" "h \<in> set (y_pending y)"
  shows "vinv (y\<lparr>y_disk := dev_done h status (y_disk y), y_pending := remove1 h (y_pending y)\<rparr>)" (is "vinv ?y")
proof -
  note V = vinvD [OF assms(1)]
  let ?d = "y_disk y" let ?A = "ring_items (vk_avail_ring ?d) (y_fetched y) (vk_avail_idx ?d)"
  have w: "unat (vk_used_idx ?d - vk_seen ?d) < length (vk_used_ring ?d)"
    using few_in_flight(2) [OF assms(1)] V(9) by (simp add: completed_def NUM_def)
  have "length (vk_used_ring ?d) dvd 2 ^ LENGTH(16)" "length (vk_used_ring ?d) < 2 ^ LENGTH(16)" using V(9) by (simp_all add: NUM_def)
  from ring_push [OF this w, of h] have c: "completed (dev_done h status ?d) = completed ?d @ [h]"
    using V(9) by (simp add: completed_def dev_done_def)
  have dq: "distinct (y_pending y)" "queued y = ?A @ y_pending y" using V(6) by (simp_all add: queued_def)
  have q: "queued ?y = ?A @ remove1 h (y_pending y)" by (simp add: queued_def dev_done_def)
  have s: "set (remove1 h (y_pending y)) = set (y_pending y) - {h}" using dq(1) by simp
  show ?thesis
  proof (rule vinvI)
    show "distinct (queued ?y @ completed (y_disk ?y))" using V(6) s assms(2) by (auto simp: q c dq(2) distinct_remove1)
    show "set (queued ?y @ completed (y_disk ?y)) = {idx ! 0 | b idx. (b, idx) \<in> set (y_flight ?y) \<and> vk_bdisk (y_disk ?y) b = 1}"
    proof -
      have "set (queued ?y @ completed (y_disk ?y)) = set (queued y @ completed ?d)" using s assms(2) by (auto simp: q c dq(2))
      then show ?thesis unfolding V(7) by (simp add: dev_done_def)
    qed
    show "chain_ok (y_disk ?y) r" if "r \<in> set (y_flight ?y)" for r
      by (rule chain_cong [of r _ ?d]) (use V(2) that in \<open>auto simp: dev_done_def\<close>)
  qed (use V in \<open>auto simp: dev_done_def\<close>)
qed

lemma rw_submit_spec:
  obtains d' s' where "rw_submit b n w d s = Ok (RwFull (d', s'))" "d' = d\<lparr>vk_free := vk_free d', vk_desc := vk_desc d'\<rparr>"
      "vk_free d' = vk_free d" "\<And>i. \<not> vk_free d i \<Longrightarrow> vk_desc d' i = vk_desc d i"
    | i j k s' where "rw_submit b n w d s = Ok (RwSent [i, j, k]
        (notify i (format_request b n w i j k (d\<lparr>vk_free := (\<lambda>q. q \<notin> {i, j, k} \<and> vk_free d q)\<rparr>)), s'))"
      "distinct [i, j, k]" "\<And>q. q \<in> {i, j, k} \<Longrightarrow> q < NUM \<and> vk_free d q"
proof -
  obtain r d' s' where a: "alloc_descs 3 [] d s = Ok (r, d', s')" and
    c: "case r of
       Some is \<Rightarrow> (\<exists>new. is = [] @ new \<and> length new = 3 \<and> distinct new \<and> (\<forall>i\<in>set new. i < NUM \<and> vk_free d i) \<and>
         d' = d\<lparr>vk_free := (\<lambda>i. i \<notin> set new \<and> vk_free d i)\<rparr>)
     | None \<Rightarrow> d' = d\<lparr>vk_free := vk_free d', vk_desc := vk_desc d'\<rparr> \<and> (\<forall>i. vk_free d' i \<longleftrightarrow> i \<in> set [] \<or> vk_free d i) \<and>
         (\<forall>i. \<not> vk_free d' i \<longrightarrow> vk_desc d' i = vk_desc d i)"
    using alloc_descs_spec [of "[]" d 3 s] by auto
  show ?thesis
  proof (cases r)
    case None
    then have f: "vk_free d' = vk_free d" and d: "d' = d\<lparr>vk_free := vk_free d', vk_desc := vk_desc d'\<rparr>" using c by (auto simp: fun_eq_iff)
    have "rw_submit b n w d s = Ok (RwFull (d', s'))" using a None by (simp add: rw_submit_def alloc3_desc_def)
    then show ?thesis using d f by (rule that(1)) (use c None f in simp)
  next
    case (Some "is")
    then obtain i j k where "is = [i, j, k]" using c by (auto simp: length_Suc_conv numeral_3_eq_3)
    then show ?thesis using a c Some that(2) [of i j k s'] by (auto simp: rw_submit_def alloc3_desc_def)
  qed
qed

lemma vinv_full:
  assumes "vinv y" "d' = (y_disk y)\<lparr>vk_free := vk_free d', vk_desc := vk_desc d'\<rparr>" "vk_free d' = vk_free (y_disk y)"
    "\<And>i. \<not> vk_free (y_disk y) i \<Longrightarrow> vk_desc d' i = vk_desc (y_disk y) i"
  shows "vinv (y\<lparr>y_disk := d'\<rparr>)"
proof -
  note V = vinvD [OF assms(1)]
  have e: "vk_info_b d' = vk_info_b (y_disk y)" "vk_bdisk d' = vk_bdisk (y_disk y)" "vk_status d' = vk_status (y_disk y)"
    "vk_avail_ring d' = vk_avail_ring (y_disk y)" "vk_avail_idx d' = vk_avail_idx (y_disk y)" "vk_used_ring d' = vk_used_ring (y_disk y)"
    "vk_used_idx d' = vk_used_idx (y_disk y)" "vk_seen d' = vk_seen (y_disk y)"
    by (subst assms(2), simp)+
  have q: "queued (y\<lparr>y_disk := d'\<rparr>) = queued y" "completed d' = completed (y_disk y)" by (simp_all add: queued_def completed_def e)
  have "chain_ok d' r" if "r \<in> set (y_flight y)" for r
  proof (rule chain_cong [of r _ "y_disk y"])
    fix i assume "i \<in> set (snd r)"
    then have "i \<in> set (owned (y_flight y))" using that by (auto simp: owned_set)
    then show "vk_desc d' i = vk_desc (y_disk y) i \<and> vk_info_b d' i = vk_info_b (y_disk y) i" using V(4,5) assms(4) e(1) by simp
  qed (rule V(2) [OF that])
  then show ?thesis by (intro vinvI) (use V assms(3) q e in auto)
qed

lemma chain_formatted:
  "distinct [i, j, k] \<Longrightarrow> chain_ok (notify i (format_request b n w i j k d)) (b, [i, j, k])"
  by (auto simp: chain_ok_def notify_def format_request_def wreg_def Let_def VRING_DESC_F_NEXT_def VRING_DESC_F_WRITE_def)

lemma heads_insert:
  fixes f :: "nat \<Rightarrow> u32"
  assumes "b \<notin> fst ` set fl"
  shows "{idx ! 0 | c idx. (c, idx) \<in> set ((b, x) # fl) \<and> (f(b := 1)) c = 1} = insert (x ! 0) {idx ! 0 | c idx. (c, idx) \<in> set fl \<and> f c = 1}"
proof -
  have "(f(b := 1)) c = f c" if "(c, idx) \<in> set fl" for c idx using assms that by force
  moreover have "(f(b := 1)) b = 1" by simp
  ultimately show ?thesis by (auto simp del: fun_upd_apply) (metis+)
qed

lemma vinv_submit:
  assumes "vinv y" "b \<notin> fst ` set (y_flight y)" "distinct [i, j, k]" "\<And>q. q \<in> {i, j, k} \<Longrightarrow> q < NUM \<and> vk_free (y_disk y) q"
  shows "vinv (y\<lparr>y_disk := notify i (format_request b n w i j k ((y_disk y)\<lparr>vk_free := (\<lambda>q. q \<notin> {i, j, k} \<and> vk_free (y_disk y) q)\<rparr>)),
    y_flight := (b, [i, j, k]) # y_flight y\<rparr>)" (is "vinv ?y")
proof -
  note V = vinvD [OF assms(1)]
  let ?d = "y_disk y" let ?d' = "y_disk ?y"
  have new: "{i, j, k} \<inter> set (owned (y_flight y)) = {}" using V(5) assms(4) by auto
  have e: "completed ?d' = completed ?d" "vk_bdisk ?d' = (vk_bdisk ?d)(b := 1)" "vk_status ?d' = (vk_status ?d)(i := 0xff)"
    "vk_avail_ring ?d' = (vk_avail_ring ?d)[unat (vk_avail_idx ?d) mod NUM := i]" "vk_avail_idx ?d' = vk_avail_idx ?d + 1"
    "vk_used_ring ?d' = vk_used_ring ?d" "vk_free ?d' = (\<lambda>q. q \<notin> {i, j, k} \<and> vk_free ?d q)"
    by (simp_all add: completed_def notify_def format_request_def wreg_def Let_def)
  have w: "unat (vk_avail_idx ?d - y_fetched y) < length (vk_avail_ring ?d)"
    using few_in_flight(2) [OF assms(1)] V(8) by (simp add: queued_def NUM_def)
  have "length (vk_avail_ring ?d) dvd 2 ^ LENGTH(16)" "length (vk_avail_ring ?d) < 2 ^ LENGTH(16)" using V(8) by (simp_all add: NUM_def)
  from ring_push [OF this w, of i]
  have q: "queued ?y = ring_items (vk_avail_ring ?d) (y_fetched y) (vk_avail_idx ?d) @ [i] @ y_pending y"
    unfolding queued_def e(4,5) using V(8) by simp
  have heads: "set (queued y @ completed ?d) \<subseteq> set (owned (y_flight y))"
    unfolding V(7) using V(2) by (force simp: owned_set elim!: chain_three)
  have own: "owned (y_flight ?y) = [i, j, k] @ owned (y_flight y)" by (simp add: owned_def)
  have qs: "set (queued ?y) = insert i (set (queued y))" "i \<notin> set (queued y @ completed ?d)" 
    unfolding q using heads new by (auto simp: queued_def [of y])
  show ?thesis
  proof (rule vinvI)
    show "chain_ok ?d' r" if "r \<in> set (y_flight ?y)" for r
    proof (cases "r = (b, [i, j, k])")
      case True
      then show ?thesis using chain_formatted [OF assms(3)] by simp
    next
      case False
      then have r: "r \<in> set (y_flight y)" using that by simp
      then have "q \<notin> {i, j, k}" if "q \<in> set (snd r)" for q using new that by (auto simp: owned_set)
      then show ?thesis
        by (intro chain_cong [OF _ V(2) [OF r]]) (simp add: notify_def format_request_def wreg_def Let_def)
    qed
    show "distinct (queued ?y @ completed ?d')" using V(6) qs(2) unfolding q e(1) by (auto simp: queued_def [of y])
    show "set (queued ?y @ completed ?d') = {idx ! 0 | b idx. (b, idx) \<in> set (y_flight ?y) \<and> vk_bdisk ?d' b = 1}"
    proof -
      have "set (queued ?y @ completed ?d') = insert i (set (queued y @ completed ?d))" using qs(1) e(1) by simp
      moreover have "{idx ! 0 | c idx. (c, idx) \<in> set (y_flight ?y) \<and> vk_bdisk ?d' c = 1} =
          insert i {idx ! 0 | c idx. (c, idx) \<in> set (y_flight y) \<and> vk_bdisk ?d c = 1}"
        unfolding e(2) using heads_insert [OF assms(2), of "[i, j, k]"] by simp
      ultimately show ?thesis using V(7) by simp
    qed
    show "distinct (owned (y_flight ?y))" unfolding own using assms(3) V(3) new by simp
    show "q < NUM" if "q \<in> set (owned (y_flight ?y))" for q using that assms(4) V(4) unfolding own by auto
    show "vk_free ?d' q \<longleftrightarrow> q \<notin> set (owned (y_flight ?y))" if "q < NUM" for q unfolding e(7) own using V(5) [OF that] by simp
    show "distinct (map fst (y_flight ?y))" using V(1) assms(2) by simp
  qed (use V(8,9) e(4,6) in simp_all)
qed

lemma free_chain_three:
  assumes "chain_ok d (b, [i, j, k])" "distinct [i, j, k]" "\<And>q. q \<in> {i, j, k} \<Longrightarrow> q < NUM \<and> \<not> vk_free d q"
  shows "\<exists>s'. free_chain i (d\<lparr>vk_info_b := g\<rparr>) s = Ok (d\<lparr>vk_info_b := g, vk_free := (\<lambda>q. q \<in> {i, j, k} \<or> vk_free d q),
     vk_desc := (\<lambda>q. if q \<in> {i, j, k} then no_desc else vk_desc d q)\<rparr>, s')"
proof -
  have c: "vd_flags (vk_desc d i) AND VRING_DESC_F_NEXT \<noteq> 0" "vd_next (vk_desc d i) = of_nat j"
    "vd_flags (vk_desc d j) AND VRING_DESC_F_NEXT \<noteq> 0" "vd_next (vk_desc d j) = of_nat k" "vd_flags (vk_desc d k) AND VRING_DESC_F_NEXT = 0"
    using assms(1) by (auto simp: chain_ok_def)
  have b: "i < NUM" "j < NUM" "k < NUM" "\<not> vk_free d i" "\<not> vk_free d j" "\<not> vk_free d k" using assms(3) by auto
  have n: "i \<noteq> j" "i \<noteq> k" "j \<noteq> k" using assms(2) by auto
  have u: "unat (of_nat j :: 16 word) = j" "unat (of_nat k :: 16 word) = k" using b(2,3) by (simp_all add: unat_of_nat NUM_def)
  have e: "(vk_free d)(i := True, j := True, k := True) = (\<lambda>q. q \<in> {i, j, k} \<or> vk_free d q)"
    "(vk_desc d)(i := no_desc, j := no_desc, k := no_desc) = (\<lambda>q. if q \<in> {i, j, k} then no_desc else vk_desc d q)"
    by (auto simp: fun_eq_iff)
  show ?thesis
    unfolding e [symmetric] using n b
    by (simp add: free_chain.simps [of i] free_chain.simps [of j] free_chain.simps [of k] free_desc_def c u Let_def)
qed

lemma vinv_finish:
  assumes "vinv y" "(b, idx) \<in> set (y_flight y)" "vk_bdisk (y_disk y) b \<noteq> 1"
  shows "\<exists>d' s'. rw_finish b (idx ! 0) (y_disk y) s = Ok (d', s') \<and> vinv (y\<lparr>y_disk := d', y_flight := remove1 (b, idx) (y_flight y)\<rparr>)"
proof -
  note V = vinvD [OF assms(1)]
  let ?d = "y_disk y"
  obtain i j k where idx: "idx = [i, j, k]" using V(2) [OF assms(2)] by (auto elim: chain_three)
  obtain as bs where sp: "y_flight y = as @ (b, idx) # bs" "(b, idx) \<notin> set as" using split_list_first [OF assms(2)] by blast
  have r1: "remove1 (b, idx) (y_flight y) = as @ bs" using sp by (simp add: remove1_append)
  have o: "owned (y_flight y) = owned as @ idx @ owned bs" "owned (as @ bs) = owned as @ owned bs" by (simp_all add: sp(1) owned_def)
  have dis: "distinct [i, j, k]" "{i, j, k} \<inter> set (owned (as @ bs)) = {}" "distinct (owned (as @ bs))" using V(3) unfolding o idx by auto
  have low: "q < NUM \<and> \<not> vk_free ?d q" if "q \<in> {i, j, k}" for q
  proof -
    have "q \<in> set (owned (y_flight y))" using that unfolding o idx by auto
    then show ?thesis using V(4) [of q] V(5) [of q] by simp
  qed
  let ?d' = "?d\<lparr>vk_info_b := (vk_info_b ?d)(i := None), vk_free := (\<lambda>q. q \<in> {i, j, k} \<or> vk_free ?d q),
     vk_desc := (\<lambda>q. if q \<in> {i, j, k} then no_desc else vk_desc ?d q)\<rparr>"
  let ?y = "y\<lparr>y_disk := ?d', y_flight := as @ bs\<rparr>"
  have "rw_finish b (idx ! 0) ?d s = free_chain i (?d\<lparr>vk_info_b := (vk_info_b ?d)(i := None)\<rparr>) s" using assms(3) by (simp add: rw_finish_def idx)
  moreover obtain s' where "free_chain i (?d\<lparr>vk_info_b := (vk_info_b ?d)(i := None)\<rparr>) s = Ok (?d', s')"
    using free_chain_three [OF V(2) [OF assms(2), unfolded idx] dis(1) low, of "(vk_info_b ?d)(i := None)" s] by (rule exE)
  ultimately have f: "rw_finish b (idx ! 0) ?d s = Ok (?d', s')" by (rule trans)
  have q: "queued ?y = queued y" "completed ?d' = completed ?d" by (simp_all add: queued_def completed_def)
  have "vinv ?y"
  proof (rule vinvI)
    show "chain_ok (y_disk ?y) r" if "r \<in> set (y_flight ?y)" for r
    proof -
      have r: "r \<in> set (as @ bs)" using that by simp
      have "set (snd r) \<inter> {i, j, k} = {}" using r dis(2) unfolding owned_set by blast
      then have n: "q \<notin> {i, j, k}" if "q \<in> set (snd r)" for q using that by blast
      have "chain_ok ?d r" using V(2) [of r] r sp(1) by auto
      then show ?thesis by (rule chain_cong [rotated]) (use n in simp)
    qed
    show "x < NUM" if "x \<in> set (owned (y_flight ?y))" for x using that V(4) [of x] o by auto
    show "vk_free (y_disk ?y) x \<longleftrightarrow> x \<notin> set (owned (y_flight ?y))" if "x < NUM" for x
    proof -
      have "set (owned (y_flight y)) = {i, j, k} \<union> set (owned (as @ bs))" unfolding o idx by auto
      then show ?thesis using V(5) [OF that] dis(2) by auto
    qed
    have "{idx ! 0 | c idx. (c, idx) \<in> set (y_flight y) \<and> vk_bdisk ?d c = 1} = {idx ! 0 | c idx. (c, idx) \<in> set (as @ bs) \<and> vk_bdisk ?d c = 1}"
      unfolding sp(1) using assms(3) by auto
    then show "set (queued ?y @ completed (y_disk ?y)) = {idx ! 0 | c idx. (c, idx) \<in> set (y_flight ?y) \<and> vk_bdisk (y_disk ?y) c = 1}"
      using V(7) q by simp
    show "distinct (map fst (y_flight ?y))" using V(1) unfolding sp(1) by simp
    show "distinct (queued ?y @ completed (y_disk ?y))" using V(6) q by simp
  qed (use dis(3) V(8,9) in simp_all)
  then show ?thesis unfolding r1 f by blast
qed

lemma heads_unique:
  assumes "vinv y" "(b, idx) \<in> set (y_flight y)" "(c, idx') \<in> set (y_flight y)" "idx ! 0 = idx' ! 0"
  shows "b = c" "idx = idx'"
proof -
  note V = vinvD [OF assms(1)]
  obtain i j k i' j' k' where e: "idx = [i, j, k]" "idx' = [i', j', k']" using V(2) assms(2,3) by (metis chain_three)
  then have "(b, idx) = (c, idx')" using assms(4) by (intro owned_unique [OF V(3) assms(2,3), of i]) auto
  then show "b = c" "idx = idx'" by auto
qed

lemma vinv_one_intr:
  assumes "vinv y" "vk_seen (y_disk y) \<noteq> vk_used_idx (y_disk y)" "h = vk_used_ring (y_disk y) ! (unat (vk_seen (y_disk y)) mod NUM)"
  obtains b where "vk_info_b (y_disk y) h = Some b"
    "completed (y_disk y) = h # completed ((y_disk y)\<lparr>vk_bdisk := (vk_bdisk (y_disk y))(b := 0), vk_seen := vk_seen (y_disk y) + 1\<rparr>)"
    "vinv (y\<lparr>y_disk := (y_disk y)\<lparr>vk_bdisk := (vk_bdisk (y_disk y))(b := 0), vk_seen := vk_seen (y_disk y) + 1\<rparr>\<rparr>)"
proof -
  note V = vinvD [OF assms(1)]
  let ?d = "y_disk y"
  have c: "completed ?d = h # ring_items (vk_used_ring ?d) (vk_seen ?d + 1) (vk_used_idx ?d)"
    using ring_pop [OF assms(2)] V(9) unfolding completed_def assms(3) by metis
  then have "h \<in> set (queued y @ completed ?d)" by simp
  then obtain b idx where b: "(b, idx) \<in> set (y_flight y)" "vk_bdisk ?d b = 1" "h = idx ! 0" unfolding V(7) by blast
  have ib: "vk_info_b ?d h = Some b" using V(2) [OF b(1)] b(3) by (auto elim: chain_three)
  let ?y = "y\<lparr>y_disk := ?d\<lparr>vk_bdisk := (vk_bdisk ?d)(b := 0), vk_seen := vk_seen ?d + 1\<rparr>\<rparr>"
  have q: "queued ?y = queued y" "completed ?d = h # completed (y_disk ?y)" using c by (simp_all add: queued_def completed_def)
  have "{i ! 0 | c i. (c, i) \<in> set (y_flight y) \<and> ((vk_bdisk ?d)(b := 0)) c = 1} =
      {i ! 0 | c i. (c, i) \<in> set (y_flight y) \<and> vk_bdisk ?d c = 1} - {h}" (is "?l = ?r")
  proof
    show "?l \<subseteq> ?r" using heads_unique [OF assms(1) b(1)] b(3) by (fastforce split: if_splits)
    show "?r \<subseteq> ?l"
    proof
      fix x assume "x \<in> ?r"
      then obtain c i where c: "x = i ! 0" "(c, i) \<in> set (y_flight y)" "vk_bdisk ?d c = 1" "x \<noteq> h" by blast
      then have "c \<noteq> b" using eq_key_imp_eq_value [OF V(1) b(1), of i] b(3) by auto
      then show "x \<in> ?l" using c by auto
    qed
  qed
  moreover have "set (queued ?y @ completed (y_disk ?y)) = set (queued y @ completed ?d) - {h}" using V(6) unfolding q by auto
  ultimately have s: "set (queued ?y @ completed (y_disk ?y)) = {i ! 0 | c i. (c, i) \<in> set (y_flight ?y) \<and> vk_bdisk (y_disk ?y) c = 1}"
    using V(7) by simp
  have "vinv ?y"
  proof (rule vinvI)
    show "chain_ok (y_disk ?y) r" if "r \<in> set (y_flight ?y)" for r
      by (rule chain_cong [of r _ ?d]) (use V(2) that in simp_all)
    show "distinct (queued ?y @ completed (y_disk ?y))" using V(6) unfolding q by simp
  qed (use V s in simp_all)
  moreover have "completed ?d = h # completed (?d\<lparr>vk_bdisk := (vk_bdisk ?d)(b := 0), vk_seen := vk_seen ?d + 1\<rparr>)" using q(2) by simp
  ultimately show ?thesis using that [OF ib] by blast
qed

definition intr_spec :: "vsys \<Rightarrow> (vdisk \<times> 'a proc_st_scheme) res \<Rightarrow> bool" where
  "intr_spec y out \<longleftrightarrow>
     (if \<forall>h\<in>set (completed (y_disk y)). vk_status (y_disk y) h = 0 then
        \<exists>d' s'. out = Ok (d', s') \<and> vinv (y\<lparr>y_disk := d'\<rparr>) \<and> completed d' = [] \<and> queued (y\<lparr>y_disk := d'\<rparr>) = queued y
      else out = Panic ''virtio_disk_intr status'')"

lemma intr_spec_cong:
  assumes "intr_spec (y\<lparr>y_disk := d\<rparr>) out" "queued (y\<lparr>y_disk := d\<rparr>) = queued y"
    "(\<forall>h\<in>set (completed d). vk_status d h = 0) \<longleftrightarrow> (\<forall>h\<in>set (completed (y_disk y)). vk_status (y_disk y) h = 0)"
  shows "intr_spec y out"
  using assms(1) unfolding intr_spec_def assms(2) by (auto simp: assms(3) split: if_splits)

lemma vinv_intr_loop: "vinv y \<Longrightarrow> intr_spec y (intr_loop (y_disk y) s)"
proof (induction "unat (vk_used_idx (y_disk y) - vk_seen (y_disk y))" arbitrary: y s)
  case 0
  then have "vk_seen (y_disk y) = vk_used_idx (y_disk y)" by (simp add: unat_eq_0)
  then show ?case using 0 by (simp add: intr_loop.simps completed_def ring_items_def intr_spec_def)
next
  case (Suc n)
  let ?d = "y_disk y" let ?h = "vk_used_ring ?d ! (unat (vk_seen ?d) mod NUM)"
  have ne: "vk_seen ?d \<noteq> vk_used_idx ?d" using Suc.hyps(2) by auto
  obtain b where b: "vk_info_b ?d ?h = Some b" "completed ?d = ?h # completed (?d\<lparr>vk_bdisk := (vk_bdisk ?d)(b := 0), vk_seen := vk_seen ?d + 1\<rparr>)"
    "vinv (y\<lparr>y_disk := ?d\<lparr>vk_bdisk := (vk_bdisk ?d)(b := 0), vk_seen := vk_seen ?d + 1\<rparr>\<rparr>)" (is "vinv ?y")
    using vinv_one_intr [OF Suc.prems ne refl] by blast
  show ?case
  proof (cases "vk_status ?d ?h = 0")
    case False
    then show ?thesis using ne b(2) by (subst intr_loop.simps) (simp add: Let_def intr_spec_def)
  next
    case True
    have "vk_used_idx ?d - vk_seen ?d \<noteq> 0" using ne by simp
    from unat_minus_one [OF this] have "n = unat (vk_used_idx (y_disk ?y) - vk_seen (y_disk ?y))"
      using Suc.hyps(2) by (simp add: diff_diff_eq)
    from Suc.hyps(1) [OF this b(3), of "wakeup (ChDiskBuf b) s"]
    have "intr_spec y (intr_loop (y_disk ?y) (wakeup (ChDiskBuf b) s))"
      by (rule intr_spec_cong) (use b(2) True in \<open>simp_all add: queued_def\<close>)
    moreover have "intr_loop ?d s = intr_loop (y_disk ?y) (wakeup (ChDiskBuf b) s)"
      by (subst intr_loop.simps) (simp add: ne b(1) True Let_def)
    ultimately show ?thesis by simp
  qed
qed

lemma wreg_same:
  "vk_desc (wreg r v d) = vk_desc d" "vk_free (wreg r v d) = vk_free d" "vk_info_b (wreg r v d) = vk_info_b d"
  "vk_bdisk (wreg r v d) = vk_bdisk d" "vk_status (wreg r v d) = vk_status d" "vk_seen (wreg r v d) = vk_seen d"
  "vk_avail_ring (wreg r v d) = vk_avail_ring d" "vk_avail_idx (wreg r v d) = vk_avail_idx d"
  "vk_used_ring (wreg r v d) = vk_used_ring d" "vk_used_idx (wreg r v d) = vk_used_idx d"
  by (simp_all add: wreg_def)

lemma chain_wreg: "chain_ok (wreg r v d) q = chain_ok d q"
  by (simp add: chain_ok_def wreg_same split: list.splits)

lemma vinv_wreg: "vinv (y\<lparr>y_disk := wreg r v (y_disk y)\<rparr>) = vinv y"
  by (simp add: vinv_def chain_wreg wreg_same Let_def) (simp add: queued_def completed_def wreg_same)

lemma vinv_intr:
  assumes "vinv y"
  shows "intr_spec y (virtio_disk_intr st (y_disk y) s)"
proof -
  let ?d = "wreg 0x064 (st AND 3) (y_disk y)"
  have "intr_spec (y\<lparr>y_disk := ?d\<rparr>) (intr_loop ?d s)"
    using vinv_intr_loop [of "y\<lparr>y_disk := ?d\<rparr>" s] assms by (simp add: vinv_wreg)
  then show ?thesis unfolding virtio_disk_intr_def
    by (rule intr_spec_cong) (simp_all add: queued_def completed_def wreg_same)
qed

lemma vinv_step: "vstep y z \<Longrightarrow> vinv y \<Longrightarrow> vinv z"
proof (induction rule: vstep.induct)
  case (vs_submit b y n w s idx d' s')
  show ?case
  proof (cases rule: rw_submit_spec [of b n w "y_disk y" s])
    case (2 i j k s1)
    then have "idx = [i, j, k]" "d' = notify i (format_request b n w i j k ((y_disk y)\<lparr>vk_free := (\<lambda>q. q \<notin> {i, j, k} \<and> vk_free (y_disk y) q)\<rparr>))"
      using vs_submit.hyps(2) by simp_all
    then show ?thesis using vinv_submit [OF vs_submit.prems vs_submit.hyps(1) 2(2,3), of n w] by (simp only:)
  qed (use vs_submit.hyps(2) in simp)
next
  case (vs_full b n w y s d' s')
  from vs_full.hyps have "d' = (y_disk y)\<lparr>vk_free := vk_free d', vk_desc := vk_desc d'\<rparr>" "vk_free d' = vk_free (y_disk y)"
    "\<And>i. \<not> vk_free (y_disk y) i \<Longrightarrow> vk_desc d' i = vk_desc (y_disk y) i"
    by (cases rule: rw_submit_spec [of b n w "y_disk y" s], simp_all)+
  then show ?case by (rule vinv_full [OF vs_full.prems])
next
  case (vs_finish b idx y s d' s')
  then have "vk_bdisk (y_disk y) b \<noteq> 1" by (auto simp: rw_finish_def)
  then show ?case using vinv_finish [OF vs_finish.prems vs_finish.hyps(1), of s] vs_finish.hyps(2) by auto
next
  case (vs_intr st y s d' s')
  then show ?case using vinv_intr [OF vs_intr.prems, of st s] by (auto simp: intr_spec_def split: if_splits)
qed (simp_all add: vinv_fetch vinv_done)

lemma vinv_reachable: "vstep\<^sup>*\<^sup>* y z \<Longrightarrow> vstart y \<Longrightarrow> vinv z"
  by (induction rule: rtranclp_induct) (auto simp: vinv_start vinv_step)

section \<open>No request is lost or finished early\<close>

lemma vinv_with_driver:
  assumes "vinv y" "(b, idx) \<in> set (y_flight y)"
  shows "vk_bdisk (y_disk y) b = 1 \<longleftrightarrow> idx ! 0 \<in> set (queued y @ completed (y_disk y))"
proof
  assume "idx ! 0 \<in> set (queued y @ completed (y_disk y))"
  then obtain c idx' where "(c, idx') \<in> set (y_flight y)" "vk_bdisk (y_disk y) c = 1" "idx ! 0 = idx' ! 0"
    unfolding vinvD(7) [OF assms(1)] by blast
  then show "vk_bdisk (y_disk y) b = 1" using heads_unique [OF assms] by blast
next
  assume "vk_bdisk (y_disk y) b = 1"
  then show "idx ! 0 \<in> set (queued y @ completed (y_disk y))" unfolding vinvD(7) [OF assms(1)] using assms(2) by blast
qed

text \<open>
  C11: In every state that the driver and the device reach together, requests in flight use disjoint descriptors and exactly
  those are taken, and handing over a request never panics. A request that the device has not completed still has its
  \<^verbatim>\<open>b->disk\<close> flag set, so its caller sleeps; a request whose flag is clear finishes without panic. The interrupt handler panics
  exactly when the device has reported an error in the status of a request it completed since the last interrupt; otherwise it
  returns and every completed request has its flag clear.
\<close>

theorem virtio_safe:
  assumes "vstart y" "vstep\<^sup>*\<^sup>* y z"
  shows "distinct (owned (y_flight z)) \<and> (\<forall>i<NUM. vk_free (y_disk z) i \<longleftrightarrow> i \<notin> set (owned (y_flight z))) \<and>
    (\<exists>out. rw_submit c n w (y_disk z) s = Ok out) \<and>
    (\<forall>(b, idx)\<in>set (y_flight z).
       (idx ! 0 \<in> set (queued z) \<longrightarrow> rw_finish b (idx ! 0) (y_disk z) s = Sleep (ChDiskBuf b)) \<and>
       (vk_bdisk (y_disk z) b \<noteq> 1 \<longrightarrow> (\<exists>out. rw_finish b (idx ! 0) (y_disk z) s = Ok out))) \<and>
    (if \<forall>h\<in>set (completed (y_disk z)). vk_status (y_disk z) h = 0 then
       \<exists>d' s'. virtio_disk_intr st (y_disk z) s = Ok (d', s') \<and>
         (\<forall>(b, idx)\<in>set (y_flight z). vk_bdisk d' b = 1 \<longleftrightarrow> idx ! 0 \<in> set (queued z))
     else virtio_disk_intr st (y_disk z) s = Panic ''virtio_disk_intr status'')"
proof -
  have v: "vinv z" using vinv_reachable assms by blast
  have "\<exists>out. rw_submit c n w (y_disk z) s = Ok out" by (rule rw_submit_spec [of c n w "y_disk z" s]) auto
  moreover have "(idx ! 0 \<in> set (queued z) \<longrightarrow> rw_finish b (idx ! 0) (y_disk z) s = Sleep (ChDiskBuf b)) \<and>
       (vk_bdisk (y_disk z) b \<noteq> 1 \<longrightarrow> (\<exists>out. rw_finish b (idx ! 0) (y_disk z) s = Ok out))" if "(b, idx) \<in> set (y_flight z)" for b idx
    using vinv_with_driver [OF v that] vinv_finish [OF v that, of s] by (auto simp: rw_finish_def)
  moreover have "vk_bdisk d' b = 1 \<longleftrightarrow> idx ! 0 \<in> set (queued z)"
    if "(b, idx) \<in> set (y_flight z)" "vinv (z\<lparr>y_disk := d'\<rparr>)" "completed d' = []" "queued (z\<lparr>y_disk := d'\<rparr>) = queued z" for b idx d'
    using vinv_with_driver [OF that(2), of b idx] that by simp
  moreover note vinv_intr [OF v, of st s, unfolded intr_spec_def]
  ultimately show ?thesis using vinvD(3,5) [OF v] by (cases "\<forall>h\<in>set (completed (y_disk z)). vk_status (y_disk z) h = 0") auto
qed

definition vdisk_boot :: vdisk where
  "vdisk_boot = \<lparr>vk_desc = (\<lambda>_. no_desc), vk_avail_idx = 0, vk_avail_ring = replicate NUM 0, vk_used_idx = 0, vk_used_ring = replicate NUM 0,
     vk_free = (\<lambda>_. True), vk_seen = 0, vk_info_b = (\<lambda>_. None), vk_status = (\<lambda>_. 0), vk_ops = (\<lambda>_. \<lparr>vr_type = 0, vr_reserved = 0, vr_sector = 0\<rparr>),
     vk_bdisk = (\<lambda>_. 0), vk_regs = []\<rparr>"

definition vsys_boot :: vsys where
  "vsys_boot = \<lparr>y_disk = vdisk_boot, y_flight = [], y_fetched = 0, y_pending = []\<rparr>"

text \<open>One read is under way: its caller sleeps. The device then fetches it and reports a failure.\<close>

definition vsys_busy :: vsys where
  "vsys_busy = \<lparr>y_disk = notify 0 (format_request 5 7 False 0 1 2 (vdisk_boot\<lparr>vk_free := (\<lambda>q. q \<notin> {0, 1, 2})\<rparr>)),
     y_flight = [(5, [0, 1, 2])], y_fetched = 0, y_pending = []\<rparr>"

definition vsys_failed :: vsys where
  "vsys_failed = vsys_busy\<lparr>y_disk := dev_done 0 1 (y_disk vsys_busy), y_fetched := 1\<rparr>"

lemma vsys_busy_step: "vstep vsys_boot vsys_busy"
proof -
  have u: "[0..<NUM] = [0, 1, 2, 3, 4, 5, 6, 7]" by (simp add: NUM_def upt_rec)
  let ?d = "\<lambda>f. vdisk_boot\<lparr>vk_free := f\<rparr>"
  have a: "alloc_desc vdisk_boot = (Some 0, ?d ((\<lambda>_. True)(0 := False)))"
    "alloc_desc (?d ((\<lambda>_. True)(0 := False))) = (Some 1, ?d ((\<lambda>_. True)(0 := False, 1 := False)))"
    "alloc_desc (?d ((\<lambda>_. True)(0 := False, 1 := False))) = (Some 2, ?d ((\<lambda>_. True)(0 := False, 1 := False, 2 := False)))"
    by (simp_all add: alloc_desc_def u vdisk_boot_def)
  have f: "(\<lambda>_. True)(0 := False, 1 := False, 2 := False) = (\<lambda>q. q \<notin> {0, 1, 2 :: nat})" by (auto simp: fun_eq_iff)
  have "alloc3_desc vdisk_boot s = Ok (Some [0, 1, 2], ?d ((\<lambda>_. True)(0 := False, 1 := False, 2 := False)), s)" for s :: proc_st
    unfolding alloc3_desc_def numeral_3_eq_3 by (simp add: a del: One_nat_def)
  then have "rw_submit 5 7 False (y_disk vsys_boot) s = Ok (RwSent [0, 1, 2] (y_disk vsys_busy, s))" for s :: proc_st
    unfolding f by (simp add: rw_submit_def vsys_boot_def vsys_busy_def)
  from vstep.vs_submit [OF _ this] show ?thesis by (simp add: vsys_boot_def vsys_busy_def)
qed

lemma vsys_failed_steps: "vstep\<^sup>*\<^sup>* vsys_boot vsys_failed"
proof -
  let ?f = "vsys_busy\<lparr>y_pending := [0], y_fetched := 1\<rparr>"
  have a: "vk_avail_idx (y_disk vsys_busy) = 1" "vk_avail_ring (y_disk vsys_busy) ! 0 = 0"
    by (simp_all add: vsys_busy_def notify_def format_request_def wreg_def Let_def vdisk_boot_def NUM_def)
  have "vstep vsys_busy ?f" using vstep.vs_fetch [of vsys_busy] a by (simp add: vsys_busy_def)
  moreover have "vstep ?f vsys_failed" using vstep.vs_done [of 0 ?f 1] by (simp add: vsys_failed_def vsys_busy_def)
  ultimately show ?thesis using vsys_busy_step by (meson rtranclp.rtrancl_into_rtrancl rtranclp.rtrancl_refl)
qed

theorem virtio_safe_witness:
  "vstart vsys_boot \<and> (\<forall>s :: proc_st. rw_finish 5 0 (y_disk vsys_busy) s = Sleep (ChDiskBuf 5) \<and>
     virtio_disk_intr 1 (y_disk vsys_failed) s = Panic ''virtio_disk_intr status'')"
proof (intro conjI allI)
  show b: "vstart vsys_boot" by (simp add: vstart_def vsys_boot_def vdisk_boot_def)
  fix s :: proc_st
  have "(5, [0, 1, 2]) \<in> set (y_flight vsys_busy)" "0 \<in> set (queued vsys_busy)"
    by (simp_all add: vsys_busy_def queued_def notify_def format_request_def wreg_def Let_def ring_items_def vdisk_boot_def NUM_def)
  then show "rw_finish 5 0 (y_disk vsys_busy) s = Sleep (ChDiskBuf 5)"
    using virtio_safe [OF b, of vsys_busy 0 0 True s 1] vsys_busy_step by fastforce
  have "completed (y_disk vsys_failed) = [0]" "vk_status (y_disk vsys_failed) 0 = 1"
    by (simp_all add: vsys_failed_def dev_done_def vsys_busy_def completed_def notify_def format_request_def wreg_def Let_def ring_items_def
        vdisk_boot_def NUM_def)
  then have "\<not> (\<forall>h\<in>set (completed (y_disk vsys_failed)). vk_status (y_disk vsys_failed) h = 0)" by simp
  then show "virtio_disk_intr 1 (y_disk vsys_failed) s = Panic ''virtio_disk_intr status''"
    using virtio_safe [OF b vsys_failed_steps, of 0 0 True s 1] by (simp split: if_splits)
qed

end
