(* ===== verification/Riscv.thy ===== *)
theory Riscv
  imports Machine
begin

text \<open>
  The machine below the kernel: the control and status registers behind the accessors of \<^verbatim>\<open>kernel/riscv.h\<close>, the interrupt
  controller (\<^verbatim>\<open>kernel/plic.c\<close>) and the switch from machine to supervisor mode at boot (\<^verbatim>\<open>kernel/start.c\<close>). The registers of
  one hart are a function from names to values; a store to a device register is recorded.
\<close>

unbundle bit_operations_syntax

section \<open>Registers\<close>

datatype csr = Mhartid | Mstatus | Mepc | Sstatus | Sip | Sie | Mie | Sepc | Medeleg | Mideleg | Stvec | Mtvec | Pmpcfg0 | Pmpaddr0 | Satp | Mscratch | Scause | Stval | Tp

type_synonym csrs = "csr \<Rightarrow> u64"

definition MSTATUS_MPP_MASK :: u64 where "MSTATUS_MPP_MASK = push_bit 11 3"
definition MSTATUS_MPP_S :: u64 where "MSTATUS_MPP_S = push_bit 11 1"
definition MSTATUS_MIE :: u64 where "MSTATUS_MIE = push_bit 3 1"
definition SSTATUS_SPP :: u64 where "SSTATUS_SPP = push_bit 8 1"
definition SSTATUS_SPIE :: u64 where "SSTATUS_SPIE = push_bit 5 1"
definition SSTATUS_SIE :: u64 where "SSTATUS_SIE = push_bit 1 1"
definition SIE_SEIE :: u64 where "SIE_SEIE = push_bit 9 1"
definition SIE_STIE :: u64 where "SIE_STIE = push_bit 5 1"
definition SIE_SSIE :: u64 where "SIE_SSIE = push_bit 1 1"
definition MIE_MTIE :: u64 where "MIE_MTIE = push_bit 7 1"
definition SATP_SV39 :: u64 where "SATP_SV39 = push_bit 60 8"

definition MAKE_SATP :: "u64 \<Rightarrow> u64" where
  "MAKE_SATP pagetable = SATP_SV39 OR drop_bit 12 pagetable"

definition r_mhartid :: "csrs \<Rightarrow> u64" where "r_mhartid c = c Mhartid"
definition r_mstatus :: "csrs \<Rightarrow> u64" where "r_mstatus c = c Mstatus"
definition w_mstatus :: "u64 \<Rightarrow> csrs \<Rightarrow> csrs" where "w_mstatus x c = c(Mstatus := x)"
definition w_mepc :: "u64 \<Rightarrow> csrs \<Rightarrow> csrs" where "w_mepc x c = c(Mepc := x)"
definition r_sstatus :: "csrs \<Rightarrow> u64" where "r_sstatus c = c Sstatus"
definition w_sstatus :: "u64 \<Rightarrow> csrs \<Rightarrow> csrs" where "w_sstatus x c = c(Sstatus := x)"
definition r_sip :: "csrs \<Rightarrow> u64" where "r_sip c = c Sip"
definition w_sip :: "u64 \<Rightarrow> csrs \<Rightarrow> csrs" where "w_sip x c = c(Sip := x)"
definition r_sie :: "csrs \<Rightarrow> u64" where "r_sie c = c Sie"
definition w_sie :: "u64 \<Rightarrow> csrs \<Rightarrow> csrs" where "w_sie x c = c(Sie := x)"
definition r_mie :: "csrs \<Rightarrow> u64" where "r_mie c = c Mie"
definition w_mie :: "u64 \<Rightarrow> csrs \<Rightarrow> csrs" where "w_mie x c = c(Mie := x)"
definition w_sepc :: "u64 \<Rightarrow> csrs \<Rightarrow> csrs" where "w_sepc x c = c(Sepc := x)"
definition r_sepc :: "csrs \<Rightarrow> u64" where "r_sepc c = c Sepc"
definition w_medeleg :: "u64 \<Rightarrow> csrs \<Rightarrow> csrs" where "w_medeleg x c = c(Medeleg := x)"
definition w_mideleg :: "u64 \<Rightarrow> csrs \<Rightarrow> csrs" where "w_mideleg x c = c(Mideleg := x)"
definition w_stvec :: "u64 \<Rightarrow> csrs \<Rightarrow> csrs" where "w_stvec x c = c(Stvec := x)"
definition w_mtvec :: "u64 \<Rightarrow> csrs \<Rightarrow> csrs" where "w_mtvec x c = c(Mtvec := x)"
definition w_pmpcfg0 :: "u64 \<Rightarrow> csrs \<Rightarrow> csrs" where "w_pmpcfg0 x c = c(Pmpcfg0 := x)"
definition w_pmpaddr0 :: "u64 \<Rightarrow> csrs \<Rightarrow> csrs" where "w_pmpaddr0 x c = c(Pmpaddr0 := x)"
definition w_satp :: "u64 \<Rightarrow> csrs \<Rightarrow> csrs" where "w_satp x c = c(Satp := x)"
definition r_satp :: "csrs \<Rightarrow> u64" where "r_satp c = c Satp"
definition w_mscratch :: "u64 \<Rightarrow> csrs \<Rightarrow> csrs" where "w_mscratch x c = c(Mscratch := x)"
definition r_scause :: "csrs \<Rightarrow> u64" where "r_scause c = c Scause"
definition r_stval :: "csrs \<Rightarrow> u64" where "r_stval c = c Stval"
definition r_tp :: "csrs \<Rightarrow> u64" where "r_tp c = c Tp"
definition w_tp :: "u64 \<Rightarrow> csrs \<Rightarrow> csrs" where "w_tp x c = c(Tp := x)"

definition intr_on :: "csrs \<Rightarrow> csrs" where
  "intr_on c = w_sstatus (r_sstatus c OR SSTATUS_SIE) c"

definition intr_off :: "csrs \<Rightarrow> csrs" where
  "intr_off c = w_sstatus (r_sstatus c AND NOT SSTATUS_SIE) c"

definition intr_get :: "csrs \<Rightarrow> bool" where
  "intr_get c \<longleftrightarrow> r_sstatus c AND SSTATUS_SIE \<noteq> 0"

section \<open>Boot\<close>

definition CLINT_MTIMECMP :: "u64 \<Rightarrow> u64" where
  "CLINT_MTIMECMP hartid = 0x2000000 + 0x4000 + 8 * hartid"

text \<open>
  The timer: \<open>mtime\<close> is what reading \<^verbatim>\<open>CLINT_MTIME\<close> gives, \<open>scratch\<close> the address of this hart's scratch area. The result has the
  stores made, to the timer and to entries 3 and 4 of the scratch area.
\<close>

definition timerinit :: "u64 \<Rightarrow> u64 \<Rightarrow> u64 \<Rightarrow> csrs \<Rightarrow> csrs \<times> (u64 \<times> u64) list" where
  "timerinit timervec mtime scratch c =
     (let id = r_mhartid c;
          interval = 1000000;
          st = [(CLINT_MTIMECMP id, mtime + interval), (scratch + 24, CLINT_MTIMECMP id), (scratch + 32, interval)];
          c = w_mscratch scratch c;
          c = w_mtvec timervec c;
          c = w_mstatus (r_mstatus c OR MSTATUS_MIE) c;
          c = w_mie (r_mie c OR MIE_MTIE) c
      in (c, st))"

text \<open>\<^verbatim>\<open>start\<close> up to its \<^verbatim>\<open>mret\<close>.\<close>

definition start :: "u64 \<Rightarrow> u64 \<Rightarrow> u64 \<Rightarrow> u64 \<Rightarrow> csrs \<Rightarrow> csrs \<times> (u64 \<times> u64) list" where
  "start main timervec mtime scratch c =
     (let x = r_mstatus c;
          x = x AND NOT MSTATUS_MPP_MASK;
          x = x OR MSTATUS_MPP_S;
          c = w_mstatus x c;
          c = w_mepc main c;
          c = w_satp 0 c;
          c = w_medeleg 0xffff c;
          c = w_mideleg 0xffff c;
          c = w_sie (r_sie c OR SIE_SEIE OR SIE_STIE OR SIE_SSIE) c;
          c = w_pmpaddr0 0x3fffffffffffff c;
          c = w_pmpcfg0 0xf c;
          (c, st) = timerinit timervec mtime scratch c;
          id = r_mhartid c;
          c = w_tp id c
      in (c, st))"

section \<open>The interrupt controller\<close>

definition UART0_IRQ :: u32 where "UART0_IRQ = 10"
definition VIRTIO0_IRQ :: u32 where "VIRTIO0_IRQ = 1"
definition PLIC :: u64 where "PLIC = 0x0c000000"
definition PLIC_SENABLE :: "u64 \<Rightarrow> u64" where "PLIC_SENABLE hart = PLIC + 0x2080 + hart * 0x100"
definition PLIC_SPRIORITY :: "u64 \<Rightarrow> u64" where "PLIC_SPRIORITY hart = PLIC + 0x201000 + hart * 0x2000"
definition PLIC_SCLAIM :: "u64 \<Rightarrow> u64" where "PLIC_SCLAIM hart = PLIC + 0x201004 + hart * 0x2000"

text \<open>\<open>io\<close> lists the stores to the controller, \<open>hart\<close> is \<^verbatim>\<open>cpuid()\<close>, \<open>dev\<close> what a load from the controller gives.\<close>

definition plicinit :: "(u64 \<times> u32) list \<Rightarrow> (u64 \<times> u32) list" where
  "plicinit io = io @ [(PLIC + ucast UART0_IRQ * 4, 1), (PLIC + ucast VIRTIO0_IRQ * 4, 1)]"

definition plicinithart :: "u64 \<Rightarrow> (u64 \<times> u32) list \<Rightarrow> (u64 \<times> u32) list" where
  "plicinithart hart io = io @ [(PLIC_SENABLE hart, push_bit (unat UART0_IRQ) 1 OR push_bit (unat VIRTIO0_IRQ) 1), (PLIC_SPRIORITY hart, 0)]"

definition plic_claim :: "(u64 \<Rightarrow> u32) \<Rightarrow> u64 \<Rightarrow> u32" where
  "plic_claim dev hart = dev (PLIC_SCLAIM hart)"

definition plic_complete :: "u32 \<Rightarrow> u64 \<Rightarrow> (u64 \<times> u32) list \<Rightarrow> (u64 \<times> u32) list" where
  "plic_complete irq hart io = io @ [(PLIC_SCLAIM hart, irq)]"

end
