(* ===== verification/Syscall.thy ===== *)
theory Syscall
  imports Fork Console Virtio Riscv
begin

text \<open>
  \<^verbatim>\<open>kernel/sysproc.c\<close> and the dispatcher of \<^verbatim>\<open>kernel/syscall.c\<close>, over the state of the whole kernel: memory, processes, buffers,
  log, inodes and open files, the console with its port, the disk, and the registers of the hart that runs. \<open>lsr\<close> is what the
  port's status register gives, \<open>junk\<close> what the kernel stack holds where a structure copied to the user is not written.
\<close>

section \<open>The kernel's state\<close>

record kern_st = file_st +
  k_cons :: cons
  k_uart :: uart
  k_vdisk :: vdisk
  k_csr :: csrs
  k_plic :: "(u64 \<times> u32) list"

text \<open>
  What becomes of a system call: it returns a value, waits on a channel, ends its process, or never returns. After a panic
  elsewhere a write to the port spins for ever; the model takes this as the panic.
\<close>

datatype 's sys_out = SRet u64 's | SWait chan 's | SExit 's | SNever

fun sys_of :: "'s pipe_out \<Rightarrow> 's sys_out" where
  "sys_of (PRet r s) = SRet (word_of_int r) s"
| "sys_of (PWait c k s) = SWait c s"

fun pipe_of :: "('c \<Rightarrow> 's \<Rightarrow> 's) \<Rightarrow> ('c \<times> 's) con_out \<Rightarrow> 's pipe_out res" where
  "pipe_of put (CRet r (c, s)) = Ok (PRet r (put c s))"
| "pipe_of put (CWait ch k (c, s)) = Ok (PWait ch k (put c s))"
| "pipe_of put CFrozen = Panic ''panicked''"

definition CONSOLE :: i16 where "CONSOLE = 1"

definition console_read :: "kdst \<Rightarrow> i32 \<Rightarrow> 'a kern_st_scheme \<Rightarrow> 'a kern_st_scheme pipe_out res" where
  "console_read dst n s = rbind (consoleread dst n (k_cons s) s) (pipe_of (\<lambda>c s. s\<lparr>k_cons := c\<rparr>))"

definition console_write :: "(nat \<Rightarrow> u8) \<Rightarrow> ksrc \<Rightarrow> i32 \<Rightarrow> 'a kern_st_scheme \<Rightarrow> 'a kern_st_scheme pipe_out res" where
  "console_write lsr src n s = rbind (consolewrite lsr src n (k_uart s) s) (pipe_of (\<lambda>u s. s\<lparr>k_uart := u\<rparr>))"

text \<open>The device table after \<^verbatim>\<open>consoleinit\<close>.\<close>

definition consoleinit :: "(nat \<Rightarrow> u8) \<Rightarrow> 'a kern_st_scheme \<Rightarrow> (i16 \<Rightarrow> ('a kern_st_scheme) devsw) \<times> 'a kern_st_scheme" where
  "consoleinit lsr s =
     ((\<lambda>_. \<lparr>dev_read = None, dev_write = None\<rparr>)(CONSOLE := \<lparr>dev_read = Some console_read, dev_write = Some (console_write lsr)\<rparr>),
      s\<lparr>k_uart := uartinit (k_uart s)\<rparr>)"

text \<open>Printing on the console; with too few arguments or a stuck port there is no result.\<close>

definition print_on :: "(nat \<Rightarrow> u8) \<Rightarrow> u8 list option \<Rightarrow> 'a kern_st_scheme \<Rightarrow> 'a kern_st_scheme option" where
  "print_on lsr out s = Option.bind out (\<lambda>bs. map_option (\<lambda>u. s\<lparr>k_uart := u\<rparr>) (consputs lsr (map uint bs) (k_uart s)))"

section \<open>Processes\<close>

definition sys_exit :: "'a file_st_scheme \<Rightarrow> 'a file_st_scheme sys_out res" where
  "sys_exit s = rbind (argint 0 s) (\<lambda>n. rbind (exit n s) (\<lambda>s. Ok (SExit s)))"

definition sys_getpid :: "'a proc_st_scheme \<Rightarrow> 'a proc_st_scheme sys_out res" where
  "sys_getpid s = with_proc s (\<lambda>p. Ok (SRet (scast (p_pid (procs s ! p))) s))"

definition sys_fork :: "'a file_st_scheme \<Rightarrow> 'a file_st_scheme sys_out res" where
  "sys_fork s = rbind (fork s) (\<lambda>(pid, s). Ok (SRet (scast pid) s))"

definition sys_wait :: "'a proc_st_scheme \<Rightarrow> 'a proc_st_scheme sys_out res" where
  "sys_wait s = rbind (argaddr 0 s) (\<lambda>p. rbind (wait_round p s) (\<lambda>(pid, s). Ok (SRet (scast pid) s)))"

definition sys_sbrk :: "'a proc_st_scheme \<Rightarrow> 'a proc_st_scheme sys_out res" where
  "sys_sbrk s =
     rbind (argint 0 s) (\<lambda>n. with_proc s (\<lambda>p.
     let addr = p_sz (procs s ! p) in
     rbind (growproc n s) (\<lambda>(r, s). Ok (SRet (if r < 0 then -1 else addr) s))))"

text \<open>
  One round of the loop of \<^verbatim>\<open>sys_sleep\<close>, run again at every wake-up. \<^verbatim>\<open>ticks - ticks0\<close> is unsigned, so \<^verbatim>\<open>n\<close> is compared as
  an unsigned number too.
\<close>

definition sleep_round :: "u32 \<Rightarrow> i32 \<Rightarrow> 'a proc_st_scheme \<Rightarrow> 'a proc_st_scheme sys_out res" where
  "sleep_round ticks0 n s =
     (if ticks s - ticks0 < n then with_proc s (\<lambda>p. Ok (if killed p s \<noteq> 0 then SRet (-1) s else SWait ChTicks s))
      else Ok (SRet 0 s))"

definition sys_sleep :: "'a proc_st_scheme \<Rightarrow> 'a proc_st_scheme sys_out res" where
  "sys_sleep s = rbind (argint 0 s) (\<lambda>n. sleep_round (ticks s) n s)"

definition sys_kill :: "'a proc_st_scheme \<Rightarrow> 'a proc_st_scheme sys_out res" where
  "sys_kill s = rbind (argint 0 s) (\<lambda>pid. case kill pid s of (r, s) \<Rightarrow> Ok (SRet (word_of_int r) s))"

definition sys_uptime :: "'a proc_st_scheme \<Rightarrow> 'a proc_st_scheme sys_out res" where
  "sys_uptime s = Ok (SRet (ucast (ticks s)) s)"

text \<open>The test \<^verbatim>\<open>info<0\<close> of the next two is on an unsigned value and never true.\<close>

definition sys_sysinfo :: "u8 list \<Rightarrow> 'a proc_st_scheme \<Rightarrow> 'a proc_st_scheme sys_out res" where
  "sys_sysinfo junk s =
     rbind (argaddr 0 s) (\<lambda>info.
     case sysinfo (take 6 junk) info s of
       None \<Rightarrow> Ok SNever
     | Some x \<Rightarrow> rbind x (\<lambda>(r, s). Ok (SRet (word_of_int r) s)))"

definition sys_procinfo :: "u8 list \<Rightarrow> 'a proc_st_scheme \<Rightarrow> 'a proc_st_scheme sys_out res" where
  "sys_procinfo junk s =
     rbind (argint 1 s) (\<lambda>pid.
     rbind (argaddr 0 s) (\<lambda>info.
     rbind (procinfo (take 16 junk) info pid s) (\<lambda>(r, s). Ok (SRet (word_of_int r) s))))"

definition sys_proctick :: "'a proc_st_scheme \<Rightarrow> 'a proc_st_scheme sys_out res" where
  "sys_proctick s = rbind (argint 0 s) (\<lambda>pid. case proctick pid s of (r, s) \<Rightarrow> Ok (SRet (scast r) s))"

definition sys_changeScheduler :: "(nat \<Rightarrow> u8) \<Rightarrow> 'a kern_st_scheme \<Rightarrow> 'a kern_st_scheme sys_out res" where
  "sys_changeScheduler lsr s =
     rbind (argint 0 s) (\<lambda>pid.
     rbind (argstr 1 MAXARG s) (\<lambda>(n, scheduler_name).
     if n < 0 then Ok (SRet (-1) s)
     else case changeScheduler pid scheduler_name s of (r, s) \<Rightarrow>
       if r = 0 then
         (case print_on lsr (printf_loop (bytes_of ''ERROR : process not found !'' @ [10]) []) s of
            None \<Rightarrow> Ok SNever
          | Some s \<Rightarrow> Ok (SRet (word_of_int r) s))
       else Ok (SRet (word_of_int r) s)))"

definition sys_history :: "(nat \<Rightarrow> u8) \<Rightarrow> 'a kern_st_scheme \<Rightarrow> 'a kern_st_scheme sys_out res" where
  "sys_history lsr s =
     rbind (argint 0 s) (\<lambda>historyId.
     case history historyId (k_cons s) of (r, out) \<Rightarrow>
       (case print_on lsr out s of None \<Rightarrow> Ok SNever | Some s \<Rightarrow> Ok (SRet (word_of_int r) s)))"

section \<open>The dispatcher\<close>

definition pipe_sys :: "'s pipe_out res \<Rightarrow> 's sys_out res" where
  "pipe_sys x = rbind x (\<lambda>out. Ok (sys_of out))"

text \<open>The table \<^verbatim>\<open>syscalls\<close>, by the numbers of \<^verbatim>\<open>syscall.h\<close>; entry 0 is null.\<close>

definition syscalls ::
    "(nat \<Rightarrow> u8) \<Rightarrow> u8 list \<Rightarrow> (i16 \<Rightarrow> ('a kern_st_scheme) devsw) \<Rightarrow> ('a kern_st_scheme \<Rightarrow> ('a kern_st_scheme) sys_out res) option list" where
  "syscalls lsr junk devsw = [None,
     Some sys_fork,
     Some sys_exit,
     Some sys_wait,
     Some (\<lambda>s. pipe_sys (sys_pipe s)),
     Some (\<lambda>s. pipe_sys (sys_read devsw s)),
     Some sys_kill,
     Some (\<lambda>s. pipe_sys (sys_exec s)),
     Some (\<lambda>s. pipe_sys (sys_fstat junk s)),
     Some (\<lambda>s. pipe_sys (sys_chdir s)),
     Some (\<lambda>s. pipe_sys (sys_dup s)),
     Some sys_getpid,
     Some sys_sbrk,
     Some sys_sleep,
     Some sys_uptime,
     Some (\<lambda>s. pipe_sys (sys_open s)),
     Some (\<lambda>s. pipe_sys (sys_write devsw s)),
     Some (\<lambda>s. pipe_sys (sys_mknod s)),
     Some (\<lambda>s. pipe_sys (sys_unlink s)),
     Some (\<lambda>s. pipe_sys (sys_link s)),
     Some (\<lambda>s. pipe_sys (sys_mkdir s)),
     Some (\<lambda>s. pipe_sys (sys_close s)),
     Some (sys_sysinfo junk),
     Some sys_proctick,
     Some (sys_procinfo junk),
     Some (sys_changeScheduler lsr),
     Some (sys_history lsr)]"

text \<open>The value goes to the caller's \<^verbatim>\<open>a0\<close>.\<close>

fun store_ret :: "nat \<Rightarrow> ('a proc_st_scheme) sys_out \<Rightarrow> ('a proc_st_scheme) sys_out" where
  "store_ret p (SRet v s) = SRet v (tf_set p TF_a0 v s)"
| "store_ret p out = out"

definition syscall ::
    "(nat \<Rightarrow> u8) \<Rightarrow> u8 list \<Rightarrow> (i16 \<Rightarrow> ('a kern_st_scheme) devsw) \<Rightarrow> 'a kern_st_scheme \<Rightarrow> ('a kern_st_scheme) sys_out res" where
  "syscall lsr junk devsw s = with_proc s (\<lambda>p.
     let num = sint (ucast (tf_get s p TF_a7) :: i32); tab = syscalls lsr junk devsw in
     case (if num > 0 \<and> num < int (length tab) then tab ! nat num else None) of
       Some f \<Rightarrow> rbind (f s) (\<lambda>out. Ok (store_ret p out))
     | None \<Rightarrow>
         (case print_on lsr (printf_loop (bytes_of ''%d %s: unknown sys call %d'' @ [10])
              [Word (ucast (p_pid (procs s ! p))), Str (p_name (procs s ! p)), Word (word_of_int num)]) s of
            None \<Rightarrow> Ok SNever
          | Some s \<Rightarrow> Ok (store_ret p (SRet (-1) s))))"

end
