(* ===== verification/Trap.thy ===== *)
theory Trap
  imports Syscall
begin

text \<open>
  \<^verbatim>\<open>kernel/trap.c\<close>: the entry into the kernel from user space with the copy-on-write page fault, the return to user space, traps
  taken inside the kernel, and device interrupts. What lies outside the kernel is collected in a record: the values that device
  registers give, the contents of unwritten stack memory, the device table, and addresses fixed by the linker.
\<close>

section \<open>Surroundings\<close>

record 's kenv =
  ke_lsr :: "nat \<Rightarrow> u8"
  ke_rhr :: "nat \<Rightarrow> u8"
  ke_plic :: "u64 \<Rightarrow> u32"
  ke_vstatus :: u32
  ke_junk :: "u8 list"
  ke_devsw :: "i16 \<Rightarrow> 's devsw"
  ke_kernelvec :: u64
  ke_uservec :: u64
  ke_usertrap :: u64
  ke_userret :: u64
  ke_resched :: "nat \<Rightarrow> 's \<Rightarrow> 's"   \<comment> \<open>what happens until a process that gave up the hart runs again\<close>

text \<open>
  Where a trap from user space ends: back in user space at \<^verbatim>\<open>userret\<close> with the page table to load, waiting, with the process
  gone, or nowhere.
\<close>

datatype 's trap_out = TUser u64 u64 's | TWait chan 's | TGone 's | TNever

definition on_csr :: "(csrs \<Rightarrow> csrs) \<Rightarrow> 'a kern_st_scheme \<Rightarrow> 'a kern_st_scheme" where
  "on_csr f s = s\<lparr>k_csr := f (k_csr s)\<rparr>"

definition set_intr :: "bool \<Rightarrow> 'a kern_st_scheme \<Rightarrow> 'a kern_st_scheme" where
  "set_intr b s = (on_csr (if b then intr_on else intr_off) s)\<lparr>intr := b\<rparr>"

definition trapinithart :: "('a kern_st_scheme) kenv \<Rightarrow> 'a kern_st_scheme \<Rightarrow> 'a kern_st_scheme" where
  "trapinithart e s = on_csr (w_stvec (ke_kernelvec e)) s"

definition yield_hart :: "('a kern_st_scheme) kenv \<Rightarrow> nat \<Rightarrow> 'a kern_st_scheme \<Rightarrow> 'a kern_st_scheme" where
  "yield_hart e p s = ke_resched e p (upd_proc p (\<lambda>q. q\<lparr>p_state := RUNNABLE\<rparr>) s)"

section \<open>Interrupts\<close>

definition console_char ::
    "('a kern_st_scheme) kenv \<Rightarrow> int \<Rightarrow> uart \<Rightarrow> 'a kern_st_scheme \<Rightarrow> (uart \<times> 'a kern_st_scheme) option" where
  "console_char e c u s = map_option (\<lambda>(cs, u, s). (u, s\<lparr>k_cons := cs\<rparr>)) (consoleintr (ke_lsr e) c (k_cons s) u s)"

text \<open>The result is \<^verbatim>\<open>None\<close> when a handler never returns.\<close>

definition external_intr :: "('a kern_st_scheme) kenv \<Rightarrow> u32 \<Rightarrow> 'a kern_st_scheme \<Rightarrow> 'a kern_st_scheme option res" where
  "external_intr e irq s =
     (if irq = UART0_IRQ then
        Ok (map_option (\<lambda>(u, s). s\<lparr>k_uart := u\<rparr>) (uartintr (ke_lsr e) (ke_rhr e) (console_char e) (k_uart s) s))
      else if irq = VIRTIO0_IRQ then
        rbind (virtio_disk_intr (ke_vstatus e) (k_vdisk s) s) (\<lambda>(d, s). Ok (Some (s\<lparr>k_vdisk := d\<rparr>)))
      else if irq \<noteq> 0 then
        Ok (print_on (ke_lsr e) (printf_loop (bytes_of ''unexpected interrupt irq=%d'' @ [10]) [Word (ucast irq)]) s)
      else Ok (Some s))"

definition devintr :: "('a kern_st_scheme) kenv \<Rightarrow> 'a kern_st_scheme \<Rightarrow> (nat \<times> 'a kern_st_scheme) option res" where
  "devintr e s =
     (let scause = r_scause (k_csr s); hart = r_tp (k_csr s) in
      if scause AND 0x8000000000000000 \<noteq> 0 \<and> scause AND 0xff = 9 then
        let irq = plic_claim (ke_plic e) hart in
        rbind (external_intr e irq s) (\<lambda>out. Ok (map_option (\<lambda>s.
          (1, if irq \<noteq> 0 then s\<lparr>k_plic := plic_complete irq hart (k_plic s)\<rparr> else s)) out))
      else if scause = 0x8000000000000001 then
        let s = (if hart = 0 then clockintr s else s) in
        Ok (Some (2, on_csr (\<lambda>c. w_sip (r_sip c AND NOT 2) c) s))
      else Ok (Some (0, s)))"

section \<open>The copy-on-write fault\<close>

text \<open>
  The branch of \<^verbatim>\<open>usertrap\<close> for store faults (\<^verbatim>\<open>scause\<close> 15) of process \<open>p\<close> at address \<open>stval\<close>. A null \<^verbatim>\<open>pte\<close> is followed, and so
  is a null page from \<^verbatim>\<open>kalloc\<close>; both fault in the kernel.
\<close>

definition cow_fault :: "u64 \<Rightarrow> nat \<Rightarrow> 'a proc_st_scheme \<Rightarrow> 'a proc_st_scheme res" where
  "cow_fault stval p s =
     (let start_va = PGROUNDDOWN stval; pt = p_pagetable (procs s ! p) in
      rbind (walk pt start_va False s) (\<lambda>(pte, s).
      if pte = 0 then Panic ''kerneltrap''
      else
        let e = ld64 (pmem s) pte in
        if e AND PTE_V \<noteq> 0 \<and> e AND PTE_U \<noteq> 0 \<and> e AND PTE_COW \<noteq> 0 then
          let flags = (PTE_FLAGS e OR PTE_W) AND NOT PTE_COW;
              (mem, s) = kalloc s;
              pa = PTE2PA e in
          if mem = 0 then Panic ''kerneltrap''
          else
            let s = s\<lparr>pmem := memmove (pmem s) mem pa 4096\<rparr>;
                s = s\<lparr>pmem := st64 (pmem s) pte 0\<rparr>;
                s = deckref pa s in
            rbind (mappages pt start_va PGSIZE mem flags s) (\<lambda>(r, s).
            let s = (if r \<noteq> 0 then upd_proc p (\<lambda>q. q\<lparr>p_killed := 1\<rparr>) s else s) in
            Ok (inckref mem s))
        else Ok s))"

section \<open>To user space and back\<close>

definition usertrapret :: "('a kern_st_scheme) kenv \<Rightarrow> 'a kern_st_scheme \<Rightarrow> 'a kern_st_scheme trap_out res" where
  "usertrapret e s = with_proc s (\<lambda>p.
     let s = set_intr False s;
         trampoline_uservec = TRAMPOLINE + (ke_uservec e - trampoline s);
         s = on_csr (w_stvec trampoline_uservec) s;
         s = tf_set p 0 (r_satp (k_csr s)) s;
         s = tf_set p 8 (p_kstack (procs s ! p) + PGSIZE) s;
         s = tf_set p 16 (ke_usertrap e) s;
         s = tf_set p 32 (r_tp (k_csr s)) s;
         x = r_sstatus (k_csr s);
         x = x AND NOT SSTATUS_SPP;
         x = x OR SSTATUS_SPIE;
         s = on_csr (w_sstatus x) s;
         s = on_csr (w_sepc (tf_get s p TF_epc)) s;
         satp = MAKE_SATP (p_pagetable (procs s ! p));
         trampoline_userret = TRAMPOLINE + (ke_userret e - trampoline s) in
     Ok (TUser trampoline_userret satp s))"

definition exit_trap :: "'a file_st_scheme \<Rightarrow> 'a file_st_scheme trap_out res" where
  "exit_trap s = rbind (exit (-1) s) (\<lambda>s. Ok (TGone s))"

text \<open>The end of \<^verbatim>\<open>usertrap\<close>: a killed process exits, a timer tick gives up the hart.\<close>

definition usertrap_end :: "('a kern_st_scheme) kenv \<Rightarrow> nat \<Rightarrow> nat \<Rightarrow> 'a kern_st_scheme \<Rightarrow> 'a kern_st_scheme trap_out res" where
  "usertrap_end e which_dev p s =
     (if killed p s \<noteq> 0 then exit_trap s
      else usertrapret e (if which_dev = 2 then yield_hart e p s else s))"

definition usertrap :: "('a kern_st_scheme) kenv \<Rightarrow> 'a kern_st_scheme \<Rightarrow> 'a kern_st_scheme trap_out res" where
  "usertrap e s =
     (if r_sstatus (k_csr s) AND SSTATUS_SPP \<noteq> 0 then Panic ''usertrap: not from user mode''
      else
        let s = on_csr (w_stvec (ke_kernelvec e)) s in
        with_proc s (\<lambda>p.
        let s = tf_set p TF_epc (r_sepc (k_csr s)) s in
        if r_scause (k_csr s) = 8 then
          if killed p s \<noteq> 0 then exit_trap s
          else
            let s = tf_set p TF_epc (tf_get s p TF_epc + 4) s;
                s = set_intr True s in
            rbind (syscall (ke_lsr e) (ke_junk e) (ke_devsw e) s) (\<lambda>out.
            case out of
              SRet v s \<Rightarrow> usertrap_end e 0 p s
            | SWait c s \<Rightarrow> Ok (TWait c s)
            | SExit s \<Rightarrow> Ok (TGone s)
            | SNever \<Rightarrow> Ok TNever)
        else if r_scause (k_csr s) = 15 then rbind (cow_fault (r_stval (k_csr s)) p s) (usertrap_end e 0 p)
        else
          rbind (devintr e s) (\<lambda>out.
          case out of
            None \<Rightarrow> Ok TNever
          | Some (which_dev, s) \<Rightarrow>
              if which_dev \<noteq> 0 then usertrap_end e which_dev p s
              else
                (case Option.bind
                   (print_on (ke_lsr e) (printf_loop (bytes_of ''usertrap(): unexpected scause %p pid=%d'' @ [10])
                      [Word (r_scause (k_csr s)), Word (ucast (p_pid (procs s ! p)))]) s)
                   (print_on (ke_lsr e) (printf_loop (bytes_of ''sepc=%p stval=%p'' @ [10])
                      [Word (r_sepc (k_csr s)), Word (r_stval (k_csr s))])) of
                   None \<Rightarrow> Ok TNever
                 | Some s \<Rightarrow> usertrap_end e 0 p (setkilled p s)))))"

section \<open>Traps in the kernel\<close>

text \<open>What the handler prints before a panic is left out.\<close>

definition kerneltrap :: "('a kern_st_scheme) kenv \<Rightarrow> 'a kern_st_scheme \<Rightarrow> 'a kern_st_scheme option res" where
  "kerneltrap e s =
     (let sepc = r_sepc (k_csr s); sstatus = r_sstatus (k_csr s) in
      if sstatus AND SSTATUS_SPP = 0 then Panic ''kerneltrap: not from supervisor mode''
      else if intr_get (k_csr s) then Panic ''kerneltrap: interrupts enabled''
      else
        rbind (devintr e s) (\<lambda>out.
        case out of
          None \<Rightarrow> Ok None
        | Some (which_dev, s) \<Rightarrow>
            if which_dev = 0 then Panic ''kerneltrap''
            else
              let s = (case myproc s of
                         Some p \<Rightarrow> if which_dev = 2 \<and> p_state (procs s ! p) = RUNNING then yield_hart e p s else s
                       | None \<Rightarrow> s)
              in Ok (Some (on_csr (\<lambda>c. w_sstatus sstatus (w_sepc sepc c)) s))))"

section \<open>The serial interrupt\<close>

text \<open>
  The interrupt of the serial port, with the console as its handler, is a sequence of steps of \<open>uart_run\<close>, so the properties of
  runs of the driver hold for the kernel's own interrupts.
\<close>

lemma console_char_runs: "handler_runs (ke_lsr e) rhr u0 s0 bs (console_char e)"
  unfolding handler_runs_def
proof (intro allI impI)
  fix c es u s u' s'
  assume r: "uart_run (ke_lsr e) rhr u0 s0 bs es u s" and c: "console_char e c u s = Some (u', s')"
  then obtain cs t where "consoleintr (ke_lsr e) c (k_cons s) u s = Some (cs, u', t)" by (auto simp: console_char_def)
  then obtain es' where "uart_run (ke_lsr e) rhr u0 s0 bs (es @ es') u' s"
    using uart_run_echoes [OF r] consoleintr_echoes by blast
  from uart_run.other [OF this, of "panicked u'"] show "\<exists>es'. uart_run (ke_lsr e) rhr u0 s0 bs (es @ es') u' s'" by auto
qed

lemma external_intr_runs:
  assumes "external_intr e UART0_IRQ s = Ok (Some s')" "uart_run (ke_lsr e) (ke_rhr e) u0 s0 bs es (k_uart s) s"
  shows "\<exists>es' t. uart_run (ke_lsr e) (ke_rhr e) u0 s0 bs (es @ es') (k_uart s') t"
proof -
  obtain u t where "uartintr (ke_lsr e) (ke_rhr e) (console_char e) (k_uart s) s = Some (u, t)" "s' = t\<lparr>k_uart := u\<rparr>"
    using assms(1) by (auto simp: external_intr_def)
  then show ?thesis using uartintr_run [OF _ console_char_runs assms(2)] by auto
qed

end
