(* ===== verification/Cow.thy ===== *)
theory Cow
  imports UserSpace
begin

text \<open>
  Copy-on-write fork: the effect of \<^verbatim>\<open>uvmcopy\<close> of \<^verbatim>\<open>kernel/vm.c\<close> on both address spaces and on
  the reference counts, on success and on the path that runs out of memory and undoes its work.
\<close>

definition cow_flags :: "u64 \<Rightarrow> u64" where
  "cow_flags e = (PTE_FLAGS e OR PTE_COW) AND NOT PTE_W"

lemma bit_flags_int:
  "bit (2::int) n \<longleftrightarrow> n = 1" "bit (4::int) n \<longleftrightarrow> n = 2" "bit (8::int) n \<longleftrightarrow> n = 3"
  "bit (16::int) n \<longleftrightarrow> n = 4" "bit (32::int) n \<longleftrightarrow> n = 5"
  using bit_exp_iff [of 1 n, where ?'a = int] bit_exp_iff [of 2 n, where ?'a = int]
    bit_exp_iff [of 3 n, where ?'a = int] bit_exp_iff [of 4 n, where ?'a = int]
    bit_exp_iff [of 5 n, where ?'a = int]
  by simp_all

lemma cow_flags_bound: "cow_flags e < 1024"
proof -
  have "cow_flags e = cow_flags e AND 1023"
    by (rule bit_eqI) (auto simp: cow_flags_def PTE_FLAGS_def bit_simps bit_masks_int bit_flags_int)
  also have "\<dots> \<le> 1023" by (rule word_and_le1)
  finally show ?thesis by (simp add: word_less_nat_alt word_le_nat_alt)
qed

lemma cow_pte_leaf: "leaf_pte (pte_of pa (cow_flags e))"
proof -
  have "bit (cow_flags e OR 1) 5" by (simp add: cow_flags_def bit_simps bit_flags_int)
  moreover have "\<not> bit (1::u64) 5" by (simp add: bit_1_iff)
  ultimately have "cow_flags e OR 1 \<noteq> (1::u64)" by metis
  then show ?thesis by (simp add: leaf_pte_def PTE_FLAGS_pte_of [OF cow_flags_bound])
qed

text \<open>
  State of the loop with \<open>k\<close> pages mapped and \<open>j\<close> of them counted, relative to the state \<open>s0\<close> before the call.
\<close>

definition copied :: "'a kmem_st_scheme \<Rightarrow> 'a kmem_st_scheme \<Rightarrow> u64 \<Rightarrow> u64 \<Rightarrow> nat \<Rightarrow> nat \<Rightarrow> bool" where
  "copied s0 s old new k j \<longleftrightarrow> pt_inv 2 s old \<and> pt_inv 2 s new \<and>
     kend s = kend s0 \<and> kmem_st.more s = kmem_st.more s0 \<and>
     tabs 2 (pmem s) old = tabs 2 (pmem s0) old \<and> tabs 2 (pmem s) old \<inter> tabs 2 (pmem s) new = {} \<and>
     tabs 2 (pmem s0) new \<subseteq> tabs 2 (pmem s) new \<and>
     (\<forall>x\<in>tabs 2 (pmem s) new - tabs 2 (pmem s0) new. refcnt s0 x = 0) \<and>
     (\<forall>va. pte_val 2 (pmem s) old va = pte_val 2 (pmem s0) old va) \<and>
     (\<forall>va. page_aligned va \<longrightarrow> va < MAXVA \<longrightarrow> pte_val 2 (pmem s) new va =
        (if in_rng 0 k va then pte_of (PTE2PA (pte_val 2 (pmem s0) old va)) (cow_flags (pte_val 2 (pmem s0) old va))
         else pte_val 2 (pmem s0) new va)) \<and>
     (\<forall>x. 0 < refcnt s0 x \<longrightarrow> refcnt s x = refcnt s0 x + count_list (frames s0 old 0 j) x) \<and>
     (\<forall>x a. 0 < refcnt s0 x \<longrightarrow> x \<notin> tabs 2 (pmem s0) new \<longrightarrow> in_page x a \<longrightarrow> pmem s a = pmem s0 a)"

lemma copiedD:
  assumes "copied s0 s old new k j"
  shows "pt_inv 2 s old" "pt_inv 2 s new" "kend s = kend s0" "kmem_st.more s = kmem_st.more s0"
    "tabs 2 (pmem s) old = tabs 2 (pmem s0) old" "tabs 2 (pmem s) old \<inter> tabs 2 (pmem s) new = {}"
    "tabs 2 (pmem s0) new \<subseteq> tabs 2 (pmem s) new"
    "x \<in> tabs 2 (pmem s) new \<Longrightarrow> x \<notin> tabs 2 (pmem s0) new \<Longrightarrow> refcnt s0 x = 0"
    "pte_val 2 (pmem s) old va = pte_val 2 (pmem s0) old va"
    "page_aligned va \<Longrightarrow> va < MAXVA \<Longrightarrow> pte_val 2 (pmem s) new va =
        (if in_rng 0 k va then pte_of (PTE2PA (pte_val 2 (pmem s0) old va)) (cow_flags (pte_val 2 (pmem s0) old va))
         else pte_val 2 (pmem s0) new va)"
    "0 < refcnt s0 x \<Longrightarrow> refcnt s x = refcnt s0 x + count_list (frames s0 old 0 j) x"
    "0 < refcnt s0 x \<Longrightarrow> x \<notin> tabs 2 (pmem s0) new \<Longrightarrow> in_page x a \<Longrightarrow> pmem s a = pmem s0 a"
  using assms unfolding copied_def by blast+

lemma inckref_pt_inv:
  assumes "pt_inv 2 s pt" and "0 < refcnt s pa" and "refcnt s pa < 2 ^ 64 - 1"
  shows "pt_inv 2 (inckref pa s) pt" "pmem (inckref pa s) = pmem s" "kend (inckref pa s) = kend s"
    "kmem_st.more (inckref pa s) = kmem_st.more s"
    "refcnt (inckref pa s) = (refcnt s)(pa := refcnt s pa + 1)"
proof -
  show m: "pmem (inckref pa s) = pmem s" "kend (inckref pa s) = kend s"
    "kmem_st.more (inckref pa s) = kmem_st.more s" by (simp_all add: inckref_def)
  obtain xs where "kmem_wf s xs" using assms(1) by (auto simp: pt_inv_def kmem_inv_def)
  note I = inckref_wf [OF this refcnt_managed [OF assms(2)] assms(2,3)]
  show r: "refcnt (inckref pa s) = (refcnt s)(pa := refcnt s pa + 1)" by (rule I(2))
  show "pt_inv 2 (inckref pa s) pt" using assms(1) I(1) m r by (auto simp: pt_inv_def kmem_inv_def)
qed

text \<open>What the caller (\<^verbatim>\<open>fork\<close>) provides: two separate tables, the first \<open>n\<close> pages mapped in the old one
  to live pages that hold no table, and not mapped in the new one.\<close>

definition copy_pre :: "'a kmem_st_scheme \<Rightarrow> u64 \<Rightarrow> u64 \<Rightarrow> nat \<Rightarrow> bool" where
  "copy_pre s old new n \<longleftrightarrow> pt_inv 2 s old \<and> pt_inv 2 s new \<and> 4096 * n \<le> 2 ^ 38 \<and>
     tabs 2 (pmem s) old \<inter> tabs 2 (pmem s) new = {} \<and>
     (\<forall>va. page_aligned va \<longrightarrow> in_rng 0 n va \<longrightarrow> pte_valid (pte_val 2 (pmem s) old va) \<and>
        \<not> pte_valid (pte_val 2 (pmem s) new va)) \<and>
     (\<forall>p\<in>set (frames s old 0 n). 0 < refcnt s p \<and> refcnt s p + n < 2 ^ 64 \<and> p \<notin> tabs 2 (pmem s) new)"

lemma copied_0: "copy_pre s old new n \<Longrightarrow> copied s s old new 0 0"
  by (auto simp: copy_pre_def copied_def in_rng_def frames_def)

lemma ptgrow_other:
  assumes o: "pt_inv 2 s old" and g: "ptgrow 2 s s1 new"
    and d: "tabs 2 (pmem s) old \<inter> tabs 2 (pmem s) new = {}"
  shows "pt_inv 2 s1 old" "tabs 2 (pmem s1) old = tabs 2 (pmem s) old"
    "tabs 2 (pmem s1) old \<inter> tabs 2 (pmem s1) new = {}"
    "pte_val 2 (pmem s1) old va = pte_val 2 (pmem s) old va"
proof -
  have live: "0 < refcnt s q" if "q \<in> tabs 2 (pmem s) old" for q using o that by (simp add: pt_inv_def)
  have fr: "pmem s1 a = pmem s a" if "q \<in> tabs 2 (pmem s) old" "in_page q a" for q a
    using ptgrowD(8) [OF g live [OF that(1)] _ that(2)] that(1) d by blast
  have F: "tabs 2 (pmem s1) old = tabs 2 (pmem s) old \<and> pt_ok 2 (pmem s1) old \<and>
      (\<forall>va. find_pte 2 (pmem s1) old va = find_pte 2 (pmem s) old va \<and>
        pte_val 2 (pmem s1) old va = pte_val 2 (pmem s) old va)"
    using o by (intro pt_frame) (auto simp: pt_inv_def fr)
  have "0 < refcnt s1 q \<and> q \<notin> tabs 2 (pmem s1) new" if "q \<in> tabs 2 (pmem s) old" for q
    using ptgrow_live [OF g live [OF that]] live [OF that] that d by auto
  with F show "pt_inv 2 s1 old" "tabs 2 (pmem s1) old = tabs 2 (pmem s) old"
    "tabs 2 (pmem s1) old \<inter> tabs 2 (pmem s1) new = {}"
    "pte_val 2 (pmem s1) old va = pte_val 2 (pmem s) old va"
    using ptgrowD(1) [OF g] by (auto simp: pt_inv_def)
qed

lemma copied_grow:
  assumes c: "copied s0 s old new k j" and g: "ptgrow 2 s s1 new"
    and v: "\<And>va. page_aligned va \<Longrightarrow> va < MAXVA \<Longrightarrow> pte_val 2 (pmem s1) new va =
      (if in_rng 0 k' va then pte_of (PTE2PA (pte_val 2 (pmem s0) old va)) (cow_flags (pte_val 2 (pmem s0) old va))
       else pte_val 2 (pmem s0) new va)"
  shows "copied s0 s1 old new k' j"
proof -
  note O = ptgrow_other [OF copiedD(1) [OF c] g copiedD(6) [OF c]]
  have live: "0 < refcnt s x" if "0 < refcnt s0 x" for x using copiedD(11) [OF c that] that by simp
  have fresh: "refcnt s0 x = 0" if "x \<in> tabs 2 (pmem s1) new" "x \<notin> tabs 2 (pmem s0) new" for x
  proof (rule ccontr)
    assume "refcnt s0 x \<noteq> 0"
    then have x: "0 < refcnt s0 x" by simp
    have "x \<in> tabs 2 (pmem s) new" using ptgrow_live(2) [OF g live [OF x]] that(1) by blast
    from copiedD(8) [OF c this that(2)] x show False by simp
  qed
  have mem: "pmem s1 a = pmem s0 a" if "0 < refcnt s0 x" "x \<notin> tabs 2 (pmem s0) new" "in_page x a" for x a
  proof -
    have "x \<notin> tabs 2 (pmem s) new" using copiedD(8) [OF c _ that(2)] that(1) by fastforce
    then show ?thesis using ptgrowD(8) [OF g live [OF that(1)] _ that(3)] copiedD(12) [OF c that] by simp
  qed
  have cnt: "refcnt s1 x = refcnt s0 x + count_list (frames s0 old 0 j) x" if "0 < refcnt s0 x" for x
    using ptgrow_live(1) [OF g live [OF that]] copiedD(11) [OF c that] by simp
  show ?thesis
    unfolding copied_def
    using O ptgrowD(1-4) [OF g] copiedD(3,4,5,7,9) [OF c] v fresh mem cnt by auto
qed

lemma frames_snoc: "frames s pt a (Suc k) = frames s pt a k @ [PTE2PA (pte_val 2 (pmem s) pt (a + of_nat (4096 * k)))]"
  by (simp add: frames_def)

lemma copied_inc:
  assumes c: "copied s0 s old new (Suc k) k"
    and pa: "pa = PTE2PA (pte_val 2 (pmem s0) old (of_nat (4096 * k)))"
    and live: "0 < refcnt s0 pa" and small: "refcnt s0 pa + Suc k < 2 ^ 64"
  shows "copied s0 (inckref pa s) old new (Suc k) (Suc k)"
proof -
  have "count_list (frames s0 old 0 k) pa \<le> length (frames s0 old 0 k)" by (rule count_le_length)
  then have "refcnt s pa < 2 ^ 64 - 1" "0 < refcnt s pa"
    using copiedD(11) [OF c live] live small by (simp_all add: frames_def)
  note I = inckref_pt_inv [OF copiedD(1) [OF c] this(2,1)] inckref_pt_inv(1) [OF copiedD(2) [OF c] this(2,1)]
  have "refcnt (inckref pa s) x = refcnt s0 x + count_list (frames s0 old 0 (Suc k)) x"
    if "0 < refcnt s0 x" for x
    using copiedD(11) [OF c that] copiedD(11) [OF c live] I(5) pa by (simp add: frames_snoc)
  then show ?thesis
    unfolding copied_def I(2-4)
    using I(1,6) copiedD(3-10) [OF c] copiedD(12) [OF c] by auto
qed

lemma mappages_page:
  assumes "page_aligned a"
  shows "mappages pt a 4096 pa perm s = mappages_loop pt a a pa perm s"
proof -
  have "PGROUNDDOWN (4095 + a) = a"
    using assms by (intro PGROUNDDOWN_unique) (simp_all add: in_page_def)
  then show ?thesis using assms by (simp add: mappages_def)
qed

lemma page_index:
  assumes "4096 * Suc k \<le> 2 ^ 38"
  shows "unat (of_nat (4096 * k) :: u64) = 4096 * k" "page_aligned (of_nat (4096 * k))"
    "(of_nat (4096 * k) :: u64) < MAXVA" "(of_nat (4096 * k) :: u64) div 4096 * 4096 = of_nat (4096 * k)"
proof -
  show u: "unat (of_nat (4096 * k) :: u64) = 4096 * k"
    using assms by (intro unat_of_nat_less) simp
  then show "page_aligned (of_nat (4096 * k))" "(of_nat (4096 * k) :: u64) < MAXVA"
    using assms by (simp_all add: page_aligned_dvd word_less_nat_alt)
  show "(of_nat (4096 * k) :: u64) div 4096 * 4096 = of_nat (4096 * k)"
    using assms u by (simp add: word_unat_eq_iff unat_word_ariths unat_div del: of_nat_mult)
qed

lemma in_rng_page:
  assumes "4096 * Suc k \<le> 2 ^ 38" and "page_aligned va"
  shows "in_rng 0 (Suc k) va \<longleftrightarrow> in_rng 0 k va \<or> va = of_nat (4096 * k)"
  using page_index(1) [OF assms(1)] assms(2)
  by (auto simp: in_rng_def page_aligned_dvd word_unat_eq_iff simp del: of_nat_mult elim!: dvdE)

lemma copy_page:
  assumes pre: "copy_pre s0 old new n" and k: "k < n" and c: "copied s0 s old new k k"
  defines "va \<equiv> of_nat (4096 * k) :: u64"
  defines "e \<equiv> pte_val 2 (pmem s0) old va"
  obtains pte r s1 where "walk old va False s = Ok (pte, s)" "pte \<noteq> 0" "ld64 (pmem s) pte = e" "pte_valid e"
    "mappages new va 4096 (PTE2PA e) (cow_flags e) s = Ok (r, s1)"
    "r = 0 \<and> copied s0 (inckref (PTE2PA e) s1) old new (Suc k) (Suc k) \<or>
     r = - 1 \<and> full s1 \<and> copied s0 s1 old new k k"
proof -
  have b: "4096 * Suc k \<le> 2 ^ 38" using pre k by (simp add: copy_pre_def)
  note P = page_index [OF b, folded va_def]
  have in_va: "in_rng 0 n va" using P(1) k by (simp add: in_rng_def)
  have ev: "pte_valid e" and nv: "\<not> pte_valid (pte_val 2 (pmem s0) new va)"
    using pre P(2) in_va unfolding e_def copy_pre_def by blast+
  have eo: "pte_val 2 (pmem s) old va = e" using copiedD(9) [OF c] by (simp add: e_def)
  with ev have "pte_val 2 (pmem s) old va \<noteq> 0" by auto
  then obtain pte where w: "walk old va False s = Ok (pte, s)" "pte \<noteq> 0" "ld64 (pmem s) pte = e"
    using walk_found [OF copiedD(1) [OF c] P(3)] eo by metis
  have new_va: "pte_val 2 (pmem s) new va = pte_val 2 (pmem s0) new va"
    using copiedD(10) [OF c P(2,3)] P(1) by (simp add: in_rng_def)
  have free: "\<not> pte_valid (pte_val 2 (pmem s) new v)" if "page_aligned v" "in_rng va (Suc 0) v" for v
    using that in_rng_1 [OF P(2) that(1)] new_va nv by simp
  obtain r s1 k' where m: "mappages_loop new va va (PTE2PA e) (cow_flags e) s = Ok (r, s1)" "ptgrow 2 s s1 new"
    "r = 0 \<and> k' = Suc 0 \<or> r = - 1 \<and> k' = 0 \<and> full s1"
    "\<And>v. page_aligned v \<Longrightarrow> v < MAXVA \<Longrightarrow> pte_val 2 (pmem s1) new v =
       (if in_rng va k' v then pte_of (PTE2PA e + (v - va)) (cow_flags e) else pte_val 2 (pmem s) new v)"
    using mappages_n [OF copiedD(2) [OF c] P(2), of 0 "PTE2PA e" "cow_flags e"] free P(1) b by auto
  have "PTE2PA e = PTE2PA (pte_val 2 (pmem s0) old (0 + of_nat (4096 * k)))" by (simp add: e_def va_def)
  then have fr: "PTE2PA e \<in> set (frames s0 old 0 n)" using k unfolding frames_def by auto
  then have live: "0 < refcnt s0 (PTE2PA e)" "refcnt s0 (PTE2PA e) + Suc k < 2 ^ 64"
    using pre k by (fastforce simp: copy_pre_def)+
  have cop: "r = 0 \<and> copied s0 (inckref (PTE2PA e) s1) old new (Suc k) (Suc k) \<or>
      r = - 1 \<and> full s1 \<and> copied s0 s1 old new k k"
    using m(3)
  proof
    assume r: "r = 0 \<and> k' = Suc 0"
    have "copied s0 s1 old new (Suc k) k"
      using copied_grow [OF c m(2), of "Suc k"] m(4) copiedD(10) [OF c] r in_rng_1 [OF P(2)] in_rng_page [OF b]
      by (auto simp: e_def va_def simp del: of_nat_mult)
    from copied_inc [OF this _ live] r show ?thesis by (simp add: e_def va_def)
  next
    assume r: "r = - 1 \<and> k' = 0 \<and> full s1"
    then have "copied s0 s1 old new k k"
      using m(4) copiedD(10) [OF c] by (intro copied_grow [OF c m(2), of k]) (auto simp: in_rng_def)
    with r show ?thesis by blast
  qed
  show thesis by (rule that [OF w ev m(1) [folded mappages_page [OF P(2)]] cop])
qed

definition undone :: "'a kmem_st_scheme \<Rightarrow> 'a kmem_st_scheme \<Rightarrow> u64 \<Rightarrow> u64 \<Rightarrow> nat \<Rightarrow> bool" where
  "undone s0 s old new n \<longleftrightarrow> pt_inv 2 s old \<and> pt_inv 2 s new \<and>
     (\<forall>va. pte_val 2 (pmem s) old va = pte_val 2 (pmem s0) old va) \<and>
     (\<forall>va. page_aligned va \<longrightarrow> in_rng 0 n va \<longrightarrow> \<not> pte_valid (pte_val 2 (pmem s) new va)) \<and>
     (\<forall>x. 0 < refcnt s0 x \<longrightarrow> refcnt s x = refcnt s0 x) \<and>
     (\<forall>x a. 0 < refcnt s0 x \<longrightarrow> x \<notin> tabs 2 (pmem s0) new \<longrightarrow> in_page x a \<longrightarrow> pmem s a = pmem s0 a)"

lemma copied_frames:
  assumes pre: "copy_pre s0 old new n" and k: "k \<le> n" and c: "copied s0 s old new k j"
  shows "frames s new 0 k = frames s0 old 0 k"
  unfolding frames_def
proof (rule map_cong [OF refl])
  fix i assume "i \<in> set [0..<k]"
  then have i: "i < k" by simp
  let ?va = "0 + of_nat (4096 * i) :: u64" let ?e = "pte_val 2 (pmem s0) old ?va"
  have b: "4096 * Suc i \<le> 2 ^ 38" using pre k i by (simp add: copy_pre_def)
  note P = page_index [OF b]
  have "PTE2PA ?e \<in> set (frames s0 old 0 n)" using i k unfolding frames_def by fastforce
  then have "0 < refcnt s0 (PTE2PA ?e)" "kmem_inv s0" using pre by (simp_all add: copy_pre_def pt_inv_def)
  then have "PTE2PA ?e < PHYSTOP" by (intro live_page_props(3))
  then have "PTE2PA ?e < 2 ^ 56" by (simp add: word_less_nat_alt)
  then show "PTE2PA (pte_val 2 (pmem s) new ?va) = PTE2PA (pte_val 2 (pmem s0) old ?va)"
    using copiedD(10) [OF c, of ?va] P i cow_flags_bound by (simp add: in_rng_def del: of_nat_mult)
qed

lemma copy_undo:
  assumes pre: "copy_pre s0 old new n" and k: "k < n" and c: "copied s0 s old new k k"
  shows "\<exists>s'. uvmunmap new 0 (of_nat (4096 * k) div 4096) True s = Ok s' \<and> undone s0 s' old new n"
proof -
  have b: "4096 * Suc k \<le> 2 ^ 38" using pre k by (simp add: copy_pre_def)
  note P = page_index [OF b] and fr = copied_frames [OF pre less_imp_le [OF k] c]
  have sub: "set (frames s0 old 0 k) \<subseteq> set (frames s0 old 0 n)" using k by (auto simp: frames_def)
  have live: "0 < refcnt s0 p" "p \<notin> tabs 2 (pmem s0) new" if "p \<in> set (frames s0 old 0 k)" for p
    using pre sub that by (auto simp: copy_pre_def)
  have leaf: "leaf_pte (pte_val 2 (pmem s) new va)" if "page_aligned va" "in_rng 0 k va" for va
  proof -
    have "va < MAXVA" using that(2) b by (simp add: in_rng_def word_less_nat_alt)
    then show ?thesis using copiedD(10) [OF c that(1)] that(2) cow_pte_leaf by simp
  qed
  have "set (frames s new 0 k) \<inter> tabs 2 (pmem s) new = {}"
    using live copiedD(8) [OF c] unfolding fr by fastforce
  moreover have "count_list (frames s new 0 k) x \<le> refcnt s x" for x
  proof (cases "x \<in> set (frames s0 old 0 k)")
    case True
    then show ?thesis using copiedD(11) [OF c live(1)] unfolding fr by simp
  next
    case False
    then show ?thesis unfolding fr by (simp add: count_list_0_iff [THEN iffD2])
  qed
  ultimately obtain s' where s': "uvmunmap_loop new 0 (of_nat (4096 * k)) True s = Ok s'" "pstep s s' new"
    "\<And>x. refcnt s' x = refcnt s x - count_list (frames s0 old 0 k) x"
    "\<And>va. page_aligned va \<Longrightarrow> va < MAXVA \<Longrightarrow>
       pte_val 2 (pmem s') new va = (if in_rng 0 k va then 0 else pte_val 2 (pmem s) new va)"
    using unmap_pages [OF copiedD(2) [OF c], of 0 k True] leaf b unfolding fr by auto
  have cnt: "refcnt s' x = refcnt s0 x" if "0 < refcnt s0 x" for x
    using s'(3) copiedD(11) [OF c that] by simp
  have nt: "x \<notin> tabs 2 (pmem s) new" if "0 < refcnt s0 x" "x \<notin> tabs 2 (pmem s0) new" for x
    using copiedD(8) [OF c _ that(2)] that(1) by fastforce
  have mem: "pmem s' a = pmem s0 a" if x: "0 < refcnt s0 x" "x \<notin> tabs 2 (pmem s0) new" "in_page x a" for x a
    using pstepD(6) [OF s'(2) _ nt [OF x(1,2)] x(3)] cnt [OF x(1)] copiedD(12) [OF c x] x(1) by simp
  have old: "0 < refcnt s0 q" "q \<notin> tabs 2 (pmem s0) new" if "q \<in> tabs 2 (pmem s0) old" for q
    using pre that by (auto simp: copy_pre_def pt_inv_def)
  have F: "tabs 2 (pmem s') old = tabs 2 (pmem s0) old \<and> pt_ok 2 (pmem s') old \<and>
      (\<forall>va. find_pte 2 (pmem s') old va = find_pte 2 (pmem s0) old va \<and>
        pte_val 2 (pmem s') old va = pte_val 2 (pmem s0) old va)"
    using pre by (intro pt_frame) (auto simp: copy_pre_def pt_inv_def intro: mem old)
  then have "pt_inv 2 s' old"
    using pstepD(1) [OF s'(2)] cnt old by (auto simp: pt_inv_def)
  moreover have "\<not> pte_valid (pte_val 2 (pmem s') new va)" if "page_aligned va" "in_rng 0 n va" for va
  proof -
    have "va < MAXVA" using that(2) pre by (simp add: in_rng_def word_less_nat_alt copy_pre_def)
    then show ?thesis using s'(4) [OF that(1)] copiedD(10) [OF c that(1)] pre that by (auto simp: copy_pre_def)
  qed
  ultimately have "undone s0 s' old new n"
    unfolding undone_def using F cnt mem pstepD(1) [OF s'(2)] by blast
  then show ?thesis using s'(1) P(4) by (auto simp: uvmunmap_def)
qed

lemma uvmcopy_loop_correct:
  assumes pre: "copy_pre s0 old new n" and sz: "n = (unat sz + 4095) div 4096"
    and c: "copied s0 s old new k k" and k: "k \<le> n"
  shows "\<exists>r s'. uvmcopy_loop old new (of_nat (4096 * k)) sz s = Ok (r, s') \<and>
    (r = 0 \<and> copied s0 s' old new n n \<or> r = - 1 \<and> undone s0 s' old new n)"
  using c k
proof (induction "n - k" arbitrary: k s)
  case 0
  then have "unat (of_nat (4096 * k) :: u64) = 4096 * k" "k = n"
    using pre by (auto simp: copy_pre_def intro!: unat_of_nat_less simp del: of_nat_mult)
  then have "\<not> of_nat (4096 * k) < sz" using sz by (simp add: word_less_nat_alt del: of_nat_mult)
  then show ?case using 0 \<open>k = n\<close> by (subst uvmcopy_loop.simps) auto
next
  case (Suc d)
  then have k: "k < n" by simp
  have b: "4096 * Suc k \<le> 2 ^ 38" using pre k by (simp add: copy_pre_def)
  note P = page_index [OF b]
  have lt: "of_nat (4096 * k) < sz" using k sz P(1) by (simp add: word_less_nat_alt del: of_nat_mult)
  let ?va = "of_nat (4096 * k) :: u64" let ?e = "pte_val 2 (pmem s0) old ?va"
  obtain pte r s1 where w: "walk old ?va False s = Ok (pte, s)" "pte \<noteq> 0" "ld64 (pmem s) pte = ?e" "pte_valid ?e"
    "mappages new ?va 4096 (PTE2PA ?e) (cow_flags ?e) s = Ok (r, s1)"
    "r = 0 \<and> copied s0 (inckref (PTE2PA ?e) s1) old new (Suc k) (Suc k) \<or>
     r = - 1 \<and> full s1 \<and> copied s0 s1 old new k k"
    by (rule copy_page [OF pre k Suc.prems(1)])
  have nxt: "?va + 4096 = of_nat (4096 * Suc k)" by simp
  have step: "uvmcopy_loop old new ?va sz s =
      (if r \<noteq> 0 then rbind (uvmunmap new 0 (?va div 4096) True s1) (\<lambda>s. Ok (- 1, s))
       else uvmcopy_loop old new (of_nat (4096 * Suc k)) sz (inckref (PTE2PA ?e) s1))"
    using w lt nxt by (subst uvmcopy_loop.simps) (simp add: Let_def cow_flags_def add.commute del: of_nat_mult)
  from w(6) show ?case
  proof
    assume r: "r = 0 \<and> copied s0 (inckref (PTE2PA ?e) s1) old new (Suc k) (Suc k)"
    show ?thesis using Suc.hyps(1) [of "Suc k"] Suc.hyps(2) r k step by auto
  next
    assume r: "r = - 1 \<and> full s1 \<and> copied s0 s1 old new k k"
    then obtain s' where "uvmunmap new 0 (?va div 4096) True s1 = Ok s'" "undone s0 s' old new n"
      using copy_undo [OF pre k] by blast
    then show ?thesis using r step by simp
  qed
qed

section \<open>Properties\<close>

text \<open>
  C2: copy-on-write \<^verbatim>\<open>uvmcopy\<close> on an address space of \<open>n\<close> pages never panics. Either it returns 0, every page is
  mapped in the child to the parent's frame with the copy-on-write bit set and the write bit clear, and
  each frame's count has grown by the number of new mappings; or it returns -1 with every count
  that was positive and the contents of every page as before. In both cases no entry of the parent's
  table changes: the parent keeps its writable mappings.
\<close>

theorem uvmcopy_correct:
  assumes "copy_pre s old new n" and "n = (unat sz + 4095) div 4096"
  shows "\<exists>r s'. uvmcopy old new sz s = Ok (r, s') \<and> pt_inv 2 s' old \<and> pt_inv 2 s' new \<and>
    (\<forall>va. pte_val 2 (pmem s') old va = pte_val 2 (pmem s) old va) \<and>
    (\<forall>x a. 0 < refcnt s x \<longrightarrow> x \<notin> tabs 2 (pmem s) new \<longrightarrow> in_page x a \<longrightarrow> pmem s' a = pmem s a) \<and>
    (r = 0 \<and> (\<forall>va. page_aligned va \<longrightarrow> in_rng 0 n va \<longrightarrow> pte_val 2 (pmem s') new va =
        pte_of (PTE2PA (pte_val 2 (pmem s) old va)) ((PTE_FLAGS (pte_val 2 (pmem s) old va) OR PTE_COW) AND NOT PTE_W)) \<and>
       (\<forall>x. 0 < refcnt s x \<longrightarrow> refcnt s' x = refcnt s x + count_list (frames s old 0 n) x) \<or>
     r = - 1 \<and> (\<forall>va. page_aligned va \<longrightarrow> in_rng 0 n va \<longrightarrow> \<not> pte_valid (pte_val 2 (pmem s') new va)) \<and>
       (\<forall>x. 0 < refcnt s x \<longrightarrow> refcnt s' x = refcnt s x))"
proof -
  obtain r s' where u: "uvmcopy_loop old new (of_nat (4096 * 0)) sz s = Ok (r, s')"
    "r = 0 \<and> copied s s' old new n n \<or> r = - 1 \<and> undone s s' old new n"
    using uvmcopy_loop_correct [OF assms copied_0 [OF assms(1)] le0] by blast
  have m: "va < MAXVA" if "in_rng 0 n va" for va
    using that assms(1) by (simp add: in_rng_def word_less_nat_alt copy_pre_def)
  have run: "uvmcopy old new sz s = Ok (r, s')" using u(1) by (simp add: uvmcopy_def)
  from u(2) show ?thesis
  proof
    assume c: "r = 0 \<and> copied s s' old new n n"
    then show ?thesis
      using run m copiedD(1,2,9,11,12) [of s s' old new n n] copiedD(10) [of s s' old new n n]
      by (intro exI [of _ r] exI [of _ s']) (simp add: cow_flags_def)
  next
    assume c: "r = - 1 \<and> undone s s' old new n"
    then show ?thesis using run by (intro exI [of _ r] exI [of _ s']) (simp add: undone_def)
  qed
qed

theorem uvmcopy_correct_witness:
  "\<exists>r s'. uvmcopy (pg 0) (pg 4) 100 demo = Ok (r, s') \<and> pte_val 2 (pmem s') (pg 0) 0 = pte_of (pg 3) 30"
proof -
  have z: "va = 0" if "in_rng 0 1 va" "page_aligned va" for va
    using that in_rng_1 [of 0 va] by simp
  have "frames demo (pg 0) 0 1 = [pg 3]" by (simp add: frames_def demo_pte demo_child)
  moreover have "pte_valid (pte_val 2 (pmem demo) (pg 0) va)" if "in_rng 0 1 va" "page_aligned va" for va
    using z [OF that] demo_pte by simp
  ultimately have "copy_pre demo (pg 0) (pg 4) 1"
    by (auto simp: copy_pre_def demo_pt_inv demo_refcnt pg_eq)
  moreover have "(1::nat) = (unat (100 :: u64) + 4095) div 4096" by simp
  ultimately obtain r s' where "uvmcopy (pg 0) (pg 4) 100 demo = Ok (r, s')"
    "\<forall>va. pte_val 2 (pmem s') (pg 0) va = pte_val 2 (pmem demo) (pg 0) va"
    using uvmcopy_correct [of demo "pg 0" "pg 4" 1 100] by blast
  then show ?thesis by (simp add: demo_pte)
qed

end
