(* ===== verification/Cow_Fault.thy ===== *)
theory Cow_Fault
  imports Trap Cow
begin

text \<open>
  What the page-fault branch of \<^verbatim>\<open>usertrap\<close> does to a copy-on-write page, and which store faults bring the kernel down.
\<close>

section \<open>The page gets its own copy\<close>

definition wr_flags :: "u64 \<Rightarrow> u64" where
  "wr_flags e = (PTE_FLAGS e OR PTE_W) AND NOT PTE_COW"

lemma wr_flags_bound: "wr_flags e < 1024"
proof -
  have "wr_flags e = wr_flags e AND 1023"
    by (rule bit_eqI) (auto simp: wr_flags_def PTE_FLAGS_def bit_simps bit_masks_int bit_flags_int)
  also have "\<dots> \<le> 1023" by (rule word_and_le1)
  finally show ?thesis by (simp add: word_less_nat_alt word_le_nat_alt)
qed

text \<open>A walk along tables that are there allocates nothing.\<close>

lemma walk_existing: "find_pte l (pmem s) pt va = Some a \<Longrightarrow> walk_loop l pt va alloc s = (a, s)"
  by (induction l arbitrary: pt) (auto simp: find_pte.simps(2) ent_def Let_def split: if_splits)

lemma mappages_existing:
  assumes "page_aligned va" "va < MAXVA" "find_pte 2 (pmem s) pt va = Some pte" "pte \<noteq> 0" "ld64 (pmem s) pte = 0"
  shows "mappages pt va 4096 pa perm s = Ok (0, s\<lparr>pmem := st64 (pmem s) pte (pte_of pa perm)\<rparr>)"
  unfolding mappages_page [OF assms(1)]
  using assms walk_existing [OF assms(3)] by (simp add: mappages_loop.simps walk_eq pte_of_def)

text \<open>A copied page.\<close>

lemma memmove_page:
  assumes "page_aligned dst" "page_aligned src" "dst < PHYSTOP" "src < PHYSTOP"
  shows "in_page dst a \<Longrightarrow> memmove m dst src 4096 a = m (src + (a - dst))"
    "\<not> in_page dst a \<Longrightarrow> memmove m dst src 4096 a = m a"
proof -
  have b: "unat src + 4096 < 2 ^ 64" "unat dst + 4096 < 2 ^ 64" using assms(3,4) by (simp_all add: word_less_nat_alt)
  note M = memmove_correct [OF b, of m]
  show "memmove m dst src 4096 a = m (src + (a - dst))" if "in_page dst a"
  proof -
    have "unat (a - dst) < 4096" using that by (simp add: in_page_def word_less_nat_alt)
    then have "memmove m dst src 4096 (dst + of_nat (unat (a - dst))) = m (src + of_nat (unat (a - dst)))" using M by blast
    then show ?thesis by simp
  qed
  show "memmove m dst src 4096 a = m a" if "\<not> in_page dst a"
    using that M by (simp add: in_page_def word_less_nat_alt not_less)
qed

text \<open>The state after the fault: \<open>mem\<close> is the new page, \<open>ea\<close> the address of the page's entry, \<open>s1\<close> the state after \<^verbatim>\<open>kalloc\<close>.\<close>

definition cow_done :: "u64 \<Rightarrow> u64 \<Rightarrow> u64 \<Rightarrow> u64 \<Rightarrow> 'a kmem_st_scheme \<Rightarrow> 'a kmem_st_scheme" where
  "cow_done mem pa ea v s1 = inckref mem ((deckref pa (s1\<lparr>pmem := st64 (memmove (pmem s1) mem pa 4096) ea 0\<rparr>))
     \<lparr>pmem := st64 (st64 (memmove (pmem s1) mem pa 4096) ea 0) ea v\<rparr>)"

lemma cow_fault_run:
  assumes inv: "pt_inv 2 s pt" and pt: "pt = p_pagetable (procs s ! p)" and va: "va = PGROUNDDOWN stval" "stval < MAXVA"
    and e: "e = pte_val 2 (pmem s) pt va" "pte_valid e" "e AND PTE_U \<noteq> 0" "e AND PTE_COW \<noteq> 0"
    and f: "find_pte 2 (pmem s) pt va = Some ea" and k: "kalloc s = (mem, s1)" "mem \<noteq> 0"
    and f1: "find_pte 2 (memmove (pmem s1) mem (PTE2PA e) 4096) pt va = Some ea"
    and ok: "pt_ok 2 (memmove (pmem s1) mem (PTE2PA e) 4096) pt"
  shows "cow_fault stval p s = Ok (cow_done mem (PTE2PA e) ea (pte_of mem (wr_flags e)) s1)"
proof -
  have al: "page_aligned va" and m: "va < MAXVA" using va PGROUNDDOWN_less_MAXVA by simp_all
  have nz: "ea \<noteq> 0" by (rule pt_inv_find_nonzero [OF inv f])
  have w: "walk pt va False s = Ok (ea, s)" using f m by (simp add: walk_eq walk_lookup)
  have l: "ld64 (pmem s) ea = e" using e(1) f by (simp add: pte_val_def)
  let ?m = "memmove (pmem s1) mem (PTE2PA e) 4096" let ?s3 = "deckref (PTE2PA e) (s1\<lparr>pmem := st64 ?m ea 0\<rparr>)"
  note W = pte_write [OF ok f1, of 0]
  have f3: "find_pte 2 (pmem ?s3) pt va = Some ea" using W f1 by (simp add: deckref_def)
  have l3: "ld64 (pmem ?s3) ea = 0" using W f3 by (simp add: deckref_def pte_val_def same_idx_def)
  note M = mappages_existing [OF al m f3 nz l3, of mem "wr_flags e"]
  show ?thesis
    using w nz l e(2-4) k M unfolding cow_fault_def va(1) [symmetric] pt [symmetric] Let_def
    by (simp add: wr_flags_def cow_done_def) (simp add: deckref_def)
qed

section \<open>Its effect on memory and counts\<close>

lemma cow_fresh:
  assumes "pt_inv 2 s pt" "kalloc s = (mem, s1)" "mem \<noteq> 0"
  shows "mem \<in> managed s" "refcnt s mem = 0" "refcnt s1 = (refcnt s)(mem := 1)" "kmem_inv s1" "page_aligned mem" "mem < PHYSTOP"
    "mem \<notin> tabs 2 (pmem s) pt" "kend s1 = kend s" "kmem_st.more s1 = kmem_st.more s"
proof -
  have "kmem_inv s" using assms(1) by (simp add: pt_inv_def)
  from kalloc_inv_cases [OF this assms(2)]
  show 1: "mem \<in> managed s" "refcnt s mem = 0" "refcnt s1 = (refcnt s)(mem := 1)" "kmem_inv s1" using assms(3) by (cases; simp)+
  then show "page_aligned mem" "mem < PHYSTOP" by (simp_all add: managed_def)
  show "mem \<notin> tabs 2 (pmem s) pt" using assms(1) 1(2) by (auto simp: pt_inv_def)
  show "kend s1 = kend s" "kmem_st.more s1 = kmem_st.more s" by (rule kalloc_frame [OF assms(2)])+
qed

text \<open>Outside the new page and the table page that holds the entry, nothing is written.\<close>

lemma cow_mem_outside:
  assumes inv: "pt_inv 2 s pt" and k: "kalloc s = (mem, s1)" "mem \<noteq> 0" and pa: "0 < refcnt s pa"
    and f: "find_pte 2 (pmem s) pt va = Some ea"
  defines "m \<equiv> memmove (pmem s1) mem pa 4096"
  shows "\<not> in_page mem a \<Longrightarrow> m a = pmem s a" "in_page mem a \<Longrightarrow> m a = pmem s (pa + (a - mem))"
    "\<exists>q\<in>tabs 2 (pmem s) pt. \<forall>n v a. \<not> in_page q a \<longrightarrow> st64 n ea v a = n a"
proof -
  note F = cow_fresh [OF inv k]
  have ki: "kmem_inv s" using inv by (simp add: pt_inv_def)
  note P = live_page_props [OF ki pa]
  note M = memmove_page [OF F(5) P(1) F(6) P(3), of _ "pmem s1", folded m_def]
  show "m a = pmem s a" if "\<not> in_page mem a" using M(2) kalloc_frame(3) [OF k(1)] that by simp
  show "m a = pmem s (pa + (a - mem))" if "in_page mem a"
  proof -
    have ip: "in_page pa (pa + (a - mem))" using that by (simp add: in_page_def)
    have "mem \<noteq> pa" using F(2) pa by auto
    then have "\<not> in_page mem (pa + (a - mem))" using in_page_unique [OF F(5) P(1) _ ip] by blast
    then show ?thesis using M(1) [OF that] kalloc_frame(3) [OF k(1)] by simp
  qed
  obtain q where q: "q \<in> tabs 2 (pmem s) pt" "ea = q + 8 * PX 0 va" using find_pte_slot [OF f] by blast
  have "page_aligned q" using tabs_aligned q(1) inv by (auto simp: pt_inv_def)
  then show "\<exists>q\<in>tabs 2 (pmem s) pt. \<forall>n v a. \<not> in_page q a \<longrightarrow> st64 n ea v a = n a"
    using q st64_frame [of q "PX 0 va"] PX_less [of 0 va] by (intro bexI [OF _ q(1)]) auto
qed

lemma cow_tables:
  fixes v :: u64
  assumes inv: "pt_inv 2 s pt" and k: "kalloc s = (mem, s1)" "mem \<noteq> 0" and pa: "0 < refcnt s pa"
    and f: "find_pte 2 (pmem s) pt va = Some ea"
  defines "m \<equiv> memmove (pmem s1) mem pa 4096" and "m4 \<equiv> st64 (st64 (memmove (pmem s1) mem pa 4096) ea 0) ea v"
  shows "find_pte 2 m pt va = Some ea" "pt_ok 2 m pt" "pt_ok 2 m4 pt" "tabs 2 m4 pt = tabs 2 (pmem s) pt"
    "pte_val 2 m4 pt va' = (if same_idx 2 va va' then v else pte_val 2 (pmem s) pt va')"
proof -
  have ok: "pt_ok 2 (pmem s) pt" using inv by (simp add: pt_inv_def)
  note F = cow_fresh [OF inv k]
  have "m a = pmem s a" if "p \<in> tabs 2 (pmem s) pt" "in_page p a" for p a
  proof -
    have "\<not> in_page mem a" using in_page_unique [OF F(5) tabs_aligned [OF ok that(1)] _ that(2)] F(7) that(1) by blast
    then show ?thesis using cow_mem_outside(1) [OF inv k pa f] by (simp add: m_def)
  qed
  note m = pt_frame [OF ok this]
  show fm: "find_pte 2 m pt va = Some ea" and om: "pt_ok 2 m pt" using m f by simp_all
  note W = pte_write [OF om fm, of 0]
  then have "pt_ok 2 (st64 m ea 0) pt" "find_pte 2 (st64 m ea 0) pt va = Some ea" using fm by simp_all
  note V = pte_write [OF this, of v]
  have e: "m4 = st64 (st64 m ea 0) ea v" by (simp add: m4_def m_def)
  show "pt_ok 2 m4 pt" "tabs 2 m4 pt = tabs 2 (pmem s) pt"
    "pte_val 2 m4 pt va' = (if same_idx 2 va va' then v else pte_val 2 (pmem s) pt va')"
    using V W m unfolding e by simp_all
qed

lemma cow_bytes:
  fixes v :: u64
  assumes inv: "pt_inv 2 s pt" and k: "kalloc s = (mem, s1)" "mem \<noteq> 0" and pa: "0 < refcnt s pa"
    and f: "find_pte 2 (pmem s) pt va = Some ea"
  defines "m4 \<equiv> st64 (st64 (memmove (pmem s1) mem pa 4096) ea 0) ea v"
  shows "in_page mem a \<Longrightarrow> m4 a = pmem s (pa + (a - mem))"
    "page_aligned x \<Longrightarrow> x \<notin> tabs 2 (pmem s) pt \<Longrightarrow> x \<noteq> mem \<Longrightarrow> in_page x a \<Longrightarrow> m4 a = pmem s a"
proof -
  note F = cow_fresh [OF inv k] and O = cow_mem_outside [OF inv k pa f]
  obtain q where q: "q \<in> tabs 2 (pmem s) pt" "\<And>n v a. \<not> in_page q a \<Longrightarrow> st64 n ea v a = n a" using O(3) by blast
  have al: "page_aligned q" using tabs_aligned q(1) inv by (auto simp: pt_inv_def)
  have st: "m4 a = memmove (pmem s1) mem pa 4096 a" if "page_aligned x" "x \<noteq> q" "in_page x a" for x a
  proof -
    have "\<not> in_page q a" using in_page_unique [OF al that(1) _ that(3)] that(2) by blast
    then show ?thesis using q(2) by (simp add: m4_def)
  qed
  show "m4 a = pmem s (pa + (a - mem))" if "in_page mem a" using st [OF F(5) _ that] F(7) q(1) O(2) [OF that] by force
  show "m4 a = pmem s a" if x: "page_aligned x" "x \<notin> tabs 2 (pmem s) pt" "x \<noteq> mem" "in_page x a"
  proof -
    have "\<not> in_page mem a" using in_page_unique [OF F(5) x(1) _ x(4)] x(3) by blast
    then show ?thesis using st [OF x(1) _ x(4)] q(1) x(2) O(1) by force
  qed
qed

lemma deckref_refcnt: "0 < refcnt s pa \<Longrightarrow> refcnt (deckref pa s) = (refcnt s)(pa := refcnt s pa - 1)"
proof -
  assume pa: "0 < refcnt s pa"
  then have "pa \<in> managed s" "kref s (refindex s pa) \<noteq> 0" by (auto simp: refcnt_def split: if_splits)
  then show ?thesis using refcnt_upd [of pa s "deckref pa s" "kref s (refindex s pa) - 1"]
    by (simp add: deckref_def refcnt_def unat_minus_one)
qed

lemma inckref_refcnt:
  "0 < refcnt s pa \<Longrightarrow> refcnt s pa < 2 ^ 64 - 1 \<Longrightarrow> refcnt (inckref pa s) = (refcnt s)(pa := refcnt s pa + 1)"
proof -
  assume pa: "0 < refcnt s pa" "refcnt s pa < 2 ^ 64 - 1"
  then have "pa \<in> managed s" by (simp add: refcnt_managed)
  then show ?thesis using refcnt_upd [of pa s "inckref pa s" "kref s (refindex s pa) + 1"] pa(2)
    by (simp add: inckref_def refcnt_def unat_word_ariths)
qed

lemma cow_counts:
  assumes inv: "pt_inv 2 s pt" and k: "kalloc s = (mem, s1)" "mem \<noteq> 0" and pa: "0 < refcnt s pa"
  shows "refcnt (cow_done mem pa ea v s1) = (refcnt s)(pa := refcnt s pa - 1, mem := 2)"
proof -
  note F = cow_fresh [OF inv k]
  let ?a = "s1\<lparr>pmem := st64 (memmove (pmem s1) mem pa 4096) ea 0\<rparr>"
  let ?b = "(deckref pa ?a)\<lparr>pmem := st64 (st64 (memmove (pmem s1) mem pa 4096) ea 0) ea v\<rparr>"
  have ne: "mem \<noteq> pa" using F(2) pa by auto
  have a: "refcnt ?a = (refcnt s)(mem := 1)" using F(3) by (simp add: fun_eq_iff)
  have b: "refcnt ?b = (refcnt s)(mem := 1, pa := refcnt s pa - 1)"
    using deckref_refcnt [of ?a pa] a pa ne by (simp add: fun_eq_iff)
  then have "refcnt ?b mem = 1" using ne by simp
  then show ?thesis using inckref_refcnt [of ?b mem] b ne unfolding cow_done_def by (simp add: fun_eq_iff)
qed

text \<open>
  The free list stays as \<^verbatim>\<open>kalloc\<close> left it, so the allocator's invariant survives exactly when the old page is still counted.
\<close>

lemma cow_kmem_inv:
  assumes inv: "pt_inv 2 s pt" and k: "kalloc s = (mem, s1)" "mem \<noteq> 0" and pa: "0 < refcnt s pa"
    and f: "find_pte 2 (pmem s) pt va = Some ea"
  shows "kmem_inv (cow_done mem pa ea v s1) \<longleftrightarrow> 1 < refcnt s pa"
proof -
  let ?s = "cow_done mem pa ea v s1"
  note F = cow_fresh [OF inv k] and C = cow_counts [OF inv k pa, of ea v]
  obtain xs where xs: "kmem_wf s1 xs" using F(4) by (auto simp: kmem_inv_def)
  have mg: "managed s1 = managed s" using managed_cong [OF F(8)] .
  have s: "pmem ?s = st64 (st64 (memmove (pmem s1) mem pa 4096) ea 0) ea v" "freelist ?s = freelist s1" "kend ?s = kend s1"
    "managed ?s = managed s" using F(8) by (simp_all add: cow_done_def inckref_def deckref_def managed_def)
  have fr: "pmem s1 a = pmem ?s a" if "x \<in> set xs" "in_page x a" for x a
  proof -
    have x: "x \<in> managed s" "refcnt s1 x = 0" using xs that(1) mg by (auto simp: kmem_wf_def)
    then have n: "x \<noteq> mem" "page_aligned x" "refcnt s x = 0" using F(3) by (auto simp: managed_def split: if_splits)
    then have "x \<notin> tabs 2 (pmem s) pt" using inv by (auto simp: pt_inv_def)
    then have "pmem ?s a = pmem s a" unfolding s by (intro cow_bytes(2) [OF inv k pa f n(2) _ n(1) that(2)])
    moreover have "\<not> in_page mem a" using in_page_unique [OF F(5) n(2) _ that(2)] n(1) by blast
    ultimately show ?thesis using kalloc_frame(3) [OF k(1)] by simp
  qed
  have al: "\<forall>x\<in>set xs. page_aligned x" using xs by (auto simp: kmem_wf_def managed_def)
  have ch: "fl_chain (pmem ?s) (freelist ?s) xs" using fl_chain_frame [OF al fr] xs s by (simp add: kmem_wf_def)
  have "kmem_inv ?s \<longleftrightarrow> kmem_wf ?s xs"
    using fl_chain_unique [OF ch] by (auto simp: kmem_inv_def kmem_wf_def)
  also have "\<dots> \<longleftrightarrow> (\<forall>x\<in>managed s. x \<in> set xs \<longleftrightarrow> refcnt ?s x = 0)"
    using xs ch s mg by (simp add: kmem_wf_def)
  also have "\<dots> \<longleftrightarrow> (\<forall>x\<in>managed s. refcnt s1 x = 0 \<longleftrightarrow> refcnt ?s x = 0)" using xs mg by (auto simp: kmem_wf_def)
  also have "\<dots> \<longleftrightarrow> 1 < refcnt s pa" unfolding C F(3) using pa refcnt_managed [OF pa] F(2) by (auto simp: fun_upd_def)
  finally show ?thesis .
qed

lemma cow_user_view:
  assumes inv: "pt_inv 2 s pt" and k: "kalloc s = (mem, s1)" "mem \<noteq> 0" and e: "e = upte s pt stval" "0 < refcnt s (PTE2PA e)"
    and f: "find_pte 2 (pmem s) pt (PGROUNDDOWN stval) = Some ea" and va: "stval < MAXVA" "x < MAXVA"
  defines "s' \<equiv> cow_done mem (PTE2PA e) ea (pte_of mem (wr_flags e)) s1"
  shows "upte s' pt x = (if PGROUNDDOWN x = PGROUNDDOWN stval then pte_of mem (wr_flags e) else upte s pt x)"
    "PGROUNDDOWN x = PGROUNDDOWN stval \<Longrightarrow> umem s' pt x = umem s pt x"
proof -
  note F = cow_fresh [OF inv k]
  have m: "pmem s' = st64 (st64 (memmove (pmem s1) mem (PTE2PA e) 4096) ea 0) ea (pte_of mem (wr_flags e))"
    by (simp add: s'_def cow_done_def inckref_def deckref_def)
  have "PGROUNDDOWN stval < MAXVA" "PGROUNDDOWN x < MAXVA" using va PGROUNDDOWN_less_MAXVA by simp_all
  then have "same_idx 2 (PGROUNDDOWN stval) (PGROUNDDOWN x) \<longleftrightarrow> PGROUNDDOWN x = PGROUNDDOWN stval"
    by (subst same_idx_2) auto
  then show u: "upte s' pt x = (if PGROUNDDOWN x = PGROUNDDOWN stval then pte_of mem (wr_flags e) else upte s pt x)"
    unfolding upte_def m by (simp add: cow_tables(5) [OF inv k e(2) f])
  assume p: "PGROUNDDOWN x = PGROUNDDOWN stval"
  have "mem < 2 ^ 56" using F(6) by (simp add: word_less_nat_alt)
  then have c: "PTE2PA (pte_of mem (wr_flags e)) = mem" using F(5) wr_flags_bound by simp
  have "in_page mem (mem + (x - PGROUNDDOWN x))" using in_page_PGROUNDDOWN [of x] by (simp add: in_page_def)
  then have "pmem s' (mem + (x - PGROUNDDOWN x)) = pmem s (PTE2PA e + (x - PGROUNDDOWN x))"
    unfolding m by (subst cow_bytes(1) [OF inv k e(2) f]) simp_all
  then show "umem s' pt x = umem s pt x" using u p c e(1) by (simp add: umem_def upa_def upte_def)
qed

section \<open>Store faults that are not copy-on-write\<close>

text \<open>Writing to a live page that is no table, such as the trapframe, leaves the page table alone.\<close>

lemma tables_outside:
  assumes inv: "pt_inv 2 s pt" and q: "0 < refcnt s q" "q \<notin> tabs 2 (pmem s) pt" and m: "\<And>a. \<not> in_page q a \<Longrightarrow> m a = pmem s a"
  shows "kmem_inv (s\<lparr>pmem := m\<rparr>) \<and> tabs 2 m pt = tabs 2 (pmem s) pt \<and> pt_ok 2 m pt \<and>
    (\<forall>va. find_pte 2 m pt va = find_pte 2 (pmem s) pt va \<and> pte_val 2 m pt va = pte_val 2 (pmem s) pt va)"
proof -
  have ki: "kmem_inv s" and ok: "pt_ok 2 (pmem s) pt" using inv by (simp_all add: pt_inv_def)
  have al: "page_aligned q" by (rule live_page_props(1) [OF ki q(1)])
  have "m a = pmem s a" if "x \<in> tabs 2 (pmem s) pt" "in_page x a" for x a
  proof -
    have "\<not> in_page q a" using in_page_unique [OF al tabs_aligned [OF ok that(1)] _ that(2)] that(1) q(2) by metis
    then show ?thesis by (rule m)
  qed
  then show ?thesis using pt_frame [OF ok, of m] kmem_inv_write_page [OF ki q(1) m] by blast
qed

lemma cow_fault_other:
  assumes "pt_inv 2 s pt" "p_pagetable (procs s ! p) = pt" "e = upte s pt stval"
    "MAXVA \<le> stval \<or> \<not> (pte_valid e \<and> e AND PTE_U \<noteq> 0 \<and> e AND PTE_COW \<noteq> 0)"
  shows "cow_fault stval p s = (if MAXVA \<le> stval then Panic ''walk''
    else if find_pte 2 (pmem s) pt (PGROUNDDOWN stval) = None then Panic ''kerneltrap'' else Ok s)"
proof -
  let ?va = "PGROUNDDOWN stval"
  have w: "walk pt ?va False s = (if MAXVA \<le> stval then Panic ''walk'' else
      Ok ((case find_pte 2 (pmem s) pt ?va of None \<Rightarrow> 0 | Some a \<Rightarrow> a), s))"
    using PGROUNDDOWN_less_MAXVA [of stval] by (auto simp: walk_def walk_lookup not_less not_le)
  show ?thesis
  proof (cases "find_pte 2 (pmem s) pt ?va")
    case None
    then show ?thesis using w unfolding cow_fault_def assms(2) by (simp add: Let_def)
  next
    case (Some ea)
    then have "ld64 (pmem s) ea = e" "ea \<noteq> 0"
      using assms(3) pt_inv_find_nonzero [OF assms(1) Some] by (simp_all add: upte_def pte_val_def)
    then show ?thesis using w Some assms(4) unfolding cow_fault_def assms(2) by (auto simp: Let_def)
  qed
qed

text \<open>The way back to user space writes the trapframe and the control registers.\<close>

lemma usertrapret_same:
  fixes s :: "'a kern_st_scheme"
  assumes p: "myproc s = Some p" "page_aligned (p_trapframe (procs s ! p))"
  shows "\<exists>a s'. usertrapret e s = Ok (TUser a (MAKE_SATP (p_pagetable (procs s ! p))) s') \<and> r_sepc (k_csr s') = tf_get s p TF_epc \<and>
    procs s' = procs s \<and> (\<forall>a. \<not> in_page (p_trapframe (procs s ! p)) a \<longrightarrow> pmem s' a = pmem s a)"
proof -
  let ?q = "p_trapframe (procs s ! p)"
  have st: "st64 m (?q + 8 * i) v a = m a" if "i < 512" "\<not> in_page ?q a" for m i v a using st64_frame [OF p(2) that] .
  have ld: "ld64 (st64 m (?q + 8 * i) v) (?q + 8 * 3) = ld64 m (?q + 8 * 3)" if "i < 512" "i \<noteq> 3" for m i v
    using ld64_st64_slot [OF p(2,2) that(1), of 3] that(2) by simp
  have w: "ld64 (st64 m ?q v) (?q + 24) = ld64 m (?q + 24)" "ld64 (st64 m (?q + 8) v) (?q + 24) = ld64 m (?q + 24)"
    "ld64 (st64 m (?q + 16) v) (?q + 24) = ld64 m (?q + 24)" "ld64 (st64 m (?q + 32) v) (?q + 24) = ld64 m (?q + 24)" for m v
    using ld [of 0 m v] ld [of 1 m v] ld [of 2 m v] ld [of 4 m v] by simp_all
  have u: "st64 m ?q v a = m a" "st64 m (?q + 8) v a = m a" "st64 m (?q + 16) v a = m a" "st64 m (?q + 32) v a = m a"
    if "\<not> in_page ?q a" for m v a
    using st [of 0 a m v] st [of 1 a m v] st [of 2 a m v] st [of 4 a m v] that by simp_all
  show ?thesis
    using p(1) by (simp add: usertrapret_def with_proc_def set_intr_def on_csr_def tf_set_def tf_get_def Let_def w u w_sepc_def r_sepc_def)
qed

section \<open>Properties\<close>

text \<open>
  C3: the copy-on-write fault. A store to a page of user memory that is mapped valid, for user mode and copy-on-write, whose frame is
  counted and is no page-table page: when no page is free, the kernel faults (\<^verbatim>\<open>kalloc\<close>'s null is not
  checked). Otherwise the faulting page is remapped to a page that was free, with write permission and without the
  copy-on-write mark; every other entry stays, the process sees the same bytes as before, and no live page outside the tables is written.
  The old frame's count drops by one and the new page's count is 2, although it has one mapping. The allocator's invariant survives
  exactly when the old frame had another reference: otherwise its count is 0 but it is never put on the free list.
\<close>

theorem cow_fault_correct:
  assumes "pt_inv 2 s pt" "p_pagetable (procs s ! p) = pt" "stval < MAXVA" "e = upte s pt stval"
    "pte_valid e" "e AND PTE_U \<noteq> 0" "e AND PTE_COW \<noteq> 0" "0 < refcnt s (PTE2PA e)" "PTE2PA e \<notin> tabs 2 (pmem s) pt"
  shows "if \<forall>pa\<in>managed s. refcnt s pa \<noteq> 0 then cow_fault stval p s = Panic ''kerneltrap''
    else \<exists>mem s'. cow_fault stval p s = Ok s' \<and> mem \<in> managed s \<and> refcnt s mem = 0 \<and>
      (\<forall>x<MAXVA. upte s' pt x = (if PGROUNDDOWN x = PGROUNDDOWN stval then pte_of mem (wr_flags e) else upte s pt x)) \<and>
      (\<forall>x. PGROUNDDOWN x = PGROUNDDOWN stval \<longrightarrow> umem s' pt x = umem s pt x) \<and>
      (\<forall>q a. 0 < refcnt s q \<longrightarrow> q \<notin> tabs 2 (pmem s) pt \<longrightarrow> in_page q a \<longrightarrow> pmem s' a = pmem s a) \<and>
      kmem_st.more s' = kmem_st.more s \<and>
      refcnt s' = (refcnt s)(PTE2PA e := refcnt s (PTE2PA e) - 1, mem := 2) \<and>
      (kmem_inv s' \<longleftrightarrow> 1 < refcnt s (PTE2PA e))"
proof -
  let ?va = "PGROUNDDOWN stval"
  have e: "e = pte_val 2 (pmem s) pt ?va" using assms(4) by (simp add: upte_def)
  obtain ea where f: "find_pte 2 (pmem s) pt ?va = Some ea"
    using assms(5) unfolding e by (cases "find_pte 2 (pmem s) pt ?va") (auto simp: pte_val_def)
  have ki: "kmem_inv s" using assms(1) by (simp add: pt_inv_def)
  obtain mem s1 where k: "kalloc s = (mem, s1)" by fastforce
  show ?thesis
  proof (cases "mem = 0")
    case True
    then have "\<forall>pa\<in>managed s. refcnt s pa \<noteq> 0" using kalloc_inv_cases [OF ki k] by (cases) auto
    moreover have "walk pt ?va False s = Ok (ea, s)" using f assms(3) PGROUNDDOWN_less_MAXVA by (simp add: walk_eq walk_lookup)
    moreover have "ld64 (pmem s) ea = e" using e f by (simp add: pte_val_def)
    ultimately show ?thesis using True k assms(2,5-7) pt_inv_find_nonzero [OF assms(1) f] by (simp add: cow_fault_def)
  next
    case False
    note A = assms(1) k False assms(8)
    note T = cow_tables(1,2) [OF A f] and F = cow_fresh [OF A(1-3)]
    note R = cow_fault_run [OF assms(1) assms(2) [symmetric] refl assms(3) e assms(5-7) f k False T]
    define s' where "s' = cow_done mem (PTE2PA e) ea (pte_of mem (wr_flags e)) s1"
    have "pmem s' a = pmem s a" if q: "0 < refcnt s q" "q \<notin> tabs 2 (pmem s) pt" "in_page q a" for q a
    proof -
      have "q \<noteq> mem" using F(2) q(1) by auto
      then show ?thesis using cow_bytes(2) [OF A f live_page_props(1) [OF ki q(1)] q(2) _ q(3)]
        by (simp add: s'_def cow_done_def inckref_def deckref_def)
    qed
    moreover have "umem s' pt x = umem s pt x" if "PGROUNDDOWN x = ?va" for x
      using cow_user_view(2) [OF A(1-3) assms(4,8) f assms(3), of x, folded s'_def] that assms(3) PGROUNDDOWN_less_MAXVA [of x]
        PGROUNDDOWN_less_MAXVA [of stval] by simp
    moreover have "\<not> (\<forall>pa\<in>managed s. refcnt s pa \<noteq> 0)" using F(1,2) by blast
    moreover have "kmem_st.more s' = kmem_st.more s" using F(9) by (simp add: s'_def cow_done_def inckref_def deckref_def)
    ultimately show ?thesis
      using R F(1,2) cow_user_view(1) [OF A(1-3) assms(4,8) f assms(3)] cow_counts [OF A] cow_kmem_inv [OF A f]
      unfolding s'_def by (simp only: if_False) blast
  qed
qed

text \<open>A machine whose process has one copy-on-write page at address 0, and one free page.\<close>

definition cow_mem :: mem where
  "cow_mem = st64 demo_mem (pg 2 + 8 * 0) (pte_of (pg 3) 58)"

definition cow_machine :: proc_st where
  "cow_machine = user_machine\<lparr>pmem := cow_mem, freelist := pg 5, kref := (kref demo)(refindex demo (pg 5) := 0)\<rparr>"

lemma cow_find: "find_pte 2 demo_mem (pg 0) 0 = Some (pg 2 + 8 * 0)"
proof -
  have px: "PX l 0 = 0" for l by (simp add: PX_def)
  have e: "ent demo_mem (pg 0) 0 = pte_of (pg 1) 0" "ent demo_mem (pg 1) 0 = pte_of (pg 2) 0"
    using demo_ent [of 0 0] demo_ent [of 0 1] by simp_all
  have two: "2 = Suc (Suc 0)" by simp
  show ?thesis unfolding two by (simp add: find_pte.simps(2) px e demo_child)
qed

lemma cow_machine_refcnt: "managed cow_machine = pg ` {0, 1, 2, 3, 4, 5}" "refcnt cow_machine = (refcnt demo)(pg 5 := 0)"
proof -
  have k: "kend cow_machine = kend demo" by (simp add: cow_machine_def user_machine_def)
  show "managed cow_machine = pg ` {0, 1, 2, 3, 4, 5}" using demo_managed managed_cong [OF k] by simp
  have "pg 5 \<in> managed demo" by (simp add: demo_managed)
  from refcnt_upd [OF this k, of 0] show "refcnt cow_machine = (refcnt demo)(pg 5 := 0)" by (simp add: cow_machine_def)
qed

lemma cow_machine_inv: "pt_inv 2 cow_machine (pg 0)" "tabs 2 (pmem cow_machine) (pg 0) = {pg 0, pg 1, pg 2}"
  "upte cow_machine (pg 0) 0 = pte_of (pg 3) 58"
proof -
  have m: "pmem cow_machine = cow_mem" by (simp add: cow_machine_def)
  note W = pte_write [OF demo_pt(1) cow_find, of "pte_of (pg 3) 58", folded cow_mem_def]
  show t: "tabs 2 (pmem cow_machine) (pg 0) = {pg 0, pg 1, pg 2}" using W demo_pt(2) m by simp
  show "upte cow_machine (pg 0) 0 = pte_of (pg 3) 58" using W m by (simp add: upte_def same_idx_def)
  have ne: "pg 0 \<noteq> pg 5" "pg 1 \<noteq> pg 5" "pg 2 \<noteq> pg 5" by (simp_all add: pg_eq)
  have "ent cow_mem (pg 5) 0 = 0"
    unfolding cow_mem_def using demo_ent [of 0 5] ent_st64 [of "pg 5" "pg 2" 0 0 demo_mem] pg_aligned [of 5] pg_aligned [of 2] pg_eq [of 2 5] by simp
  then have l: "ld64 cow_mem (pg 5) = 0" by (simp add: ent_def)
  have z: "pg 5 \<noteq> 0" by (simp add: pg_def)
  have k: "kend cow_machine = pg 0" "freelist cow_machine = pg 5" by (simp_all add: cow_machine_def user_machine_def demo_def)
  have "KERNBASE \<le> pg 0 \<and> pg 0 \<le> PHYSTOP" by (simp add: pg_def)
  moreover have "\<forall>x\<in>pg ` {0, 1, 2, 3, 4, 5}. x \<in> set [pg 5] \<longleftrightarrow> ((refcnt demo)(pg 5 := 0)) x = 0" using demo_refcnt by simp
  ultimately have "kmem_wf cow_machine [pg 5]" unfolding kmem_wf_def cow_machine_refcnt k m using l z by simp
  moreover have "\<forall>q\<in>{pg 0, pg 1, pg 2}. 0 < refcnt cow_machine q"
    unfolding cow_machine_refcnt using ne by (simp add: demo_refcnt)
  ultimately show "pt_inv 2 cow_machine (pg 0)" using W t m by (auto simp: pt_inv_def kmem_inv_def)
qed

theorem cow_fault_correct_witness:
  "\<exists>mem s'. cow_fault 0 0 cow_machine = Ok s' \<and> upte s' (pg 0) 0 = pte_of mem (wr_flags (pte_of (pg 3) 58)) \<and>
     umem s' (pg 0) 7 = umem cow_machine (pg 0) 7 \<and> refcnt s' = (refcnt cow_machine)(pg 3 := 0, mem := 2) \<and> \<not> kmem_inv s'"
proof -
  let ?e = "pte_of (pg 3) 58"
  have "bit (?e AND 16) 4" "bit (?e AND 32) 5" by (simp_all add: pte_of_def bit_simps bit_numeral_rec)
  then have f: "?e AND 16 \<noteq> 0" "?e AND 32 \<noteq> 0" by (metis bit_0_eq bot_apply bot_bool_def)+
  have c: "PTE2PA ?e = pg 3" using pg_aligned [of 3] pg_small [of 3] by simp
  have ne: "pg 3 \<noteq> pg 5" "pg 3 \<noteq> pg 0" "pg 3 \<noteq> pg 1" "pg 3 \<noteq> pg 2" by (simp_all add: pg_eq)
  have r: "refcnt cow_machine (PTE2PA ?e) = 1" unfolding c cow_machine_refcnt using ne by (simp add: demo_refcnt)
  have x: "\<not> (\<forall>pa\<in>managed cow_machine. refcnt cow_machine pa \<noteq> 0)" unfolding cow_machine_refcnt by simp
  have "in_page 0 (7 :: u64)" by (simp add: in_page_def)
  then have p: "PGROUNDDOWN 7 = PGROUNDDOWN 0" using PGROUNDDOWN_unique [of 0 7] by simp
  have pt: "p_pagetable (procs cow_machine ! 0) = pg 0" by (simp add: cow_machine_def user_machine_def)
  have t: "PTE2PA ?e \<notin> tabs 2 (pmem cow_machine) (pg 0)" unfolding c cow_machine_inv(2) using ne by simp
  have g: "0 < refcnt cow_machine (PTE2PA ?e)" using r by simp
  have h: "(0 :: u64) < MAXVA" "pte_valid ?e" by simp_all
  have r3: "refcnt cow_machine (pg 3) = 1" using r c by simp
  from cow_fault_correct [OF cow_machine_inv(1) pt h(1) cow_machine_inv(3) [symmetric] h(2) f g t, unfolded if_not_P [OF x] c r3]
  obtain mem s' where "cow_fault 0 0 cow_machine = Ok s'" "upte s' (pg 0) 0 = pte_of mem (wr_flags ?e)"
    "umem s' (pg 0) 7 = umem cow_machine (pg 0) 7" "refcnt s' = (refcnt cow_machine)(pg 3 := 0, mem := 2)" "\<not> kmem_inv s'"
    using p h(1) by auto
  then show ?thesis by blast
qed

text \<open>
  C16: a store fault of a user process (cause 15) at an address that is not a copy-on-write page, with the process not killed
  and its trapframe in a counted page outside its page table. At or above \<^verbatim>\<open>MAXVA\<close> the kernel panics in \<^verbatim>\<open>walk\<close>. Where
  the page table has no last-level table, the kernel follows a null pointer. Everywhere else the process is neither killed nor
  helped: the kernel returns to user space at the same instruction, with the same mappings, so the store faults again.
\<close>

theorem store_fault_unhandled:
  fixes s :: "'a kern_st_scheme"
  defines "stval \<equiv> r_stval (k_csr s)"
  assumes "r_sstatus (k_csr s) AND SSTATUS_SPP = 0" "r_scause (k_csr s) = 15" "myproc s = Some p" "killed p s = 0"
    "p_pagetable (procs s ! p) = pt" "pt_inv 2 s pt" "0 < refcnt s (p_trapframe (procs s ! p))" "p_trapframe (procs s ! p) \<notin> tabs 2 (pmem s) pt"
    "e = upte s pt stval" "MAXVA \<le> stval \<or> \<not> (pte_valid e \<and> e AND PTE_U \<noteq> 0 \<and> e AND PTE_COW \<noteq> 0)"
  shows "if MAXVA \<le> stval then usertrap env s = Panic ''walk''
    else if find_pte 2 (pmem s) pt (PGROUNDDOWN stval) = None then usertrap env s = Panic ''kerneltrap''
    else \<exists>a s'. usertrap env s = Ok (TUser a (MAKE_SATP pt) s') \<and> r_sepc (k_csr s') = r_sepc (k_csr s) \<and> upte s' pt = upte s pt"
proof -
  let ?q = "p_trapframe (procs s ! p)"
  have al: "page_aligned ?q" by (rule live_page_props(1) [OF _ assms(8)]) (use assms(7) in \<open>simp add: pt_inv_def\<close>)
  define s1 where "s1 = tf_set p TF_epc (r_sepc (k_csr s)) (on_csr (w_stvec (ke_kernelvec env)) s)"
  define m where "m = st64 (pmem s) (?q + 8 * 3) (r_sepc (k_csr s))"
  have fr: "m a = pmem s a" if "\<not> in_page ?q a" for a unfolding m_def by (rule st64_frame [OF al _ that]) simp
  note M = tables_outside [OF assms(7-9) fr]
  have s1: "pmem s1 = m" "procs s1 = procs s" "k_csr s1 = w_stvec (ke_kernelvec env) (k_csr s)" "myproc s1 = Some p" "killed p s1 = 0"
    using assms(4,5) by (simp_all add: s1_def m_def tf_set_def on_csr_def myproc_def killed_def)
  have "pt_inv 2 (s\<lparr>pmem := m\<rparr>) pt" using M assms(7) by (simp add: pt_inv_def)
  then have inv: "pt_inv 2 s1 pt" by (subst kmem_same(1) [of s1 "s\<lparr>pmem := m\<rparr>"]) (simp_all add: s1_def m_def tf_set_def on_csr_def)
  have u: "upte s1 pt = upte s pt" using M by (simp add: fun_eq_iff upte_def s1(1))
  have "usertrap env s = rbind (cow_fault stval p s1) (usertrap_end env 0 p)"
    using assms(2-4) s1(3) unfolding usertrap_def s1_def stval_def
    by (simp add: with_proc_def Let_def on_csr_def myproc_def tf_set_def w_stvec_def r_scause_def r_stval_def r_sepc_def)
  moreover have "find_pte 2 (pmem s1) pt = find_pte 2 (pmem s) pt" using M by (simp add: fun_eq_iff s1(1))
  moreover obtain a s' where r: "usertrapret env s1 = Ok (TUser a (MAKE_SATP pt) s')" "r_sepc (k_csr s') = tf_get s1 p TF_epc"
      "\<forall>a. \<not> in_page ?q a \<longrightarrow> pmem s' a = pmem s1 a"
    using usertrapret_same [OF s1(4), of env] al assms(6) s1(2) by auto
  moreover have "tf_get s1 p TF_epc = r_sepc (k_csr s)" by (simp add: tf_get_def s1 m_def)
  moreover have "upte s' pt = upte s pt"
    using tables_outside [OF assms(7-9), of "pmem s'"] r(3) fr by (simp add: fun_eq_iff upte_def s1(1))
  ultimately show ?thesis
    using cow_fault_other [OF inv _ _ assms(11)] assms(6,10) u s1(2,5) by (simp add: usertrap_end_def)
qed

text \<open>A kernel whose process, with one page of memory at address 0 and its trapframe in the last page, faults at \<open>va\<close>.\<close>

definition fault_machine :: "u64 \<Rightarrow> kern_st \<Rightarrow> kern_st" where
  "fault_machine va x = x\<lparr>pmem := demo_mem, kend := kend demo, freelist := freelist demo, kref := kref demo,
     procs := [blank_proc\<lparr>p_state := RUNNING, p_pagetable := pg 0, p_trapframe := pg 5\<rparr>], curproc := Some 0,
     k_csr := (\<lambda>_. 0)(Scause := 15, Stval := va, Sepc := 96)\<rparr>"

lemma fault_machine_inv: "pt_inv 2 (fault_machine va x) (pg 0)" "refcnt (fault_machine va x) = refcnt demo"
  "upte (fault_machine va x) = upte demo"
proof -
  have e: "pmem (fault_machine va x) = pmem demo" "kend (fault_machine va x) = kend demo"
    "freelist (fault_machine va x) = freelist demo" "kref (fault_machine va x) = kref demo"
    by (simp_all add: fault_machine_def demo_def)
  show "pt_inv 2 (fault_machine va x) (pg 0)" "upte (fault_machine va x) = upte demo"
    using kmem_same(1,2) [OF e] demo_pt_inv(1) by (simp_all add: fun_eq_iff)
  show "refcnt (fault_machine va x) = refcnt demo" by (rule refcnt_cong [OF e(2,4)])
qed

lemma demo_gap: "find_pte 2 demo_mem (pg 0) 4096 = Some (pg 2 + 8)" "upte demo (pg 0) 4096 = 0"
proof -
  have px: "PX 2 4096 = 0" "PX (Suc (Suc 0)) 4096 = 0" "PX (Suc 0) 4096 = 0" "PX 0 4096 = 1" by (simp_all add: PX_def)
  have e: "ent demo_mem (pg 0) 0 = pte_of (pg 1) 0" "ent demo_mem (pg 1) 0 = pte_of (pg 2) 0" "ent demo_mem (pg 2) 1 = 0"
    using demo_ent [of 0 0] demo_ent [of 0 1] demo_ent [of 1 2] by simp_all
  have two: "2 = Suc (Suc 0)" by simp
  show f: "find_pte 2 demo_mem (pg 0) 4096 = Some (pg 2 + 8)" unfolding two by (simp add: find_pte.simps(2) px e demo_child)
  have "PGROUNDDOWN 4096 = (4096 :: u64)" by (simp add: PGROUNDDOWN_def)
  then show "upte demo (pg 0) 4096 = 0" using e(3) f by (simp add: upte_def pte_val_def demo_def ent_def)
qed

theorem store_fault_unhandled_witness:
  "\<forall>env x. usertrap env (fault_machine MAXVA x) = Panic ''walk'' \<and>
     (\<exists>a s'. usertrap env (fault_machine 4096 x) = Ok (TUser a (MAKE_SATP (pg 0)) s') \<and> r_sepc (k_csr s') = 96)"
proof (intro allI conjI)
  fix env :: "kern_st kenv" and x :: kern_st
  have ne: "pg 5 \<noteq> pg 0" "pg 5 \<noteq> pg 1" "pg 5 \<noteq> pg 2" by (simp_all add: pg_eq)
  have s: "r_sstatus (k_csr (fault_machine va x)) AND SSTATUS_SPP = 0" "r_scause (k_csr (fault_machine va x)) = 15"
    "myproc (fault_machine va x) = Some 0" "killed 0 (fault_machine va x) = 0" "p_pagetable (procs (fault_machine va x) ! 0) = pg 0"
    "0 < refcnt (fault_machine va x) (p_trapframe (procs (fault_machine va x) ! 0))"
    "p_trapframe (procs (fault_machine va x) ! 0) \<notin> tabs 2 (pmem (fault_machine va x)) (pg 0)"
    "r_stval (k_csr (fault_machine va x)) = va" "r_sepc (k_csr (fault_machine va x)) = 96" "pmem (fault_machine va x) = demo_mem" for va
    unfolding fault_machine_inv using ne demo_pt(2) demo_refcnt
    by (simp_all add: fault_machine_def r_sstatus_def r_scause_def r_stval_def r_sepc_def myproc_def killed_def blank_proc_def)
  note C = store_fault_unhandled [OF s(1-5) fault_machine_inv(1) s(6,7) refl, unfolded s(8,9,10) fault_machine_inv(3)]
  have p: "PGROUNDDOWN 4096 = (4096 :: u64)" by (simp add: PGROUNDDOWN_def)
  show "\<exists>a s'. usertrap env (fault_machine 4096 x) = Ok (TUser a (MAKE_SATP (pg 0)) s') \<and> r_sepc (k_csr s') = 96"
    using C [of 4096 env] demo_gap p by auto
  show "usertrap env (fault_machine MAXVA x) = Panic ''walk''" using C [of MAXVA env] by simp
qed

end
