(* ===== verification/Bcache_List.thy ===== *)
theory Bcache_List
  imports Bio
begin

text \<open>
  The pointer structure of \<^verbatim>\<open>kernel/bio.c\<close>: the buffers form a circular doubly linked list through
  \<^verbatim>\<open>bcache.head\<close>, sorted by last use. Buffers are named by their index, the head by \<open>h\<close>; the pointer fields
  are functions of the buffer. The statements of \<^verbatim>\<open>binit\<close>, \<^verbatim>\<open>bget\<close> and \<^verbatim>\<open>brelse\<close> on these fields are shown to
  implement the list operations that theory \<open>Bio\<close> uses in their place.
\<close>

section \<open>The pointer operations\<close>

record links =
  nextp :: "nat \<Rightarrow> nat"
  prevp :: "nat \<Rightarrow> nat"

definition push_front :: "nat \<Rightarrow> nat \<Rightarrow> links \<Rightarrow> links" where
  "push_front h b l =
     (let l = l\<lparr>nextp := (nextp l)(b := nextp l h)\<rparr>;
          l = l\<lparr>prevp := (prevp l)(b := h)\<rparr>;
          l = l\<lparr>prevp := (prevp l)(nextp l h := b)\<rparr> in
      l\<lparr>nextp := (nextp l)(h := b)\<rparr>)"

definition unlink :: "nat \<Rightarrow> links \<Rightarrow> links" where
  "unlink b l =
     (let l = l\<lparr>prevp := (prevp l)(nextp l b := prevp l b)\<rparr> in
      l\<lparr>nextp := (nextp l)(prevp l b := nextp l b)\<rparr>)"

definition binit_links :: "nat \<Rightarrow> nat \<Rightarrow> links \<Rightarrow> links" where
  "binit_links h n l =
     fold (push_front h) [0..<n] (l\<lparr>prevp := (prevp l)(h := h), nextp := (nextp l)(h := h)\<rparr>)"

definition brelse_links :: "nat \<Rightarrow> nat \<Rightarrow> links \<Rightarrow> links" where
  "brelse_links h b l = push_front h b (unlink b l)"

text \<open>
  The two searches of \<^verbatim>\<open>bget\<close>: follow one kind of pointer from the head until the buffer is found or
  the head comes round. \<open>None\<close> means that the search does not end.
\<close>

partial_function (option) bget_scan :: "(nat \<Rightarrow> nat) \<Rightarrow> nat \<Rightarrow> (nat \<Rightarrow> bool) \<Rightarrow> nat \<Rightarrow> nat option option" where
  [code]: "bget_scan step h P b =
     (if b = h then Some None else if P b then Some (Some b) else bget_scan step h P (step b))"

definition bget_find :: "nat \<Rightarrow> links \<Rightarrow> (nat \<Rightarrow> bool) \<Rightarrow> nat option option" where
  "bget_find h l P = bget_scan (nextp l) h P (nextp l h)"

definition bget_victim :: "nat \<Rightarrow> links \<Rightarrow> (nat \<Rightarrow> bool) \<Rightarrow> nat option option" where
  "bget_victim h l P = bget_scan (prevp l) h P (prevp l h)"

section \<open>Paths\<close>

fun path :: "(nat \<Rightarrow> nat) \<Rightarrow> nat \<Rightarrow> nat list \<Rightarrow> nat \<Rightarrow> bool" where
  "path f p [] q \<longleftrightarrow> f p = q"
| "path f p (x # xs) q \<longleftrightarrow> f p = x \<and> path f x xs q"

lemma path_append [simp]: "path f p (xs @ y # ys) q \<longleftrightarrow> path f p xs y \<and> path f y ys q"
  by (induction xs arbitrary: p) auto

lemma path_upd [simp]: "a \<noteq> p \<Longrightarrow> a \<notin> set xs \<Longrightarrow> path (f(a := v)) p xs q = path f p xs q"
  by (induction xs arbitrary: p) auto

lemma path_last: "path f p xs q \<Longrightarrow> f (last (p # xs)) = q"
  by (induction xs arbitrary: p) auto

lemma path_redirect: "path f p xs q \<Longrightarrow> distinct (p # xs) \<Longrightarrow> path (f(last (p # xs) := r)) p xs r"
  by (induction xs arbitrary: p) (auto split: if_splits)

lemma path_hd: "path f p xs q \<Longrightarrow> f p = hd (xs @ [q])"
  by (cases xs) auto

text \<open>\<open>ring l h xs\<close>: from \<open>h\<close>, the next pointers visit \<open>xs\<close> in order and the previous pointers in reverse.\<close>

definition ring :: "links \<Rightarrow> nat \<Rightarrow> nat list \<Rightarrow> bool" where
  "ring l h xs \<longleftrightarrow> distinct (h # xs) \<and> path (nextp l) h xs h \<and> path (prevp l) h (rev xs) h"

lemma ring_split:
  "ring l h (ys @ b # zs) \<longleftrightarrow> distinct (h # ys @ b # zs) \<and> path (nextp l) h ys b \<and> path (nextp l) b zs h \<and>
     path (prevp l) h (rev zs) b \<and> path (prevp l) b (rev ys) h"
  by (auto simp: ring_def)

lemma chain_push:
  assumes "ring l h xs" "b \<noteq> h" "b \<notin> set xs"
  shows "ring (push_front h b l) h (b # xs)"
proof (cases xs)
  case Nil
  with assms show ?thesis by (simp add: ring_def push_front_def Let_def)
next
  case (Cons x ys)
  then have r: "distinct (h # x # ys)" "nextp l h = x" "path (nextp l) x ys h" "path (prevp l) h (rev ys) x" "prevp l x = h"
    using assms(1) by (auto simp: ring_def)
  then show ?thesis using Cons assms(2,3) by (auto simp: ring_def push_front_def Let_def)
qed

lemma ring_unlink:
  assumes "ring l h (ys @ b # zs)"
  shows "ring (unlink b l) h (ys @ zs)"
proof -
  note r = assms [unfolded ring_split]
  have n: "nextp l b = hd (zs @ [h])" "prevp l b = hd (rev ys @ [h])" using r path_hd by blast+
  have p': "prevp l b = last (h # ys)" using n(2) by (simp add: hd_append hd_rev)
  have n': "nextp l b = last (h # rev zs)" using n(1) by (simp add: hd_append last_rev)
  have ne: "nextp l b \<noteq> b" "prevp l b \<noteq> b"
    using r by (auto simp: n' p' last_rev split: if_splits)
  let ?n = "(nextp l)(prevp l b := nextp l b)" and ?p = "(prevp l)(nextp l b := prevp l b)"
  have u: "unlink b l = l\<lparr>prevp := ?p, nextp := ?n\<rparr>"
    using ne by (simp add: unlink_def Let_def)
  have "path ?n h ys (nextp l b)" unfolding p' by (rule path_redirect) (use r in auto)
  moreover have "path ?p h (rev zs) (prevp l b)" unfolding n' by (rule path_redirect) (use r in auto)
  ultimately show ?thesis using r n
    by (cases zs; cases ys rule: rev_cases) (auto simp: u ring_def)
qed

lemma ring_brelse:
  assumes "ring l h xs" "b \<in> set xs"
  shows "ring (brelse_links h b l) h (b # remove1 b xs)"
proof -
  obtain ys zs where xs: "xs = ys @ b # zs" "b \<notin> set ys" using split_list_first [OF assms(2)] by blast
  then have "ring (unlink b l) h (ys @ zs)" using ring_unlink assms(1) by simp
  moreover have "b \<noteq> h" "b \<notin> set (ys @ zs)" using assms(1) xs by (auto simp: ring_def)
  moreover have "remove1 b xs = ys @ zs" using xs by (simp add: remove1_append)
  ultimately show ?thesis using chain_push by (simp add: brelse_links_def)
qed

lemma ring_pushes:
  "ring l h xs \<Longrightarrow> h \<notin> set bs \<Longrightarrow> distinct (bs @ xs) \<Longrightarrow> ring (fold (push_front h) bs l) h (rev bs @ xs)"
proof (induction bs arbitrary: l xs)
  case (Cons b bs)
  then have "ring (push_front h b l) h (b # xs)" by (intro chain_push) auto
  from Cons.IH [OF this] Cons.prems show ?case by simp
qed simp

lemma ring_binit: "ring (binit_links n n l) n (rev [0..<n])"
  using ring_pushes [of "l\<lparr>prevp := (prevp l)(n := n), nextp := (nextp l)(n := n)\<rparr>" n "[]" "[0..<n]"]
  by (simp add: binit_links_def ring_def)

lemma bget_scan_find: "path f p xs h \<Longrightarrow> h \<notin> set xs \<Longrightarrow> bget_scan f h P (f p) = Some (find P xs)"
proof (induction xs arbitrary: p)
  case Nil
  then show ?case by (subst bget_scan.simps) simp
next
  case (Cons x xs)
  then show ?case using Cons.IH [of x] by (subst bget_scan.simps) auto
qed

text \<open>\<open>recency n bs\<close>: the order of the buffers after the buffers \<open>bs\<close> were given up in that order.\<close>

definition recency :: "nat \<Rightarrow> nat list \<Rightarrow> nat list" where
  "recency n bs = fold (\<lambda>b xs. b # remove1 b xs) bs (rev [0..<n])"

lemma recency_set: "\<forall>b\<in>set bs. b < n \<Longrightarrow> set (recency n bs) = {..<n} \<and> distinct (recency n bs)"
  by (induction bs rule: rev_induct) (auto simp: recency_def)

lemma ring_recency:
  "\<forall>b\<in>set bs. b < n \<Longrightarrow> ring (fold (brelse_links n) bs (binit_links n n l)) n (recency n bs)"
proof (induction bs rule: rev_induct)
  case Nil
  then show ?case by (simp add: recency_def ring_binit)
next
  case (snoc b bs)
  then have "ring (fold (brelse_links n) bs (binit_links n n l)) n (recency n bs)" "b \<in> set (recency n bs)"
    using recency_set [of bs n] by auto
  from ring_brelse [OF this] show ?case by (simp add: recency_def)
qed

text \<open>
  C19: the pointer code implements the recency list. After \<^verbatim>\<open>binit\<close> and any sequence of \<^verbatim>\<open>brelse\<close> list moves, both
  searches of \<^verbatim>\<open>bget\<close> terminate: the forward one finds the most recently used buffer that matches, the
  backward one the least recently used buffer that matches, and they report failure exactly when
  no buffer matches.
\<close>

theorem bcache_list_refines:
  assumes "\<forall>b\<in>set bs. b < n"
  shows "bget_find n (fold (brelse_links n) bs (binit_links n n l)) P = Some (find P (recency n bs)) \<and>
    bget_victim n (fold (brelse_links n) bs (binit_links n n l)) P = Some (find P (rev (recency n bs)))"
  using ring_recency [OF assms, of l] by (auto simp: bget_find_def bget_victim_def ring_def bget_scan_find)

theorem bcache_list_refines_witness:
  "bget_victim 3 (fold (brelse_links 3) [0, 2] (binit_links 3 3 \<lparr>nextp = id, prevp = id\<rparr>)) (\<lambda>b. b \<noteq> 1) = Some (Some 0)"
  using bcache_list_refines [of "[0, 2]" 3 "\<lparr>nextp = id, prevp = id\<rparr>" "\<lambda>b. b \<noteq> 1"]
  by (simp add: recency_def upt_rec)

end
