(* ===== verification/Wal_Crash.thy ===== *)
theory Wal_Crash
  imports Wal
begin

text \<open>
  Properties of the log: a logged update, the end of a transaction, and atomicity of a commit under crashes.
\<close>

section \<open>Booting\<close>

text \<open>A machine just booted with disk \<open>d\<close>: the block cache is empty.\<close>

definition booted :: "'a log_st_scheme \<Rightarrow> (u32 \<Rightarrow> u8 list) \<Rightarrow> bool" where
  "booted r d \<longleftrightarrow> bio_inv r \<and> (\<forall>n. slot r n = None) \<and> disk r = d \<and> 2 \<le> length (bufs r)"

lemma booted_view:
  assumes "booted r d"
  shows "blk r = d" "disk r = d" "refs r = (\<lambda>_. 0)" "locks r = (\<lambda>_. None)" "idle r" "in_use r = 0" "2 \<le> length (bufs r)"
proof -
  have s: "slot r n = None" for n using assms by (simp add: booted_def)
  show "blk r = d" "disk r = d" "refs r = (\<lambda>_. 0)" "locks r = (\<lambda>_. None)" "2 \<le> length (bufs r)"
    using slot_None [OF s] assms by (auto simp: booted_def fun_eq_iff)
  then show "idle r" "in_use r = 0" using assms by (simp_all add: idle_def booted_def in_use_def)
qed

lemma initlog_spec:
  assumes b: "booted r d" and ok: "head_ok (sb_logstart sb) (d (sb_logstart sb))"
  shows "\<exists>r'. initlog 1 sb r = Ok r' \<and> idle r' \<and>
    disk r' = apply_ws (recovery_ws (d (sb_logstart sb)) (sb_logstart sb) d) d"
proof -
  define s where "s = r\<lparr>lg_start := sb_logstart sb, lg_size := sb_nlog sb, lg_dev := 1\<rparr>"
  have e: "bufs s = bufs r" "lru s = lru r" "disk s = disk r" "dwrites s = dwrites r" "procs s = procs r" "curproc s = curproc r"
    by (simp_all add: s_def)
  note sc = same_cache [OF e]
  note v = view_eqD [OF sc(1), simplified] and B = booted_view [OF b]
  have i: "idle s" "Suc (in_use s) < length (bufs s)" "lg_dev s = 1" "lg_start s = sb_logstart sb"
    using B sc by (simp_all add: s_def)
  have "head_ok (lg_start s) (blk s (lg_start s))" using ok by (simp add: i v B)
  from recover_spec [OF i(1-3) this] obtain r' where "recover_from_log s = Ok r'" "idle r'"
    "view r' = (view s)\<lparr>v_blk := apply_ws (recovery_ws (blk s (lg_start s)) (lg_start s) (blk s)) (blk s),
      v_disk := apply_ws (recovery_ws (blk s (lg_start s)) (lg_start s) (blk s)) (disk s),
      v_writes := dwrites s @ recovery_ws (blk s (lg_start s)) (lg_start s) (blk s)\<rparr>" by blast
  then show ?thesis using view_eqD(4) [of r'] i B v
    by (simp add: initlog_def s_def LOGSIZE_def BSIZE_def)
qed

lemma crash_cases:
  fixes k :: nat
  assumes tx: "tx_ok s" and b: "b \<notin> logarea (lg_start s)"
  defines "d \<equiv> apply_ws (take k (commit_ws s)) (disk s)"
  shows "head_ok (lg_start s) (d (lg_start s)) \<and> apply_ws (recovery_ws (d (lg_start s)) (lg_start s) d) d b =
    (if k \<le> nlog s then disk s b else blk s b)"
proof -
  consider "k \<le> nlog s" | j where "k = Suc (nlog s) + j" "j \<le> nlog s" | "length (commit_ws s) \<le> k"
  proof (cases "k \<le> 2 * nlog s + 1")
    case True
    then show ?thesis using that(1) that(2) [of "k - Suc (nlog s)"] by (cases "k \<le> nlog s") auto
  next
    case False
    then show ?thesis by (intro that(3)) (simp add: commit_ws_def log_ws_def home_ws_def)
  qed
  then show ?thesis
  proof cases
    case 1
    then show ?thesis using crash_old [OF tx 1 b] by (simp add: d_def)
  next
    case (2 j)
    then have "take k (commit_ws s) = log_ws s @ [(lg_start s, full_head s)] @ take j (home_ws s)"
      by (simp add: commit_ws_def log_ws_def home_ws_def)
    then show ?thesis using crash_new [OF tx 2(2) b] 2(1) by (simp add: d_def)
  next
    case 3
    then have "take k (commit_ws s) = commit_ws s" "\<not> k \<le> nlog s" by (auto simp: commit_ws_def log_ws_def home_ws_def)
    then show ?thesis using crash_done [OF tx b] by (simp add: d_def)
  qed
qed

section \<open>The end of a transaction\<close>

lemma apply_ws_agree: "d b = e b \<or> b \<in> fst ` set ws \<Longrightarrow> apply_ws ws d b = apply_ws ws e b"
proof (induction ws arbitrary: d e)
  case (Cons w ws)
  obtain n x where w: "w = (n, x)" by fastforce
  have "(d(n := x)) b = (e(n := x)) b \<or> b \<in> fst ` set ws" using Cons.prems w by auto
  from Cons.IH [of "d(n := x)" "e(n := x)", OF this] show ?case unfolding w apply_ws_simps .
qed simp

lemma quiet_cong:
  assumes "bufs s' = bufs s" "lru s' = lru s" "disk s' = disk s" "dwrites s' = dwrites s" "procs s' = procs s" "curproc s' = curproc s"
    and f: "lg_start s' = lg_start s" "lg_dev s' = lg_dev s" "lh_n s' = lh_n s" "lh_block s' = lh_block s"
  shows "quiet s' = quiet s"
proof -
  note sc = same_cache [OF assms(1-6)] and v = view_eqD [OF same_cache(1) [OF assms(1-6)], simplified]
  have e: "nlog s' = nlog s" "logged s' = logged s" by (simp_all add: nlog_def logged_def f)
  have "tx_ok s' = tx_ok s" unfolding tx_ok_def by (simp add: sc v e f assms(1))
  then show ?thesis by (simp add: quiet_def e v)
qed

lemma quiet_fields:
  "quiet (s\<lparr>lg_outstanding := a\<rparr>) = quiet s" "quiet (s\<lparr>lg_committing := c\<rparr>) = quiet s"
  "quiet (s\<lparr>lg_outstanding := a, lg_committing := c\<rparr>) = quiet s"
  by (rule quiet_cong; simp)+

definition done_tx :: "'a log_st_scheme \<Rightarrow> 'a log_st_scheme \<Rightarrow> bool" where
  "done_tx s s' \<longleftrightarrow> quiet s' \<and> lh_n s' = 0 \<and> (\<forall>b. b \<notin> logarea (lg_start s) \<longrightarrow> blk s' b = blk s b \<and> disk s' b = blk s b)"

lemma commit_quiet:
  assumes q: "quiet s"
  shows "\<exists>s'. commit s = Ok s' \<and> done_tx s s' \<and> lkept s s'"
proof (cases "0 < nlog s")
  case True
  have tx: "tx_ok s" using q by (simp add: quiet_def)
  note T = tx_okD [OF tx]
  obtain s' where 1: "commit s = Ok s'" "idle s'" "kept (s\<lparr>lh_n := 0\<rparr>) s'"
    "view s' = (view s)\<lparr>v_blk := apply_ws (commit_ws s) (blk s), v_disk := apply_ws (commit_ws s) (disk s),
      v_writes := dwrites s @ commit_ws s,
      v_refs := (\<lambda>m. if m \<in> (\<lambda>t. lh_block s ! t) ` {..<nlog s} then refs s m - 1 else refs s m)\<rparr>"
    using commit_spec [OF tx True] by blast
  note v = view_eqD [OF 1(4), simplified] and k = kept_log [OF 1(3), simplified]
  have clean: "apply_ws (commit_ws s) (blk s) b = apply_ws (commit_ws s) (disk s) b" for b
  proof (rule apply_ws_agree)
    show "blk s b = disk s b \<or> b \<in> fst ` set (commit_ws s)"
      using T(10) [of b] fst_home_ws [of s] by (auto simp: commit_ws_def)
  qed
  have r0: "refs s' m = 0" for m using q by (simp add: v quiet_def logged_def)
  have z: "nlog s' = 0" "logged s' = {}" by (simp_all add: nlog_def logged_def k)
  have h: "disk s' (lg_start s) = set_int (full_head s) 0 0" by (simp add: v commit_ws_def)
  have "0 < length (bufs s)" using T(3) by linarith
  then have "tx_ok s'" unfolding tx_ok_def using 1(2) T full_head_get(1) [OF tx]
    by (simp add: k z r0 in_use_def v(1,4) clean h [unfolded v(4)] BSIZE_def)
  then have "quiet s'" by (simp add: quiet_def z r0)
  moreover have "disk s' b = blk s b" "blk s' b = blk s b" if "b \<notin> logarea (lg_start s)" for b
    using crash_done [OF tx that] clean [of b] by (simp_all add: v)
  moreover have "lkept s s'"
    using kept_lkept [OF 1(3)] by (simp add: lkept_def)
  ultimately show ?thesis using 1(1) k by (auto simp: done_tx_def)
next
  case False
  then have n: "nlog s = 0" "sint (lh_n s) = 0" using q tx_okD(6) [of s] by (auto simp: nlog_def quiet_def)
  then have "lh_n s = 0" by (metis signed_0 signed_word_eqI)
  moreover have "blk s b = disk s b" for b using q tx_okD(10) [of s b] n by (simp add: quiet_def)
  ultimately show ?thesis using q n by (auto simp: commit_def done_tx_def)
qed

text \<open>A machine with a log of 30 blocks at block 2, in the middle of one operation that has written nothing yet.\<close>

definition log_machine :: "(u32 \<Rightarrow> u8 list) \<Rightarrow> log_st" where
  "log_machine d = binit \<lparr>pmem = (\<lambda>_. 0), kend = 0x87FFF000, freelist = 0, kref = (\<lambda>_. 0),
     procs = [blank_proc\<lparr>p_state := RUNNING, p_pid := 1\<rparr>], curproc = Some 0,
     nextpid = 9, initproc = None, ticks = 0, intr = False, trampoline = 0x80007000, forkret_pc = 0x80001000,
     bufs = replicate NBUF blank_buf, lru = [], disk = d, dwrites = [],
     lg_start = 2, lg_size = 30, lg_outstanding = 1, lg_committing = 0, lg_dev = 1, lh_n = 0, lh_block = replicate LOGSIZE 0\<rparr>"

lemma log_machine_boot: "booted (log_machine d) d"
proof -
  have "bio_inv (log_machine d) \<and> (\<forall>n. slot (log_machine d) n = None)"
    unfolding log_machine_def by (rule binit_inv) (auto simp: myproc_def blank_buf_def)
  then show ?thesis by (simp add: booted_def) (simp add: log_machine_def binit_def NBUF_def)
qed

lemma log_machine_fields [simp]:
  "lg_start (log_machine d) = 2" "lg_size (log_machine d) = 30" "lg_outstanding (log_machine d) = 1" "lg_committing (log_machine d) = 0"
  "lg_dev (log_machine d) = 1" "lh_n (log_machine d) = 0" "lh_block (log_machine d) = replicate LOGSIZE 0" "length (bufs (log_machine d)) = 30"
  by (simp_all add: log_machine_def binit_def NBUF_def)

definition zero_disk :: "u32 \<Rightarrow> u8 list" where
  "zero_disk n = replicate BSIZE 0"

lemma log_machine_quiet: "quiet (log_machine zero_disk)" "can_log (log_machine zero_disk)" "nlog (log_machine zero_disk) = 0"
proof -
  note B = booted_view [OF log_machine_boot [of zero_disk]]
  show n: "nlog (log_machine zero_disk) = 0" by (simp add: nlog_def)
  show "can_log (log_machine zero_disk)" by (simp add: can_log_def n LOGSIZE_def)
  have "get_int (replicate BSIZE 0) 0 = 0" by (simp add: get_int_def BSIZE_def)
  then have "tx_ok (log_machine zero_disk)" using B by (simp add: tx_ok_def n zero_disk_def LOGSIZE_def)
  then show "quiet (log_machine zero_disk)" using B by (simp add: quiet_def logged_def n)
qed

lemma area2: "n < 32 \<and> n \<ge> 2 \<or> n \<notin> logarea 2"
proof -
  have "n < 32 \<and> n \<ge> 2" if "n \<in> logarea 2"
  proof -
    from that consider "n = 2" | t where "t < LOGSIZE - 1" "n = 2 + of_nat t + 1" by (auto simp: logarea_def)
    then show ?thesis
    proof cases
      case (2 t)
      then have "n = of_nat (t + 3)" by simp
      moreover have "unat (of_nat (t + 3) :: u32) = t + 3" using 2(1) by (intro unat_of_nat_less) (simp add: LOGSIZE_def)
      ultimately have "unat n = t + 3" by simp
      then show ?thesis using 2(1) by (simp add: word_less_nat_alt word_le_nat_alt LOGSIZE_def)
    qed simp
  qed
  then show ?thesis by blast
qed

text \<open>The machine after one logged update of block 50.\<close>

lemma demo_tx:
  "\<exists>s :: log_st. quiet s \<and> nlog s = 1 \<and> lg_start s = 2 \<and> lg_outstanding s = 1 \<and> lg_committing s = 0 \<and> blk s 50 = [7] \<and> disk s = zero_disk"
proof -
  let ?m = "log_machine zero_disk"
  obtain i s1 where 1: "bread 1 50 ?m = Ok (i, s1)" "bio_inv s1" "cached s1 i 50" "bframe ?m s1" "refs s1 50 \<noteq> 0"
    "locks s1 50 = Some (mypid s1)" "view s1 = (view ?m)\<lparr>v_refs := (refs ?m)(50 := refs ?m 50 + 1), v_lock := (locks ?m)(50 := Some (mypid ?m))\<rparr>"
    using quiet_bread [OF log_machine_quiet(1), of 50] by blast
  have p: "Suc (nlog ?m) < length (bufs ?m)" "50 \<notin> logarea (lg_start ?m)" using area2 [of 50] by (auto simp: log_machine_quiet)
  from quiet_update [OF log_machine_quiet(1,2) p 1(2-7), of "[7]"] obtain s where
    "quiet s" "lkept ?m s" "blk s = (blk ?m)(50 := [7])" "disk s = disk ?m" "nlog s = 1"
    by (auto simp: logged_def log_machine_quiet)
  then show ?thesis using lkept_log [of ?m s] booted_view(2) [OF log_machine_boot [of zero_disk]] by auto
qed

section \<open>Properties\<close>

text \<open>
  C1: a commit is atomic under crashes. Take a transaction ready to commit. \<^verbatim>\<open>commit\<close> returns; and if the machine
  stops after any number \<open>k\<close> of its disk writes and boots again from the disk as it then is, \<^verbatim>\<open>initlog\<close>
  returns, and outside the log area the disk holds all the old blocks when the header was not yet written and
  all the new blocks from then on, never a mixture.
\<close>

theorem commit_crash_atomic:
  assumes tx: "tx_ok s" and n: "0 < nlog s" and sb: "sb_logstart sb = lg_start s"
  shows "\<exists>s'. commit s = Ok s' \<and>
    (\<forall>k. \<forall>r :: 'b log_st_scheme. booted r (apply_ws (take k (drop (length (dwrites s)) (dwrites s'))) (disk s)) \<longrightarrow>
      (\<exists>r'. initlog 1 sb r = Ok r' \<and>
        (\<forall>b. b \<notin> logarea (lg_start s) \<longrightarrow> disk r' b = (if k \<le> nlog s then disk s b else blk s b))))"
proof -
  obtain s' where c: "commit s = Ok s'" and "dwrites s' = dwrites s @ commit_ws s"
    using commit_spec [OF tx n] view_eqD(5) by fastforce
  then have ws: "drop (length (dwrites s)) (dwrites s') = commit_ws s" by simp
  have "\<exists>r'. initlog 1 sb r = Ok r' \<and> (\<forall>b. b \<notin> logarea (lg_start s) \<longrightarrow> disk r' b = (if k \<le> nlog s then disk s b else blk s b))"
    if b: "booted r (apply_ws (take k (commit_ws s)) (disk s))" for k and r :: "'b log_st_scheme"
  proof -
    let ?d = "apply_ws (take k (commit_ws s)) (disk s)"
    obtain x where "x \<notin> logarea (lg_start s)" using tx_okD(9) [OF tx, of 0] n by blast
    then have "head_ok (sb_logstart sb) (?d (sb_logstart sb))" using crash_cases [OF tx, of x k] sb by simp
    then obtain r' where "initlog 1 sb r = Ok r'"
      "disk r' = apply_ws (recovery_ws (?d (sb_logstart sb)) (sb_logstart sb) ?d) ?d"
      using initlog_spec [OF b] by blast
    then show ?thesis using crash_cases [OF tx, of _ k] sb by simp
  qed
  then show ?thesis using c ws by auto
qed

theorem commit_crash_atomic_witness:
  "\<exists>(s :: log_st) s' r'. nlog s = 1 \<and> disk s = zero_disk \<and> commit s = Ok s' \<and>
     initlog 1 (get_super (replicate 20 0 @ [2] @ replicate 20 0))
       (log_machine (apply_ws (take 2 (drop (length (dwrites s)) (dwrites s'))) (disk s))) = Ok r' \<and> disk r' 50 = [7]"
proof -
  obtain s :: log_st where s: "quiet s" "nlog s = 1" "lg_start s = 2" "blk s 50 = [7]" "disk s = zero_disk" using demo_tx by blast
  have sb: "sb_logstart (get_super (replicate 20 0 @ [2] @ replicate 20 0)) = lg_start s"
    by (simp add: get_super_def get_int_def nth_append s(3))
  have "tx_ok s" "0 < nlog s" using s by (simp_all add: quiet_def)
  from commit_crash_atomic [where 'b = unit, OF this sb] obtain s' where c: "commit s = Ok s'"
    and r: "\<And>k r. booted r (apply_ws (take k (drop (length (dwrites s)) (dwrites s'))) (disk s)) \<Longrightarrow>
      \<exists>r' :: log_st. initlog 1 (get_super (replicate 20 0 @ [2] @ replicate 20 0)) r = Ok r' \<and>
        (\<forall>b. b \<notin> logarea (lg_start s) \<longrightarrow> disk r' b = (if k \<le> nlog s then disk s b else blk s b))" by blast
  from r [OF log_machine_boot [of "apply_ws (take 2 (drop (length (dwrites s)) (dwrites s'))) (disk s)"]]
  show ?thesis using s c area2 [of 50] by - (rule exI [of _ s], rule exI [of _ s'], auto)
qed

text \<open>
  Inside a transaction, reading a block, changing its data, recording it with \<^verbatim>\<open>log_write\<close> and releasing it makes
  the new contents visible through the cache, leaves the disk untouched, records the block once however often
  it is written, and leaves a state in which the transaction can go on or commit.
\<close>

lemma logged_update:
  assumes "quiet s" "can_log s" "Suc (nlog s) < length (bufs s)" "n \<notin> logarea (lg_start s)"
  shows "\<exists>s'. rbind (bread 1 n s) (\<lambda>(i, s). rbind (log_write i (set_data i d s)) (\<lambda>s. brelse i s)) = Ok s' \<and>
    quiet s' \<and> blk s' = (blk s)(n := d) \<and> disk s' = disk s \<and> dwrites s' = dwrites s \<and>
    logged s' = insert n (logged s) \<and> nlog s' = (if n \<in> logged s then nlog s else Suc (nlog s))"
proof -
  obtain i s1 where 1: "bread 1 n s = Ok (i, s1)" "bio_inv s1" "cached s1 i n" "bframe s s1" "refs s1 n \<noteq> 0"
    "locks s1 n = Some (mypid s1)" "view s1 = (view s)\<lparr>v_refs := (refs s)(n := refs s n + 1), v_lock := (locks s)(n := Some (mypid s))\<rparr>"
    using quiet_bread [OF assms(1)] by blast
  from quiet_update [OF assms 1(2-7), of d] show ?thesis using 1(1) by auto
qed

text \<open>
  C20: when the last operation of a transaction ends, \<^verbatim>\<open>end_op\<close> returns, every block outside the log area is on disk as
  the operations left it in the cache, and the log is empty again.
\<close>

theorem end_op_durable:
  assumes "quiet s" "lg_outstanding s = 1" "lg_committing s = 0"
  shows "\<exists>s'. end_op s = Ok s' \<and> quiet s' \<and> nlog s' = 0 \<and> lg_outstanding s' = 0 \<and> lg_committing s' = 0 \<and>
    (\<forall>b. b \<notin> logarea (lg_start s) \<longrightarrow> disk s' b = blk s b \<and> blk s' b = blk s b)"
proof -
  define t where "t = s\<lparr>lg_outstanding := 0, lg_committing := 1\<rparr>"
  have bt: "blk t = blk s" using same_cache(1) [of t s] by (auto simp: t_def dest: view_eqD(1))
  have "quiet t" using assms(1) by (simp add: t_def quiet_fields)
  from commit_quiet [OF this] obtain u where u: "commit t = Ok u" "done_tx t u" "lkept t u" by blast
  define w where "w = u\<lparr>lg_committing := 0\<rparr>"
  have vw: "view w = view u" by (rule same_cache(1)) (simp_all add: w_def)
  have qw: "quiet w" using u(2) by (simp add: w_def quiet_fields done_tx_def)
  then have iw: "bio_inv w" using tx_okD(1) [of w] by (simp add: quiet_def idle_def)
  have W: "bio_inv (wakeup ChLog w)" "view (wakeup ChLog w) = view w" "kept w (wakeup ChLog w)"
    using wakeup_spec [OF iw, of ChLog] bframe_kept by auto
  note k = kept_log [OF W(3)] and v = view_eqD [OF W(2) [unfolded vw], simplified]
  have "quiet (wakeup ChLog w)" by (rule quiet_same [OF qw W(1,3,2)])
  moreover have "end_op s = Ok (wakeup ChLog w)" using assms u(1) by (simp add: end_op_def t_def w_def)
  moreover have "lg_outstanding u = 0" "lg_start t = lg_start s" using lkept_log(3) [OF u(3)] by (simp_all add: t_def)
  ultimately show ?thesis using u(2) bt k v by (simp add: done_tx_def nlog_def w_def)
qed

theorem end_op_durable_witness:
  "\<exists>(s :: log_st) s'. disk s = zero_disk \<and> end_op s = Ok s' \<and> disk s' 50 = [7] \<and> nlog s' = 0"
proof -
  obtain s :: log_st where s: "quiet s" "lg_start s = 2" "lg_outstanding s = 1" "lg_committing s = 0" "blk s 50 = [7]" "disk s = zero_disk"
    using demo_tx by blast
  from end_op_durable [OF s(1,3,4)] show ?thesis using s area2 [of 50] by - (rule exI [of _ s], auto)
qed

end
