(* ===== verification/Grep.thy ===== *)
theory Grep
  imports Ulib
begin

text \<open>
  \<^verbatim>\<open>user/grep.c\<close>: the regular-expression matcher, shown to decide a denotational meaning of patterns, and the
  loop that cuts the input into lines, shown to print the matching lines however \<^verbatim>\<open>read\<close> splits the input.
\<close>

section \<open>The matcher\<close>

text \<open>\<open>re\<close> and \<open>txs\<close> are the strings from the pointers on; \<open>chr0 (tl re)\<close> is \<^verbatim>\<open>re[1]\<close>.\<close>

definition dot :: u8 where "dot = byte_of CHR ''.''"
definition star :: u8 where "star = byte_of CHR ''*''"
definition dollar :: u8 where "dollar = byte_of CHR ''$''"
definition caret :: u8 where "caret = byte_of CHR ''^''"
definition newline :: u8 where "newline = 10"

lemma chr0_pos: "chr0 xs \<noteq> 0 \<Longrightarrow> 0 < length xs"
  by (cases xs) auto

definition match_size :: "u8 list \<times> u8 list + u8 \<times> u8 list \<times> u8 list \<Rightarrow> nat" where
  "match_size x = (case x of Inl (re, t) \<Rightarrow> 2 * (length re + length t) | Inr (c, re, t) \<Rightarrow> Suc (2 * (length re + length t)))"

function matchhere :: "u8 list \<Rightarrow> u8 list \<Rightarrow> bool" and matchstar :: "u8 \<Rightarrow> u8 list \<Rightarrow> u8 list \<Rightarrow> bool" where
  "matchhere re txs =
     (if chr0 re = 0 then True
      else if chr0 (tl re) = star then matchstar (chr0 re) (tl (tl re)) txs
      else if chr0 re = dollar \<and> chr0 (tl re) = 0 then chr0 txs = 0
      else if chr0 txs \<noteq> 0 \<and> (chr0 re = dot \<or> chr0 re = chr0 txs) then matchhere (tl re) (tl txs)
      else False)"
| "matchstar c re txs =
     (if matchhere re txs then True
      else if chr0 txs \<noteq> 0 \<and> (chr0 txs = c \<or> c = dot) then matchstar c re (tl txs)
      else False)"
  by pat_completeness auto
termination
proof (relation "measure match_size", goal_cases)
  case (2 re txs)
  then show ?case by (cases re) (auto simp: match_size_def)
next
  case (3 re txs)
  then show ?case by (cases re) (auto simp: match_size_def)
next
  case (5 c re txs)
  then show ?case using chr0_pos [of txs] by (simp add: match_size_def)
qed (simp_all add: match_size_def)

declare matchhere.simps [simp del] matchstar.simps [simp del]

function match_from :: "u8 list \<Rightarrow> u8 list \<Rightarrow> bool" where
  "match_from re txs =
     (if matchhere re txs then True else if chr0 txs \<noteq> 0 then match_from re (tl txs) else False)"
  by pat_completeness auto
termination
proof (relation "measure (\<lambda>(re, t). length t)", goal_cases)
  case (2 re txs)
  then show ?case using chr0_pos [of txs] by simp
qed simp

declare match_from.simps [simp del]

definition match :: "u8 list \<Rightarrow> u8 list \<Rightarrow> bool" where
  "match re txs = (if chr0 re = caret then matchhere (tl re) txs else match_from re txs)"

section \<open>The meaning of patterns\<close>

datatype piece = One u8 | Many u8

text \<open>A pattern is a sequence of pieces, possibly anchored at the end; \<open>parse\<close> reads it from its txs.\<close>

fun parse :: "u8 list \<Rightarrow> piece list \<times> bool" where
  "parse [] = ([], False)"
| "parse [c] = (if c = dollar then ([], True) else ([One c], False))"
| "parse (c # d # re) =
     (if d = star then (case parse re of (ps, e) \<Rightarrow> (Many c # ps, e))
      else (case parse (d # re) of (ps, e) \<Rightarrow> (One c # ps, e)))"

definition accepts :: "u8 \<Rightarrow> u8 \<Rightarrow> bool" where
  "accepts c x \<longleftrightarrow> c = dot \<or> c = x"

fun lang :: "piece list \<Rightarrow> u8 list set" where
  "lang [] = {[]}"
| "lang (One c # ps) = {x # v | x v. accepts c x \<and> v \<in> lang ps}"
| "lang (Many c # ps) = {u @ v | u v. (\<forall>x\<in>set u. accepts c x) \<and> v \<in> lang ps}"

definition hits :: "piece list \<Rightarrow> bool \<Rightarrow> u8 list \<Rightarrow> bool" where
  "hits ps e txs \<longleftrightarrow> (\<exists>v w. txs = v @ w \<and> v \<in> lang ps \<and> (e \<longrightarrow> w = []))"

text \<open>A pattern is found in a txs if some part of it is in the language, at the ends the anchors ask for.\<close>

definition found :: "u8 list \<Rightarrow> u8 list \<Rightarrow> bool" where
  "found re txs \<longleftrightarrow>
     (let bol = (chr0 re = caret); (ps, eol) = parse (if bol then tl re else re) in
      \<exists>u v w. txs = u @ v @ w \<and> v \<in> lang ps \<and> (bol \<longrightarrow> u = []) \<and> (eol \<longrightarrow> w = []))"

lemma hitsI: "v \<in> lang ps \<Longrightarrow> e \<longrightarrow> w = [] \<Longrightarrow> hits ps e (v @ w)"
  unfolding hits_def by blast

lemma manyI: "\<forall>x\<in>set u. accepts c x \<Longrightarrow> v \<in> lang ps \<Longrightarrow> u @ v \<in> lang (Many c # ps)"
  unfolding lang.simps by blast

lemma hitsE:
  assumes "hits ps e txs"
  obtains v w where "txs = v @ w" "v \<in> lang ps" "e \<longrightarrow> w = []"
  using assms unfolding hits_def by blast

lemma hits_Nil [simp]: "hits [] e txs \<longleftrightarrow> (e \<longrightarrow> txs = [])"
  by (auto simp: hits_def)

lemma hits_One [simp]: "hits (One c # ps) e txs \<longleftrightarrow> (\<exists>x t. txs = x # t \<and> accepts c x \<and> hits ps e t)"
proof
  assume "hits (One c # ps) e txs"
  then show "\<exists>x t. txs = x # t \<and> accepts c x \<and> hits ps e t"
    by (elim hitsE) (auto intro: hitsI hitsI [of _ _ _ "[]", simplified])
next
  assume "\<exists>x t. txs = x # t \<and> accepts c x \<and> hits ps e t"
  then obtain x t where t: "txs = x # t" "accepts c x" "hits ps e t" by blast
  from t(3) show "hits (One c # ps) e txs"
  proof (rule hitsE)
    fix v w assume "t = v @ w" "v \<in> lang ps" "e \<longrightarrow> w = []"
    then show ?thesis using t hitsI [of "x # v" "One c # ps" e w] by simp
  qed
qed

lemma hits_Many: "hits (Many c # ps) e txs \<longleftrightarrow> hits ps e txs \<or> (\<exists>x t. txs = x # t \<and> accepts c x \<and> hits (Many c # ps) e t)"
proof
  assume "hits (Many c # ps) e txs"
  then obtain v' w where 1: "txs = v' @ w" "v' \<in> lang (Many c # ps)" "e \<longrightarrow> w = []" by (blast elim: hitsE)
  then obtain u v where 2: "v' = u @ v" "\<forall>x\<in>set u. accepts c x" "v \<in> lang ps" by auto
  show "hits ps e txs \<or> (\<exists>x t. txs = x # t \<and> accepts c x \<and> hits (Many c # ps) e t)"
  proof (cases u)
    case Nil
    then show ?thesis using 1 2 hitsI [of v ps e w] by simp
  next
    case (Cons x u')
    then have "u' @ v \<in> lang (Many c # ps)" using 2 by (intro manyI) simp_all
    then show ?thesis using 1 2 Cons hitsI [of "u' @ v" "Many c # ps" e w] by simp
  qed
next
  assume "hits ps e txs \<or> (\<exists>x t. txs = x # t \<and> accepts c x \<and> hits (Many c # ps) e t)"
  then show "hits (Many c # ps) e txs"
  proof
    assume "hits ps e txs"
    then obtain v w where 1: "txs = v @ w" "v \<in> lang ps" "e \<longrightarrow> w = []" by (blast elim: hitsE)
    then have "[] @ v \<in> lang (Many c # ps)" by (intro manyI) simp_all
    then show ?thesis using 1 hitsI [of v "Many c # ps" e w] by simp
  next
    assume "\<exists>x t. txs = x # t \<and> accepts c x \<and> hits (Many c # ps) e t"
    then obtain x t where t: "txs = x # t" "accepts c x" "hits (Many c # ps) e t" by blast
    obtain v' w where 1: "t = v' @ w" "v' \<in> lang (Many c # ps)" "e \<longrightarrow> w = []" using t(3) by (blast elim: hitsE)
    then obtain u v where 2: "v' = u @ v" "\<forall>x\<in>set u. accepts c x" "v \<in> lang ps" by auto
    then have "(x # u) @ v \<in> lang (Many c # ps)" using t(2) by (intro manyI) simp_all
    then show ?thesis using 1 2(1) t hitsI [of "x # u @ v" "Many c # ps" e w] by simp
  qed
qed

lemma star_ne_0 [simp]: "star \<noteq> 0" by (simp add: star_def byte_of_def)

lemma chr0_eq_0: "0 \<notin> set xs \<Longrightarrow> chr0 xs = 0 \<longleftrightarrow> xs = []"
  by (cases xs) auto

lemma notin_tl: "0 \<notin> set xs \<Longrightarrow> 0 \<notin> set (tl xs)"
  by (cases xs) auto

lemma matchhere_cases:
  assumes "0 \<notin> set re" "0 \<notin> set txs"
  shows "matchhere re txs = (case re of [] \<Rightarrow> True
    | [a] \<Rightarrow> if a = dollar then txs = [] else (\<exists>x t. txs = x # t \<and> accepts a x \<and> matchhere [] t)
    | a # b # r \<Rightarrow> if b = star then matchstar a r txs else (\<exists>x t. txs = x # t \<and> accepts a x \<and> matchhere (b # r) t))"
  using assms chr0_eq_0 [OF assms(2)]
  by (subst matchhere.simps) (cases txs; auto simp: accepts_def split: list.split)

lemma matchstar_cases:
  assumes "0 \<notin> set txs"
  shows "matchstar c re txs \<longleftrightarrow> matchhere re txs \<or> (\<exists>x t. txs = x # t \<and> accepts c x \<and> matchstar c re t)"
  using assms by (subst matchstar.simps) (cases txs; auto simp: accepts_def)

lemma parse_star: "parse (a # star # r) = (Many a # fst (parse r), snd (parse r))"
  by (simp split: prod.split)

lemma parse_one: "b \<noteq> star \<Longrightarrow> parse (a # b # r) = (One a # fst (parse (b # r)), snd (parse (b # r)))"
  by (simp split: prod.split)

lemma matchers_hit:
  "0 \<notin> set re \<Longrightarrow> 0 \<notin> set txs \<Longrightarrow>
     (matchhere re txs \<longleftrightarrow> hits (fst (parse re)) (snd (parse re)) txs) \<and>
     (matchstar c re txs \<longleftrightarrow> hits (Many c # fst (parse re)) (snd (parse re)) txs)"
proof (induction "length re + length txs" arbitrary: re txs c rule: less_induct)
  case less
  have here: "matchhere re txs \<longleftrightarrow> hits (fst (parse re)) (snd (parse re)) txs"
  proof -
    consider "re = []" | a where "re = [a]" | a r where "re = a # star # r" | a b r where "re = a # b # r" "b \<noteq> star"
      by (metis list.exhaust)
    then show ?thesis
    proof cases
      case 1
      then show ?thesis by (simp add: matchhere.simps [of "[]"])
    next
      case (2 a)
      then show ?thesis using less.prems by (simp add: matchhere_cases matchhere.simps [of "[]"])
    next
      case (3 a r)
      then have "matchstar a r txs \<longleftrightarrow> hits (Many a # fst (parse r)) (snd (parse r)) txs"
        using less.hyps [of r txs a] less.prems by simp
      then show ?thesis using 3 less.prems by (simp add: matchhere_cases parse_star del: parse.simps)
    next
      case (4 a b r)
      have "matchhere (b # r) t \<longleftrightarrow> hits (fst (parse (b # r))) (snd (parse (b # r))) t" if "txs = x # t" for x t
        using less.hyps [of "b # r" t] less.prems 4 that by simp
      then have "(\<exists>x t. txs = x # t \<and> accepts a x \<and> matchhere (b # r) t) \<longleftrightarrow>
          (\<exists>x t. txs = x # t \<and> accepts a x \<and> hits (fst (parse (b # r))) (snd (parse (b # r))) t)" by blast
      then show ?thesis using 4 less.prems by (simp add: matchhere_cases parse_one del: parse.simps)
    qed
  qed
  have "matchstar c re t \<longleftrightarrow> hits (Many c # fst (parse re)) (snd (parse re)) t" if "txs = x # t" for x t
    using less.hyps [of re t c] less.prems that by simp
  then show ?case using here matchstar_cases [OF less.prems(2), of c re] hits_Many [of c "fst (parse re)" "snd (parse re)" txs] by blast
qed

lemma match_from_hit:
  "0 \<notin> set re \<Longrightarrow> 0 \<notin> set txs \<Longrightarrow> match_from re txs \<longleftrightarrow> (\<exists>u t. txs = u @ t \<and> hits (fst (parse re)) (snd (parse re)) t)"
proof (induction re txs rule: match_from.induct)
  case (1 re txs)
  show ?case
  proof (cases txs)
    case Nil
    then show ?thesis using 1(2) by (subst match_from.simps) (simp add: matchers_hit)
  next
    case (Cons x t)
    then have "x \<noteq> 0" "0 \<notin> set t" using 1(3) by auto
    moreover have "(\<exists>u v. x # t = u @ v \<and> hits ps e v) \<longleftrightarrow> hits ps e (x # t) \<or> (\<exists>u v. t = u @ v \<and> hits ps e v)" for ps e
      by (auto simp: Cons_eq_append_conv)
    ultimately show ?thesis using 1 Cons matchers_hit [OF 1(2,3)] by (subst match_from.simps) auto
  qed
qed

text \<open>
  C24: the matcher of \<^verbatim>\<open>grep\<close> terminates and decides its patterns: it accepts a txs exactly if the txs has a part
  in the language of the pattern, anchored at the start by \<^verbatim>\<open>^\<close> and at the end by \<^verbatim>\<open>$\<close>, where \<^verbatim>\<open>.\<close> stands for any
  character and \<^verbatim>\<open>c*\<close> for any number of \<^verbatim>\<open>c\<close>.
\<close>

theorem match_correct:
  assumes "0 \<notin> set re" "0 \<notin> set txs"
  shows "match re txs \<longleftrightarrow> found re txs"
proof (cases "chr0 re = caret")
  case True
  then show ?thesis using matchers_hit [OF notin_tl [OF assms(1)] assms(2)]
    by (auto simp: match_def found_def hits_def Let_def split: prod.splits)
next
  case False
  then show ?thesis using match_from_hit [OF assms]
    by (auto simp: match_def found_def hits_def Let_def split: prod.splits)
qed

theorem match_correct_witness: "match (bytes_of ''^a.*c$'') (bytes_of ''abbc'') = found (bytes_of ''^a.*c$'') (bytes_of ''abbc'')"
  by (rule match_correct) (simp_all add: byte_of_def)

section \<open>The line loop\<close>

text \<open>
  The inner loop of \<^verbatim>\<open>grep\<close> on the buffer contents from \<^verbatim>\<open>p\<close> on: what it prints and what is left over.
\<close>

lemma strchr_len: "strchr p c = Some q \<Longrightarrow> 0 < length q \<and> length q \<le> length p"
  by (induction p) (auto split: if_splits)

function grep_scan :: "u8 list \<Rightarrow> u8 list \<Rightarrow> u8 list \<times> u8 list" where
  "grep_scan re p =
     (case strchr p newline of
        None \<Rightarrow> ([], p)
      | Some q \<Rightarrow>
          let line = take (length p - length q) p; (out, rest) = grep_scan re (tl q) in
          ((if match re line then line @ [newline] else []) @ out, rest))"
  by pat_completeness auto
termination
proof (relation "measure (\<lambda>(re, p). length p)", goal_cases)
  case (2 re p q)
  then have "0 < length q" "length q \<le> length p" using strchr_len [of p newline q] by simp_all
  then show ?case by (cases q) simp_all
qed simp

declare grep_scan.simps [simp del]

text \<open>
  The outer loop. \<open>inp\<close> is the unread input and \<open>rd inp k\<close> how many bytes a \<^verbatim>\<open>read\<close> of at most \<open>k\<close> delivers, never
  more than there are. The result is the output.
\<close>

function grep :: "(u8 list \<Rightarrow> nat \<Rightarrow> nat) \<Rightarrow> u8 list \<Rightarrow> u8 list \<Rightarrow> u8 list \<Rightarrow> u8 list" where
  "grep rd re buf inp =
     (let k = 1024 - length buf - 1; n = min (rd inp k) (min k (length inp)) in
      if n > 0 then
        let (out, rest) = grep_scan re (buf @ take n inp) in out @ grep rd re rest (drop n inp)
      else [])"
  by pat_completeness auto
termination
  by (relation "measure (\<lambda>(rd, re, buf, inp). length inp)") auto

declare grep.simps [simp del]

text \<open>The lines of an input: the complete ones, and the unfinished last one.\<close>

fun lines :: "u8 list \<Rightarrow> u8 list \<Rightarrow> u8 list list \<times> u8 list" where
  "lines cur [] = ([], cur)"
| "lines cur (x # xs) =
     (if x = newline then (cur # fst (lines [] xs), snd (lines [] xs)) else lines (cur @ [x]) xs)"

lemma lines_append: "lines cur (xs @ ys) = (fst (lines cur xs) @ fst (lines (snd (lines cur xs)) ys), snd (lines (snd (lines cur xs)) ys))"
  by (induction xs arbitrary: cur) auto

lemma lines_plain: "newline \<notin> set xs \<Longrightarrow> lines cur xs = ([], cur @ xs)"
  by (induction xs arbitrary: cur) auto

lemma strchr_split:
  "0 \<notin> set p \<Longrightarrow> strchr p newline = None \<and> newline \<notin> set p \<or>
     (\<exists>l r. p = l @ newline # r \<and> newline \<notin> set l \<and> strchr p newline = Some (newline # r))"
proof (induction p)
  case (Cons x p)
  show ?case
  proof (cases "x = newline")
    case True
    then show ?thesis using Cons.prems by (intro disjI2 exI [of _ "[]"] exI [of _ p]) (auto simp: newline_def)
  next
    case False
    have "0 \<notin> set p" using Cons.prems by simp
    from Cons.IH [OF this] show ?thesis
    proof
      assume "\<exists>l r. p = l @ newline # r \<and> newline \<notin> set l \<and> strchr p newline = Some (newline # r)"
      then obtain l r where "p = l @ newline # r" "newline \<notin> set l" "strchr p newline = Some (newline # r)" by blast
      then show ?thesis using False Cons.prems by (intro disjI2 exI [of _ "x # l"] exI [of _ r]) auto
    qed (use False Cons.prems in auto)
  qed
qed simp

definition print_lines :: "u8 list \<Rightarrow> u8 list list \<Rightarrow> u8 list" where
  "print_lines re ls = concat (map (\<lambda>l. l @ [newline]) (filter (match re) ls))"

lemma print_lines_simps [simp]:
  "print_lines re [] = []"
  "print_lines re (l # ls) = (if match re l then l @ [newline] else []) @ print_lines re ls"
  "print_lines re (ls @ ls') = print_lines re ls @ print_lines re ls'"
  by (simp_all add: print_lines_def)

lemma grep_scan_lines: "0 \<notin> set p \<Longrightarrow> grep_scan re p = (print_lines re (fst (lines [] p)), snd (lines [] p))"
proof (induction "length p" arbitrary: p rule: less_induct)
  case less
  from strchr_split [OF less.prems] show ?case
  proof
    assume "strchr p newline = None \<and> newline \<notin> set p"
    then show ?thesis by (subst grep_scan.simps) (simp add: lines_plain)
  next
    assume "\<exists>l r. p = l @ newline # r \<and> newline \<notin> set l \<and> strchr p newline = Some (newline # r)"
    then obtain l r where p: "p = l @ newline # r" "newline \<notin> set l" "strchr p newline = Some (newline # r)" by blast
    have "grep_scan re r = (print_lines re (fst (lines [] r)), snd (lines [] r))"
      using less.hyps [of r] less.prems p(1) by simp
    then show ?thesis using p by (subst grep_scan.simps) (simp add: lines_append lines_plain)
  qed
qed

lemma lines_rest: "\<exists>u v. cur @ xs = u @ v \<and> snd (lines cur xs) = v \<and> newline \<notin> set v" if "newline \<notin> set cur"
  using that
proof (induction xs arbitrary: cur)
  case (Cons x xs)
  show ?case
  proof (cases "x = newline")
    case True
    obtain u v where "xs = u @ v" "snd (lines [] xs) = v" "newline \<notin> set v" using Cons.IH [of "[]"] by auto
    then show ?thesis using True by (intro exI [of _ "cur @ x # u"] exI [of _ v]) simp
  next
    case False
    then show ?thesis using Cons.IH [of "cur @ [x]"] Cons.prems by simp
  qed
qed auto

definition short_lines :: "u8 list \<Rightarrow> bool" where
  "short_lines xs \<longleftrightarrow> (\<forall>u v w. xs = u @ v @ w \<longrightarrow> newline \<notin> set v \<longrightarrow> length v < 1023)"

lemma grep_lines:
  assumes "\<forall>inp k. inp \<noteq> [] \<longrightarrow> 0 < k \<longrightarrow> 0 < rd inp k" "0 \<notin> set (buf @ inp)" "newline \<notin> set buf" "short_lines (pre @ buf @ inp)"
  shows "grep rd re buf inp = print_lines re (fst (lines buf inp))"
  using assms(2-4)
proof (induction "length inp" arbitrary: pre buf inp rule: less_induct)
  case less
  define k where "k = 1023 - length buf"
  define n where "n = min (rd inp k) (min k (length inp))"
  have "length buf < 1023" using less.prems(2,3) by (auto simp: short_lines_def)
  then have k: "0 < k" by (simp add: k_def)
  show ?case
  proof (cases "inp = []")
    case True
    then show ?thesis by (subst grep.simps) simp
  next
    case False
    then have n: "0 < n" "n \<le> length inp" using k assms(1) by (auto simp: n_def)
    define b where "b = buf @ take n inp"
    define rest where "rest = snd (lines [] b)"
    have b0: "0 \<notin> set b" using less.prems(1) by (auto simp: b_def dest: in_set_takeD)
    have lb: "lines [] b = (fst (lines buf (take n inp)), snd (lines buf (take n inp)))"
      using less.prems(2) by (simp add: b_def lines_append lines_plain)
    obtain u where u: "b = u @ rest" "newline \<notin> set rest" using lines_rest [of "[]" b] by (auto simp: rest_def)
    have "short_lines ((pre @ u) @ rest @ drop n inp)" using less.prems(3) u(1) by (simp add: b_def) (metis append.assoc append_take_drop_id)
    moreover have "0 \<notin> set (rest @ drop n inp)" using b0 u(1) less.prems(1) by (auto dest: in_set_dropD)
    moreover have "length (drop n inp) < length inp" using n False by simp
    ultimately have IH: "grep rd re rest (drop n inp) = print_lines re (fst (lines rest (drop n inp)))"
      using less.hyps u(2) by blast
    have "fst (lines buf (take n inp @ drop n inp)) = fst (lines [] b) @ fst (lines rest (drop n inp))"
      unfolding rest_def lb lines_append by simp
    then have "fst (lines buf inp) = fst (lines [] b) @ fst (lines rest (drop n inp))" by simp
    moreover have "grep rd re buf inp = print_lines re (fst (lines [] b)) @ grep rd re rest (drop n inp)"
      using n(1) grep_scan_lines [OF b0, of re]
      by (subst grep.simps) (auto simp: Let_def b_def rest_def n_def simp flip: k_def)
    ultimately show ?thesis using IH by simp
  qed
qed

text \<open>
  C25: on an input without NUL bytes and without lines of 1023 or more characters, \<^verbatim>\<open>grep\<close> prints exactly the
  complete lines that match, in order, however the input is cut up by \<^verbatim>\<open>read\<close>, as long as a \<^verbatim>\<open>read\<close> returns 0 only
  at the end of the file. A last line without newline is not printed.
\<close>

theorem grep_correct:
  assumes "\<forall>inp k. inp \<noteq> [] \<longrightarrow> 0 < k \<longrightarrow> 0 < rd inp k" "0 \<notin> set inp" "short_lines inp"
  shows "grep rd re [] inp = concat (map (\<lambda>l. l @ [newline]) (filter (match re) (fst (lines [] inp))))"
  using grep_lines [of rd "[]" inp "[]" re] assms by (simp add: print_lines_def)

theorem grep_correct_witness:
  "grep (\<lambda>_ _. 1) (bytes_of ''b'') [] (bytes_of ''ab'' @ [newline] @ bytes_of ''c'') =
   concat (map (\<lambda>l. l @ [newline]) (filter (match (bytes_of ''b'')) (fst (lines [] (bytes_of ''ab'' @ [newline] @ bytes_of ''c'')))))"
proof (rule grep_correct)
  show "short_lines (bytes_of ''ab'' @ [newline] @ bytes_of ''c'')"
    unfolding short_lines_def by (auto dest!: arg_cong [where f = length])
qed (simp_all add: byte_of_def newline_def)

end
