(* ===== verification/Fs_Blocks.thy ===== *)
theory Fs_Blocks
  imports Fs Wal_Crash UserBytes
begin

text \<open>
  The block allocator of \<^verbatim>\<open>kernel/fs.c\<close>: \<^verbatim>\<open>balloc\<close> and \<^verbatim>\<open>bfree\<close> within a transaction. The first section packages the
  read-look-release and read-modify-log-release idioms of the file system as two lemmas; the rest of the file
  system is proved on top of them.
\<close>

section \<open>Steps within a transaction\<close>

lemma more_fs: "log_st.more s' = log_st.more s \<Longrightarrow> fs_sb s' = fs_sb s \<and> inodes s' = inodes s \<and> fs_st.more s' = fs_st.more s"
  by (cases s; cases s') auto

text \<open>There is room in the log, and in the cache, for \<open>k\<close> more blocks.\<close>

definition can_logn :: "nat \<Rightarrow> 'a log_st_scheme \<Rightarrow> bool" where
  "can_logn k s \<longleftrightarrow> lg_size s = of_nat LOGSIZE \<and> 1 \<le> sint (lg_outstanding s) \<and> nlog s + k < LOGSIZE \<and> nlog s + k < length (bufs s)"

lemma can_logn_mono: "can_logn k s \<Longrightarrow> j \<le> k \<Longrightarrow> can_logn j s"
  by (auto simp: can_logn_def)

lemma can_logn_1:
  assumes "quiet s" "can_logn (Suc k) s"
  shows "can_log s" "Suc (nlog s) < length (bufs s)"
  using assms tx_okD(4,6) [of s] by (auto simp: can_log_def can_logn_def quiet_def)

text \<open>
  \<open>tx j s f s'\<close>: \<open>s'\<close> follows \<open>s\<close> in the same transaction, the blocks now read as \<open>f\<close>, the disk is untouched, and at most
  \<open>j\<close> blocks were added to the log. The file system's own tables are not touched.
\<close>

definition tx :: "nat \<Rightarrow> 'a log_st_scheme \<Rightarrow> (u32 \<Rightarrow> u8 list) \<Rightarrow> 'a log_st_scheme \<Rightarrow> bool" where
  "tx j s f s' \<longleftrightarrow> quiet s' \<and> lkept s s' \<and> blk s' = f \<and> disk s' = disk s \<and> dwrites s' = dwrites s \<and>
     (\<forall>k. can_logn (k + j) s \<longrightarrow> can_logn k s')"

lemma tx_trans: "tx i s f t \<Longrightarrow> tx j t g u \<Longrightarrow> tx (i + j) s g u"
  unfolding tx_def using lkept_trans by (metis add.assoc add.commute)

lemma tx_refl: "quiet s \<Longrightarrow> tx 0 s (blk s) s"
  by (simp add: tx_def)

lemma tx_more: "tx i s f s' \<Longrightarrow> i \<le> j \<Longrightarrow> tx j s f s'"
  unfolding tx_def using can_logn_mono by (metis add_le_cancel_left)

lemma tx_fields:
  assumes "tx j s f s'"
  shows "quiet s'" "blk s' = f" "lg_start s' = lg_start s" "log_st.more s' = log_st.more s" "can_logn (k + j) s \<Longrightarrow> can_logn k s'"
  using assms lkept_log [of s s'] by (simp_all add: tx_def)

lemma tx_fs:
  assumes "tx j (s :: 'a fs_st_scheme) f s'"
  shows "fs_sb s' = fs_sb s" "inodes s' = inodes s"
  using more_fs [OF tx_fields(4) [OF assms]] by simp_all

text \<open>
  \<^verbatim>\<open>bread\<close> gives a buffer with the block's contents. Releasing it changes nothing; storing, logging and
  releasing it changes that block.
\<close>

lemma tx_block:
  assumes "quiet s"
  shows "\<exists>i s1. bread 1 n s = Ok (i, s1) \<and> b_data (bufs s1 ! i) = blk s n \<and> log_st.more s1 = log_st.more s \<and> lkept s s1 \<and>
    (\<exists>s2. brelse i s1 = Ok s2 \<and> tx 0 s (blk s) s2) \<and>
    (can_logn 1 s \<longrightarrow> n \<notin> logarea (lg_start s) \<longrightarrow>
      (\<forall>d. \<exists>s2 s3. log_write i (set_data i d s1) = Ok s2 \<and> brelse i s2 = Ok s3 \<and> tx 1 s ((blk s)(n := d)) s3))"
proof -
  obtain i s1 where 1: "bread 1 n s = Ok (i, s1)" "bio_inv s1" "cached s1 i n" "b_data (bufs s1 ! i) = blk s n" "bframe s s1"
    "refs s1 n \<noteq> 0" "locks s1 n = Some (mypid s1)"
    "view s1 = (view s)\<lparr>v_refs := (refs s)(n := refs s n + 1), v_lock := (locks s)(n := Some (mypid s))\<rparr>"
    using quiet_bread [OF assms] by blast
  have m: "log_st.more s1 = log_st.more s" using kept_log [OF bframe_kept [OF 1(5)]] by simp
  obtain s2 where 2: "brelse i s1 = Ok s2" "quiet s2" "kept s s2" "view s2 = view s"
    using quiet_look [OF assms 1(2,3,5-8)] by blast
  note K = kept_log [OF 2(3)] and v = view_eqD [OF 2(4), simplified]
  have "length (bufs s2) = length (bufs s)" using 2(3) by (simp add: kept_def)
  then have look: "tx 0 s (blk s) s2"
    using 2(2) kept_lkept [OF 2(3)] v by (simp add: tx_def can_logn_def nlog_def K)
  have "\<exists>s2 s3. log_write i (set_data i d s1) = Ok s2 \<and> brelse i s2 = Ok s3 \<and> tx 1 s ((blk s)(n := d)) s3"
    if c: "can_logn 1 s" and n: "n \<notin> logarea (lg_start s)" for d
  proof -
    have cl: "can_log s" "Suc (nlog s) < length (bufs s)" using can_logn_1 [OF assms, of 0] c by simp_all
    obtain s2 s3 where 3: "log_write i (set_data i d s1) = Ok s2" "brelse i s2 = Ok s3" "quiet s3" "lkept s s3"
      "blk s3 = (blk s)(n := d)" "disk s3 = disk s" "dwrites s3 = dwrites s" "nlog s3 = (if n \<in> logged s then nlog s else Suc (nlog s))"
      using quiet_update [OF assms cl n 1(2,3,5-8)] by blast
    note L = lkept_log [OF 3(4)]
    have "tx 1 s ((blk s)(n := d)) s3" using 3 L by (simp add: tx_def can_logn_def)
    then show ?thesis using 3(1,2) by blast
  qed
  then show ?thesis using 1(1,4) m kept_lkept [OF bframe_kept [OF 1(5)]] 2(1) look by blast
qed

section \<open>Bits of a bitmap block\<close>

lemma bit_mask_bit: "x AND bit_mask bi \<noteq> 0 \<longleftrightarrow> bit (x :: u8) (bi mod 8)"
proof -
  have "x AND bit_mask bi = (if bit x (bi mod 8) then bit_mask bi else 0)"
    by (rule bit_word_eqI) (auto simp: bit_mask_def bit_simps)
  moreover have "bit (bit_mask bi) (bi mod 8)" by (simp add: bit_mask_def bit_simps)
  then have "bit_mask bi \<noteq> 0" by auto
  ultimately show ?thesis by simp
qed

lemma in_use_bit_iff: "in_use_bit d bi \<longleftrightarrow> bit (d ! (bi div 8)) (bi mod 8)"
  by (simp add: in_use_bit_def bit_mask_bit)

lemma same_bit: "bi div 8 = bj div 8 \<and> bi mod 8 = bj mod 8 \<longleftrightarrow> (bi::nat) = bj"
  by (metis div_mult_mod_eq)

lemma in_use_mark:
  assumes "bi div 8 < length d"
  shows "in_use_bit (mark_bit d bi) bj \<longleftrightarrow> bj = bi \<or> in_use_bit d bj"
  using assms same_bit [of bi bj]
  by (auto simp: in_use_bit_iff mark_bit_def nth_list_update bit_or_iff bit_mask_def bit_simps)

lemma in_use_clear:
  assumes "bi div 8 < length d"
  shows "in_use_bit (clear_bit d bi) bj \<longleftrightarrow> bj \<noteq> bi \<and> in_use_bit d bj"
  using assms same_bit [of bi bj]
  by (auto simp: in_use_bit_iff clear_bit_def nth_list_update bit_and_iff bit_not_iff bit_mask_def bit_simps)

lemma length_mark [simp]: "length (mark_bit d bi) = length d" "length (clear_bit d bi) = length d"
  by (simp_all add: mark_bit_def clear_bit_def)

section \<open>The bitmap\<close>

definition nblks :: "'a fs_st_scheme \<Rightarrow> nat" where
  "nblks s = unat (sb_size (fs_sb s))"

definition bmblk :: "'a fs_st_scheme \<Rightarrow> nat \<Rightarrow> u32" where
  "bmblk s b = BBLOCK (of_nat b) (fs_sb s)"

text \<open>Block \<open>b\<close> is in use according to the bitmap.\<close>

definition bused :: "'a fs_st_scheme \<Rightarrow> nat \<Rightarrow> bool" where
  "bused s b \<longleftrightarrow> in_use_bit (blk s (bmblk s b)) (b mod 8192)"

text \<open>The bitmap lies outside the log and describes itself and the log as in use.\<close>

definition bitmap_ok :: "'a fs_st_scheme \<Rightarrow> bool" where
  "bitmap_ok s \<longleftrightarrow>
     (\<forall>b<nblks s. length (blk s (bmblk s b)) = BSIZE \<and> bmblk s b \<notin> logarea (lg_start s)) \<and>
     (\<forall>b<nblks s. \<not> bused s b \<longrightarrow> of_nat b \<notin> logarea (lg_start s) \<and> (\<forall>y<nblks s. bmblk s y \<noteq> of_nat b))"

lemma nblks_bound: "b < nblks s \<Longrightarrow> b < 2 ^ 32"
proof -
  assume "b < nblks s"
  moreover have "unat (sb_size (fs_sb s)) < 2 ^ 32" using unsigned_less [of "sb_size (fs_sb s)"] by simp
  ultimately show ?thesis by (simp add: nblks_def)
qed

lemma bmblk_group:
  assumes "b < nblks s"
  shows "bmblk s b = of_nat (b div 8192) + sb_bmapstart (fs_sb s)"
proof -
  have u: "unat (of_nat b :: u32) = b" "unat (of_nat (b div 8192) :: u32) = b div 8192"
    using nblks_bound [OF assms] by (intro unat_of_nat_less, simp add: le_less_trans [OF div_le_dividend])+
  have "unat ((of_nat b :: u32) div 8192) = unat (of_nat (b div 8192) :: u32)" unfolding unat_div u by simp
  then have "(of_nat b :: u32) div 8192 = of_nat (b div 8192)" by (simp only: word_unat_eq_iff)
  then show ?thesis by (simp add: bmblk_def BBLOCK_def BPB_def)
qed

lemma bmblk_same:
  assumes "x < nblks s" "y < nblks s"
  shows "bmblk s x = bmblk s y \<longleftrightarrow> x div 8192 = y div 8192"
proof -
  have "unat (of_nat (z div 8192) :: u32) = z div 8192" if "z < nblks s" for z
    using nblks_bound [OF that] by (intro unat_of_nat_less) (simp add: le_less_trans [OF div_le_dividend])
  then have "(of_nat (x div 8192) :: u32) = of_nat (y div 8192) \<longleftrightarrow> x div 8192 = y div 8192" using assms by (metis)
  then show ?thesis by (simp add: bmblk_group assms)
qed

text \<open>The bitmap after block \<open>x\<close> was marked or cleared.\<close>

lemma bused_upd:
  assumes x: "x < nblks s" and ok: "bitmap_ok s" and s': "fs_sb s' = fs_sb s" "blk s' (bmblk s x) = d" "y < nblks s"
    and other: "\<And>z. z < nblks s \<Longrightarrow> bmblk s z \<noteq> bmblk s x \<Longrightarrow> blk s' (bmblk s z) = blk s (bmblk s z)"
  shows "d = mark_bit (blk s (bmblk s x)) (x mod 8192) \<Longrightarrow> bused s' y \<longleftrightarrow> y = x \<or> bused s y"
    "d = clear_bit (blk s (bmblk s x)) (x mod 8192) \<Longrightarrow> bused s' y \<longleftrightarrow> y \<noteq> x \<and> bused s y"
proof -
  have b: "bmblk s' z = bmblk s z" for z by (simp add: bmblk_def s'(1))
  have len: "x mod 8192 div 8 < length (blk s (bmblk s x))" using ok x by (simp add: bitmap_ok_def BSIZE_def)
  have split: "y = x \<longleftrightarrow> bmblk s y = bmblk s x \<and> y mod 8192 = x mod 8192"
    unfolding bmblk_same [OF s'(3) x] by (metis div_mult_mod_eq)
  show "bused s' y \<longleftrightarrow> y = x \<or> bused s y" if "d = mark_bit (blk s (bmblk s x)) (x mod 8192)"
    using in_use_mark [OF len, of "y mod 8192"] other [OF s'(3)] split s'(2) that
    by (cases "bmblk s y = bmblk s x") (auto simp: bused_def b)
  show "bused s' y \<longleftrightarrow> y \<noteq> x \<and> bused s y" if "d = clear_bit (blk s (bmblk s x)) (x mod 8192)"
    using in_use_clear [OF len, of "y mod 8192"] other [OF s'(3)] split s'(2) that
    by (cases "bmblk s y = bmblk s x") (auto simp: bused_def b)
qed

section \<open>Allocation\<close>

lemma bzero_spec:
  assumes "quiet s" "can_logn 1 s" "n \<notin> logarea (lg_start s)"
  shows "\<exists>s'. bzero 1 n s = Ok s' \<and> tx 1 s ((blk s)(n := replicate BSIZE 0)) s'"
proof -
  obtain i s1 s2 s3 where "bread 1 n s = Ok (i, s1)" "log_write i (set_data i (replicate BSIZE 0) s1) = Ok s2"
    "brelse i s2 = Ok s3" "tx 1 s ((blk s)(n := replicate BSIZE 0)) s3"
    using tx_block [OF assms(1), of n] assms(2,3) by blast
  then show ?thesis by (simp add: bzero_def)
qed

text \<open>Block \<open>x\<close> is the first free one; it is marked and zeroed.\<close>

definition allocated :: "'a fs_st_scheme \<Rightarrow> nat \<Rightarrow> 'a fs_st_scheme \<Rightarrow> bool" where
  "allocated s x s' \<longleftrightarrow> tx 2 s ((blk s)(bmblk s x := mark_bit (blk s (bmblk s x)) (x mod 8192), of_nat x := replicate BSIZE 0)) s'"

lemma find_upt:
  "find P [0..<n] = Some k \<Longrightarrow> k < n \<and> P k \<and> (\<forall>j<k. \<not> P j)" "find P [0..<n] = None \<Longrightarrow> \<forall>j<n. \<not> P j"
  by (auto simp: find_Some_iff find_None_iff)

lemma balloc_loop_spec:
  assumes "quiet s" "can_logn 2 s" "bitmap_ok s" "sz = nblks s" "8192 dvd b" "\<forall>y<b. y < sz \<longrightarrow> bused s y"
  shows "\<exists>r s'. balloc_loop 1 sz b s = Ok (r, s') \<and>
    ((\<forall>y< sz. bused s y) \<and> r = 0 \<and> tx 0 s (blk s) s' \<or>
     (\<exists>x< sz. r = of_nat x \<and> \<not> bused s x \<and> (\<forall>y<x. bused s y) \<and> allocated s x s'))"
  using assms
proof (induction "sz - b" arbitrary: b s rule: less_induct)
  case less
  note q = less.prems(1) and cl = less.prems(2) and ok = less.prems(3) and sz = less.prems(4)
  show ?case
  proof (cases "b < sz")
    case False
    then show ?thesis using less.prems tx_refl [OF q] by (subst balloc_loop.simps) auto
  next
    case True
    let ?n = "bmblk s b" and ?d = "blk s (bmblk s b)"
    have bm: "bmblk s (b + bi) = ?n" "(b + bi) mod 8192 = bi" if "bi < min 8192 (sz - b)" for bi
      using that True less.prems(5) bmblk_same [of "b + bi" s b] by (auto simp: sz elim!: dvdE)
    obtain i s1 where 1: "bread 1 ?n s = Ok (i, s1)" "b_data (bufs s1 ! i) = ?d"
      "\<exists>s2. brelse i s1 = Ok s2 \<and> tx 0 s (blk s) s2"
      "can_logn 1 s \<longrightarrow> ?n \<notin> logarea (lg_start s) \<longrightarrow>
        (\<forall>d. \<exists>s2 s3. log_write i (set_data i d s1) = Ok s2 \<and> brelse i s2 = Ok s3 \<and> tx 1 s ((blk s)(?n := d)) s3)"
      using tx_block [OF q, of ?n] by blast
    have na: "?n \<notin> logarea (lg_start s)" using ok True by (simp add: bitmap_ok_def sz)
    show ?thesis
    proof (cases "find (\<lambda>bi. \<not> in_use_bit ?d bi) [0..<min 8192 (sz - b)]")
      case None
      note no = find_upt(2) [OF None]
      obtain s2 where 2: "brelse i s1 = Ok s2" "tx 0 s (blk s) s2" using 1(3) by blast
      note f = tx_fields [OF 2(2)] tx_fs [OF 2(2)]
      have eq: "nblks s2 = nblks s" "bused s2 = bused s" "bitmap_ok s2 = bitmap_ok s"
        by (simp_all add: nblks_def bused_def bmblk_def bitmap_ok_def f fun_eq_iff)
      have "bused s y" if y: "y < b + 8192" "y < sz" for y
      proof (cases "y < b")
        case False
        then have "y - b < min 8192 (sz - b)" "b + (y - b) = y" using y by auto
        then show ?thesis using no bm [of "y - b"] by (auto simp: bused_def)
      qed (use less.prems(6) y in blast)
      moreover have "sz - (b + 8192) < sz - b" using True by simp
      ultimately have "\<exists>r s'. balloc_loop 1 sz (b + 8192) s2 = Ok (r, s') \<and>
        ((\<forall>y< sz. bused s2 y) \<and> r = 0 \<and> tx 0 s2 (blk s2) s' \<or>
         (\<exists>x< sz. r = of_nat x \<and> \<not> bused s2 x \<and> (\<forall>y<x. bused s2 y) \<and> allocated s2 x s'))"
        using f(1) f(5) [of 2] cl ok less.prems(5) by (intro less.hyps) (simp_all add: eq sz)
      then obtain r s' where 3: "balloc_loop 1 sz (b + 8192) s2 = Ok (r, s')"
        "(\<forall>y< sz. bused s y) \<and> r = 0 \<and> tx 0 s2 (blk s2) s' \<or>
         (\<exists>x< sz. r = of_nat x \<and> \<not> bused s x \<and> (\<forall>y<x. bused s y) \<and> allocated s2 x s')" unfolding eq by blast
      have "tx 0 s2 (blk s2) s' \<Longrightarrow> tx 0 s (blk s) s'" "allocated s2 x s' \<Longrightarrow> allocated s x s'" for x
        using tx_trans [OF 2(2)] by (fastforce simp: allocated_def f bmblk_def)+
      moreover have "balloc_loop 1 sz b s = Ok (r, s')"
        using True 1(1,2) 2(1) 3(1) None by (subst balloc_loop.simps) (simp add: bmblk_def BPB_def)
      ultimately show ?thesis using 3(2) by blast
    next
      case (Some bi)
      note yes = find_upt(1) [OF Some]
      define x where "x = b + bi"
      have bi: "bi < min 8192 (sz - b)" using yes by simp
      have xs: "x < sz" "bmblk s x = ?n" "x mod 8192 = bi" using bm [OF bi] bi by (auto simp: x_def)
      have free: "\<not> bused s x" using yes by (simp add: bused_def xs)
      have low: "\<forall>y<x. bused s y"
      proof (intro allI impI)
        fix y assume y: "y < x"
        show "bused s y"
        proof (cases "y < b")
          case False
          then have "y - b < bi" "b + (y - b) = y" using y by (auto simp: x_def)
          then show ?thesis using yes bm [of "y - b"] bi by (auto simp: bused_def)
        qed (use less.prems(6) y xs(1) in auto)
      qed
      have c1: "can_logn 1 s" by (rule can_logn_mono [OF cl]) simp
      obtain s2 s3 where 2: "log_write i (set_data i (mark_bit ?d bi) s1) = Ok s2" "brelse i s2 = Ok s3" "tx 1 s ((blk s)(?n := mark_bit ?d bi)) s3"
        using 1(4) c1 na by blast
      note f = tx_fields [OF 2(3)]
      have "of_nat x \<notin> logarea (lg_start s3)" using ok free xs(1) by (simp add: bitmap_ok_def f sz)
      then obtain s4 where 3: "bzero 1 (of_nat x) s3 = Ok s4" "tx 1 s3 ((blk s3)(of_nat x := replicate BSIZE 0)) s4"
        using bzero_spec [OF f(1) f(5) [of 1]] cl by (auto simp: numeral_2_eq_2)
      have "allocated s x s4" using tx_trans [OF 2(3) 3(2)] by (simp add: allocated_def xs f(2) numeral_2_eq_2)
      moreover have "balloc_loop 1 sz b s = Ok (of_nat x, s4)"
        using True 1(1,2) 2(1,2) 3(1) Some by (subst balloc_loop.simps) (simp add: bmblk_def BPB_def x_def)
      ultimately show ?thesis using xs(1) free low by blast
    qed
  qed
qed

lemma balloc_spec:
  assumes "quiet s" "can_logn 2 s" "bitmap_ok s"
  shows "\<exists>r s'. balloc 1 s = Ok (r, s') \<and>
    ((\<forall>y<nblks s. bused s y) \<and> r = 0 \<and> tx 0 s (blk s) s' \<or>
     (\<exists>x<nblks s. r = of_nat x \<and> \<not> bused s x \<and> (\<forall>y<x. bused s y) \<and> allocated s x s'))"
  using balloc_loop_spec [OF assms refl, of 0] by (simp add: balloc_def nblks_def)

lemma allocated_bitmap:
  assumes "allocated s x s'" "bitmap_ok s" "x < nblks s" "\<not> bused s x"
  shows "\<And>y. y < nblks s \<Longrightarrow> bused s' y \<longleftrightarrow> y = x \<or> bused s y" "nblks s' = nblks s" "bitmap_ok s'"
proof -
  let ?d = "mark_bit (blk s (bmblk s x)) (x mod 8192)"
  note t = tx_fields [OF assms(1) [unfolded allocated_def]] tx_fs [OF assms(1) [unfolded allocated_def]]
  have ne: "bmblk s y \<noteq> of_nat x" if "y < nblks s" for y using assms(2-4) that by (simp add: bitmap_ok_def)
  show n: "nblks s' = nblks s" by (simp add: nblks_def t)
  show u: "bused s' y \<longleftrightarrow> y = x \<or> bused s y" if "y < nblks s" for y
    by (rule bused_upd(1) [OF assms(3,2) _ _ that]) (use ne assms(3) in \<open>simp_all add: t\<close>)
  have b: "bmblk s' y = bmblk s y" for y by (simp add: bmblk_def t)
  have "length (blk s' (bmblk s y)) = BSIZE" if "y < nblks s" for y
    using assms(2,3) that ne [OF that] by (auto simp: bitmap_ok_def t)
  then show "bitmap_ok s'" using assms(2) u by (auto simp: bitmap_ok_def n b t)
qed

lemma bfree_spec:
  assumes "quiet s" "can_logn 1 s" "bitmap_ok s" "x < nblks s"
  shows "\<not> bused s x \<Longrightarrow> bfree 1 (of_nat x) s = Panic ''freeing free block''"
    "bused s x \<Longrightarrow> \<exists>s'. bfree 1 (of_nat x) s = Ok s' \<and>
      tx 1 s ((blk s)(bmblk s x := clear_bit (blk s (bmblk s x)) (x mod 8192))) s'"
proof -
  let ?n = "bmblk s x"
  have u: "unat (of_nat x mod BPB) = x mod 8192"
    using unat_of_nat_less [of x, where 'a = 32] nblks_bound [OF assms(4)] by (simp add: BPB_def unat_mod)
  obtain i s1 where 1: "bread 1 ?n s = Ok (i, s1)" "b_data (bufs s1 ! i) = blk s ?n"
    "can_logn 1 s \<longrightarrow> ?n \<notin> logarea (lg_start s) \<longrightarrow>
      (\<forall>d. \<exists>s2 s3. log_write i (set_data i d s1) = Ok s2 \<and> brelse i s2 = Ok s3 \<and> tx 1 s ((blk s)(?n := d)) s3)"
    using tx_block [OF assms(1), of ?n] by blast
  have na: "?n \<notin> logarea (lg_start s)" using assms(3,4) by (simp add: bitmap_ok_def)
  show "bfree 1 (of_nat x) s = Panic ''freeing free block''" if "\<not> bused s x"
    using that 1(1,2) u by (simp add: bfree_def Let_def bused_def flip: bmblk_def)
  show "\<exists>s'. bfree 1 (of_nat x) s = Ok s' \<and> tx 1 s ((blk s)(?n := clear_bit (blk s ?n) (x mod 8192))) s'" if "bused s x"
  proof -
    obtain s2 s3 where "log_write i (set_data i (clear_bit (blk s ?n) (x mod 8192)) s1) = Ok s2" "brelse i s2 = Ok s3"
      "tx 1 s ((blk s)(?n := clear_bit (blk s ?n) (x mod 8192))) s3"
      using 1(3) assms(2) na by blast
    then show ?thesis using that 1(1,2) u by (simp add: bfree_def Let_def bused_def flip: bmblk_def)
  qed
qed

section \<open>A machine with a small file system\<close>

lemma booted_quiet:
  assumes "booted s d" "lg_dev s = 1" "lh_n s = 0" "length (lh_block s) = LOGSIZE"
    "length (d (lg_start s)) = BSIZE" "get_int (d (lg_start s)) 0 = 0"
  shows "quiet s" "blk s = d"
proof -
  note B = booted_view [OF assms(1)]
  have n: "nlog s = 0" by (simp add: nlog_def assms)
  have "0 < length (bufs s)" using B(7) by linarith
  then have "tx_ok s" using B assms by (simp add: tx_ok_def n LOGSIZE_def)
  then show "quiet s" using B by (simp add: quiet_def logged_def n)
  show "blk s = d" by (rule B(1))
qed

definition fs_machine :: "(u32 \<Rightarrow> u8 list) \<Rightarrow> superblock \<Rightarrow> inode list \<Rightarrow> fs_st" where
  "fs_machine d sb inos = binit \<lparr>pmem = pmem user_machine, kend = kend user_machine, freelist = freelist user_machine, kref = kref user_machine,
     procs = procs user_machine, curproc = Some 0,
     nextpid = 9, initproc = None, ticks = 0, intr = False, trampoline = 0x80007000, forkret_pc = 0x80001000,
     bufs = replicate NBUF blank_buf, lru = [], disk = d, dwrites = [],
     lg_start = 2, lg_size = 30, lg_outstanding = 1, lg_committing = 0, lg_dev = 1, lh_n = 0, lh_block = replicate LOGSIZE 0,
     fs_sb = sb, inodes = inos\<rparr>"

lemma fs_machine_fields [simp]:
  "lg_start (fs_machine d sb inos) = 2" "lg_size (fs_machine d sb inos) = 30" "lg_outstanding (fs_machine d sb inos) = 1"
  "lg_dev (fs_machine d sb inos) = 1" "lh_n (fs_machine d sb inos) = 0" "lh_block (fs_machine d sb inos) = replicate LOGSIZE 0"
  "length (bufs (fs_machine d sb inos)) = 30" "fs_sb (fs_machine d sb inos) = sb" "inodes (fs_machine d sb inos) = inos"
  "myproc (fs_machine d sb inos) = Some 0" "procs (fs_machine d sb inos) = procs user_machine"
  "pmem (fs_machine d sb inos) = pmem user_machine" "kend (fs_machine d sb inos) = kend user_machine"
  "freelist (fs_machine d sb inos) = freelist user_machine" "kref (fs_machine d sb inos) = kref user_machine"
  by (simp_all add: fs_machine_def binit_def NBUF_def myproc_def)

lemma fs_machine_quiet:
  assumes "length (d 2) = BSIZE" "get_int (d 2) 0 = 0"
  shows "quiet (fs_machine d sb inos)" "blk (fs_machine d sb inos) = d" "can_logn 20 (fs_machine d sb inos)"
proof -
  have "bio_inv (fs_machine d sb inos) \<and> (\<forall>n. slot (fs_machine d sb inos) n = None)"
    unfolding fs_machine_def by (rule binit_inv) (auto simp: myproc_def blank_buf_def user_machine_def)
  moreover have "disk (fs_machine d sb inos) = d" by (simp add: fs_machine_def binit_def)
  ultimately have "booted (fs_machine d sb inos) d" by (simp add: booted_def)
  from booted_quiet [OF this] show "quiet (fs_machine d sb inos)" "blk (fs_machine d sb inos) = d" using assms by simp_all
  show "can_logn 20 (fs_machine d sb inos)" by (simp add: can_logn_def nlog_def LOGSIZE_def)
qed

text \<open>64 blocks: a log of 30 at 2, inodes from 32, the bitmap at 45 with the first 47 blocks marked.\<close>

definition small_sb :: superblock where
  "small_sb = \<lparr>sb_magic = FSMAGIC, sb_size = 64, sb_nblocks = 18, sb_ninodes = 200, sb_nlog = 30, sb_logstart = 2,
     sb_inodestart = 32, sb_bmapstart = 45\<rparr>"

definition small_bitmap :: "u8 list" where
  "small_bitmap = replicate 5 255 @ [127] @ replicate 1018 0"

definition small_disk :: "u32 \<Rightarrow> u8 list" where
  "small_disk = zero_disk(45 := small_bitmap)"

lemma small_disk_log: "length (small_disk 2) = BSIZE" "get_int (small_disk 2) 0 = 0"
  by (simp_all add: small_disk_def zero_disk_def get_int_def BSIZE_def)

lemma small_used:
  assumes "b < 64" "fs_sb s = small_sb" "blk s 45 = small_bitmap"
  shows "bmblk s b = 45" "bused s b \<longleftrightarrow> b < 47" "nblks s = 64"
proof -
  show n: "nblks s = 64" by (simp add: nblks_def assms small_sb_def)
  show m: "bmblk s b = 45" using bmblk_group [of b s] assms n by (simp add: small_sb_def)
  have "b \<in> set [0..<64]" using assms(1) by simp
  then show "bused s b \<longleftrightarrow> b < 47"
    unfolding bused_def m assms(3) in_use_bit_iff small_bitmap_def
    by (simp add: upt_conv_Cons nth_append) (elim disjE; simp add: bit_numeral_rec bit_iff_odd)
qed

lemma small_bitmap_ok:
  assumes "fs_sb s = small_sb" "blk s 45 = small_bitmap" "lg_start s = 2"
  shows "bitmap_ok s"
proof -
  have l: "length small_bitmap = BSIZE" by (simp add: small_bitmap_def BSIZE_def)
  have "(of_nat b :: u32) \<notin> logarea 2 \<and> (of_nat b :: u32) \<noteq> 45" if "b < 64" "\<not> b < 47" for b
  proof -
    have "unat (of_nat b :: u32) = b" using that by (intro unat_of_nat_less) simp
    then show ?thesis using that area2 [of "of_nat b"] by (auto simp: word_less_nat_alt)
  qed
  moreover have "45 \<notin> logarea 2" using area2 [of 45] by simp
  moreover have "nblks s = 64" using small_used(3) [OF _ assms(1,2), of 0] by simp
  ultimately show ?thesis using small_used(1,2) [OF _ assms(1,2)] l assms by (auto simp: bitmap_ok_def)
qed

section \<open>Properties\<close>

text \<open>
  C34: \<^verbatim>\<open>balloc\<close> within a transaction returns the first block that the bitmap shows free, marks exactly that block,
  fills it with zeros, and changes no other block; it returns 0 and changes nothing when every block is in use.
  The bitmap stays well formed.
\<close>

theorem balloc_correct:
  assumes "quiet s" "can_logn 2 s" "bitmap_ok s"
  shows "\<exists>r s'. balloc 1 s = Ok (r, s') \<and> quiet s' \<and> bitmap_ok s' \<and>
    (if \<forall>y<nblks s. bused s y then r = 0 \<and> blk s' = blk s
     else \<exists>x<nblks s. r = of_nat x \<and> \<not> bused s x \<and> (\<forall>y<x. bused s y) \<and>
       (\<forall>y<nblks s. bused s' y \<longleftrightarrow> y = x \<or> bused s y) \<and> blk s' (of_nat x) = replicate BSIZE 0 \<and>
       (\<forall>n. n \<noteq> of_nat x \<longrightarrow> n \<noteq> bmblk s x \<longrightarrow> blk s' n = blk s n))"
proof -
  obtain r s' where 1: "balloc 1 s = Ok (r, s')"
    "(\<forall>y<nblks s. bused s y) \<and> r = 0 \<and> tx 0 s (blk s) s' \<or>
     (\<exists>x<nblks s. r = of_nat x \<and> \<not> bused s x \<and> (\<forall>y<x. bused s y) \<and> allocated s x s')"
    using balloc_spec [OF assms] by blast
  from 1(2) show ?thesis
  proof
    assume a: "(\<forall>y<nblks s. bused s y) \<and> r = 0 \<and> tx 0 s (blk s) s'"
    then have t: "tx 0 s (blk s) s'" by blast
    have "bitmap_ok s'" using assms(3) by (simp add: bitmap_ok_def bused_def nblks_def bmblk_def tx_fields [OF t] tx_fs [OF t])
    then show ?thesis using a 1(1) tx_fields [OF t] by auto
  next
    assume "\<exists>x<nblks s. r = of_nat x \<and> \<not> bused s x \<and> (\<forall>y<x. bused s y) \<and> allocated s x s'"
    then obtain x where x: "x < nblks s" "r = of_nat x" "\<not> bused s x" "\<forall>y<x. bused s y" "allocated s x s'" by blast
    note b = allocated_bitmap [OF x(5) assms(3) x(1,3)] and t = tx_fields [OF x(5) [unfolded allocated_def]]
    have e: "\<not> (\<forall>y<nblks s. bused s y)" using x(1,3) by blast
    show ?thesis unfolding if_not_P [OF e]
      by (rule exI [of _ r], rule exI [of _ s'], intro conjI exI [of _ x]) (use 1(1) x b t in auto)
  qed
qed

theorem balloc_correct_witness:
  "\<exists>s'. balloc 1 (fs_machine small_disk small_sb []) = Ok (47, s') \<and> blk s' 47 = replicate BSIZE 0"
proof -
  let ?s = "fs_machine small_disk small_sb []"
  note q = fs_machine_quiet [of small_disk small_sb "[]", OF small_disk_log]
  have b: "blk ?s 45 = small_bitmap" by (simp add: q(2)) (simp add: small_disk_def)
  note u = small_used [OF _ fs_machine_fields(8) b]
  have "can_logn 2 ?s" by (rule can_logn_mono [OF q(3)]) simp
  moreover have "bitmap_ok ?s" using small_bitmap_ok [OF _ b] by simp
  ultimately obtain r s' where 1: "balloc 1 ?s = Ok (r, s')"
    "if \<forall>y<nblks ?s. bused ?s y then r = 0 \<and> blk s' = blk ?s
     else \<exists>x<nblks ?s. r = of_nat x \<and> \<not> bused ?s x \<and> (\<forall>y<x. bused ?s y) \<and>
       (\<forall>y<nblks ?s. bused s' y \<longleftrightarrow> y = x \<or> bused ?s y) \<and> blk s' (of_nat x) = replicate BSIZE 0 \<and>
       (\<forall>n. n \<noteq> of_nat x \<longrightarrow> n \<noteq> bmblk ?s x \<longrightarrow> blk s' n = blk ?s n)"
    using balloc_correct [OF q(1)] by blast
  have n: "nblks ?s = 64" using u(3) [of 0] by simp
  have e: "\<not> (\<forall>y<nblks ?s. bused ?s y)" using u(2) [of 47] n by (auto intro: exI [of _ 47])
  obtain x where x: "x < 64" "r = of_nat x" "\<not> bused ?s x" "\<forall>y<x. bused ?s y" "blk s' (of_nat x) = replicate BSIZE 0"
    using 1(2) [unfolded if_not_P [OF e], unfolded n] by blast
  have "\<not> x < 47" using x(3) u(2) [OF x(1)] by simp
  moreover have "\<not> 47 < x" using x(4) u(2) [of 47] by auto
  ultimately have "x = 47" by linarith
  then show ?thesis using 1(1) x(2,5) by simp
qed

text \<open>
  C35: \<^verbatim>\<open>bfree\<close> within a transaction panics exactly on a block that is free already; otherwise it clears exactly that
  block's bit and changes nothing else.
\<close>

theorem bfree_correct:
  assumes "quiet s" "can_logn 1 s" "bitmap_ok s" "x < nblks s"
  shows "if bused s x
    then \<exists>s'. bfree 1 (of_nat x) s = Ok s' \<and> quiet s' \<and> (\<forall>y<nblks s. bused s' y \<longleftrightarrow> y \<noteq> x \<and> bused s y) \<and>
      (\<forall>n. n \<noteq> bmblk s x \<longrightarrow> blk s' n = blk s n)
    else bfree 1 (of_nat x) s = Panic ''freeing free block''"
proof (cases "bused s x")
  case True
  obtain s' where 1: "bfree 1 (of_nat x) s = Ok s'" "tx 1 s ((blk s)(bmblk s x := clear_bit (blk s (bmblk s x)) (x mod 8192))) s'"
    using bfree_spec(2) [OF assms True] by blast
  note t = tx_fields [OF 1(2)] tx_fs [OF 1(2)]
  have "bused s' y \<longleftrightarrow> y \<noteq> x \<and> bused s y" if "y < nblks s" for y
    by (rule bused_upd(2) [OF assms(4,3) _ _ that]) (simp_all add: t)
  then show ?thesis using True 1(1) t by auto
next
  case False
  then show ?thesis using bfree_spec(1) [OF assms] by simp
qed

theorem bfree_correct_witness:
  "bfree 1 50 (fs_machine small_disk small_sb []) = Panic ''freeing free block''"
proof -
  let ?s = "fs_machine small_disk small_sb []"
  note q = fs_machine_quiet [of small_disk small_sb "[]", OF small_disk_log]
  have b: "blk ?s 45 = small_bitmap" by (simp add: q(2)) (simp add: small_disk_def)
  note u = small_used [OF _ fs_machine_fields(8) b]
  have "can_logn 1 ?s" by (rule can_logn_mono [OF q(3)]) simp
  moreover have "bitmap_ok ?s" using small_bitmap_ok [OF _ b] by simp
  ultimately show ?thesis using bfree_correct [OF q(1), of 50] u(2,3) [of 50] by simp
qed

end
