(* ===== verification/Fs_Inodes.thy ===== *)
theory Fs_Inodes
  imports Fs_Blocks
begin

text \<open>
  The inode table of \<^verbatim>\<open>kernel/fs.c\<close>: references to entries (\<^verbatim>\<open>iget\<close>, \<^verbatim>\<open>idup\<close>, \<^verbatim>\<open>iput\<close>), and how \<^verbatim>\<open>iupdate\<close> and \<^verbatim>\<open>ilock\<close> move
  an inode between the table and its disk block.
\<close>

section \<open>The table\<close>

text \<open>An inode is in use by at most one entry.\<close>

definition itable_ok :: "'a fs_st_scheme \<Rightarrow> bool" where
  "itable_ok s \<longleftrightarrow> (\<forall>p\<in>set (inodes s). 0 \<le> i_ref p) \<and>
     (\<forall>i<length (inodes s). \<forall>j<length (inodes s). 0 < i_ref (ino s i) \<longrightarrow> 0 < i_ref (ino s j) \<longrightarrow>
        i_dev (ino s i) = i_dev (ino s j) \<longrightarrow> i_inum (ino s i) = i_inum (ino s j) \<longrightarrow> i = j)"

text \<open>What clients see: how many references there are to an inode.\<close>

definition irefs :: "'a fs_st_scheme \<Rightarrow> u32 \<Rightarrow> u32 \<Rightarrow> int" where
  "irefs s dev inum =
     (case first_idx (\<lambda>p. 0 < i_ref p \<and> i_dev p = dev \<and> i_inum p = inum) (inodes s) of
        Some i \<Rightarrow> i_ref (ino s i)
      | None \<Rightarrow> 0)"

text \<open>Entry \<open>ip\<close> stands for the inode.\<close>

definition holds_inode :: "'a fs_st_scheme \<Rightarrow> nat \<Rightarrow> u32 \<Rightarrow> u32 \<Rightarrow> bool" where
  "holds_inode s ip dev inum \<longleftrightarrow> ip < length (inodes s) \<and> 0 < i_ref (ino s ip) \<and> i_dev (ino s ip) = dev \<and> i_inum (ino s ip) = inum"

lemma upd_inode_simps [simp]:
  "inodes (upd_inode ip f s) = (inodes s)[ip := f (ino s ip)]" "fs_sb (upd_inode ip f s) = fs_sb s"
  "procs (upd_inode ip f s) = procs s" "bufs (upd_inode ip f s) = bufs s" "lg_start (upd_inode ip f s) = lg_start s"
  "disk (upd_inode ip f s) = disk s" "pmem (upd_inode ip f s) = pmem s" "myproc (upd_inode ip f s) = myproc s"
  "curproc (upd_inode ip f s) = curproc s"
  by (simp_all add: upd_inode_def myproc_def)

lemma holds_unique: "itable_ok s \<Longrightarrow> holds_inode s i dev inum \<Longrightarrow> holds_inode s j dev inum \<Longrightarrow> i = j"
  by (auto simp: itable_ok_def holds_inode_def)

lemma irefs_holds:
  assumes "itable_ok s" "holds_inode s i dev inum"
  shows "irefs s dev inum = i_ref (ino s i)"
    "first_idx (\<lambda>p. i_ref p > 0 \<and> i_dev p = dev \<and> i_inum p = inum) (inodes s) = Some i"
proof -
  show "first_idx (\<lambda>p. i_ref p > 0 \<and> i_dev p = dev \<and> i_inum p = inum) (inodes s) = Some i"
    unfolding first_idx_Some
  proof (intro conjI allI impI)
    fix j assume "j < i"
    then have "\<not> holds_inode s j dev inum" using holds_unique [OF assms] by blast
    then show "\<not> (0 < i_ref (ino s j) \<and> i_dev (ino s j) = dev \<and> i_inum (ino s j) = inum)"
      using assms(2) \<open>j < i\<close> by (auto simp: holds_inode_def)
  qed (use assms(2) in \<open>auto simp: holds_inode_def\<close>)
  then show "irefs s dev inum = i_ref (ino s i)" by (simp add: irefs_def)
qed

lemma irefs_none:
  assumes "\<And>i. \<not> holds_inode s i dev inum"
  shows "irefs s dev inum = 0" "first_idx (\<lambda>p. i_ref p > 0 \<and> i_dev p = dev \<and> i_inum p = inum) (inodes s) = None"
proof -
  show "first_idx (\<lambda>p. i_ref p > 0 \<and> i_dev p = dev \<and> i_inum p = inum) (inodes s) = None"
    unfolding first_idx_None
  proof
    fix p assume "p \<in> set (inodes s)"
    then obtain i where "i < length (inodes s)" "p = ino s i" by (auto simp: in_set_conv_nth)
    then show "\<not> (0 < i_ref p \<and> i_dev p = dev \<and> i_inum p = inum)" using assms [of i] by (auto simp: holds_inode_def)
  qed
  then show "irefs s dev inum = 0" by (simp add: irefs_def)
qed

text \<open>An entry whose identity stays the same gets a new count.\<close>

lemma recount:
  assumes "itable_ok s" "holds_inode s ip dev inum" "0 \<le> i_ref q" "i_dev q = dev" "i_inum q = inum"
    "inodes s' = (inodes s)[ip := q]"
  shows "itable_ok s'" "irefs s' d n = (if d = dev \<and> n = inum then i_ref q else irefs s d n)"
    "holds_inode s' i d n \<longleftrightarrow> (if i = ip then 0 < i_ref q \<and> d = dev \<and> n = inum else holds_inode s i d n)"
proof -
  show h: "holds_inode s' i d n \<longleftrightarrow> (if i = ip then 0 < i_ref q \<and> d = dev \<and> n = inum else holds_inode s i d n)" for i d n
    using assms by (auto simp: holds_inode_def)
  have u: "i = j" if "holds_inode s' i d n" "holds_inode s' j d n" for i j d n
    using that holds_unique [OF assms(1)] assms(2) by (auto simp: h split: if_splits)
  have nn: "0 \<le> i_ref p" if "p \<in> set (inodes s')" for p
    using that assms(1,3) by (auto simp: assms(6) itable_ok_def dest: set_update_subset_insert [THEN subsetD])
  show ok: "itable_ok s'" unfolding itable_ok_def using nn u by (auto simp: holds_inode_def)
  show "irefs s' d n = (if d = dev \<and> n = inum then i_ref q else irefs s d n)"
  proof (cases "\<exists>i. holds_inode s' i d n")
    case True
    then obtain i where i: "holds_inode s' i d n" by blast
    have "inodes s' ! i = (if i = ip then q else inodes s ! i)" using assms(2,6) by (auto simp: holds_inode_def)
    then show ?thesis using irefs_holds(1) [OF ok i] i holds_unique [OF assms(1,2)] irefs_holds(1) [OF assms(1)]
      by (auto simp: h split: if_splits)
  next
    case False
    then have "irefs s' d n = 0" by (intro irefs_none(1)) blast
    moreover have "i_ref q = 0" if "d = dev" "n = inum" using False h [of ip d n] that assms(3) by (metis antisym_conv2)
    moreover have "irefs s d n = 0" if "\<not> (d = dev \<and> n = inum)"
    proof (rule irefs_none(1))
      fix i
      show "\<not> holds_inode s i d n" using False h [of i d n] that assms(2) by (auto simp: holds_inode_def split: if_splits)
    qed
    ultimately show ?thesis by auto
  qed
qed

text \<open>A free entry is taken for an inode that no entry stands for.\<close>

lemma new_entry:
  assumes "itable_ok s" "ip < length (inodes s)" "i_ref (ino s ip) = 0" "\<And>i. \<not> holds_inode s i dev inum"
    and q: "i_ref q = 1" "i_dev q = dev" "i_inum q = inum" "inodes s' = (inodes s)[ip := q]"
  shows "itable_ok s'" "irefs s' d n = (if d = dev \<and> n = inum then 1 else irefs s d n)"
    "holds_inode s' i d n \<longleftrightarrow> (if i = ip then d = dev \<and> n = inum else holds_inode s i d n)"
proof -
  show h: "holds_inode s' i d n \<longleftrightarrow> (if i = ip then d = dev \<and> n = inum else holds_inode s i d n)" for i d n
    using assms by (auto simp: holds_inode_def)
  have u: "i = j" if "holds_inode s' i d n" "holds_inode s' j d n" for i j d n
    using that holds_unique [OF assms(1)] assms(4) by (auto simp: h split: if_splits)
  have nn: "0 \<le> i_ref p" if "p \<in> set (inodes s')" for p
    using that assms(1) q by (auto simp: itable_ok_def dest: set_update_subset_insert [THEN subsetD])
  show ok: "itable_ok s'" unfolding itable_ok_def using nn u by (auto simp: holds_inode_def)
  show "irefs s' d n = (if d = dev \<and> n = inum then 1 else irefs s d n)"
  proof (cases "\<exists>i. holds_inode s' i d n")
    case True
    then obtain i where i: "holds_inode s' i d n" by blast
    have "inodes s' ! i = (if i = ip then q else inodes s ! i)" using assms(2) q(4) by auto
    then show ?thesis using irefs_holds(1) [OF ok i] i assms(4) irefs_holds(1) [OF assms(1)] q(1)
      by (auto simp: h split: if_splits)
  next
    case False
    then have "irefs s' d n = 0" by (intro irefs_none(1)) blast
    moreover have "\<not> (d = dev \<and> n = inum)" using False h [of ip] by auto
    moreover have "irefs s d n = 0"
    proof (rule irefs_none(1))
      fix i
      show "\<not> holds_inode s i d n" using False h [of i d n] assms(3) by (auto simp: holds_inode_def split: if_splits)
    qed
    ultimately show ?thesis by auto
  qed
qed

lemma iget_spec:
  assumes "itable_ok s"
  shows "case iget dev inum s of
      Ok (ip, s') \<Rightarrow> s' = s\<lparr>inodes := inodes s'\<rparr> \<and> itable_ok s' \<and> holds_inode s' ip dev inum \<and>
        irefs s' = (irefs s)(dev := (irefs s dev)(inum := irefs s dev inum + 1)) \<and>
        (if 0 < irefs s dev inum then inodes s' = (inodes s)[ip := (ino s ip)\<lparr>i_ref := i_ref (ino s ip) + 1\<rparr>]
         else i_valid (ino s' ip) = 0 \<and> i_ref (ino s ip) = 0 \<and> (\<forall>j. j \<noteq> ip \<longrightarrow> ino s' j = ino s j))
    | Panic m \<Rightarrow> irefs s dev inum = 0 \<and> (\<forall>p\<in>set (inodes s). 0 < i_ref p)
    | Sleep c \<Rightarrow> False"
proof (cases "\<exists>i. holds_inode s i dev inum")
  case True
  then obtain i where i: "holds_inode s i dev inum" by blast
  note r = irefs_holds [OF assms i]
  let ?q = "(ino s i)\<lparr>i_ref := i_ref (ino s i) + 1\<rparr>"
  have "0 \<le> i_ref ?q" "i_dev ?q = dev" "i_inum ?q = inum" using i by (simp_all add: holds_inode_def)
  note c = recount [OF assms i this, of "upd_inode i (\<lambda>p. p\<lparr>i_ref := i_ref p + 1\<rparr>) s"]
  have "irefs s dev inum > 0" using r(1) i by (simp add: holds_inode_def)
  then show ?thesis using c r i unfolding iget_def r(2) by (auto simp: fun_eq_iff holds_inode_def) (simp add: upd_inode_def)
next
  case False
  then have n: "\<And>i. \<not> holds_inode s i dev inum" by blast
  note r = irefs_none [OF n]
  show ?thesis
  proof (cases "first_idx (\<lambda>p. i_ref p = 0) (inodes s)")
    case None
    then have "0 < i_ref p" if "p \<in> set (inodes s)" for p
      using that assms by (auto simp: first_idx_None itable_ok_def less_le)
    then show ?thesis unfolding iget_def r(2) None using r(1) by simp
  next
    case (Some ip)
    then have ip: "ip < length (inodes s)" "i_ref (ino s ip) = 0" by (auto simp: first_idx_Some)
    let ?q = "(ino s ip)\<lparr>i_dev := dev, i_inum := inum, i_ref := 1, i_valid := 0\<rparr>"
    note c = new_entry [OF assms ip n, of ?q]
    show ?thesis unfolding iget_def r(2) Some using c [of "upd_inode ip (\<lambda>p. ?q) s"] r ip
      by (auto simp: fun_eq_iff upd_inode_def)
  qed
qed

section \<open>Transaction steps that change the table\<close>

lemma quiet_inodes [simp]:
  "quiet (s\<lparr>inodes := a\<rparr>) = quiet s" "blk (s\<lparr>inodes := a\<rparr>) = blk s" "can_logn k (s\<lparr>inodes := a\<rparr>) = can_logn k s"
  "mypid (s\<lparr>inodes := a\<rparr>) = mypid s"
proof -
  show "quiet (s\<lparr>inodes := a\<rparr>) = quiet s" by (rule quiet_cong) simp_all
  have "view (s\<lparr>inodes := a\<rparr>) = view s" by (rule same_cache(1)) simp_all
  then show "blk (s\<lparr>inodes := a\<rparr>) = blk s" using view_eqD(1) by fastforce
  show "can_logn k (s\<lparr>inodes := a\<rparr>) = can_logn k s" by (simp add: can_logn_def nlog_def)
  show "mypid (s\<lparr>inodes := a\<rparr>) = mypid s" by (simp add: mypid_def myproc_def split: option.split)
qed

lemma quiet_upd_inode [simp]:
  "quiet (upd_inode ip f s) = quiet s" "blk (upd_inode ip f s) = blk s" "can_logn k (upd_inode ip f s) = can_logn k s"
  "mypid (upd_inode ip f s) = mypid s"
  by (simp_all add: upd_inode_def)

lemma tx_inodes: "tx j s f t \<Longrightarrow> tx j (s\<lparr>inodes := a\<rparr>) f (t\<lparr>inodes := a\<rparr>)"
proof -
  assume t: "tx j s f t"
  have l: "lcore (u\<lparr>inodes := a\<rparr>) = (lcore u)\<lparr>inodes := a\<rparr>" for u :: "'a fs_st_scheme" by (simp add: lcore_def bcore_def)
  then show ?thesis using t by (simp add: tx_def lkept_def)
qed

text \<open>Like \<open>tx\<close>, but the inode table may change.\<close>

definition ftx :: "nat \<Rightarrow> 'a fs_st_scheme \<Rightarrow> (u32 \<Rightarrow> u8 list) \<Rightarrow> 'a fs_st_scheme \<Rightarrow> bool" where
  "ftx j s f s' \<longleftrightarrow> (\<exists>a t. tx j s f t \<and> s' = t\<lparr>inodes := a\<rparr>)"

lemma ftx_upd: "ftx j s f t \<Longrightarrow> ftx j s f (upd_inode ip g t)"
proof -
  assume "ftx j s f t"
  then obtain a u where "tx j s f u" "t = u\<lparr>inodes := a\<rparr>" unfolding ftx_def by blast
  then show ?thesis unfolding ftx_def upd_inode_def by (intro exI [of _ "a[ip := g (a ! ip)]"] exI [of _ u]) simp
qed

lemma tx_ftx: "tx j s f s' \<Longrightarrow> ftx j s f s'"
  unfolding ftx_def by (rule exI [of _ "inodes s'"], rule exI [of _ s']) simp

lemma ftx_trans: "ftx i s f t \<Longrightarrow> ftx j t g u \<Longrightarrow> ftx (i + j) s g u"
proof -
  assume "ftx i s f t" "ftx j t g u"
  then obtain a t0 b u0 where 1: "tx i s f t0" "t = t0\<lparr>inodes := a\<rparr>" "tx j t g u0" "u = u0\<lparr>inodes := b\<rparr>"
    by (auto simp: ftx_def)
  from tx_inodes [OF 1(3), of "inodes t0"] have "tx j t0 g (u0\<lparr>inodes := inodes t0\<rparr>)" using 1(2) by simp
  from tx_trans [OF 1(1) this] show ?thesis unfolding ftx_def using 1(4) by (intro exI [of _ b], intro exI) (auto intro: exI)
qed

lemma ftx_fields:
  assumes "ftx j s f s'"
  shows "quiet s'" "blk s' = f" "lg_start s' = lg_start s" "fs_sb s' = fs_sb s" "fs_st.more s' = fs_st.more s"
    "can_logn (k + j) s \<Longrightarrow> can_logn k s'"
proof -
  obtain a t where 1: "tx j s f t" "s' = t\<lparr>inodes := a\<rparr>" using assms by (auto simp: ftx_def)
  note t = tx_fields [OF 1(1)] more_fs [OF tx_fields(4) [OF 1(1)]]
  show "quiet s'" "blk s' = f" "lg_start s' = lg_start s" "fs_sb s' = fs_sb s" "fs_st.more s' = fs_st.more s"
    "can_logn (k + j) s \<Longrightarrow> can_logn k s'" using t by (simp_all add: 1(2))
qed

section \<open>Inodes on disk\<close>

text \<open>The disk copy of an inode.\<close>

definition disk_inode :: "'a fs_st_scheme \<Rightarrow> u32 \<Rightarrow> dinode" where
  "disk_inode s inum = get_dinode (blk s (IBLOCK inum (fs_sb s))) (dinode_off inum)"

lemma iupdate_spec:
  assumes "quiet s" "can_logn 1 s" "i_dev (ino s ip) = 1" "IBLOCK (i_inum (ino s ip)) (fs_sb s) \<notin> logarea (lg_start s)"
  shows "\<exists>s'. iupdate ip s = Ok s' \<and>
    tx 1 s ((blk s)(IBLOCK (i_inum (ino s ip)) (fs_sb s) :=
      put_dinode (blk s (IBLOCK (i_inum (ino s ip)) (fs_sb s))) (dinode_off (i_inum (ino s ip))) (dinode_of (ino s ip)))) s'"
proof -
  let ?n = "IBLOCK (i_inum (ino s ip)) (fs_sb s)"
  obtain i s1 where 1: "bread 1 ?n s = Ok (i, s1)" "b_data (bufs s1 ! i) = blk s ?n" "log_st.more s1 = log_st.more s"
    "\<forall>d. \<exists>s2 s3. log_write i (set_data i d s1) = Ok s2 \<and> brelse i s2 = Ok s3 \<and> tx 1 s ((blk s)(?n := d)) s3"
    using tx_block [OF assms(1), of ?n] assms(2,4) by blast
  obtain s2 s3 where "log_write i (set_data i (put_dinode (blk s ?n) (dinode_off (i_inum (ino s ip))) (dinode_of (ino s ip))) s1) = Ok s2"
    "brelse i s2 = Ok s3"
    "tx 1 s ((blk s)(?n := put_dinode (blk s ?n) (dinode_off (i_inum (ino s ip))) (dinode_of (ino s ip)))) s3"
    using 1(4) by blast
  then show ?thesis using 1(1,2) more_fs [OF 1(3)] assms(3) by (simp add: iupdate_def)
qed

lemma disk_inode_put:
  assumes "blk s' = (blk s)(IBLOCK inum (fs_sb s) := put_dinode (blk s (IBLOCK inum (fs_sb s))) (dinode_off inum) di)"
    "fs_sb s' = fs_sb s" "length (blk s (IBLOCK inum (fs_sb s))) = BSIZE" "length (di_addrs di) = 13"
  shows "disk_inode s' m = (if m = inum then di else disk_inode s m)"
proof -
  have l: "dinode_off i + 64 \<le> length (blk s (IBLOCK inum (fs_sb s)))" for i using dinode_off_fits [of i] assms(3) by (simp add: BSIZE_def)
  show ?thesis
  proof (cases "m = inum")
    case True
    then show ?thesis using get_put_dinode [OF l assms(4)] by (simp add: disk_inode_def assms)
  next
    case False
    show ?thesis
    proof (cases "IBLOCK m (fs_sb s) = IBLOCK inum (fs_sb s)")
      case True
      then have "m div IPB = inum div IPB" by (simp add: IBLOCK_def)
      then have "unat (m mod IPB) \<noteq> unat (inum mod IPB)" using False by (metis word_mod_div_equality word_unat_eq_iff)
      then have "dinode_off m + 64 \<le> dinode_off inum \<or> dinode_off inum + 64 \<le> dinode_off m"
        by (auto simp: dinode_off_def)
      from get_put_dinode_other [OF l assms(4) l this] show ?thesis using True False by (simp add: disk_inode_def assms)
    next
      case False2: False
      then show ?thesis using False by (simp add: disk_inode_def assms)
    qed
  qed
qed

lemma brelse_inodes:
  fixes s :: "'a fs_st_scheme"
  shows "brelse i (s\<lparr>inodes := a\<rparr>) = rbind (brelse i s) (\<lambda>t. Ok (t\<lparr>inodes := a\<rparr>))"
  by (simp add: brelse_def Let_def wakeup_def upd_buf_def myproc_def)

lemma quiet_proc: "quiet s \<Longrightarrow> with_proc s f = f (the (myproc s))"
  using tx_okD(1) [of s] bio_invD(5) [of s] by (auto simp: quiet_def idle_def with_proc_def)

text \<open>The entry that \<^verbatim>\<open>ilock\<close> leaves.\<close>

definition locked_inode :: "'a fs_st_scheme \<Rightarrow> nat \<Rightarrow> inode" where
  "locked_inode s ip =
     (let p = (ino s ip)\<lparr>i_lock := (i_lock (ino s ip))\<lparr>slk_locked := 1, slk_pid := mypid s\<rparr>\<rparr> in
      if i_valid p = 0 then (load_inode (disk_inode s (i_inum p)) p)\<lparr>i_valid := 1\<rparr> else p)"

lemma lock_inode_free:
  assumes "quiet s" "slk_locked (i_lock (ino s ip)) = 0"
  shows "lock_inode ip s = Ok (upd_inode ip (\<lambda>p. p\<lparr>i_lock := (i_lock (ino s ip))\<lparr>slk_locked := 1, slk_pid := mypid s\<rparr>\<rparr>) s)"
  using assms by (simp add: lock_inode_def quiet_proc acquiresleep_def)

lemma ilock_spec:
  assumes "quiet s" "slk_locked (i_lock (ino s ip)) = 0" "ip < length (inodes s)" "1 \<le> i_ref (ino s ip)" "i_dev (ino s ip) = 1"
  shows "if i_valid (ino s ip) = 0 \<and> di_type (disk_inode s (i_inum (ino s ip))) = 0 then ilock ip s = Panic ''ilock: no type''
    else \<exists>s'. ilock ip s = Ok s' \<and> ftx 0 s (blk s) s' \<and> inodes s' = (inodes s)[ip := locked_inode s ip]"
proof -
  define lk where "lk = (i_lock (ino s ip))\<lparr>slk_locked := 1, slk_pid := mypid s\<rparr>"
  define t where "t = upd_inode ip (\<lambda>p. p\<lparr>i_lock := lk\<rparr>) s"
  have t: "lock_inode ip s = Ok t" using lock_inode_free [OF assms(1,2)] by (simp add: t_def lk_def)
  have f: "ftx 0 s (blk s) t" unfolding t_def by (rule ftx_upd [OF tx_ftx [OF tx_refl [OF assms(1)]]])
  note T = ftx_fields [OF f]
  have it: "inodes t = (inodes s)[ip := (ino s ip)\<lparr>i_lock := lk\<rparr>]" by (simp add: t_def)
  have di: "disk_inode t m = disk_inode s m" for m by (simp add: disk_inode_def T)
  show ?thesis
  proof (cases "i_valid (ino s ip) = 0")
    case False
    then show ?thesis using t f it assms(3,4) by (auto simp: ilock_def locked_inode_def lk_def)
  next
    case True
    let ?m = "i_inum (ino s ip)" let ?n = "IBLOCK ?m (fs_sb s)"
    obtain i s1 s2 where 1: "bread 1 ?n t = Ok (i, s1)" "b_data (bufs s1 ! i) = blk s ?n" "log_st.more s1 = log_st.more t"
      "brelse i s1 = Ok s2" "tx 0 t (blk s) s2"
      using tx_block [OF T(1), of ?n] T(2) by metis
    have m: "inodes s1 = inodes t" "fs_sb s1 = fs_sb s" using more_fs [OF 1(3)] T by simp_all
    define q where "q = load_inode (disk_inode s ?m) ((ino s ip)\<lparr>i_lock := lk\<rparr>)"
    have u: "upd_inode ip (load_inode (get_dinode (blk s ?n) (dinode_off ?m))) s1 = s1\<lparr>inodes := (inodes s)[ip := q]\<rparr>"
      using assms(3) by (simp add: upd_inode_def m it q_def disk_inode_def)
    define s3 where "s3 = upd_inode ip (\<lambda>p. p\<lparr>i_valid := 1\<rparr>) (s2\<lparr>inodes := (inodes s)[ip := q]\<rparr>)"
    have r: "ilock ip s = (if i_type (ino s3 ip) = 0 then Panic ''ilock: no type'' else Ok s3)"
      using assms True t it 1(1,2,4) u by (simp add: ilock_def T m Let_def brelse_inodes s3_def)
    have i3: "inodes s3 = (inodes s)[ip := q\<lparr>i_valid := 1\<rparr>]" using assms(3) by (simp add: s3_def)
    then have ty: "i_type (ino s3 ip) = di_type (disk_inode s ?m)" using assms(3) by (simp add: q_def load_inode_def)
    have l: "locked_inode s ip = q\<lparr>i_valid := 1\<rparr>" using True by (simp add: locked_inode_def q_def lk_def load_inode_def)
    have "ftx 0 t (blk s) (s2\<lparr>inodes := (inodes s)[ip := q]\<rparr>)" unfolding ftx_def using 1(5) by blast
    from ftx_upd [OF ftx_trans [OF f this]] have "ftx 0 s (blk s) s3" by (simp add: s3_def)
    then show ?thesis using r ty i3 l True by auto
  qed
qed

text \<open>An entry that was never used.\<close>

definition blank_inode :: inode where
  "blank_inode = \<lparr>i_dev = 0, i_inum = 0, i_ref = 0, i_lock = \<lparr>slk_locked = 0, slk_pid = 0\<rparr>, i_valid = 0, i_type = 0, i_major = 0, i_minor = 0,
     i_nlink = 0, i_size = 0, i_addrs = replicate 13 0\<rparr>"

section \<open>Properties\<close>

text \<open>
  C37: \<^verbatim>\<open>iget\<close> returns the table's entry for the inode and adds one reference to that inode and no other; it leaves a
  table in which no inode has two entries, shares the existing entry with its contents when there is one, takes a
  free entry marked as not yet read when there is none, and panics only when the inode has no entry and all are in use.
\<close>

theorem iget_correct:
  assumes "itable_ok s"
  shows "case iget dev inum s of
      Ok (ip, s') \<Rightarrow> s' = s\<lparr>inodes := inodes s'\<rparr> \<and> itable_ok s' \<and> holds_inode s' ip dev inum \<and>
        irefs s' = (irefs s)(dev := (irefs s dev)(inum := irefs s dev inum + 1)) \<and>
        (if 0 < irefs s dev inum then inodes s' = (inodes s)[ip := (ino s ip)\<lparr>i_ref := i_ref (ino s ip) + 1\<rparr>]
         else i_valid (ino s' ip) = 0 \<and> i_ref (ino s ip) = 0 \<and> (\<forall>j. j \<noteq> ip \<longrightarrow> ino s' j = ino s j))
    | Panic m \<Rightarrow> irefs s dev inum = 0 \<and> (\<forall>p\<in>set (inodes s). 0 < i_ref p)
    | Sleep c \<Rightarrow> False"
  by (rule iget_spec [OF assms])

theorem iget_correct_witness:
  "\<exists>s'. iget 1 7 (fs_machine small_disk small_sb [blank_inode\<lparr>i_ref := 2, i_dev := 1, i_inum := 7\<rparr>, blank_inode]) = Ok (0, s') \<and>
     irefs s' 1 7 = 3 \<and> itable_ok s'"
proof -
  let ?s = "fs_machine small_disk small_sb [blank_inode\<lparr>i_ref := 2, i_dev := 1, i_inum := 7\<rparr>, blank_inode]"
  have "itable_ok ?s" by (auto simp: itable_ok_def blank_inode_def less_Suc_eq nth_Cons')
  from iget_correct [OF this, of 1 7] show ?thesis
    by (auto simp: iget_def irefs_def)
qed

text \<open>
  C38: what \<^verbatim>\<open>iupdate\<close> stores is what a later \<^verbatim>\<open>ilock\<close> loads into a fresh entry for the inode; no other inode's
  disk copy changes.
\<close>

theorem iupdate_ilock:
  assumes "quiet s" "can_logn 1 s" "ip < length (inodes s)" "i_dev (ino s ip) = 1" "i_type (ino s ip) \<noteq> 0"
    "length (i_addrs (ino s ip)) = 13" "IBLOCK (i_inum (ino s ip)) (fs_sb s) \<notin> logarea (lg_start s)"
    "length (blk s (IBLOCK (i_inum (ino s ip)) (fs_sb s))) = BSIZE"
    "jp < length (inodes s)" "slk_locked (i_lock (ino s jp)) = 0"
  shows "\<exists>s1 s2. iupdate ip s = Ok s1 \<and>
    ilock jp (upd_inode jp (\<lambda>p. p\<lparr>i_dev := 1, i_inum := i_inum (ino s ip), i_ref := 1, i_valid := 0\<rparr>) s1) = Ok s2 \<and>
    dinode_of (ino s2 jp) = dinode_of (ino s ip) \<and>
    (\<forall>m. m \<noteq> i_inum (ino s ip) \<longrightarrow> disk_inode s2 m = disk_inode s m)"
proof -
  let ?m = "i_inum (ino s ip)"
  obtain s1 where 1: "iupdate ip s = Ok s1" "tx 1 s ((blk s)(IBLOCK ?m (fs_sb s) :=
      put_dinode (blk s (IBLOCK ?m (fs_sb s))) (dinode_off ?m) (dinode_of (ino s ip)))) s1"
    using iupdate_spec [OF assms(1,2,4,7)] by blast
  note T = tx_fields [OF 1(2)] tx_fs [OF 1(2)]
  have d: "disk_inode s1 m = (if m = ?m then dinode_of (ino s ip) else disk_inode s m)" for m
    by (rule disk_inode_put) (use T assms(6,8) in \<open>simp_all add: dinode_of_def\<close>)
  define t where "t = upd_inode jp (\<lambda>p. p\<lparr>i_dev := 1, i_inum := ?m, i_ref := 1, i_valid := 0\<rparr>) s1"
  have jt: "ino t jp = (ino s jp)\<lparr>i_dev := 1, i_inum := ?m, i_ref := 1, i_valid := 0\<rparr>" "length (inodes t) = length (inodes s)"
    using assms(9) by (simp_all add: t_def T)
  have dt: "disk_inode t m = disk_inode s1 m" for m by (simp add: disk_inode_def t_def)
  have qt: "quiet t" using T(1) by (simp add: t_def)
  have nt: "\<not> (i_valid (ino t jp) = 0 \<and> di_type (disk_inode t (i_inum (ino t jp))) = 0)"
    using assms(5) by (simp add: jt dt d) (simp add: dinode_of_def)
  obtain s2 where 2: "ilock jp t = Ok s2" "ftx 0 t (blk t) s2" "inodes s2 = (inodes t)[jp := locked_inode t jp]"
    using ilock_spec [of t jp, unfolded if_not_P [OF nt], OF qt] assms(9,10) jt by auto
  note U = ftx_fields [OF 2(2)]
  have "disk_inode s2 m = disk_inode s1 m" for m using dt by (simp add: disk_inode_def U)
  moreover have "dinode_of (ino s2 jp) = dinode_of (ino s ip)"
    using assms(9) by (simp add: 2(3) jt(2) locked_inode_def jt dt d) (simp add: dinode_of_def load_inode_def)
  ultimately show ?thesis using 1(1) 2(1) d unfolding t_def by auto
qed

theorem iupdate_ilock_witness:
  "\<exists>s1 s2. iupdate 0 (fs_machine small_disk small_sb [blank_inode\<lparr>i_ref := 1, i_dev := 1, i_inum := 7, i_type := T_FILE, i_size := 99\<rparr>, blank_inode]) = Ok s1 \<and>
     ilock 1 (upd_inode 1 (\<lambda>p. p\<lparr>i_dev := 1, i_inum := 7, i_ref := 1, i_valid := 0\<rparr>) s1) = Ok s2 \<and> i_size (ino s2 1) = 99"
proof -
  let ?p = "blank_inode\<lparr>i_ref := 1, i_dev := 1, i_inum := 7, i_type := T_FILE, i_size := 99\<rparr>"
  let ?s = "fs_machine small_disk small_sb [?p, blank_inode]"
  note q = fs_machine_quiet [of small_disk small_sb "[?p, blank_inode]", OF small_disk_log]
  have c: "can_logn 1 ?s" by (rule can_logn_mono [OF q(3)]) simp
  have n: "IBLOCK 7 small_sb = 32" by (simp add: IBLOCK_def IPB_def small_sb_def)
  have b: "length (blk ?s 32) = BSIZE" by (simp add: q(2)) (simp add: small_disk_def zero_disk_def)
  have "\<exists>s1 s2. iupdate 0 ?s = Ok s1 \<and>
      ilock 1 (upd_inode 1 (\<lambda>p. p\<lparr>i_dev := 1, i_inum := i_inum (ino ?s 0), i_ref := 1, i_valid := 0\<rparr>) s1) = Ok s2 \<and>
      dinode_of (ino s2 1) = dinode_of (ino ?s 0) \<and> (\<forall>m. m \<noteq> i_inum (ino ?s 0) \<longrightarrow> disk_inode s2 m = disk_inode ?s m)"
    by (rule iupdate_ilock [OF q(1) c]) (use n b area2 [of 32] in \<open>simp_all add: T_FILE_def\<close>, simp_all add: blank_inode_def)
  then show ?thesis by (auto simp: dinode_of_def)
qed

end
