(* ===== verification/Fs_Files.thy ===== *)
theory Fs_Files
  imports Fs_Inodes
begin

text \<open>
  File contents of \<^verbatim>\<open>kernel/fs.c\<close>: where \<^verbatim>\<open>bmap\<close> finds the blocks of a file, and that \<^verbatim>\<open>readi\<close> and \<^verbatim>\<open>writei\<close> read and write the
  sequence of bytes which the blocks make up.
\<close>

section \<open>The contents of a file\<close>

text \<open>The address of block \<open>bn\<close> of a file, 0 if there is none, byte \<open>k\<close> of the file, and all bytes up to its size.\<close>

definition baddr :: "'a fs_st_scheme \<Rightarrow> inode \<Rightarrow> nat \<Rightarrow> u32" where
  "baddr s p bn =
     (if bn < NDIRECT then i_addrs p ! bn
      else if i_addrs p ! NDIRECT = 0 then 0
      else get_int (blk s (i_addrs p ! NDIRECT)) (4 * (bn - NDIRECT)))"

definition fbyte :: "'a fs_st_scheme \<Rightarrow> inode \<Rightarrow> nat \<Rightarrow> u8" where
  "fbyte s p k = blk s (baddr s p (k div BSIZE)) ! (k mod BSIZE)"

definition contents :: "'a fs_st_scheme \<Rightarrow> inode \<Rightarrow> u8 list" where
  "contents s p = map (fbyte s p) [0..<unat (i_size p)]"

lemma length_contents [simp]: "length (contents s p) = unat (i_size p)"
  by (simp add: contents_def)

lemma bmap_slot_mapped: "i_addrs (ino s ip) ! k \<noteq> 0 \<Longrightarrow> bmap_slot ip k s = Ok (i_addrs (ino s ip) ! k, s)"
  by (simp add: bmap_slot_def)

lemma bmap_mapped:
  assumes "quiet s" "i_dev (ino s ip) = 1" "bn < MAXFILE" "baddr s (ino s ip) bn \<noteq> 0"
  shows "\<exists>s'. bmap ip bn s = Ok (baddr s (ino s ip) bn, s') \<and> tx 0 s (blk s) s'"
proof (cases "bn < NDIRECT")
  case True
  then show ?thesis using assms tx_refl by (auto simp: bmap_def baddr_def bmap_slot_mapped)
next
  case False
  let ?a = "i_addrs (ino s ip) ! NDIRECT"
  have a: "?a \<noteq> 0" "baddr s (ino s ip) bn = get_int (blk s ?a) (4 * (bn - NDIRECT))" "bn - NDIRECT < NINDIRECT"
    using False assms by (auto simp: baddr_def MAXFILE_def)
  obtain i s1 s2 where "bread 1 ?a s = Ok (i, s1)" "b_data (bufs s1 ! i) = blk s ?a" "brelse i s1 = Ok s2" "tx 0 s (blk s) s2"
    using tx_block [OF assms(1), of ?a] by blast
  then show ?thesis using False a assms by (simp add: bmap_def bmap_slot_mapped Let_def)
qed

section \<open>Memory and the cache do not interfere\<close>

lemma brelse_pmem:
  fixes s :: "'a fs_st_scheme"
  shows "brelse i (s\<lparr>pmem := a\<rparr>) = rbind (brelse i s) (\<lambda>t. Ok (t\<lparr>pmem := a\<rparr>))"
proof -
  have "mypid (s\<lparr>pmem := a\<rparr>) = mypid s" by (rule same_cache(5)) simp_all
  then show ?thesis by (simp add: brelse_def Let_def wakeup_def upd_buf_def myproc_def)
qed

lemma quiet_pmem [simp]:
  fixes s :: "'a fs_st_scheme"
  shows "quiet (s\<lparr>pmem := a\<rparr>) = quiet s" "blk (s\<lparr>pmem := a\<rparr>) = blk s" "can_logn k (s\<lparr>pmem := a\<rparr>) = can_logn k s"
proof -
  show "quiet (s\<lparr>pmem := a\<rparr>) = quiet s" by (rule quiet_cong) simp_all
  have "view (s\<lparr>pmem := a\<rparr>) = view s" by (rule same_cache(1)) simp_all
  then show "blk (s\<lparr>pmem := a\<rparr>) = blk s" using view_eqD(1) by fastforce
  show "can_logn k (s\<lparr>pmem := a\<rparr>) = can_logn k s" by (simp add: can_logn_def nlog_def)
qed

lemma tx_pmem:
  fixes s :: "'a fs_st_scheme"
  shows "tx j s f t \<Longrightarrow> tx j (s\<lparr>pmem := a\<rparr>) f (t\<lparr>pmem := a\<rparr>)"
proof -
  assume t: "tx j s f t"
  have l: "lcore (u\<lparr>pmem := a\<rparr>) = (lcore u)\<lparr>pmem := a\<rparr>" for u :: "'a fs_st_scheme" by (simp add: lcore_def bcore_def)
  have "mypid (u\<lparr>pmem := a\<rparr>) = mypid u" for u :: "'a fs_st_scheme" by (rule same_cache(5)) simp_all
  then show ?thesis using t l by (simp add: tx_def lkept_def)
qed

text \<open>The address space of the current process is the same.\<close>

definition same_space :: "'a proc_st_scheme \<Rightarrow> 'a proc_st_scheme \<Rightarrow> bool" where
  "same_space s t \<longleftrightarrow> pmem t = pmem s \<and> kend t = kend s \<and> freelist t = freelist s \<and> kref t = kref s \<and> myproc t = myproc s \<and>
     (\<forall>i. myproc s = Some i \<longrightarrow> p_pagetable (procs t ! i) = p_pagetable (procs s ! i))"

lemma lkept_space:
  fixes s :: "'a fs_st_scheme"
  assumes "lkept s t" "quiet s"
  shows "same_space s t"
proof -
  have c: "lcore t = lcore s" using assms(1) by (simp add: lkept_def)
  obtain i where i: "myproc s = Some i" "i < length (procs s)"
    using assms(2) tx_okD(1) [of s] bio_invD(5) [of s] by (auto simp: quiet_def idle_def)
  have m: "map (\<lambda>p. p\<lparr>p_state := UNUSED\<rparr>) (procs t) = map (\<lambda>p. p\<lparr>p_state := UNUSED\<rparr>) (procs s)"
    using arg_cong [OF c, where f = procs] by (simp add: lcore_def bcore_def)
  then have "length (procs t) = length (procs s)" by (metis length_map)
  then have "p_pagetable (procs t ! i) = p_pagetable (procs s ! i)"
    using arg_cong [OF m, of "\<lambda>ps. p_pagetable (ps ! i)"] i(2) by simp
  moreover have "pmem t = pmem s" "kend t = kend s" "freelist t = freelist s" "kref t = kref s" "curproc t = curproc s"
    using arg_cong [OF c, where f = pmem] arg_cong [OF c, where f = kend] arg_cong [OF c, where f = freelist]
      arg_cong [OF c, where f = kref] arg_cong [OF c, where f = curproc] by (simp_all add: lcore_def bcore_def)
  ultimately show ?thesis using i by (auto simp: same_space_def myproc_def)
qed

lemma same_space_trans: "same_space s t \<Longrightarrow> same_space t u \<Longrightarrow> same_space s u"
  by (auto simp: same_space_def)

section \<open>Reading\<close>

lemma within_block:
  assumes "off mod B + j < (B :: nat)"
  shows "(off + j) div B = off div B" "(off + j) mod B = off mod B + j"
proof -
  define r where "r = off mod B"
  define q where "q = off div B"
  have e: "off + j = r + j + q * B" by (simp add: r_def q_def)
  have "r + j < B" using assms by (simp add: r_def)
  then have "(off + j) div B = q" "(off + j) mod B = r + j" unfolding e by simp_all
  then show "(off + j) div B = off div B" "(off + j) mod B = off mod B + j" by (simp_all add: r_def q_def)
qed

text \<open>
  \<open>D acc m\<close> says what memory \<open>m\<close> is like once the bytes \<open>acc\<close> are delivered; \<open>delivers\<close> that \<^verbatim>\<open>either_copyout\<close> goes from one such
  memory to the next, for all bytes in \<open>whole\<close>.
\<close>

definition delivers :: "'a fs_st_scheme \<Rightarrow> kdst \<Rightarrow> u8 list \<Rightarrow> (u8 list \<Rightarrow> mem \<Rightarrow> bool) \<Rightarrow> bool" where
  "delivers s dst whole D \<longleftrightarrow> (\<forall>acc bs rest m t. acc @ bs @ rest = whole \<longrightarrow> D acc m \<longrightarrow> same_space (s\<lparr>pmem := m\<rparr>) t \<longrightarrow>
     (\<exists>m'. either_copyout (dst_add dst (length acc)) bs t = Ok (0, t\<lparr>pmem := m'\<rparr>) \<and> D (acc @ bs) m'))"

lemma readi_block:
  fixes s :: "'a fs_st_scheme"
  assumes "quiet s" "i_dev (ino s ip) = 1" "baddr s (ino s ip) (off div BSIZE) \<noteq> 0" "off div BSIZE < MAXFILE"
    and len: "length (blk s (baddr s (ino s ip) (off div BSIZE))) = BSIZE"
    and k: "0 < k" "m = min k (BSIZE - off mod BSIZE)" and bs: "bs = map (fbyte s (ino s ip)) [off..<off + m]"
    and D: "delivers s dst (acc @ bs @ rest) D" "D acc (pmem s)"
  shows "\<exists>m' s'. readi_loop ip dst off k acc s = readi_loop ip dst (off + m) (k - m) (acc @ bs) s' \<and>
    tx 0 (s\<lparr>pmem := m'\<rparr>) (blk s) s' \<and> D (acc @ bs) m'"
proof -
  let ?a = "baddr s (ino s ip) (off div BSIZE)"
  obtain t where t: "bmap ip (off div BSIZE) s = Ok (?a, t)" "tx 0 s (blk s) t"
    using bmap_mapped [OF assms(1,2,4,3)] by blast
  note T = tx_fields [OF t(2)] tx_fs [OF t(2)]
  obtain i s1 s2 where 1: "bread 1 ?a t = Ok (i, s1)" "b_data (bufs s1 ! i) = blk s ?a" "lkept t s1"
    "brelse i s1 = Ok s2" "tx 0 t (blk s) s2"
    using tx_block [OF T(1), of ?a] T(2) by metis
  have bs': "take m (drop (off mod BSIZE) (blk s ?a)) = bs"
  proof (rule nth_equalityI)
    have B: "off mod BSIZE < BSIZE" by (simp add: BSIZE_def)
    then have m: "m \<le> BSIZE - off mod BSIZE" "off mod BSIZE + m \<le> BSIZE" using k by auto
    then show "length (take m (drop (off mod BSIZE) (blk s ?a))) = length bs" by (simp add: bs len)
    fix j assume "j < length (take m (drop (off mod BSIZE) (blk s ?a)))"
    then have j: "j < m" by simp
    then have "off mod BSIZE + j < BSIZE" using m(2) by linarith
    then have "(off + j) div BSIZE = off div BSIZE" "(off + j) mod BSIZE = off mod BSIZE + j"
      by (rule within_block)+
    then show "take m (drop (off mod BSIZE) (blk s ?a)) ! j = bs ! j"
      using j m by (simp add: bs fbyte_def len)
  qed
  have "same_space s s1" using same_space_trans [OF lkept_space [of s t] lkept_space [OF 1(3) T(1)]] assms(1) t(2) by (simp add: tx_def)
  then have "same_space (s\<lparr>pmem := pmem s\<rparr>) s1" by simp
  with D obtain m' where m': "either_copyout (dst_add dst (length acc)) bs s1 = Ok (0, s1\<lparr>pmem := m'\<rparr>)" "D (acc @ bs) m'"
    unfolding delivers_def by blast
  have "tx 0 (s\<lparr>pmem := m'\<rparr>) (blk s) (s2\<lparr>pmem := m'\<rparr>)"
    using tx_pmem [OF tx_trans [OF t(2) 1(5)], of m'] by simp
  moreover have "readi_loop ip dst off k acc s = readi_loop ip dst (off + m) (k - m) (acc @ bs) (s2\<lparr>pmem := m'\<rparr>)"
    using k(1) t(1) 1 m' bs' assms(2,3) T
    by (subst readi_loop.simps) (simp add: Let_def brelse_pmem flip: k(2))
  ultimately show ?thesis using m'(2) by blast
qed

lemma delivers_tx:
  assumes "delivers s dst whole D" "tx j (s\<lparr>pmem := a\<rparr>) f s'" "quiet s"
  shows "delivers s' dst whole D"
proof -
  have ss: "same_space (s\<lparr>pmem := a\<rparr>) s'" using lkept_space [of "s\<lparr>pmem := a\<rparr>" s'] assms(2,3) by (simp add: tx_def)
  have "same_space (s\<lparr>pmem := m\<rparr>) t" if "same_space (s'\<lparr>pmem := m\<rparr>) t" for m t
    using ss that by (auto simp: same_space_def myproc_def)
  then show ?thesis using assms(1) unfolding delivers_def by blast
qed

text \<open>The blocks that hold bytes \<open>off\<close> up to \<open>off + k\<close> exist.\<close>

definition covered :: "'a fs_st_scheme \<Rightarrow> inode \<Rightarrow> nat \<Rightarrow> nat \<Rightarrow> bool" where
  "covered s p off k \<longleftrightarrow> off + k \<le> MAXFILE * BSIZE \<and>
     (\<forall>x. off \<le> x \<longrightarrow> x < off + k \<longrightarrow> baddr s p (x div BSIZE) \<noteq> 0 \<and> length (blk s (baddr s p (x div BSIZE))) = BSIZE)"

lemma upt_split: "m \<le> k \<Longrightarrow> map f [off..<off + k] = map f [off..<off + m] @ map f [off + m..<off + m + (k - m)]"
proof -
  assume "m \<le> k"
  then have "[off..<off + k] = [off..<off + m] @ [off + m..<off + m + (k - m)]" using upt_add_eq_append [of off "off + m" "k - m"] by simp
  then show ?thesis by simp
qed

lemma readi_loop_spec:
  fixes s :: "'a fs_st_scheme"
  assumes "quiet s" "i_dev (ino s ip) = 1" "covered s (ino s ip) off k"
    and "delivers s dst (acc @ map (fbyte s (ino s ip)) [off..<off + k]) D" "D acc (pmem s)"
  shows "\<exists>m' s'. readi_loop ip dst off k acc s = Ok (int (length acc + k), acc @ map (fbyte s (ino s ip)) [off..<off + k], s') \<and>
    tx 0 (s\<lparr>pmem := m'\<rparr>) (blk s) s' \<and> D (acc @ map (fbyte s (ino s ip)) [off..<off + k]) m'"
  using assms
proof (induction k arbitrary: off acc s rule: less_induct)
  case (less k)
  show ?case
  proof (cases "k = 0")
    case True
    then show ?thesis using tx_refl [OF less.prems(1)] less.prems(5)
      by (intro exI [of _ "pmem s"] exI [of _ s]) (simp add: readi_loop.simps)
  next
    case False
    define m where "m = min k (BSIZE - off mod BSIZE)"
    let ?F = "fbyte s (ino s ip)"
    have mB: "off mod BSIZE < BSIZE" by (simp add: BSIZE_def)
    then have m: "0 < m" "m \<le> k" using False by (auto simp: m_def)
    note sp = upt_split [OF m(2), of ?F off]
    have "off < MAXFILE * BSIZE" using less.prems(3) False by (auto simp: covered_def)
    then have x: "off div BSIZE < MAXFILE" by (simp add: less_mult_imp_div_less)
    have a: "baddr s (ino s ip) (off div BSIZE) \<noteq> 0" "length (blk s (baddr s (ino s ip) (off div BSIZE))) = BSIZE"
      using less.prems(3) False by (auto simp: covered_def)
    obtain m1 s1 where 1: "readi_loop ip dst off k acc s = readi_loop ip dst (off + m) (k - m) (acc @ map ?F [off..<off + m]) s1"
      "tx 0 (s\<lparr>pmem := m1\<rparr>) (blk s) s1" "D (acc @ map ?F [off..<off + m]) m1"
      using readi_block [OF less.prems(1,2) a(1) x a(2) _ m_def refl less.prems(4) [unfolded sp] less.prems(5)] False by blast
    note T = tx_fields [OF 1(2)] tx_fs [OF 1(2)]
    have q: "quiet s1" "blk s1 = blk s" "inodes s1 = inodes s" using T by simp_all
    have pm: "pmem s1 = m1" using lkept_space [of "s\<lparr>pmem := m1\<rparr>" s1] 1(2) less.prems(1) by (simp add: tx_def same_space_def)
    have F: "fbyte s1 p = fbyte s p" "baddr s1 p = baddr s p" for p by (simp_all add: fun_eq_iff fbyte_def baddr_def q)
    have "covered s1 (ino s1 ip) (off + m) (k - m)" using less.prems(3) m by (auto simp: covered_def F q)
    moreover have "delivers s1 dst ((acc @ map ?F [off..<off + m]) @ map (fbyte s1 (ino s1 ip)) [off + m..<off + m + (k - m)]) D"
      using delivers_tx [OF less.prems(4) 1(2) less.prems(1)] by (simp add: F q sp)
    ultimately obtain m2 s2 where 2: "readi_loop ip dst (off + m) (k - m) (acc @ map ?F [off..<off + m]) s1 =
        Ok (int (length (acc @ map ?F [off..<off + m]) + (k - m)), (acc @ map ?F [off..<off + m]) @ map (fbyte s1 (ino s1 ip)) [off + m..<off + m + (k - m)], s2)"
      "tx 0 (s1\<lparr>pmem := m2\<rparr>) (blk s1) s2" "D ((acc @ map ?F [off..<off + m]) @ map (fbyte s1 (ino s1 ip)) [off + m..<off + m + (k - m)]) m2"
      using less.IH [of "k - m" s1 "off + m" "acc @ map ?F [off..<off + m]"] q less.prems(2) m False 1(3) pm by auto
    have "tx 0 (s\<lparr>pmem := m2\<rparr>) (blk s) s2" using tx_trans [OF tx_pmem [OF 1(2), of m2]] 2(2) q by simp
    then show ?thesis using 1(1) 2(1,3) m by (auto simp: sp F q)
  qed
qed

lemma take_contents:
  assumes "off \<le> unat (i_size p)"
  shows "take n (drop off (contents s p)) = map (fbyte s p) [off..<off + min n (unat (i_size p) - off)]"
  using assms by (simp add: contents_def drop_map take_map drop_upt take_upt min_def)

lemma readi_spec:
  fixes s :: "'a fs_st_scheme"
  assumes "quiet s" "i_dev (ino s ip) = 1" "covered s (ino s ip) 0 (unat (i_size (ino s ip)))" "unat off + unat n < 2 ^ 32"
    and bs: "bs = take (unat n) (drop (unat off) (contents s (ino s ip)))"
    and "delivers s dst bs D" "D [] (pmem s)"
  shows "\<exists>m' s'. readi ip dst off n s = Ok (int (length bs), bs, s') \<and> tx 0 (s\<lparr>pmem := m'\<rparr>) (blk s) s' \<and> D bs m'"
proof -
  let ?p = "ino s ip"
  have w: "\<not> off + n < off" "unat (off + n) = unat off + unat n"
    using assms(4) by (simp_all add: unat_plus_simple [THEN iffD1] word_less_nat_alt unat_add_lem [THEN iffD1])
  show ?thesis
  proof (cases "off > i_size ?p")
    case True
    then have "bs = []" by (simp add: bs word_less_nat_alt)
    then show ?thesis using True tx_refl [OF assms(1)] assms(7)
      by (intro exI [of _ "pmem s"] exI [of _ s]) (simp add: readi_def)
  next
    case False
    then have le: "unat off \<le> unat (i_size ?p)" by (simp add: word_less_nat_alt)
    define k where "k = unat (if off + n > i_size ?p then i_size ?p - off else n)"
    have k: "k = min (unat n) (unat (i_size ?p) - unat off)"
      using le w(2) by (auto simp: k_def word_less_nat_alt unat_sub word_le_nat_alt)
    have b: "bs = map (fbyte s ?p) [unat off..<unat off + k]" using take_contents [OF le] by (simp add: bs k)
    have c: "covered s ?p (unat off) k" using assms(3) le k by (auto simp: covered_def)
    have "delivers s dst ([] @ map (fbyte s ?p) [unat off..<unat off + k]) D" using assms(6) b by simp
    from readi_loop_spec [OF assms(1,2) c this assms(7)]
    show ?thesis using False w(1) by (simp add: readi_def Let_def b flip: k_def)
  qed
qed

lemma delivers_KBuf: "delivers s KBuf whole (\<lambda>acc m. m = pmem s)"
  unfolding delivers_def by (auto simp: either_copyout_def same_space_def intro!: exI)

text \<open>\<open>n\<close> bytes of user memory at \<open>va\<close> that are mapped, private to the process and not part of its page table.\<close>

definition ubuf :: "'a kmem_st_scheme \<Rightarrow> u64 \<Rightarrow> u64 \<Rightarrow> nat \<Rightarrow> bool" where
  "ubuf s pt va n \<longleftrightarrow> pt_inv 2 s pt \<and> (\<forall>j<n. umapped s pt (va + of_nat j) \<and> user_pages s pt (va + of_nat j) 1) \<and>
     inj_on (\<lambda>j. upa s pt (va + of_nat j)) {..<n}"

definition put_user :: "'a kmem_st_scheme \<Rightarrow> u64 \<Rightarrow> u64 \<Rightarrow> u8 list \<Rightarrow> mem \<Rightarrow> bool" where
  "put_user s pt va bs m \<longleftrightarrow> pt_inv 2 (s\<lparr>pmem := m\<rparr>) pt \<and> upte (s\<lparr>pmem := m\<rparr>) pt = upte s pt \<and> tabs 2 m pt = tabs 2 (pmem s) pt \<and>
     (\<forall>j<length bs. m (upa s pt (va + of_nat j)) = bs ! j) \<and>
     (\<forall>x. (\<forall>j<length bs. x \<noteq> upa s pt (va + of_nat j)) \<longrightarrow> m x = pmem s x)"

lemma user_page1: "user_pages s pt va 1 \<longleftrightarrow> umapped s pt va \<longrightarrow> PTE2PA (upte s pt va) \<notin> tabs 2 (pmem s) pt \<and> 0 < refcnt s (PTE2PA (upte s pt va))"
  by (simp add: user_pages_def)

lemma put_user_step:
  assumes u: "ubuf s pt va (length acc + length bs + n)" and m: "put_user s pt va acc m"
    and t: "pmem t = m" "kend t = kend s" "freelist t = freelist s" "kref t = kref s"
  shows "\<exists>m'. copyout pt (va + of_nat (length acc)) bs t = Ok (0, t\<lparr>pmem := m'\<rparr>) \<and> put_user s pt va (acc @ bs) m'"
proof -
  have M: "pt_inv 2 (s\<lparr>pmem := m\<rparr>) pt" "upte (s\<lparr>pmem := m\<rparr>) pt = upte s pt" "tabs 2 m pt = tabs 2 (pmem s) pt"
    "\<And>j. j < length acc \<Longrightarrow> m (upa s pt (va + of_nat j)) = acc ! j"
    "\<And>x. (\<And>j. j < length acc \<Longrightarrow> x \<noteq> upa s pt (va + of_nat j)) \<Longrightarrow> m x = pmem s x"
    using m by (auto simp: put_user_def)
  have I: "inj_on (\<lambda>j. upa s pt (va + of_nat j)) {..<length acc + length bs}"
    using u by (auto simp: ubuf_def intro: inj_on_subset)
  note K = kmem_same [of t "s\<lparr>pmem := m\<rparr>", simplified, OF t]
  have e: "pt_inv 2 t pt" "upte t pt = upte s pt" using K(1) [of 2 pt] K(2) [of pt] M by simp_all
  have f: "upa t pt = upa s pt" "umapped t pt = umapped s pt" by (simp_all add: fun_eq_iff upa_def umapped_def e(2))
  have r: "refcnt t x = refcnt s x" for x by (simp add: refcnt_cong [OF t(2,4)])
  let ?va = "va + of_nat (length acc)"
  have v: "?va + of_nat j = va + of_nat (length acc + j)" for j by simp
  have "mapped_len t pt ?va (length bs) (length bs)" unfolding mapped_len_all v f using u by (simp add: ubuf_def del: of_nat_add)
  moreover have "user_pages t pt ?va (length bs)" unfolding user_pages_def v f e(2) r t(1) M(3)
  proof (intro allI impI)
    fix j assume "j < length bs"
    then have "user_pages s pt (va + of_nat (length acc + j)) 1" "umapped s pt (va + of_nat (length acc + j))"
      using u by (simp_all add: ubuf_def del: of_nat_add)
    then show "PTE2PA (upte s pt (va + of_nat (length acc + j))) \<notin> tabs 2 (pmem s) pt \<and>
        0 < refcnt s (PTE2PA (upte s pt (va + of_nat (length acc + j))))" unfolding user_page1 by blast
  qed
  moreover have "inj_on (\<lambda>i. upa t pt (?va + of_nat i)) {..<length bs}" unfolding f v
  proof (rule inj_onI)
    fix i j assume "i \<in> {..<length bs}" "j \<in> {..<length bs}" "upa s pt (va + of_nat (length acc + i)) = upa s pt (va + of_nat (length acc + j))"
    then show "i = j" using inj_onD [OF I, of "length acc + i" "length acc + j"] by simp
  qed
  ultimately obtain t' where c: "copyout pt ?va bs t = Ok (0, t')" "wrote t pt ?va bs (length bs) t'"
    using copyout_eq [OF e(1), of ?va bs "length bs"] by auto
  have w: "t' = t\<lparr>pmem := pmem t'\<rparr>" "pt_inv 2 t' pt" "tabs 2 (pmem t') pt = tabs 2 m pt" "upte t' pt = upte s pt"
    "\<And>j. j < length bs \<Longrightarrow> pmem t' (upa s pt (va + of_nat (length acc + j))) = bs ! j"
    "\<And>x. (\<And>j. j < length bs \<Longrightarrow> x \<noteq> upa s pt (va + of_nat (length acc + j))) \<Longrightarrow> pmem t' x = m x"
    using c(2) unfolding wrote_def e(2) f v t(1) by blast+
  have k': "kend t' = kend s" "freelist t' = freelist s" "kref t' = kref s" using t by (subst w(1), simp)+
  note K' = kmem_same [of t' "s\<lparr>pmem := pmem t'\<rparr>", simplified, OF k']
  have "pt_inv 2 (s\<lparr>pmem := pmem t'\<rparr>) pt" "upte (s\<lparr>pmem := pmem t'\<rparr>) pt = upte s pt"
    using K'(1) [of 2 pt] K'(2) [of pt] w by simp_all
  moreover have "pmem t' (upa s pt (va + of_nat j)) = (acc @ bs) ! j" if j: "j < length (acc @ bs)" for j
  proof (cases "j < length acc")
    case True
    have "upa s pt (va + of_nat j) \<noteq> upa s pt (va + of_nat (length acc + k))" if "k < length bs" for k
      using inj_onD [OF I, of j "length acc + k"] that True by auto
    then show ?thesis using w(6) M(4) [OF True] True by (simp add: nth_append)
  next
    case False
    then show ?thesis using w(5) [of "j - length acc"] j by (simp add: nth_append)
  qed
  moreover have "pmem t' x = pmem s x" if x: "\<forall>j<length (acc @ bs). x \<noteq> upa s pt (va + of_nat j)" for x
  proof -
    have "pmem t' x = m x" by (rule w(6)) (use x in \<open>simp del: of_nat_add\<close>)
    also have "\<dots> = pmem s x" by (rule M(5)) (use x in simp)
    finally show ?thesis .
  qed
  ultimately have "put_user s pt va (acc @ bs) (pmem t')" using w(3) M(3) by (simp add: put_user_def)
  moreover have "copyout pt ?va bs t = Ok (0, t\<lparr>pmem := pmem t'\<rparr>)" unfolding c(1) using w(1) by simp
  ultimately show ?thesis by blast
qed

lemma delivers_user:
  assumes "myproc s = Some i" "pt = p_pagetable (procs s ! i)" "ubuf s pt va (length whole)"
  shows "delivers s (UDst va) whole (put_user s pt va)" "put_user s pt va [] (pmem s)"
proof -
  show "put_user s pt va [] (pmem s)" using assms(3) by (simp add: put_user_def ubuf_def)
  show "delivers s (UDst va) whole (put_user s pt va)"
    unfolding delivers_def
  proof (intro allI impI)
    fix acc bs rest m and t :: "'a fs_st_scheme"
    assume a: "acc @ bs @ rest = whole" "put_user s pt va acc m" "same_space (s\<lparr>pmem := m\<rparr>) t"
    have t: "pmem t = m" "kend t = kend s" "freelist t = freelist s" "kref t = kref s" "myproc t = Some i" "p_pagetable (procs t ! i) = pt"
      using a(3) assms(1,2) by (auto simp: same_space_def myproc_def)
    have "ubuf s pt va (length acc + length bs + length rest)" using assms(3) by (simp add: a(1) [symmetric] add.assoc)
    from put_user_step [OF this a(2) t(1-4)] show "\<exists>m'. either_copyout (dst_add (UDst va) (length acc)) bs t = Ok (0, t\<lparr>pmem := m'\<rparr>) \<and>
        put_user s pt va (acc @ bs) m'"
      using t(5,6) by (simp add: either_copyout_def with_proc_def)
  qed
qed

section \<open>A machine with one file\<close>

text \<open>Inode 7 is a file with the contents "hello" in block 46.\<close>

definition hello_inode :: inode where
  "hello_inode = blank_inode\<lparr>i_dev := 1, i_inum := 7, i_ref := 1, i_valid := 1, i_type := T_FILE, i_nlink := 1, i_size := 5,
     i_addrs := 46 # replicate 12 0\<rparr>"

definition hello_disk :: "u32 \<Rightarrow> u8 list" where
  "hello_disk = small_disk(46 := bytes_of ''hello'' @ replicate 1019 0)"

definition hello_machine :: fs_st where
  "hello_machine = fs_machine hello_disk small_sb [hello_inode]"

lemma hello_log: "length (hello_disk 2) = BSIZE" "get_int (hello_disk 2) 0 = 0"
  using small_disk_log by (simp_all add: hello_disk_def)

lemmas hello_quiet = fs_machine_quiet [of hello_disk small_sb "[hello_inode]", OF hello_log, folded hello_machine_def]

lemma hello_fields [simp]:
  "lg_start hello_machine = 2" "fs_sb hello_machine = small_sb" "inodes hello_machine = [hello_inode]" "myproc hello_machine = Some 0"
  "procs hello_machine = procs user_machine" "pmem hello_machine = pmem user_machine"
  by (simp_all add: hello_machine_def)

lemma hello_block: "blk hello_machine 46 = bytes_of ''hello'' @ replicate 1019 0" "blk hello_machine 45 = small_bitmap"
  "baddr hello_machine hello_inode 0 = 46"
  by (simp_all add: hello_quiet hello_disk_def small_disk_def baddr_def hello_inode_def NDIRECT_def)

lemma hello_covered: "covered hello_machine hello_inode 0 5"
proof -
  have "x div BSIZE = 0" if "x < 5" for x using that by (simp add: BSIZE_def)
  then show ?thesis by (simp add: covered_def hello_block MAXFILE_def NDIRECT_def NINDIRECT_def BSIZE_def)
qed

lemma hello_contents: "contents hello_machine hello_inode = bytes_of ''hello''"
proof -
  have "unat (i_size hello_inode) = 5" by (simp add: hello_inode_def)
  moreover have "fbyte hello_machine hello_inode k = bytes_of ''hello'' ! k" if "k < 5" for k
  proof -
    have d: "k div BSIZE = 0" "k mod BSIZE = k" using that by (simp_all add: BSIZE_def)
    have "k < length (bytes_of ''hello'')" using that by simp
    then show ?thesis unfolding fbyte_def d hello_block by (simp only: nth_append if_True)
  qed
  ultimately show ?thesis by (intro nth_equalityI) (simp_all add: contents_def)
qed

lemma hello_ubuf: "n \<le> 4096 \<Longrightarrow> ubuf hello_machine (pg 0) 0 n"
proof -
  assume n: "n \<le> 4096"
  have e: "pmem hello_machine = pmem user_machine" "kend hello_machine = kend user_machine" "freelist hello_machine = freelist user_machine"
    "kref hello_machine = kref user_machine" by (simp_all add: hello_machine_def)
  note k = kmem_same [OF e]
  have "pt_inv 2 hello_machine (pg 0)" using user_machine_mem(1) by (simp only: k)
  moreover have "\<forall>j<n. umapped hello_machine (pg 0) (0 + of_nat j) \<and> user_pages hello_machine (pg 0) (0 + of_nat j) 1"
    "inj_on (\<lambda>j. upa hello_machine (pg 0) (0 + of_nat j)) {..<n}"
    unfolding k using user_machine_bytes [OF n] by blast+
  ultimately show ?thesis unfolding ubuf_def by blast
qed

section \<open>Properties\<close>

text \<open>
  C39: \<^verbatim>\<open>readi\<close> into user memory returns the bytes of the file from \<open>off\<close> on, at most \<open>n\<close> and not past the end of the file, stores
  exactly them at the user's address, and changes no block, no inode and no other memory.
\<close>

theorem readi_correct:
  fixes s :: "'a fs_st_scheme"
  assumes "quiet s" "i_dev (ino s ip) = 1" "covered s (ino s ip) 0 (unat (i_size (ino s ip)))" "unat off + unat n < 2 ^ 32"
    and "bs = take (unat n) (drop (unat off) (contents s (ino s ip)))"
    and "myproc s = Some i" "pt = p_pagetable (procs s ! i)" "ubuf s pt va (length bs)"
  shows "\<exists>s'. readi ip (UDst va) off n s = Ok (int (length bs), bs, s') \<and> put_user s pt va bs (pmem s') \<and>
    quiet s' \<and> blk s' = blk s \<and> inodes s' = inodes s"
proof -
  note d = delivers_user [OF assms(6-8)]
  obtain m s' where 1: "readi ip (UDst va) off n s = Ok (int (length bs), bs, s')" "tx 0 (s\<lparr>pmem := m\<rparr>) (blk s) s'" "put_user s pt va bs m"
    using readi_spec [OF assms(1-5) d] by blast
  note T = tx_fields [OF 1(2)] tx_fs [OF 1(2)]
  have "pmem s' = m" using lkept_space [of "s\<lparr>pmem := m\<rparr>" s'] 1(2) assms(1) by (simp add: tx_def same_space_def)
  then show ?thesis using 1(1,3) T by auto
qed

theorem readi_correct_witness:
  "\<exists>s'. readi 0 (UDst 0) 1 3 hello_machine = Ok (3, bytes_of ''ell'', s') \<and> put_user hello_machine (pg 0) 0 (bytes_of ''ell'') (pmem s')"
proof -
  have c: "covered hello_machine (ino hello_machine 0) 0 (unat (i_size (ino hello_machine 0)))"
    using hello_covered by (simp add: hello_inode_def)
  have b: "bytes_of ''ell'' = take (unat (3 :: u32)) (drop (unat (1 :: u32)) (contents hello_machine (ino hello_machine 0)))"
    by (simp add: hello_contents)
  have "ubuf hello_machine (pg 0) 0 (length (bytes_of ''ell''))" by (rule hello_ubuf) simp
  from readi_correct [OF hello_quiet(1) _ c _ b _ _ this] show ?thesis
    by (auto simp: hello_inode_def user_machine_proc)
qed

end
