(* ===== verification/Fs_Write.thy ===== *)
theory Fs_Write
  imports Fs_Files
begin

text \<open>
  \<^verbatim>\<open>writei\<close> of \<^verbatim>\<open>kernel/fs.c\<close>. A write replaces a stretch of the file's bytes and may extend the file; blocks are allocated on
  the way. Blocks that belong to nobody else are written, so other files keep their contents. New blocks in the
  range that the inode reaches through its indirect block are not covered, since \<^verbatim>\<open>bmap\<close> then allocates while it holds
  a buffer.
\<close>

section \<open>A well-formed file system\<close>

text \<open>Blocks that hold the contents of files.\<close>

definition data_block :: "'a fs_st_scheme \<Rightarrow> u32 \<Rightarrow> bool" where
  "data_block s a \<longleftrightarrow> a \<noteq> 0 \<and> unat a < nblks s \<and> bused s (unat a) \<and> a \<notin> logarea (lg_start s) \<and> length (blk s a) = BSIZE \<and>
     (\<forall>y<nblks s. bmblk s y \<noteq> a) \<and> (\<forall>inum < sb_ninodes (fs_sb s). IBLOCK inum (fs_sb s) \<noteq> a)"

definition inode_blocks_ok :: "'a fs_st_scheme \<Rightarrow> bool" where
  "inode_blocks_ok s \<longleftrightarrow> (\<forall>inum < sb_ninodes (fs_sb s). let n = IBLOCK inum (fs_sb s) in
     n \<notin> logarea (lg_start s) \<and> length (blk s n) = BSIZE \<and> (\<forall>y<nblks s. bmblk s y \<noteq> n) \<and> (unat n < nblks s \<longrightarrow> bused s (unat n)))"

definition fs_ok :: "'a fs_st_scheme \<Rightarrow> bool" where
  "fs_ok s \<longleftrightarrow> quiet s \<and> bitmap_ok s \<and> 0 < nblks s \<and> bused s 0 \<and> inode_blocks_ok s"

definition file_ok :: "'a fs_st_scheme \<Rightarrow> inode \<Rightarrow> bool" where
  "file_ok s p \<longleftrightarrow> i_dev p = 1 \<and> i_inum p < sb_ninodes (fs_sb s) \<and> length (i_addrs p) = 13 \<and> unat (i_size p) \<le> MAXFILE * BSIZE \<and>
     (\<forall>bn<MAXFILE. baddr s p bn \<noteq> 0 \<longrightarrow> data_block s (baddr s p bn)) \<and>
     (\<forall>bn<MAXFILE. \<forall>cn<MAXFILE. baddr s p bn \<noteq> 0 \<longrightarrow> baddr s p bn = baddr s p cn \<longrightarrow> bn = cn) \<and>
     (i_addrs p ! NDIRECT \<noteq> 0 \<longrightarrow> data_block s (i_addrs p ! NDIRECT) \<and> (\<forall>bn<MAXFILE. baddr s p bn \<noteq> i_addrs p ! NDIRECT)) \<and>
     (\<forall>x<unat (i_size p). baddr s p (x div BSIZE) \<noteq> 0)"

lemma file_okD:
  assumes "file_ok s p"
  shows "i_dev p = 1" "i_inum p < sb_ninodes (fs_sb s)" "length (i_addrs p) = 13" "unat (i_size p) \<le> MAXFILE * BSIZE"
    "bn < MAXFILE \<Longrightarrow> baddr s p bn \<noteq> 0 \<Longrightarrow> data_block s (baddr s p bn)"
    "bn < MAXFILE \<Longrightarrow> cn < MAXFILE \<Longrightarrow> baddr s p bn \<noteq> 0 \<Longrightarrow> baddr s p bn = baddr s p cn \<Longrightarrow> bn = cn"
    "i_addrs p ! NDIRECT \<noteq> 0 \<Longrightarrow> data_block s (i_addrs p ! NDIRECT)"
    "i_addrs p ! NDIRECT \<noteq> 0 \<Longrightarrow> bn < MAXFILE \<Longrightarrow> baddr s p bn \<noteq> i_addrs p ! NDIRECT"
    "x < unat (i_size p) \<Longrightarrow> baddr s p (x div BSIZE) \<noteq> 0"
  using assms unfolding file_ok_def by blast+

lemma block_of: "x < MAXFILE * BSIZE \<Longrightarrow> x div BSIZE < MAXFILE"
  by (simp add: less_mult_imp_div_less)

text \<open>A step that keeps the bitmap and all blocks of the file, apart from one data block whose contents may change.\<close>

definition keeps_bitmap :: "'a fs_st_scheme \<Rightarrow> 'a fs_st_scheme \<Rightarrow> bool" where
  "keeps_bitmap s s' \<longleftrightarrow> quiet s' \<and> fs_sb s' = fs_sb s \<and> lg_start s' = lg_start s \<and> (\<forall>y<nblks s. blk s' (bmblk s y) = blk s (bmblk s y)) \<and>
     (\<forall>a. length (blk s a) = BSIZE \<longrightarrow> length (blk s' a) = BSIZE)"

lemma keeps_bitmapD:
  assumes "keeps_bitmap s s'"
  shows "nblks s' = nblks s" "bmblk s' = bmblk s" "y < nblks s \<Longrightarrow> bused s' y = bused s y" "data_block s a \<Longrightarrow> data_block s' a"
    "fs_ok s \<Longrightarrow> fs_ok s'"
proof -
  have k: "quiet s'" "fs_sb s' = fs_sb s" "lg_start s' = lg_start s" "\<And>y. y < nblks s \<Longrightarrow> blk s' (bmblk s y) = blk s (bmblk s y)"
    "\<And>a. length (blk s a) = BSIZE \<Longrightarrow> length (blk s' a) = BSIZE"
    using assms by (auto simp: keeps_bitmap_def)
  show n: "nblks s' = nblks s" by (simp add: nblks_def k)
  show m: "bmblk s' = bmblk s" by (simp add: fun_eq_iff bmblk_def k)
  show u: "bused s' y = bused s y" if "y < nblks s" for y using k(4) [OF that] by (simp add: bused_def m)
  show "data_block s' a" if "data_block s a" using that k(5) u by (auto simp: data_block_def n m k(2,3))
  show "fs_ok s'" if f: "fs_ok s"
  proof -
    have "bitmap_ok s'" using f u k(5) by (auto simp: fs_ok_def bitmap_ok_def n m k(3))
    moreover have "inode_blocks_ok s'" using f u k(5) by (auto simp: fs_ok_def inode_blocks_ok_def Let_def n m k(2,3))
    ultimately show ?thesis using f u [of 0] k(1) by (auto simp: fs_ok_def n)
  qed
qed

text \<open>Blocks other than the inode's indirect block do not matter for where its blocks are.\<close>

lemma baddr_cong: "(i_addrs p ! NDIRECT \<noteq> 0 \<Longrightarrow> blk s' (i_addrs p ! NDIRECT) = blk s (i_addrs p ! NDIRECT)) \<Longrightarrow> baddr s' p = baddr s p"
  by (auto simp: fun_eq_iff baddr_def)

lemma file_ok_cong:
  assumes "file_ok s p" "baddr s' p = baddr s p" "\<And>a. data_block s a \<Longrightarrow> data_block s' a" "fs_sb s' = fs_sb s"
  shows "file_ok s' p"
  using assms(1,3) unfolding file_ok_def assms(2,4) by blast

text \<open>Writing one block of a file.\<close>

lemma store_block:
  assumes "fs_ok s" "file_ok s p" "bn < MAXFILE" "baddr s p bn \<noteq> 0" "length d = BSIZE" "tx j s ((blk s)(baddr s p bn := d)) s'"
  shows "fs_ok s'" "file_ok s' p" "baddr s' p = baddr s p"
    "x < MAXFILE * BSIZE \<Longrightarrow> baddr s p (x div BSIZE) \<noteq> 0 \<Longrightarrow> fbyte s' p x = (if x div BSIZE = bn then d ! (x mod BSIZE) else fbyte s p x)"
    "data_block s a \<Longrightarrow> data_block s' a"
proof -
  let ?a = "baddr s p bn"
  note T = tx_fields [OF assms(6)] tx_fs [OF assms(6)]
  have db: "data_block s ?a" by (rule file_okD(5) [OF assms(2-4)])
  have k: "keeps_bitmap s s'" using T db assms(5) by (auto simp: keeps_bitmap_def data_block_def)
  show "fs_ok s'" "data_block s a \<Longrightarrow> data_block s' a" for a using keeps_bitmapD(4,5) [OF k] assms(1) by auto
  show b: "baddr s' p = baddr s p" by (rule baddr_cong) (use T file_okD(8) [OF assms(2) _ assms(3)] in auto)
  show "file_ok s' p" by (rule file_ok_cong [OF assms(2) b keeps_bitmapD(4) [OF k]]) (simp_all add: T)
  show "fbyte s' p x = (if x div BSIZE = bn then d ! (x mod BSIZE) else fbyte s p x)"
    if "x < MAXFILE * BSIZE" "baddr s p (x div BSIZE) \<noteq> 0"
    using file_okD(6) [OF assms(2) block_of [OF that(1)] assms(3) that(2)] by (auto simp: fbyte_def b T)
qed

text \<open>Taking a free block for slot \<open>bn\<close>.\<close>

lemma add_block:
  assumes "fs_ok s" "file_ok s p" "bn < NDIRECT" "i_addrs p ! bn = 0" "allocated s x s'" "x < nblks s" "\<not> bused s x"
    and p': "p' = p\<lparr>i_addrs := (i_addrs p)[bn := of_nat x]\<rparr>"
  shows "fs_ok s'" "file_ok s' p'" "baddr s' p' = (baddr s p)(bn := of_nat x)" "data_block s a \<Longrightarrow> data_block s' a \<and> blk s' a = blk s a \<and> a \<noteq> of_nat x"
    "of_nat x \<noteq> (0 :: u32)"
proof -
  let ?x = "of_nat x :: u32"
  have q: "quiet s" "bitmap_ok s" "bused s 0" "inode_blocks_ok s" using assms(1) by (auto simp: fs_ok_def)
  note T = tx_fields [OF assms(5) [unfolded allocated_def]] tx_fs [OF assms(5) [unfolded allocated_def]]
  note B = allocated_bitmap [OF assms(5) q(2) assms(6,7)]
  have ux: "unat ?x = x" using nblks_bound [OF assms(6)] by (intro unat_of_nat_less) simp
  have x0: "x \<noteq> 0" using q(3) assms(7) by metis
  show z: "?x \<noteq> 0" using ux x0 by auto
  have m: "bmblk s' = bmblk s" by (simp add: fun_eq_iff bmblk_def T)
  have xl: "?x \<notin> logarea (lg_start s)" "\<And>y. y < nblks s \<Longrightarrow> bmblk s y \<noteq> ?x" using q(2) assms(6,7) by (auto simp: bitmap_ok_def)
  have xi: "IBLOCK inum (fs_sb s) \<noteq> ?x" if "inum < sb_ninodes (fs_sb s)" for inum
    using q(4) that assms(6,7) ux by (auto simp: inode_blocks_ok_def Let_def)
  have lx: "length (blk s' (bmblk s x)) = BSIZE" using B(3) assms(6) by (simp add: bitmap_ok_def B(2) m)
  have same: "blk s' a = blk s a" if "a \<noteq> ?x" "a \<noteq> bmblk s x" for a using that by (simp add: T)
  show db: "data_block s' a \<and> blk s' a = blk s a \<and> a \<noteq> ?x" if a: "data_block s a" for a
  proof -
    have "a \<noteq> ?x" "a \<noteq> bmblk s x" using a assms(6,7) ux by (auto simp: data_block_def)
    then show ?thesis using a same [of a] B(1) by (auto simp: data_block_def B(2) m T(3,6))
  qed
  have dx: "data_block s' ?x" using z ux assms(6) xl xi B(1) [of x] by (simp add: data_block_def B(2) m T)
  have "inode_blocks_ok s'" unfolding inode_blocks_ok_def Let_def T(3,6) B(2) m
  proof (intro allI impI)
    fix inum assume i: "inum < sb_ninodes (fs_sb s)"
    have "IBLOCK inum (fs_sb s) \<noteq> bmblk s x" using q(4) i assms(6) unfolding inode_blocks_ok_def Let_def by metis
    then show "IBLOCK inum (fs_sb s) \<notin> logarea (lg_start s) \<and> length (blk s' (IBLOCK inum (fs_sb s))) = BSIZE \<and>
        (\<forall>y<nblks s. bmblk s y \<noteq> IBLOCK inum (fs_sb s)) \<and> (unat (IBLOCK inum (fs_sb s)) < nblks s \<longrightarrow> bused s' (unat (IBLOCK inum (fs_sb s))))"
      using q(4) i same [OF xi [OF i]] B(1) by (auto simp: inode_blocks_ok_def Let_def)
  qed
  then show "fs_ok s'" using B T(1) assms(1,6) B(1) [of 0] by (auto simp: fs_ok_def)
  have ad: "i_addrs p' ! NDIRECT = i_addrs p ! NDIRECT" "length (i_addrs p) = 13" using assms(3) file_okD(3) [OF assms(2)] by (simp_all add: p')
  show b: "baddr s' p' = (baddr s p)(bn := ?x)"
    using db [OF file_okD(7) [OF assms(2)]] assms(3) ad by (auto simp: fun_eq_iff baddr_def p' NDIRECT_def)
  have nx: "baddr s p cn \<noteq> ?x" if "cn < MAXFILE" for cn using db [OF file_okD(5) [OF assms(2) that]] z by metis
  have bn: "baddr s p bn = 0" "bn < MAXFILE" using assms(3,4) by (simp_all add: baddr_def MAXFILE_def)
  show "file_ok s' p'" unfolding file_ok_def b ad(1)
  proof (intro conjI allI impI)
    show "i_dev p' = 1" "i_inum p' < sb_ninodes (fs_sb s')" "length (i_addrs p') = 13" "unat (i_size p') \<le> MAXFILE * BSIZE"
      using file_okD(1-4) [OF assms(2)] by (simp_all add: p' T)
    show "data_block s' (((baddr s p)(bn := ?x)) cn)" if "cn < MAXFILE" "((baddr s p)(bn := ?x)) cn \<noteq> 0" for cn
      using that dx db file_okD(5) [OF assms(2) that(1)] by (auto split: if_splits)
    show "cn = dn" if "cn < MAXFILE" "dn < MAXFILE" "((baddr s p)(bn := ?x)) cn \<noteq> 0" "((baddr s p)(bn := ?x)) cn = ((baddr s p)(bn := ?x)) dn" for cn dn
      using that file_okD(6) [OF assms(2) that(1,2)] nx [OF that(1)] nx [OF that(2)] by (auto split: if_splits)
    show "data_block s' (i_addrs p ! NDIRECT)" if "i_addrs p ! NDIRECT \<noteq> 0" using db [OF file_okD(7) [OF assms(2) that]] by blast
    show "((baddr s p)(bn := ?x)) cn \<noteq> i_addrs p ! NDIRECT" if "i_addrs p ! NDIRECT \<noteq> 0" "cn < MAXFILE" for cn
      using file_okD(8) [OF assms(2) that] db [OF file_okD(7) [OF assms(2) that(1)]] by auto
    show "((baddr s p)(bn := ?x)) (y div BSIZE) \<noteq> 0" if "y < unat (i_size p')" for y
      using file_okD(9) [OF assms(2), of y] that z by (simp add: p')
  qed
qed

section \<open>Changing the contents of a file\<close>

lemma fs_view_cong:
  assumes "blk s' = blk s" "fs_sb s' = fs_sb s" "lg_start s' = lg_start s" "quiet s' = quiet s"
  shows "fs_ok s' = fs_ok s" "data_block s' a = data_block s a" "baddr s' p = baddr s p" "file_ok s' p = file_ok s p" "fbyte s' p = fbyte s p"
proof -
  have e: "nblks s' = nblks s" "bmblk s' = bmblk s" "bused s' = bused s" by (simp_all add: fun_eq_iff nblks_def bmblk_def bused_def assms)
  show "fs_ok s' = fs_ok s" by (simp add: fs_ok_def bitmap_ok_def inode_blocks_ok_def e assms)
  show d: "data_block s' a = data_block s a" for a by (simp add: data_block_def e assms)
  show b: "baddr s' p = baddr s p" by (simp add: fun_eq_iff baddr_def assms)
  show "file_ok s' p = file_ok s p" by (simp add: file_ok_def b d assms)
  show "fbyte s' p = fbyte s p" by (simp add: fun_eq_iff fbyte_def b assms)
qed

lemmas fs_view_inodes = fs_view_cong [of "s\<lparr>inodes := as\<rparr>" s for s as, simplified]

text \<open>
  \<open>wrote_file ip s off bs s'\<close>: the bytes \<open>bs\<close> are at offset \<open>off\<close> of the file of inode \<open>ip\<close>, its other bytes and all blocks that are not
  the file's are as they were. The size is not changed yet.
\<close>

definition wrote_file :: "nat \<Rightarrow> 'a fs_st_scheme \<Rightarrow> nat \<Rightarrow> u8 list \<Rightarrow> 'a fs_st_scheme \<Rightarrow> bool" where
  "wrote_file ip s off bs s' \<longleftrightarrow> fs_ok s' \<and> file_ok s' (ino s' ip) \<and>
     (\<exists>as. inodes s' = (inodes s)[ip := (ino s ip)\<lparr>i_addrs := as\<rparr>]) \<and>
     (\<forall>bn<MAXFILE. baddr s (ino s ip) bn \<noteq> 0 \<longrightarrow> baddr s' (ino s' ip) bn = baddr s (ino s ip) bn) \<and>
     (\<forall>j<length bs. baddr s' (ino s' ip) ((off + j) div BSIZE) \<noteq> 0 \<and> fbyte s' (ino s' ip) (off + j) = bs ! j) \<and>
     (\<forall>x<MAXFILE * BSIZE. baddr s (ino s ip) (x div BSIZE) \<noteq> 0 \<longrightarrow> x < off \<or> off + length bs \<le> x \<longrightarrow>
        fbyte s' (ino s' ip) x = fbyte s (ino s ip) x) \<and>
     (\<forall>a. data_block s a \<longrightarrow> (\<forall>bn<MAXFILE. baddr s (ino s ip) bn \<noteq> a) \<longrightarrow>
        data_block s' a \<and> blk s' a = blk s a \<and> (\<forall>bn<MAXFILE. baddr s' (ino s' ip) bn \<noteq> a))"

lemma wrote_fileD:
  assumes "wrote_file ip s off bs s'"
  shows "fs_ok s'" "file_ok s' (ino s' ip)" "\<exists>as. inodes s' = (inodes s)[ip := (ino s ip)\<lparr>i_addrs := as\<rparr>]"
    "bn < MAXFILE \<Longrightarrow> baddr s (ino s ip) bn \<noteq> 0 \<Longrightarrow> baddr s' (ino s' ip) bn = baddr s (ino s ip) bn"
    "j < length bs \<Longrightarrow> baddr s' (ino s' ip) ((off + j) div BSIZE) \<noteq> 0 \<and> fbyte s' (ino s' ip) (off + j) = bs ! j"
    "x < MAXFILE * BSIZE \<Longrightarrow> baddr s (ino s ip) (x div BSIZE) \<noteq> 0 \<Longrightarrow> x < off \<or> off + length bs \<le> x \<Longrightarrow>
        fbyte s' (ino s' ip) x = fbyte s (ino s ip) x"
    "data_block s a \<Longrightarrow> (\<And>bn. bn < MAXFILE \<Longrightarrow> baddr s (ino s ip) bn \<noteq> a) \<Longrightarrow>
        data_block s' a \<and> blk s' a = blk s a \<and> (\<forall>bn<MAXFILE. baddr s' (ino s' ip) bn \<noteq> a)"
  using assms unfolding wrote_file_def by blast+

lemma wrote_refl: "fs_ok s \<Longrightarrow> file_ok s (ino s ip) \<Longrightarrow> wrote_file ip s off [] s"
  unfolding wrote_file_def by (auto intro!: exI [of _ "i_addrs (ino s ip)"])

lemma wrote_trans:
  assumes 1: "wrote_file ip s off bs t" and 2: "wrote_file ip t (off + length bs) cs u" and len: "off + length bs + length cs \<le> MAXFILE * BSIZE"
    and ip: "ip < length (inodes s)"
  shows "wrote_file ip s off (bs @ cs) u"
  unfolding wrote_file_def
proof (intro conjI allI impI)
  note A = wrote_fileD [OF 1] and B = wrote_fileD [OF 2]
  let ?p = "ino s ip" and ?q = "ino t ip" and ?r = "ino u ip"
  show "fs_ok u" "file_ok u ?r" by (rule B(1,2))+
  show "\<exists>as. inodes u = (inodes s)[ip := ?p\<lparr>i_addrs := as\<rparr>]" using A(3) B(3) ip by auto
  show b: "baddr u ?r bn = baddr s ?p bn" if "bn < MAXFILE" "baddr s ?p bn \<noteq> 0" for bn
    using A(4) [OF that] B(4) [OF that(1)] that(2) by metis
  have f: "baddr u ?r ((off + j) div BSIZE) \<noteq> 0 \<and> fbyte u ?r (off + j) = (bs @ cs) ! j" if j: "j < length (bs @ cs)" for j
  proof (cases "j < length bs")
    case True
    then have x: "off + j < MAXFILE * BSIZE" "baddr t ?q ((off + j) div BSIZE) \<noteq> 0" using len A(5) [OF True] by simp_all
    then show ?thesis using A(5) [OF True] B(4) [OF block_of [OF x(1)] x(2)] B(6) [OF x] True by (simp add: nth_append)
  next
    case False
    then show ?thesis using B(5) [of "j - length bs"] j by (simp add: nth_append)
  qed
  show "baddr u ?r ((off + j) div BSIZE) \<noteq> 0" "fbyte u ?r (off + j) = (bs @ cs) ! j" if "j < length (bs @ cs)" for j
    using f [OF that] by blast+
  show "fbyte u ?r x = fbyte s ?p x" if "x < MAXFILE * BSIZE" "baddr s ?p (x div BSIZE) \<noteq> 0" "x < off \<or> off + length (bs @ cs) \<le> x" for x
  proof -
    have "baddr t ?q (x div BSIZE) \<noteq> 0" using A(4) [OF block_of [OF that(1)] that(2)] that(2) by simp
    then show ?thesis using A(6) [OF that(1,2)] B(6) [OF that(1)] that(3) by auto
  qed
  fix a assume a: "data_block s a" "\<forall>bn<MAXFILE. baddr s ?p bn \<noteq> a"
  have t: "data_block t a" "blk t a = blk s a" "\<And>bn. bn < MAXFILE \<Longrightarrow> baddr t ?q bn \<noteq> a" using A(7) [OF a(1)] a(2) by auto
  have u: "data_block u a \<and> blk u a = blk t a \<and> (\<forall>bn<MAXFILE. baddr u ?r bn \<noteq> a)" by (rule B(7) [OF t(1,3)])
  then show "data_block u a" "blk u a = blk s a" "\<And>bn. bn < MAXFILE \<Longrightarrow> baddr u ?r bn \<noteq> a" using t(2) by simp_all
qed

text \<open>\<^verbatim>\<open>bmap\<close> finds the block or allocates one in the direct part; it fails only when the disk is full.\<close>

definition disk_full :: "'a fs_st_scheme \<Rightarrow> bool" where
  "disk_full s \<longleftrightarrow> (\<forall>y<nblks s. bused s y)"

lemma bmap_grow:
  assumes "fs_ok s" "file_ok s (ino s ip)" "ip < length (inodes s)" "bn < MAXFILE" "bn < NDIRECT \<or> baddr s (ino s ip) bn \<noteq> 0" "can_logn 2 s"
  shows "\<exists>a s'. bmap ip bn s = Ok (a, s') \<and> ftx 2 s (blk s') s' \<and> wrote_file ip s off [] s' \<and>
    (if a = 0 then disk_full s' \<and> baddr s' (ino s' ip) bn = 0 else a = baddr s' (ino s' ip) bn)"
proof -
  let ?p = "ino s ip"
  have q: "quiet s" "bitmap_ok s" using assms(1) by (auto simp: fs_ok_def)
  consider "baddr s ?p bn \<noteq> 0" | "bn < NDIRECT" "i_addrs ?p ! bn = 0" using assms(5) by (cases "bn < NDIRECT") (auto simp: baddr_def)
  then show ?thesis
  proof cases
    case 1
    then obtain s' where s': "bmap ip bn s = Ok (baddr s ?p bn, s')" "tx 0 s (blk s) s'"
      using bmap_mapped [OF q(1) file_okD(1) [OF assms(2)] assms(4)] by blast
    note T = tx_fields [OF s'(2)] tx_fs [OF s'(2)]
    note V = fs_view_cong [of s' s, OF T(2,6,3)]
    have qq: "quiet s' = quiet s" using T(1) q(1) by simp
    have "wrote_file ip s off [] s'" using assms(1,2) unfolding wrote_file_def T V [OF qq] by (auto intro!: exI [of _ "i_addrs ?p"])
    then show ?thesis using s' tx_ftx [OF tx_more [OF s'(2), of 2]] 1 V(3) [OF qq] by (auto simp: T)
  next
    case 2
    obtain r t where r: "balloc 1 s = Ok (r, t)" "(\<forall>y<nblks s. bused s y) \<and> r = 0 \<and> tx 0 s (blk s) t \<or>
        (\<exists>x<nblks s. r = of_nat x \<and> \<not> bused s x \<and> (\<forall>y<x. bused s y) \<and> allocated s x t)"
      using balloc_spec [OF q(1) assms(6) q(2)] by blast
    have bm: "bmap ip bn s = (if r = 0 then Ok (0, t) else Ok (r, set_addr ip bn r t))"
      using 2 r(1) file_okD(1) [OF assms(2)] by (simp add: bmap_def bmap_slot_def)
    from r(2) show ?thesis
    proof
      assume a: "(\<forall>y<nblks s. bused s y) \<and> r = 0 \<and> tx 0 s (blk s) t"
      then have tx: "tx 0 s (blk s) t" by blast
      note T = tx_fields [OF tx] tx_fs [OF tx]
      have qq: "quiet t = quiet s" using T(1) q(1) by simp
      note V = fs_view_cong [of t s, OF T(2,6,3) qq]
      have "wrote_file ip s off [] t" using assms(1,2) unfolding wrote_file_def T V by (auto intro!: exI [of _ "i_addrs ?p"])
      moreover have "disk_full t" using a by (simp add: disk_full_def nblks_def bused_def bmblk_def T)
      moreover have "baddr t (ino t ip) bn = 0" using 2 by (simp add: baddr_def T)
      ultimately show ?thesis using bm a tx_ftx [OF tx_more [OF tx, of 2]] T by auto
    next
      assume "\<exists>x<nblks s. r = of_nat x \<and> \<not> bused s x \<and> (\<forall>y<x. bused s y) \<and> allocated s x t"
      then obtain x where x: "x < nblks s" "r = of_nat x" "\<not> bused s x" "allocated s x t" by blast
      define p' where "p' = ?p\<lparr>i_addrs := (i_addrs ?p)[bn := of_nat x]\<rparr>"
      note A = add_block [OF assms(1,2) 2 x(4,1,3) p'_def]
      note T = tx_fields [OF x(4) [unfolded allocated_def]] tx_fs [OF x(4) [unfolded allocated_def]]
      define u where "u = set_addr ip bn r t"
      have u: "u = t\<lparr>inodes := (inodes s)[ip := p']\<rparr>" by (simp add: u_def set_addr_def upd_inode_def p'_def T x(2))
      have up: "ino u ip = p'" using assms(3) by (simp add: u)
      note V = fs_view_inodes [where s = t and as = "(inodes s)[ip := p']", folded u]
      have bu: "blk u = blk t" by (simp add: u)
      have b0: "baddr s ?p bn = 0" using 2 by (simp add: baddr_def)
      have bk: "baddr u p' cn = baddr s ?p cn" if "baddr s ?p cn \<noteq> 0" for cn using that b0 by (auto simp: V A(3))
      have fb: "fbyte u p' y = fbyte s ?p y" if "y < MAXFILE * BSIZE" "baddr s ?p (y div BSIZE) \<noteq> 0" for y
        using A(4) [OF file_okD(5) [OF assms(2) block_of [OF that(1)] that(2)]] bk [OF that(2)] by (simp add: fbyte_def u)
      have fr: "data_block u a \<and> blk u a = blk s a \<and> (\<forall>cn<MAXFILE. baddr u p' cn \<noteq> a)"
        if "data_block s a" "\<forall>cn<MAXFILE. baddr s ?p cn \<noteq> a" for a
        using A(4) [OF that(1)] that(2) bu by (auto simp: V A(3))
      have "inodes u = (inodes s)[ip := ?p\<lparr>i_addrs := (i_addrs ?p)[bn := of_nat x]\<rparr>]" by (simp add: u p'_def)
      then have "wrote_file ip s off [] u" unfolding wrote_file_def up using A(1,2) V bk fb fr by auto
      moreover have "ftx 2 s (blk u) u" unfolding ftx_def u using x(4) by (auto simp: allocated_def T intro: exI [of _ t])
      moreover have "r = baddr u (ino u ip) bn" by (simp add: up V A(3) x(2))
      moreover have r0: "r \<noteq> 0" using A(5) x(2) by simp
      moreover have "bmap ip bn s = Ok (r, u)" using bm r0 by (simp add: u_def)
      ultimately show ?thesis by (intro exI [of _ r] exI [of _ u], subst if_not_P [OF r0]) blast
    qed
  qed
qed

section \<open>Writing\<close>

text \<open>The source delivers the bytes \<open>bs\<close>.\<close>

definition supplies :: "'a fs_st_scheme \<Rightarrow> ksrc \<Rightarrow> u8 list \<Rightarrow> bool" where
  "supplies s src bs \<longleftrightarrow> (\<forall>i n t. i + n \<le> length bs \<longrightarrow> same_space s t \<longrightarrow> either_copyin (src_add src i) n t = Ok (0, take n (drop i bs)))"

lemma ftx_space: "ftx j s f t \<Longrightarrow> quiet s \<Longrightarrow> same_space s t"
proof -
  assume "ftx j s f t" "quiet s"
  then obtain as u where u: "tx j s f u" "t = u\<lparr>inodes := as\<rparr>" "same_space s u" using lkept_space by (auto simp: ftx_def tx_def)
  then show ?thesis by (auto simp: same_space_def myproc_def)
qed

lemma supplies_ftx: "supplies s src bs \<Longrightarrow> ftx j s f t \<Longrightarrow> quiet s \<Longrightarrow> supplies t src bs"
  unfolding supplies_def using ftx_space same_space_trans by blast

lemma store_wrote:
  assumes "fs_ok s" "file_ok s (ino s ip)" "off div BSIZE < MAXFILE" "baddr s (ino s ip) (off div BSIZE) \<noteq> 0"
    and bs: "off mod BSIZE + length bs \<le> BSIZE"
    and tx: "tx j s ((blk s)(baddr s (ino s ip) (off div BSIZE) :=
      overlay (blk s (baddr s (ino s ip) (off div BSIZE))) (off mod BSIZE) bs)) s'"
  shows "wrote_file ip s off bs s'"
proof -
  let ?p = "ino s ip" let ?a = "baddr s ?p (off div BSIZE)" let ?d = "overlay (blk s ?a) (off mod BSIZE) bs"
  have la: "length (blk s ?a) = BSIZE" using file_okD(5) [OF assms(2-4)] by (simp add: data_block_def)
  then have ld: "length ?d = BSIZE" using bs by simp
  note S = store_block [OF assms(1-4) ld tx] and T = tx_fields [OF tx] tx_fs [OF tx]
  have in_range: "baddr s ?p ((off + j) div BSIZE) \<noteq> 0 \<and> fbyte s' ?p (off + j) = bs ! j" if "j < length bs" for j
  proof -
    have "off mod BSIZE + j < BSIZE" using that bs by linarith
    note w = within_block [OF this]
    then have "off + j < MAXFILE * BSIZE" using assms(3) by (metis div_less_iff_less_mult BSIZE_def zero_less_numeral)
    then show ?thesis using S(4) [of "off + j"] w assms(4) that bs la by (simp add: nth_overlay)
  qed
  have other: "fbyte s' ?p x = fbyte s ?p x" if "x < MAXFILE * BSIZE" "baddr s ?p (x div BSIZE) \<noteq> 0" "x < off \<or> off + length bs \<le> x" for x
  proof (cases "x div BSIZE = off div BSIZE")
    case True
    then have "x = off div BSIZE * BSIZE + x mod BSIZE" "off = off div BSIZE * BSIZE + off mod BSIZE" by (metis div_mult_mod_eq, simp)
    then have "x mod BSIZE < off mod BSIZE \<or> off mod BSIZE + length bs \<le> x mod BSIZE" using that(3) by linarith
    then have "?d ! (x mod BSIZE) = blk s ?a ! (x mod BSIZE)" using la bs by (auto simp: nth_overlay BSIZE_def)
    then show ?thesis using S(4) [OF that(1,2)] True by (simp add: fbyte_def)
  next
    case False
    then show ?thesis using S(4) [OF that(1,2)] by simp
  qed
  have "data_block s' a \<and> blk s' a = blk s a" if "data_block s a" "\<forall>bn<MAXFILE. baddr s ?p bn \<noteq> a" for a
    using S(5) [OF that(1)] that(2) assms(3) by (auto simp: T)
  then show ?thesis unfolding wrote_file_def T(7) S(3) using S(1,2) in_range other
    by (auto intro!: exI [of _ "i_addrs ?p"])
qed

lemma write_block:
  fixes s :: "'a fs_st_scheme"
  assumes "fs_ok s" "file_ok s (ino s ip)" "ip < length (inodes s)" "off + k \<le> MAXFILE * BSIZE"
    and "off div BSIZE < NDIRECT \<or> baddr s (ino s ip) (off div BSIZE) \<noteq> 0" "can_logn 3 s" "supplies s src bs" "tot + k \<le> length bs"
    and k: "0 < k" "m = min k (BSIZE - off mod BSIZE)"
  shows "\<exists>s'. ftx 3 s (blk s') s' \<and>
    (writei_loop ip src off tot k s = Ok (tot, off, s') \<and> wrote_file ip s off [] s' \<and> disk_full s' \<and> baddr s' (ino s' ip) (off div BSIZE) = 0 \<or>
     writei_loop ip src off tot k s = writei_loop ip src (off + m) (tot + m) (k - m) s' \<and> wrote_file ip s off (take m (drop tot bs)) s')"
proof -
  have q: "quiet s" using assms(1) by (simp add: fs_ok_def)
  have x: "off div BSIZE < MAXFILE" using assms(4) k(1) by (intro block_of) simp
  obtain a s1 where 1: "bmap ip (off div BSIZE) s = Ok (a, s1)" "ftx 2 s (blk s1) s1" "wrote_file ip s off [] s1"
    "if a = 0 then disk_full s1 \<and> baddr s1 (ino s1 ip) (off div BSIZE) = 0 else a = baddr s1 (ino s1 ip) (off div BSIZE)"
    using bmap_grow [OF assms(1-3) x assms(5) can_logn_mono [OF assms(6)], of off] by auto
  note W = wrote_fileD [OF 1(3)] and F = ftx_fields [OF 1(2)]
  show ?thesis
  proof (cases "a = 0")
    case True
    then have "writei_loop ip src off tot k s = Ok (tot, off, s1)" using 1(1) k(1) by (subst writei_loop.simps) simp
    moreover have "ftx 3 s (blk s1) s1" using 1(2) tx_more [of 2 s _ _ 3] by (fastforce simp: ftx_def)
    ultimately show ?thesis using 1(3,4) True by auto
  next
    case False
    then have a: "a = baddr s1 (ino s1 ip) (off div BSIZE)" using 1(4) by simp
    let ?ch = "take m (drop tot bs)" let ?d = "overlay (blk s1 a) (off mod BSIZE) ?ch"
    have da: "data_block s1 a" using file_okD(5) [OF W(2) x] False a by simp
    have "can_logn 1 s1" using F(6) [of 1] assms(6) by (simp add: eval_nat_numeral)
    then obtain i s2 s3 s4 where 2: "bread 1 a s1 = Ok (i, s2)" "b_data (bufs s2 ! i) = blk s1 a" "lkept s1 s2"
      "log_write i (set_data i ?d s2) = Ok s3" "brelse i s3 = Ok s4" "tx 1 s1 ((blk s1)(a := ?d)) s4"
      using tx_block [OF F(1), of a] da by (metis data_block_def F(3))
    have sp: "same_space s s2" using same_space_trans [OF ftx_space [OF 1(2) q] lkept_space [OF 2(3) F(1)]] .
    have B: "off mod BSIZE < BSIZE" by (simp add: BSIZE_def)
    then have m: "off mod BSIZE + m \<le> BSIZE" "m \<le> k" using k by auto
    have cp: "either_copyin (src_add src tot) m s2 = Ok (0, ?ch)" using assms(7,8) sp m unfolding supplies_def by simp
    have "i_dev (ino s1 ip) = 1" by (rule file_okD(1) [OF W(2)])
    then have "writei_loop ip src off tot k s = writei_loop ip src (off + m) (tot + m) (k - m) s4"
      using k(1) 1(1) 2 cp False by (subst writei_loop.simps) (simp add: Let_def flip: k(2))
    moreover have "ftx 3 s (blk s4) s4" using ftx_trans [OF 1(2) tx_ftx [OF 2(6)]] tx_fields(2) [OF 2(6)] by (simp add: eval_nat_numeral)
    moreover have "wrote_file ip s off ?ch s4"
    proof -
      have lc: "length ?ch = m" using assms(8) m by simp
      have "wrote_file ip s1 off ?ch s4"
        by (rule store_wrote [OF W(1,2) x]) (use False a 2(6) lc m in simp_all)
      then show ?thesis using wrote_trans [OF 1(3), of ?ch s4] assms(3,4) lc m by simp
    qed
    ultimately show ?thesis by blast
  qed
qed

text \<open>How many blocks \<open>k\<close> bytes at \<open>off\<close> touch; each costs at most three entries of the log.\<close>

definition nblocks :: "nat \<Rightarrow> nat \<Rightarrow> nat" where
  "nblocks off k = (if k = 0 then 0 else (off mod BSIZE + k - 1) div BSIZE + 1)"

lemma nblocks_step:
  assumes "0 < k" "m = min k (BSIZE - off mod BSIZE)"
  shows "nblocks off k = Suc (nblocks (off + m) (k - m))"
proof -
  have B: "off mod BSIZE < BSIZE" "0 < BSIZE" by (simp_all add: BSIZE_def)
  show ?thesis
  proof (cases "off mod BSIZE + k \<le> BSIZE")
    case True
    then have "m = k" "(off mod BSIZE + k - 1) div BSIZE = 0" using assms B by auto
    then show ?thesis using assms(1) by (simp add: nblocks_def)
  next
    case False
    then have m: "m = BSIZE - off mod BSIZE" "m < k" using assms by auto
    have "off div BSIZE * BSIZE + off mod BSIZE = off" by simp
    then have "off + m = off div BSIZE * BSIZE + BSIZE" using B(1) m(1) by linarith
    then have z: "(off + m) mod BSIZE = 0" by simp
    have "off mod BSIZE + k - 1 = (k - m - 1) + BSIZE" using m B(1) by linarith
    then have "(off mod BSIZE + k - 1) div BSIZE = Suc ((k - m - 1) div BSIZE)" using div_add_self2 [of BSIZE] B(2) by simp
    then show ?thesis using assms(1) m(2) by (simp add: nblocks_def z)
  qed
qed

text \<open>Every block in the range exists or has a place among the direct blocks.\<close>

definition reach :: "'a fs_st_scheme \<Rightarrow> inode \<Rightarrow> nat \<Rightarrow> nat \<Rightarrow> bool" where
  "reach s p off k \<longleftrightarrow> off + k \<le> MAXFILE * BSIZE \<and> (\<forall>x. off \<le> x \<longrightarrow> x < off + k \<longrightarrow> x div BSIZE < NDIRECT \<or> baddr s p (x div BSIZE) \<noteq> 0)"

lemma ftx_more: "ftx i s f t \<Longrightarrow> i \<le> j \<Longrightarrow> ftx j s f t"
  unfolding ftx_def using tx_more by blast

lemma writei_loop_spec:
  fixes s :: "'a fs_st_scheme"
  assumes "fs_ok s" "file_ok s (ino s ip)" "ip < length (inodes s)" "reach s (ino s ip) off k" "can_logn (3 * nblocks off k) s"
    "supplies s src bs" "tot + k \<le> length bs"
  shows "\<exists>n s'. n \<le> k \<and> writei_loop ip src off tot k s = Ok (tot + n, off + n, s') \<and> wrote_file ip s off (take n (drop tot bs)) s' \<and>
    (n < k \<longrightarrow> disk_full s' \<and> baddr s' (ino s' ip) ((off + n) div BSIZE) = 0) \<and> ftx (3 * nblocks off k) s (blk s') s'"
  using assms
proof (induction k arbitrary: off tot s rule: less_induct)
  case (less k)
  have q: "quiet s" using less.prems(1) by (simp add: fs_ok_def)
  show ?case
  proof (cases "k = 0")
    case True
    have "ftx 0 s (blk s) s" by (rule tx_ftx [OF tx_refl [OF q]])
    then show ?thesis using True wrote_refl [OF less.prems(1,2)]
      by (intro exI [of _ 0] exI [of _ s]) (simp add: writei_loop.simps nblocks_def)
  next
    case False
    define m where "m = min k (BSIZE - off mod BSIZE)"
    have "off mod BSIZE < BSIZE" by (simp add: BSIZE_def)
    then have m: "0 < m" "m \<le> k" using False by (auto simp: m_def)
    have nb: "nblocks off k = Suc (nblocks (off + m) (k - m))" using nblocks_step [OF _ m_def] False by simp
    have r: "off + k \<le> MAXFILE * BSIZE" "off div BSIZE < NDIRECT \<or> baddr s (ino s ip) (off div BSIZE) \<noteq> 0"
      using less.prems(4) False by (auto simp: reach_def)
    have c3: "can_logn 3 s" using can_logn_mono [OF less.prems(5), of 3] nb by simp
    obtain s1 where 1: "ftx 3 s (blk s1) s1"
      "writei_loop ip src off tot k s = Ok (tot, off, s1) \<and> wrote_file ip s off [] s1 \<and> disk_full s1 \<and> baddr s1 (ino s1 ip) (off div BSIZE) = 0 \<or>
       writei_loop ip src off tot k s = writei_loop ip src (off + m) (tot + m) (k - m) s1 \<and> wrote_file ip s off (take m (drop tot bs)) s1"
      using write_block [OF less.prems(1-3) r c3 less.prems(6,7) _ m_def] False by blast
    from 1(2) show ?thesis
    proof
      assume "writei_loop ip src off tot k s = Ok (tot, off, s1) \<and> wrote_file ip s off [] s1 \<and> disk_full s1 \<and> baddr s1 (ino s1 ip) (off div BSIZE) = 0"
      then show ?thesis using ftx_more [OF 1(1), of "3 * nblocks off k"] nb by (intro exI [of _ 0] exI [of _ s1]) simp
    next
      assume a: "writei_loop ip src off tot k s = writei_loop ip src (off + m) (tot + m) (k - m) s1 \<and> wrote_file ip s off (take m (drop tot bs)) s1"
      note W = wrote_fileD [OF conjunct2 [OF a]]
      have l: "ip < length (inodes s1)" using W(3) less.prems(3) by auto
      have re: "reach s1 (ino s1 ip) (off + m) (k - m)"
        unfolding reach_def
      proof (intro conjI allI impI)
        show "off + m + (k - m) \<le> MAXFILE * BSIZE" using r(1) m by simp
        fix x assume x: "off + m \<le> x" "x < off + m + (k - m)"
        then have "x < off + k" "off \<le> x" "x < MAXFILE * BSIZE" using m r(1) by linarith+
        then show "x div BSIZE < NDIRECT \<or> baddr s1 (ino s1 ip) (x div BSIZE) \<noteq> 0"
          using less.prems(4) W(4) [OF block_of] unfolding reach_def by metis
      qed
      have c: "can_logn (3 * nblocks (off + m) (k - m)) s1" using ftx_fields(6) [OF 1(1)] less.prems(5) by (simp add: nb add.commute)
      obtain n s2 where 2: "n \<le> k - m" "writei_loop ip src (off + m) (tot + m) (k - m) s1 = Ok (tot + m + n, off + m + n, s2)"
        "wrote_file ip s1 (off + m) (take n (drop (tot + m) bs)) s2" "n < k - m \<longrightarrow> disk_full s2 \<and> baddr s2 (ino s2 ip) ((off + m + n) div BSIZE) = 0" "ftx (3 * nblocks (off + m) (k - m)) s1 (blk s2) s2"
        using less.IH [of "k - m" s1 "off + m" "tot + m", OF _ W(1,2) l re c supplies_ftx [OF less.prems(6) 1(1) q]] m less.prems(7) False by auto
      have lm: "length (take m (drop tot bs)) = m" using less.prems(7) m by simp
      have "wrote_file ip s off (take m (drop tot bs) @ take n (drop (tot + m) bs)) s2"
        by (rule wrote_trans [OF conjunct2 [OF a]]) (use 2(1,3) lm r(1) m less.prems(3,7) in simp_all)
      then have "wrote_file ip s off (take (m + n) (drop tot bs)) s2" by (simp add: take_add add.commute)
      moreover have "ftx (3 * nblocks off k) s (blk s2) s2" using ftx_trans [OF 1(1) 2(5)] by (simp add: nb)
      ultimately show ?thesis using a 2 m by (intro exI [of _ "m + n"] exI [of _ s2]) (auto simp: add.assoc)
    qed
  qed
qed

text \<open>The inode itself is written last.\<close>

lemma iupdate_keeps:
  assumes "fs_ok s" "file_ok s (ino s ip)" "can_logn 1 s"
  shows "\<exists>s'. iupdate ip s = Ok s' \<and> tx 1 s (blk s') s' \<and> keeps_bitmap s s' \<and> disk_inode s' (i_inum (ino s ip)) = dinode_of (ino s ip) \<and>
    (\<forall>a. data_block s a \<longrightarrow> data_block s' a \<and> blk s' a = blk s a)"
proof -
  let ?m = "i_inum (ino s ip)" let ?n = "IBLOCK ?m (fs_sb s)"
  note D = file_okD [OF assms(2)]
  have I: "?n \<notin> logarea (lg_start s)" "length (blk s ?n) = BSIZE" "\<And>y. y < nblks s \<Longrightarrow> bmblk s y \<noteq> ?n"
    using assms(1) D(2) by (auto simp: fs_ok_def inode_blocks_ok_def Let_def)
  have q: "quiet s" using assms(1) by (simp add: fs_ok_def)
  obtain s' where s': "iupdate ip s = Ok s'" "tx 1 s ((blk s)(?n := put_dinode (blk s ?n) (dinode_off ?m) (dinode_of (ino s ip)))) s'"
    using iupdate_spec [OF q assms(3) D(1) I(1)] by blast
  note T = tx_fields [OF s'(2)] tx_fs [OF s'(2)]
  have l: "length (put_dinode (blk s ?n) (dinode_off ?m) (dinode_of (ino s ip))) = BSIZE"
    using dinode_off_fits [of ?m] I(2) D(3) by (simp add: BSIZE_def dinode_of_def)
  have k: "keeps_bitmap s s'" using T I l by (auto simp: keeps_bitmap_def)
  have "disk_inode s' ?m = dinode_of (ino s ip)"
    using disk_inode_put [of s' s ?m "dinode_of (ino s ip)" ?m] T I(2) D(3) by (simp add: dinode_of_def)
  moreover have "blk s' a = blk s a" if "data_block s a" for a using that D(2) by (auto simp: T data_block_def)
  moreover have "tx 1 s (blk s') s'" using s'(2) T(2) by simp
  ultimately show ?thesis using s'(1) keeps_bitmapD(4) [OF k] k by blast
qed

lemma grow_size:
  assumes "wrote_file ip s off bs s1" "file_ok s (ino s ip)" "ip < length (inodes s)" "off \<le> unat (i_size (ino s ip))" "off + length bs \<le> MAXFILE * BSIZE"
    and s2: "s2 = (if off + length bs > unat (i_size (ino s1 ip)) then upd_inode ip (\<lambda>p. p\<lparr>i_size := of_nat (off + length bs)\<rparr>) s1 else s1)"
  shows "fs_ok s2" "file_ok s2 (ino s2 ip)" "unat (i_size (ino s2 ip)) = max (unat (i_size (ino s ip))) (off + length bs)" "ftx 0 s1 (blk s1) s2"
    "i_addrs (ino s2 ip) = i_addrs (ino s1 ip)" "i_inum (ino s2 ip) = i_inum (ino s ip)" "blk s2 = blk s1"
proof -
  note W = wrote_fileD [OF assms(1)]
  obtain as where as: "inodes s1 = (inodes s)[ip := (ino s ip)\<lparr>i_addrs := as\<rparr>]" using W(3) by blast
  have p1: "ino s1 ip = (ino s ip)\<lparr>i_addrs := as\<rparr>" "ip < length (inodes s1)" using assms(3) by (simp_all add: as)
  have q1: "quiet s1" using W(1) by (simp add: fs_ok_def)
  show "ftx 0 s1 (blk s1) s2" using ftx_upd [OF tx_ftx [OF tx_refl [OF q1]]] tx_ftx [OF tx_refl [OF q1]] by (simp add: s2)
  show b2: "blk s2 = blk s1" by (simp add: s2)
  have "unat (of_nat (off + length bs) :: u32) = off + length bs"
    using assms(5) by (intro unat_of_nat_less) (simp add: MAXFILE_def NDIRECT_def NINDIRECT_def BSIZE_def)
  then show sz: "unat (i_size (ino s2 ip)) = max (unat (i_size (ino s ip))) (off + length bs)" using p1 by (simp add: s2 max_def)
  show ad: "i_addrs (ino s2 ip) = i_addrs (ino s1 ip)" "i_inum (ino s2 ip) = i_inum (ino s ip)" using p1 by (simp_all add: s2)
  have o: "i_dev (ino s2 ip) = i_dev (ino s1 ip)" "i_inum (ino s2 ip) = i_inum (ino s1 ip)" using p1 by (simp_all add: s2)
  have e: "fs_sb s2 = fs_sb s1" "lg_start s2 = lg_start s1" "quiet s2 = quiet s1" by (simp_all add: s2)
  note V = fs_view_cong [OF b2 e]
  show "fs_ok s2" using W(1) V(1) by simp
  have b: "baddr s2 (ino s2 ip) = baddr s1 (ino s1 ip)" by (simp add: V(3) fun_eq_iff baddr_def ad)
  have "baddr s1 (ino s1 ip) (x div BSIZE) \<noteq> 0" if "x < max (unat (i_size (ino s ip))) (off + length bs)" for x
  proof (cases "x < unat (i_size (ino s ip))")
    case True
    then show ?thesis using file_okD(9) [OF W(2), of x] p1 by simp
  next
    case False
    then show ?thesis using W(5) [of "x - off"] that assms(4) by auto
  qed
  moreover have "max (unat (i_size (ino s ip))) (off + length bs) \<le> MAXFILE * BSIZE" using file_okD(4) [OF assms(2)] assms(5) by simp
  ultimately show "file_ok s2 (ino s2 ip)" using W(2) unfolding file_ok_def b sz V(2) ad(1) o e(1) by auto
qed

text \<open>Two files share no block.\<close>

definition apart :: "'a fs_st_scheme \<Rightarrow> inode \<Rightarrow> inode \<Rightarrow> bool" where
  "apart s p q \<longleftrightarrow> (\<forall>bn<MAXFILE. \<forall>cn<MAXFILE. baddr s q cn \<noteq> 0 \<longrightarrow> baddr s p bn \<noteq> baddr s q cn) \<and>
     (\<forall>bn<MAXFILE. i_addrs q ! NDIRECT \<noteq> 0 \<longrightarrow> baddr s p bn \<noteq> i_addrs q ! NDIRECT)"

lemma other_contents:
  assumes "file_ok s q" "\<And>a. data_block s a \<Longrightarrow> (\<And>bn. bn < MAXFILE \<Longrightarrow> baddr s p bn \<noteq> a) \<Longrightarrow> blk s' a = blk s a" "apart s p q"
  shows "contents s' q = contents s q"
proof -
  note D = file_okD [OF assms(1)]
  have b: "baddr s' q = baddr s q" by (rule baddr_cong) (use assms(2) [OF D(7)] assms(3) in \<open>auto simp: apart_def\<close>)
  have "fbyte s' q x = fbyte s q x" if "x < unat (i_size q)" for x
  proof -
    have bn: "x div BSIZE < MAXFILE" "baddr s q (x div BSIZE) \<noteq> 0" using block_of [of x] D(4) D(9) [OF that] that by auto
    then have "blk s' (baddr s q (x div BSIZE)) = blk s (baddr s q (x div BSIZE))" using assms(2) [OF D(5)] assms(3) by (auto simp: apart_def)
    then show ?thesis by (simp add: fbyte_def b)
  qed
  then show ?thesis by (simp add: contents_def)
qed

lemma overlay_contents:
  assumes "wrote_file ip s off bs s1" "off \<le> unat (i_size (ino s ip))" "off + length bs \<le> MAXFILE * BSIZE" "file_ok s (ino s ip)"
    and b: "\<And>x. x < unat (i_size q) \<Longrightarrow> fbyte s' q x = fbyte s1 (ino s1 ip) x"
    and sz: "unat (i_size q) = max (unat (i_size (ino s ip))) (off + length bs)"
  shows "contents s' q = take off (contents s (ino s ip)) @ bs @ drop (off + length bs) (contents s (ino s ip))"
proof (rule nth_equalityI)
  note W = wrote_fileD [OF assms(1)] and D = file_okD [OF assms(4)]
  let ?p = "ino s ip"
  show "length (contents s' q) = length (take off (contents s ?p) @ bs @ drop (off + length bs) (contents s ?p))"
    using assms(2) by (simp add: sz max_def)
  fix x assume "x < length (contents s' q)"
  then have x: "x < unat (i_size q)" by simp
  have l: "contents s' q ! x = fbyte s1 (ino s1 ip) x" using x b by (simp add: contents_def)
  show "contents s' q ! x = (take off (contents s ?p) @ bs @ drop (off + length bs) (contents s ?p)) ! x"
  proof (cases "off \<le> x \<and> x < off + length bs")
    case True
    then have "fbyte s1 (ino s1 ip) x = bs ! (x - off)" using W(5) [of "x - off"] by auto
    moreover have "x - off < length bs" using True by linarith
    ultimately show ?thesis using True assms(2) l by (simp add: nth_append)
  next
    case False
    then have xs: "x < unat (i_size ?p)" using x sz assms(2) by (auto simp: max_def split: if_splits)
    then have "fbyte s1 (ino s1 ip) x = fbyte s ?p x" using W(6) [of x] D(4) D(9) [of x] False by auto
    then show ?thesis using False assms(2) l xs by (auto simp: nth_append contents_def)
  qed
qed

lemma writei_spec:
  fixes s :: "'a fs_st_scheme"
  assumes "fs_ok s" "file_ok s (ino s ip)" "ip < length (inodes s)" "unat off \<le> unat (i_size (ino s ip))"
    "reach s (ino s ip) (unat off) (unat n)" "can_logn (3 * nblocks (unat off) (unat n) + 1) s" "supplies s src bs" "length bs = unat n"
  shows "\<exists>k s1 s2 s'. k \<le> unat n \<and> (k < unat n \<longrightarrow> disk_full s1 \<and> baddr s1 (ino s1 ip) ((unat off + k) div BSIZE) = 0) \<and> writei ip src off n s = Ok (int k, s') \<and>
    wrote_file ip s (unat off) (take k bs) s1 \<and>
    s2 = (if unat off + k > unat (i_size (ino s1 ip)) then upd_inode ip (\<lambda>p. p\<lparr>i_size := of_nat (unat off + k)\<rparr>) s1 else s1) \<and> iupdate ip s2 = Ok s' \<and>
    can_logn 1 s2"
proof -
  have r: "unat off + unat n \<le> MAXFILE * BSIZE" using assms(5) by (simp add: reach_def)
  have M: "MAXFILE * BSIZE = 274432" by (simp add: MAXFILE_def NDIRECT_def NINDIRECT_def BSIZE_def)
  have u: "unat (off + n) = unat off + unat n" using r M unat_add_lem [of off n] by simp
  have c: "\<not> (off > i_size (ino s ip) \<or> off + n < off)" "\<not> off + n > of_nat (MAXFILE * BSIZE)"
    using assms(4) u r by (simp_all add: word_less_nat_alt M)
  obtain k s1 where 1: "k \<le> unat n" "writei_loop ip src (unat off) 0 (unat n) s = Ok (k, unat off + k, s1)"
    "wrote_file ip s (unat off) (take k bs) s1" "k < unat n \<longrightarrow> disk_full s1 \<and> baddr s1 (ino s1 ip) ((unat off + k) div BSIZE) = 0" "ftx (3 * nblocks (unat off) (unat n)) s (blk s1) s1"
    using writei_loop_spec [OF assms(1-3,5) can_logn_mono [OF assms(6)] assms(7), of 0] assms(8) by auto
  define s2 where "s2 = (if unat off + k > unat (i_size (ino s1 ip)) then upd_inode ip (\<lambda>p. p\<lparr>i_size := of_nat (unat off + k)\<rparr>) s1 else s1)"
  have lk: "length (take k bs) = k" using 1(1) assms(8) by simp
  note G = grow_size [OF 1(3) assms(2,3,4), unfolded lk, OF order_trans [OF _ r] s2_def]
  have "can_logn 1 s2" using ftx_fields(6) [OF 1(5), of 1] assms(6) ftx_fields(6) [OF G(4), of 1] 1(1) by (simp add: add.commute)
  moreover from this obtain s' where "iupdate ip s2 = Ok s'" using iupdate_keeps [OF G(1,2)] 1(1) by auto
  moreover from this have "writei ip src off n s = Ok (int k, s')"
    unfolding writei_def if_not_P [OF c(1)] if_not_P [OF c(2)] 1(2) by (simp add: s2_def)
  ultimately show ?thesis using 1 s2_def by blast
qed

lemma supplies_KSrc: "supplies s (KSrc bs) bs"
  by (simp add: supplies_def either_copyin_def)

lemma supplies_user:
  assumes "myproc s = Some i" "pt = p_pagetable (procs s ! i)" "pt_inv 2 s pt" "\<And>j. j < n \<Longrightarrow> umapped s pt (va + of_nat j)"
  shows "supplies s (USrc va) (ubytes s pt va 0 n)"
  unfolding supplies_def
proof (intro allI impI)
  fix k m and t :: "'a fs_st_scheme" assume a: "k + m \<le> length (ubytes s pt va 0 n)" "same_space s t"
  then have t: "pmem t = pmem s" "kend t = kend s" "freelist t = freelist s" "kref t = kref s" "myproc t = Some i" "p_pagetable (procs t ! i) = pt"
    using assms(1,2) by (auto simp: same_space_def)
  note K = kmem_same [OF t(1-4)]
  have v: "va + of_nat k + of_nat j = va + of_nat (k + j)" for j by simp
  have m: "mapped_len t pt (va + of_nat k) m m" unfolding mapped_len_all v K using a(1) by (auto simp del: of_nat_add intro!: assms(4))
  have "pt_inv 2 t pt" using assms(3) by (simp only: K)
  from copyin_eq [OF this, of "va + of_nat k" m] obtain m' where m': "mapped_len t pt (va + of_nat k) m m'"
    "copyin pt (va + of_nat k) m t = Ok (if m' = m then 0 else - 1, map (\<lambda>i. umem t pt (va + of_nat k + of_nat i)) [0..<m'])" by blast
  have "m' = m" by (rule mapped_len_unique [OF m'(1) m])
  then have "copyin pt (va + of_nat k) m t = Ok (0, map (\<lambda>i. umem s pt (va + of_nat (k + i))) [0..<m])"
    using m'(2) unfolding K v by (simp del: of_nat_add)
  moreover have "map (\<lambda>i. umem s pt (va + of_nat (k + i))) [0..<m] = take m (drop k (ubytes s pt va 0 n))"
    using a(1) by (intro nth_equalityI) (simp_all add: ubytes_def)
  ultimately show "either_copyin (src_add (USrc va) k) m t = Ok (0, take m (drop k (ubytes s pt va 0 n)))"
    using t(5,6) by (simp add: either_copyin_def with_proc_def)
qed

section \<open>The machine with one file is well formed\<close>

lemma hello_used: "b < 64 \<Longrightarrow> bmblk hello_machine b = 45 \<and> bused hello_machine b = (b < 47)" "nblks hello_machine = 64"
  using small_used [OF _ hello_fields(2) hello_block(2)] small_used(3) [OF _ hello_fields(2) hello_block(2), of 0] by auto

lemma hello_iblock:
  assumes "inum < 200"
  shows "32 \<le> unat (IBLOCK inum small_sb)" "unat (IBLOCK inum small_sb) < 45"
proof -
  have "unat inum div 16 < 13" using assms by (simp add: word_less_nat_alt)
  moreover have "unat (inum div 16) = unat inum div 16" by (simp add: unat_div)
  ultimately have "unat (inum div 16 + 32) = unat inum div 16 + 32" using unat_add_lem [of "inum div 16" 32] by simp
  then show "32 \<le> unat (IBLOCK inum small_sb)" "unat (IBLOCK inum small_sb) < 45"
    using \<open>unat inum div 16 < 13\<close> by (simp_all add: IBLOCK_def IPB_def small_sb_def)
qed

lemma hello_blk_other: "n \<noteq> 45 \<Longrightarrow> n \<noteq> 46 \<Longrightarrow> blk hello_machine n = replicate BSIZE 0"
  by (simp add: hello_quiet hello_disk_def small_disk_def zero_disk_def)

lemma hello_fs_ok: "fs_ok hello_machine"
proof -
  have "bitmap_ok hello_machine" using small_bitmap_ok [OF hello_fields(2) hello_block(2)] by simp
  moreover have "inode_blocks_ok hello_machine" unfolding inode_blocks_ok_def Let_def hello_fields hello_used(2)
  proof (intro allI impI)
    fix inum :: u32 assume "inum < sb_ninodes small_sb"
    then have i: "32 \<le> unat (IBLOCK inum small_sb)" "unat (IBLOCK inum small_sb) < 45" using hello_iblock [of inum] by (simp_all add: small_sb_def)
    then have n: "IBLOCK inum small_sb \<noteq> 45" "IBLOCK inum small_sb \<noteq> 46" "\<not> IBLOCK inum small_sb < 32" by (auto simp: word_less_nat_alt)
    have "bused hello_machine (unat (IBLOCK inum small_sb))" using hello_used(1) [of "unat (IBLOCK inum small_sb)"] i by simp
    then show "IBLOCK inum small_sb \<notin> logarea 2 \<and> length (blk hello_machine (IBLOCK inum small_sb)) = BSIZE \<and>
        (\<forall>y<64. bmblk hello_machine y \<noteq> IBLOCK inum small_sb) \<and> (unat (IBLOCK inum small_sb) < 64 \<longrightarrow> bused hello_machine (unat (IBLOCK inum small_sb)))"
      using n area2 [of "IBLOCK inum small_sb"] hello_blk_other [OF n(1,2)] hello_used(1) by auto
  qed
  ultimately show ?thesis using hello_quiet(1) hello_used(1) [of 0] hello_used(2) by (simp add: fs_ok_def)
qed

lemma hello_baddr: "bn < MAXFILE \<Longrightarrow> baddr hello_machine hello_inode bn = (if bn = 0 then 46 else 0)"
  by (simp add: baddr_def hello_inode_def NDIRECT_def nth_Cons')

lemma hello_data: "data_block hello_machine 46"
proof -
  have "IBLOCK inum small_sb \<noteq> 46" if "inum < 200" for inum using hello_iblock [OF that] by auto
  moreover have "bused hello_machine (unat (46 :: u32))" using hello_used(1) [of 46] by simp
  ultimately show ?thesis using hello_used area2 [of 46] unfolding data_block_def
    by (auto simp: hello_block(1) BSIZE_def small_sb_def)
qed

lemma hello_file_ok: "file_ok hello_machine hello_inode"
proof -
  have s: "unat (i_size hello_inode) = 5" "i_addrs hello_inode ! NDIRECT = 0" "i_dev hello_inode = 1" "i_inum hello_inode = 7" "length (i_addrs hello_inode) = 13"
    by (simp_all add: hello_inode_def NDIRECT_def)
  have "baddr hello_machine hello_inode (x div BSIZE) \<noteq> 0" if "x < 5" for x
    using that hello_block(3) by (simp add: BSIZE_def)
  then show ?thesis using hello_data hello_baddr unfolding file_ok_def s
    by (auto simp: small_sb_def MAXFILE_def NDIRECT_def BSIZE_def)
qed

section \<open>Properties\<close>

text \<open>
  C40: \<^verbatim>\<open>writei\<close> at an offset within the file, in a transaction with room for the blocks it logs. Two
  conditions limit the claim: all bytes of the source can be read (so \<^verbatim>\<open>either_copyin\<close> does not fail), and every block of the
  range exists already or is among the twelve direct ones (so no block behind the indirect block is allocated; the end is within
  the maximal file size). Then the bytes at the offset are replaced by the source's and the file is extended as needed. Under these
  conditions fewer bytes than asked are written only when every disk block is in use and the file has no block for the next
  byte. The inode on disk agrees with the one in the table afterwards, and no file that shares no block with it changes.
\<close>

theorem writei_correct:
  fixes s :: "'a fs_st_scheme"
  assumes "fs_ok s" "file_ok s (ino s ip)" "ip < length (inodes s)" "unat off \<le> unat (i_size (ino s ip))"
    "reach s (ino s ip) (unat off) (unat n)" "can_logn (3 * nblocks (unat off) (unat n) + 1) s" "supplies s src bs" "length bs = unat n"
  shows "\<exists>k s'. writei ip src off n s = Ok (int k, s') \<and> k \<le> unat n \<and> (k < unat n \<longrightarrow> disk_full s' \<and> baddr s (ino s ip) ((unat off + k) div BSIZE) = 0) \<and> fs_ok s' \<and> file_ok s' (ino s' ip) \<and>
    contents s' (ino s' ip) = take (unat off) (contents s (ino s ip)) @ take k bs @ drop (unat off + k) (contents s (ino s ip)) \<and>
    disk_inode s' (i_inum (ino s' ip)) = dinode_of (ino s' ip) \<and>
    (\<forall>q. file_ok s q \<longrightarrow> apart s (ino s ip) q \<longrightarrow> contents s' q = contents s q)"
proof -
  obtain k s1 s2 s' where 1: "k \<le> unat n" "k < unat n \<longrightarrow> disk_full s1 \<and> baddr s1 (ino s1 ip) ((unat off + k) div BSIZE) = 0" "writei ip src off n s = Ok (int k, s')"
    "wrote_file ip s (unat off) (take k bs) s1"
    "s2 = (if unat off + k > unat (i_size (ino s1 ip)) then upd_inode ip (\<lambda>p. p\<lparr>i_size := of_nat (unat off + k)\<rparr>) s1 else s1)"
    "iupdate ip s2 = Ok s'" "can_logn 1 s2"
    using writei_spec [OF assms] by blast
  have lk: "length (take k bs) = k" using 1(1) assms(8) by simp
  have r: "unat off + k \<le> MAXFILE * BSIZE" using assms(5) 1(1) by (simp add: reach_def)
  note G = grow_size [OF 1(4) assms(2,3,4), unfolded lk, OF r 1(5)] and W = wrote_fileD [OF 1(4)]
  have I: "tx 1 s2 (blk s') s'" "keeps_bitmap s2 s'" "disk_inode s' (i_inum (ino s2 ip)) = dinode_of (ino s2 ip)"
    "\<And>a. data_block s2 a \<Longrightarrow> data_block s' a \<and> blk s' a = blk s2 a" using iupdate_keeps [OF G(1,2) 1(7)] 1(6) by auto
  note T = tx_fields [OF I(1)] tx_fs [OF I(1)]
  have p': "ino s' ip = ino s2 ip" by (simp add: T)
  note D = file_okD [OF G(2)]
  have b: "baddr s' (ino s2 ip) = baddr s2 (ino s2 ip)" by (rule baddr_cong) (use I(4) [OF D(7)] in simp)
  have b1: "baddr s2 (ino s2 ip) = baddr s1 (ino s1 ip)" by (simp add: fun_eq_iff baddr_def G)
  have "file_ok s' (ino s' ip)" unfolding p' by (rule file_ok_cong [OF G(2) b]) (use I(4) T in auto)
  moreover have "contents s' (ino s' ip) = take (unat off) (contents s (ino s ip)) @ take k bs @ drop (unat off + k) (contents s (ino s ip))"
    unfolding p'
  proof (rule overlay_contents [OF 1(4) assms(4) _ assms(2), unfolded lk])
    show "unat off + k \<le> MAXFILE * BSIZE" by (rule r)
    show "unat (i_size (ino s2 ip)) = max (unat (i_size (ino s ip))) (unat off + k)" by (rule G(3))
    fix x assume x: "x < unat (i_size (ino s2 ip))"
    then have "blk s' (baddr s2 (ino s2 ip) (x div BSIZE)) = blk s2 (baddr s2 (ino s2 ip) (x div BSIZE))"
      using I(4) [OF D(5) [OF block_of D(9)]] D(4) by simp
    then show "fbyte s' (ino s2 ip) x = fbyte s1 (ino s1 ip) x" unfolding fbyte_def b b1 [symmetric] by (simp add: G)
  qed
  moreover have "contents s' q = contents s q" if "file_ok s q" "apart s (ino s ip) q" for q
  proof (rule other_contents [OF that(1) _ that(2)])
    fix a assume a: "data_block s a" "\<And>bn. bn < MAXFILE \<Longrightarrow> baddr s (ino s ip) bn \<noteq> a"
    have d1: "data_block s1 a" "blk s1 a = blk s a" using W(7) [OF a] by simp_all
    have "data_block s2 a" using d1(1) fs_view_cong(2) [of s2 s1 a] by (simp add: G(7)) (simp add: 1(5))
    then show "blk s' a = blk s a" using I(4) d1(2) by (simp add: G)
  qed
  moreover have "disk_full s' \<and> baddr s (ino s ip) ((unat off + k) div BSIZE) = 0" if "k < unat n"
  proof -
    have "unat off + k < MAXFILE * BSIZE" using assms(5) that by (simp add: reach_def)
    then have z: "baddr s (ino s ip) ((unat off + k) div BSIZE) = 0" using W(4) [OF block_of] 1(2) that by metis
    have "fs_sb s2 = fs_sb s1" by (simp add: 1(5))
    then have "disk_full s2" using 1(2) that by (simp add: disk_full_def nblks_def bused_def bmblk_def G)
    then show ?thesis using keeps_bitmapD(1,3) [OF I(2)] z by (simp add: disk_full_def)
  qed
  ultimately show ?thesis using 1(1,3) keeps_bitmapD(5) [OF I(2) G(1)] I(3) p' by auto
qed

theorem writei_correct_witness:
  "\<exists>s'. writei 0 (KSrc (bytes_of ''p me'')) 3 4 hello_machine = Ok (4, s') \<and> contents s' (ino s' 0) = bytes_of ''help me''"
proof -
  have f: "file_ok hello_machine (ino hello_machine 0)" "0 < length (inodes hello_machine)" using hello_file_ok by simp_all
  have z: "unat (i_size hello_inode) = 5" by (simp add: hello_inode_def)
  have r: "reach hello_machine (ino hello_machine 0) (unat (3 :: u32)) (unat (4 :: u32))"
    by (auto simp: reach_def MAXFILE_def NDIRECT_def NINDIRECT_def BSIZE_def)
  have c: "can_logn (3 * nblocks (unat (3 :: u32)) (unat (4 :: u32)) + 1) hello_machine"
    by (rule can_logn_mono [OF hello_quiet(3)]) (simp add: nblocks_def BSIZE_def)
  have l: "length (bytes_of ''p me'') = unat (4 :: u32)" "unat (3 :: u32) \<le> unat (i_size (ino hello_machine 0))" using z by simp_all
  obtain k s' where k: "writei 0 (KSrc (bytes_of ''p me'')) 3 4 hello_machine = Ok (int k, s')" "k \<le> 4" "k < 4 \<longrightarrow> baddr hello_machine hello_inode ((3 + k) div BSIZE) = 0"
    "contents s' (ino s' 0) = take 3 (bytes_of ''hello'') @ take k (bytes_of ''p me'') @ drop (3 + k) (bytes_of ''hello'')"
    using writei_correct [OF hello_fs_ok f l(2) r c supplies_KSrc l(1)] hello_contents by auto
  have "k = 4" if "k < 4" using k(3) hello_block(3) that by (simp add: BSIZE_def)
  then have "k = 4" using k(2) by linarith
  then show ?thesis using k by simp
qed

end
