(* ===== verification/Fs_Path.thy ===== *)
theory Fs_Path
  imports Fs
begin

text \<open>
  Path names: \<^verbatim>\<open>skipelem\<close> takes a path apart into the elements between slashes, cut to 14 characters, and
  \<^verbatim>\<open>namecmp\<close> compares names the way entries are stored.
\<close>

section \<open>Elements of a path\<close>

text \<open>The reference: the non-empty pieces between slashes.\<close>

fun pieces :: "u8 list \<Rightarrow> u8 list \<Rightarrow> u8 list list" where
  "pieces cur [] = (if cur = [] then [] else [cur])"
| "pieces cur (c # p) =
     (if c = slash then (if cur = [] then [] else [cur]) @ pieces [] p else pieces (cur @ [c]) p)"

definition elements :: "u8 list \<Rightarrow> u8 list list" where
  "elements path = pieces [] path"

lemma slash_ne_0 [simp]: "slash \<noteq> 0"
  by (simp add: slash_def byte_of_def)

lemma elements_skip: "elements (skip_slashes p) = elements p"
  unfolding elements_def by (induction p) auto

lemma skip_slashes_hd: "skip_slashes p = [] \<or> hd (skip_slashes p) \<noteq> slash"
  by (induction p) auto

lemma set_skip_slashes: "set (skip_slashes p) \<subseteq> set p"
  by (induction p) auto

lemma pieces_elem:
  "0 \<notin> set p \<Longrightarrow> pieces cur p = (if cur @ fst (path_elem p) = [] then [] else [cur @ fst (path_elem p)]) @ pieces [] (snd (path_elem p))"
  by (induction p arbitrary: cur) auto

lemma path_elem_sets: "set (fst (path_elem p)) \<subseteq> set p - {slash, 0}" "set (snd (path_elem p)) \<subseteq> set p"
  by (induction p) auto

lemma elements_Nil: "0 \<notin> set p \<Longrightarrow> elements p = [] \<longleftrightarrow> skip_slashes p = []"
proof -
  have "pieces cur q \<noteq> []" if "cur \<noteq> []" for cur q using that by (induction q arbitrary: cur) auto
  then show "0 \<notin> set p \<Longrightarrow> ?thesis" unfolding elements_def by (induction p) auto
qed

lemma cstr_plain: "0 \<notin> set p \<Longrightarrow> cstr p = p" "0 \<notin> set p \<Longrightarrow> cstr (p @ 0 # q) = p"
  unfolding cstr_def takeWhile_eq_all_conv by (metis, subst takeWhile_append2) auto

lemma skipelem_elements:
  assumes "0 \<notin> set path" "length name = DIRSIZ"
  shows "case elements path of
      [] \<Rightarrow> skipelem path name = None
    | e # es \<Rightarrow> \<exists>path' name'. skipelem path name = Some (path', name') \<and> elements path' = es \<and> (path' = [] \<longleftrightarrow> es = []) \<and>
        0 \<notin> set path' \<and> cstr name' = take DIRSIZ e \<and> length name' = DIRSIZ"
proof -
  define p where "p = skip_slashes path"
  have p0: "0 \<notin> set p" using assms(1) set_skip_slashes [of path] by (auto simp: p_def)
  have el: "elements path = elements p" by (simp add: p_def elements_skip)
  show ?thesis
  proof (cases p)
    case Nil
    then show ?thesis using elements_Nil [OF assms(1)] by (simp add: p_def skipelem_def Let_def)
  next
    case (Cons c p')
    define e where "e = fst (path_elem p)"
    define r where "r = snd (path_elem p)"
    have c: "c \<noteq> slash" "c \<noteq> 0" using skip_slashes_hd [of path] Cons p0 by (auto simp: p_def)
    then have e: "e \<noteq> []" by (simp add: e_def Cons)
    have e0: "0 \<notin> set e" and r0: "0 \<notin> set r" using path_elem_sets [of p] p0 by (auto simp: e_def r_def)
    have "elements path = e # elements (skip_slashes r)"
      using pieces_elem [OF p0, of "[]"] e unfolding el elements_skip by (simp add: elements_def flip: e_def r_def)
    moreover define nm where "nm = (if length e \<ge> DIRSIZ then overlay name 0 (take DIRSIZ e) else overlay name 0 (e @ [0]))"
    have "skipelem path name = Some (skip_slashes r, nm)"
      using Cons c by (simp add: skipelem_def Let_def nm_def case_prod_beta e_def r_def flip: p_def)
    moreover have "0 \<notin> set (skip_slashes r)" using r0 set_skip_slashes [of r] by auto
    moreover have "skip_slashes r = [] \<longleftrightarrow> elements (skip_slashes r) = []"
      using elements_Nil [OF r0] by (simp add: elements_skip)
    moreover have "length nm = DIRSIZ" using assms(2) by (simp add: nm_def)
    moreover have "cstr nm = take DIRSIZ e"
    proof (cases "length e \<ge> DIRSIZ")
      case True
      then have "nm = take DIRSIZ e" using assms(2) by (simp add: nm_def)
      then show ?thesis using e0 cstr_plain(1) [of "take DIRSIZ e"] by (auto dest: in_set_takeD)
    next
      case False
      then have "nm = e @ 0 # drop (Suc (length e)) name" by (simp add: nm_def overlay_def)
      then show ?thesis using False cstr_plain(2) [OF e0] by simp
    qed
    ultimately show ?thesis by auto
  qed
qed

text \<open>The names that a walk along a path looks up, as \<^verbatim>\<open>namex\<close> takes them off one by one.\<close>

function walk_names :: "u8 list \<Rightarrow> u8 list \<Rightarrow> u8 list list" where
  "walk_names path name =
     (case skipelem path name of None \<Rightarrow> [] | Some (path, name) \<Rightarrow> cstr name # walk_names path name)"
  by pat_completeness auto
termination
  by (relation "measure (\<lambda>(path, name). length path)") (auto dest: skipelem_shorter)

declare walk_names.simps [simp del]

section \<open>Properties\<close>

text \<open>
  C36: taking elements off a path with \<^verbatim>\<open>skipelem\<close> until none is left gives exactly the non-empty pieces between
  slashes, in order, each cut to its first 14 characters; repeated, leading and trailing slashes do not matter.
\<close>

theorem skipelem_splits:
  assumes "0 \<notin> set path" "length name = DIRSIZ"
  shows "walk_names path name = map (take DIRSIZ) (elements path)"
  using assms
proof (induction path name rule: walk_names.induct)
  case (1 path name)
  note sk = skipelem_elements [OF 1(2,3)]
  show ?case
  proof (cases "elements path")
    case Nil
    then show ?thesis using sk by (subst walk_names.simps) simp
  next
    case (Cons e es)
    then obtain path' name' where s: "skipelem path name = Some (path', name')" "elements path' = es" "0 \<notin> set path'"
      "cstr name' = take DIRSIZ e" "length name' = DIRSIZ" using sk by auto
    then show ?thesis using 1(1) [OF s(1) refl] Cons by (subst walk_names.simps) simp
  qed
qed

theorem skipelem_splits_witness:
  "walk_names (bytes_of ''//a//bb/'') (replicate 14 0) = [bytes_of ''a'', bytes_of ''bb'']"
  using skipelem_splits [of "bytes_of ''//a//bb/''" "replicate 14 0"]
  by (simp add: DIRSIZ_def elements_def slash_def byte_of_def)

end
