(* ===== verification/Spec2Isabelle.thy ===== *)
theory Spec2Isabelle
  imports Cow_Fault Bcache_List Wal_Crash Pipe Grep Console Fs_Write Fs_Path Trap
begin

text \<open>
  Verification of a RISC-V teaching kernel derived from xv6, with copy-on-write fork, an FCFS scheduler beside round robin,
  a console with command history, and memory and process statistics. Sources are named relative to \<^verbatim>\<open>src/\<close>.

  \<^bold>\<open>How the code is modelled.\<close> C structures are records with the source's field names (prefixed where they clash), pointers to
  table entries are indices, machine integers are words of their width. Each C function is one definition, loops are recursive
  functions; a loop that may run for ever is a \<^theory_text>\<open>partial_function\<close> whose value \<open>None\<close> means that it does not return. Code that can panic
  or block returns the type \<open>res\<close> of \<open>Prelude\<close>: \<open>Ok\<close>, \<open>Panic\<close> with the message, or \<open>Sleep\<close> on a channel; a fault inside the kernel is
  \<open>Panic ''kerneltrap''\<close>. Calls that may wait and be continued (pipes, console, system calls) return a type of their own that says
  where they wait. The state is a chain of extensible records, so that each theory sees only what its code touches:
  \<open>kmem_st\<close> (memory, free list, counts), \<open>proc_st\<close> (process table), \<open>bio_st\<close> (buffers and disk), \<open>log_st\<close>, \<open>fs_st\<close> (inodes), \<open>file_st\<close> (open files,
  pipes), \<open>kern_st\<close> (console, serial port, disk driver, registers).

  \<^bold>\<open>Memory.\<close> \<open>Machine\<close> has the constants of \<^verbatim>\<open>kernel/param.h\<close>, \<^verbatim>\<open>memlayout.h\<close> and \<^verbatim>\<open>riscv.h\<close> and byte-addressed memory; \<open>CStr\<close> is \<^verbatim>\<open>kernel/string.c\<close>.
  \<open>Kalloc\<close> is \<^verbatim>\<open>kernel/kalloc.c\<close>: the invariant \<open>kmem_inv\<close> says that the free list holds exactly the pages of count 0; it is established at boot
  and kept by \<^verbatim>\<open>kalloc\<close> and \<^verbatim>\<open>kfree\<close>, and the locale \<open>page_alloc\<close> states what clients rely on. \<open>Vm\<close> is \<^verbatim>\<open>kernel/vm.c\<close>; \<open>PageTable\<close> gives tables in memory
  an abstract meaning (\<open>tabs\<close>, \<open>pte_val\<close>, invariant \<open>pt_inv\<close>), and \<open>UserSpace\<close> shows what \<^verbatim>\<open>mappages\<close>, \<^verbatim>\<open>uvmunmap\<close>, \<^verbatim>\<open>copyin\<close>, \<^verbatim>\<open>copyout\<close> and \<^verbatim>\<open>copyinstr\<close> do in
  terms of it. \<open>Cow\<close> is about \<^verbatim>\<open>uvmcopy\<close>, \<open>Cow_Fault\<close> about the page fault of \<^verbatim>\<open>usertrap\<close>: what a copy-on-write fault does to mappings, bytes and
  counts, and what the kernel does with other store faults. \<open>UserBytes\<close> has the byte-wise transfers of pipes and console.

  \<^bold>\<open>Processes.\<close> \<open>Spinlock\<close> is \<^verbatim>\<open>kernel/spinlock.c\<close> as the memory accesses of any number of harts, with mutual exclusion by rule induction over
  interleavings. \<open>Proc\<close> is \<^verbatim>\<open>kernel/proc.c\<close> without the functions that need files (those are in \<open>Fork\<close>): the table's invariant over all its operations, the
  choice of both schedulers, and when round-robin processes starve. \<^verbatim>\<open>swtch\<close> is a parameter: what a process does while it runs.

  \<^bold>\<open>Disk and files.\<close> \<open>Bio\<close> is \<^verbatim>\<open>kernel/bio.c\<close> with \<^verbatim>\<open>kernel/sleeplock.c\<close> (locale \<open>block_cache\<close>: the cache as a view of the disk), \<open>Bcache_List\<close> its linked list
  as pointers, refining the list. \<open>Diskfmt\<close> is the on-disk format, \<open>Wal\<close> is \<^verbatim>\<open>kernel/log.c\<close>, and \<open>Wal_Crash\<close> shows that commits are atomic under crashes and
  durable. \<open>Fs\<close> is all of \<^verbatim>\<open>kernel/fs.c\<close>; its properties are in \<open>Fs_Blocks\<close> (block allocation), \<open>Fs_Inodes\<close> (inode table and its disk blocks), \<open>Fs_Files\<close>
  (reading), \<open>Fs_Write\<close> (writing) and \<open>Fs_Path\<close> (path names). \<open>File\<close>, \<open>Exec\<close>, \<open>Sysfile\<close> are \<^verbatim>\<open>kernel/file.c\<close>, \<^verbatim>\<open>exec.c\<close>, \<^verbatim>\<open>sysfile.c\<close>. \<open>Virtio\<close> is the driver \<^verbatim>\<open>kernel/virtio_disk.c\<close>
  beside a device that completes requests in any order and with any status; the block cache itself sees the disk as one synchronous step.

  \<^bold>\<open>Character devices.\<close> \<open>Ring\<close> has ring buffers with wrapping counters and the locale \<open>bounded_queue\<close>, interpreted by \<open>Pipe\<close> (\<^verbatim>\<open>kernel/pipe.c\<close>) and \<open>Uart\<close>
  (\<^verbatim>\<open>kernel/uart.c\<close>). \<open>Console\<close> is \<^verbatim>\<open>kernel/console.c\<close>: its interrupt handler implements an abstract line editor.

  \<^bold>\<open>Entry.\<close> \<open>Riscv\<close> has the control registers, \<^verbatim>\<open>kernel/start.c\<close> and \<^verbatim>\<open>kernel/plic.c\<close>; \<open>Syscall\<close> is \<^verbatim>\<open>kernel/sysproc.c\<close> and the dispatcher of \<^verbatim>\<open>kernel/syscall.c\<close>; \<open>Trap\<close> is
  \<^verbatim>\<open>kernel/trap.c\<close>. Device registers, stack junk, linker addresses and the device table are the record \<open>kenv\<close>.

  \<^bold>\<open>User programs.\<close> \<open>Ulib\<close> is \<^verbatim>\<open>user/ulib.c\<close>, \<open>Grep\<close> is \<^verbatim>\<open>user/grep.c\<close> against a denotational meaning of patterns, \<open>Printf\<close> has both versions of \<^verbatim>\<open>printf.c\<close>.

  \<^bold>\<open>Bounds.\<close> No fuel is used: recursion is structural or has a termination measure, and waiting loops are partial functions for which
  the conditions of returning are proved. Counters keep their width where wrap-around can matter, and it is part of the statements.
  The exceptions: the references of inodes and open files and the indices of the command history are unbounded integers, as their tables bound
  them; the page counts are a total function, and \<open>refindex_bound\<close> shows that managed pages index within the array; a pid counter that
  leaves the range of \<^verbatim>\<open>int\<close> is excluded in \<open>proc_step\<close>.

  \<^bold>\<open>Not modelled.\<close> Assembly (\<^verbatim>\<open>entry.S\<close>, \<^verbatim>\<open>kernelvec.S\<close>, \<^verbatim>\<open>swtch.S\<close>, \<^verbatim>\<open>trampoline.S\<close>), \<^verbatim>\<open>main.c\<close>, the unused \<^verbatim>\<open>ramdisk.c\<close>, \<^verbatim>\<open>mkfs\<close>, and the user programs other than the ones
  above. Outside \<open>Spinlock\<close> and \<open>Virtio\<close>, kernel functions run without interleaving: a function's locks are taken to protect what it touches, and
  \<^verbatim>\<open>acquire\<close> and \<^verbatim>\<open>release\<close> are left out. \<^verbatim>\<open>uartputc_sync\<close>, which takes no lock, and interrupts between two steps of a function are thus outside the model.
  Messages printed before a panic are left out.
\<close>

end
